(* ===== verification/Prelude.thy ===== *)
theory Prelude
  imports Main "HOL-Library.Word"
begin

text \<open>
  Shared vocabulary of the development: the machine integer types of the i386 target
  (gcc -m32: 8-bit signed char, 32-bit int, long, size_t and pointers, 64-bit long long),
  the byte-addressed memory on which the C library works, address regions, and the lemmas on
  words, lists and regions that the component theories share.
\<close>

unbundle bit_operations_syntax

section \<open>Machine types\<close>

type_synonym u8 = "8 word"
type_synonym u16 = "16 word"
type_synonym u32 = "32 word"
type_synonym u64 = "64 word"

text \<open>Flat memory: a 32-bit address space of bytes.\<close>

type_synonym mem = "u32 \<Rightarrow> u8"

named_theorems cdefs "definitions of the C operations, for unfolding in functional lemmas"
named_theorems region_simps "membership in address regions"

text \<open>A plain \<^verbatim>\<open>char\<close> is signed on i386: promotion to int sign-extends the byte.\<close>

abbreviation schar :: "u8 \<Rightarrow> int" where
  "schar b \<equiv> sint b"

text \<open>A conversion to another width keeps a value that fits, and a counter that stays below a bound does not wrap.\<close>

lemma unat_ucast_small: "unat x < 2 ^ LENGTH('b) \<Longrightarrow> unat (ucast (x :: 'a::len word) :: 'b::len word) = unat x"
  by (simp add: unsigned_ucast_eq take_bit_nat_eq_self)

lemma unat_less_Suc: "i < (n :: u32) \<Longrightarrow> unat (i + 1) = Suc (unat i)"
  using unsigned_less [of n, where 'a = nat] by (simp add: word_less_nat_alt unat_word_ariths)

lemma option_eqI: "(\<And>y. a = Some y \<longleftrightarrow> b = Some y) \<Longrightarrow> a = b"
  by (metis not_None_eq)

text \<open>Fold an update that a proof has expanded pointwise back into \<open>m(a := v)\<close>.\<close>

lemma fold_fun_upd [simp]: "(\<lambda>a. if a = s then x else m a) = m(s := x)"
  by (simp add: fun_upd_def)

section \<open>Address regions\<close>

definition region :: "u32 \<Rightarrow> nat \<Rightarrow> u32 set" where
  "region p n = (\<lambda>i. p + of_nat i) ` {..<n}"

lemma region_0 [simp]: "region p 0 = {}"
  by (simp add: region_def)

lemma region_iff [region_simps]: "a \<in> region p n \<longleftrightarrow> (\<exists>i<n. a = p + of_nat i)"
  by (auto simp: region_def)

lemma region_offset [simp, intro]: "i < n \<Longrightarrow> p + of_nat i \<in> region p n"
  by (auto simp: region_def)

lemma of_nat_mod_u32: "(of_nat (n mod 2 ^ 32) :: u32) = of_nat n"
proof -
  have "unat (of_nat (n mod 2 ^ 32) :: u32) = unat (of_nat n :: u32)"
    by (simp add: unat_of_nat take_bit_eq_mod)
  then show ?thesis by (simp only: word_unat_eq_iff)
qed

lemma region_Suc: "region p (Suc n) = insert p (region (p + 1) n)"
proof -
  have "region p (Suc n) = (\<lambda>i. p + of_nat i) ` insert 0 (Suc ` {..<n})"
    by (simp add: region_def lessThan_Suc_eq_insert_0)
  also have "\<dots> = insert p ((\<lambda>i. p + of_nat (Suc i)) ` {..<n})"
    by (simp add: image_image)
  also have "(\<lambda>i. p + of_nat (Suc i)) ` {..<n} = region (p + 1) n"
    by (simp add: region_def add.assoc add.commute add.left_commute)
  finally show ?thesis .
qed

lemma region_numeral: "region p (numeral k) = insert p (region (p + 1) (pred_numeral k))"
  by (simp add: numeral_eq_Suc region_Suc)

lemma region_Suc_end: "region p (Suc n) = insert (p + of_nat n) (region p n)"
  by (auto simp: region_def lessThan_Suc)

lemma region_mono: "n \<le> k \<Longrightarrow> region p n \<subseteq> region p k"
  by (auto simp: region_def)

lemma of_nat_word_inj:
  assumes "i < 2 ^ 32" "j < 2 ^ 32" "(of_nat i :: u32) = of_nat j"
  shows "i = j"
proof -
  have "unat (of_nat i :: u32) = unat (of_nat j :: u32)" using assms(3) by simp
  then show ?thesis using assms(1,2) by (simp add: unat_of_nat take_bit_eq_mod)
qed

lemma offset_inj:
  assumes "i < 2 ^ 32" "j < 2 ^ 32" "(p :: u32) + of_nat i = p + of_nat j"
  shows "i = j"
  using assms of_nat_word_inj by simp

lemma unat_add_of_nat:
  assumes "unat (p :: u32) + i < 2 ^ 32"
  shows "unat (p + of_nat i) = unat p + i"
proof -
  have "i < 2 ^ 32" using assms by simp
  then have "unat (of_nat i :: u32) = i" by (simp add: unat_of_nat take_bit_eq_mod)
  then show ?thesis using assms by (simp add: unat_word_ariths)
qed

lemma end_notin_region: "n < 2 ^ 32 \<Longrightarrow> p + of_nat n \<notin> region p n"
proof
  assume n: "n < 2 ^ 32" and "p + of_nat n \<in> region p n"
  then obtain i where i: "i < n" "p + of_nat n = p + of_nat i" by (auto simp: region_iff)
  then have "n = i" using n by (intro offset_inj [of n i p]) auto
  then show False using i(1) by simp
qed

lemma region_nowrap:
  assumes "unat p + n \<le> 2 ^ 32"
  shows "a \<in> region p n \<longleftrightarrow> unat p \<le> unat a \<and> unat a < unat p + n"
proof
  assume "a \<in> region p n"
  then obtain i where i: "i < n" "a = p + of_nat i" by (auto simp: region_iff)
  then have "unat a = unat p + i" using assms by (simp add: unat_add_of_nat)
  then show "unat p \<le> unat a \<and> unat a < unat p + n" using i by simp
next
  assume a: "unat p \<le> unat a \<and> unat a < unat p + n"
  let ?i = "unat a - unat p"
  have "unat (p + of_nat ?i) = unat p + ?i"
    using a assms by (intro unat_add_of_nat) linarith
  then have "a = p + of_nat ?i" using a by (metis le_add_diff_inverse word_unat_eq_iff)
  moreover have "?i < n" using a by linarith
  ultimately show "a \<in> region p n" by (auto simp: region_iff)
qed

section \<open>Writing a run of bytes\<close>

text \<open>\<open>write_bytes m p bs\<close> is the memory after storing \<open>bs\<close> at \<open>p\<close>: the reference against which
  the copying loops of the C library are proved.\<close>

primrec write_bytes :: "mem \<Rightarrow> u32 \<Rightarrow> u8 list \<Rightarrow> mem" where
  "write_bytes m p [] = m"
| "write_bytes m p (b # bs) = write_bytes (m(p := b)) (p + 1) bs"

definition read_bytes :: "mem \<Rightarrow> u32 \<Rightarrow> nat \<Rightarrow> u8 list" where
  "read_bytes m p n = map (\<lambda>i. m (p + of_nat i)) [0..<n]"

lemma length_read_bytes [simp]: "length (read_bytes m p n) = n"
  by (simp add: read_bytes_def)

lemma nth_read_bytes [simp]: "i < n \<Longrightarrow> read_bytes m p n ! i = m (p + of_nat i)"
  by (simp add: read_bytes_def)

lemma write_bytes_outside:
  "a \<notin> region p (length bs) \<Longrightarrow> write_bytes m p bs a = m a"
proof (induction bs arbitrary: m p)
  case Nil
  then show ?case by simp
next
  case (Cons b bs)
  then have "a \<noteq> p" "a \<notin> region (p + 1) (length bs)" by (auto simp: region_Suc)
  then show ?case using Cons.IH by simp
qed

lemma write_bytes_inside:
  "i < length bs \<Longrightarrow> length bs \<le> 2 ^ 32 \<Longrightarrow> write_bytes m p bs (p + of_nat i) = bs ! i"
proof (induction bs arbitrary: m p i)
  case Nil
  then show ?case by simp
next
  case (Cons b bs)
  show ?case
  proof (cases i)
    case 0
    have "p \<notin> region (p + 1) (length bs)"
    proof
      assume "p \<in> region (p + 1) (length bs)"
      then obtain j where j: "j < length bs" "p = p + 1 + of_nat j" by (auto simp: region_iff)
      then have "p + of_nat 0 = p + of_nat (Suc j)" by (simp add: ac_simps)
      then have "0 = Suc j" using Cons.prems j by (intro offset_inj) auto
      then show False by simp
    qed
    then show ?thesis using 0 by (simp add: write_bytes_outside)
  next
    case (Suc j)
    then have "write_bytes (m(p := b)) (p + 1) bs (p + 1 + of_nat j) = bs ! j"
      using Cons.prems by (intro Cons.IH) auto
    then show ?thesis using Suc by (simp add: ac_simps)
  qed
qed

lemma write_bytes_eqI:
  assumes "length bs \<le> 2 ^ 32"
    and "\<And>i. i < length bs \<Longrightarrow> m' (p + of_nat i) = bs ! i"
    and "\<And>a. a \<notin> region p (length bs) \<Longrightarrow> m' a = m a"
  shows "m' = write_bytes m p bs"
proof
  fix a
  show "m' a = write_bytes m p bs a"
  proof (cases "a \<in> region p (length bs)")
    case True
    then show ?thesis using assms(1,2) by (auto simp: region_iff write_bytes_inside)
  next
    case False
    then show ?thesis using assms(3) by (simp add: write_bytes_outside)
  qed
qed


section \<open>Splitting one part of a disjoint family\<close>

lemma disjoint_split:
  assumes dis: "\<forall>x\<in>B. \<forall>y\<in>B. x \<noteq> y \<longrightarrow> F x \<inter> F y = {}" and b: "b \<in> B"
    and keep: "\<And>x. x \<in> B \<Longrightarrow> x \<noteq> b \<Longrightarrow> G x = F x"
    and parts: "G b \<subseteq> F b" "G n \<subseteq> F b" "G b \<inter> G n = {}"
  shows "\<forall>x\<in>insert n B. \<forall>y\<in>insert n B. x \<noteq> y \<longrightarrow> G x \<inter> G y = {}"
proof (intro ballI impI)
  fix x y assume xy: "x \<in> insert n B" "y \<in> insert n B" "x \<noteq> y"
  define f where "f z = (if z = n then b else z)" for z
  have sub: "G z \<subseteq> F (f z)" "f z \<in> B" if "z \<in> insert n B" for z
    using that keep [of z] parts b by (auto simp: f_def)
  show "G x \<inter> G y = {}"
  proof (cases "f x = f y")
    case True
    then have "x = b \<and> y = n \<or> x = n \<and> y = b" using xy by (auto simp: f_def split: if_splits)
    then show ?thesis using parts(3) by auto
  next
    case False
    then have "F (f x) \<inter> F (f y) = {}" using dis sub(2) xy by blast
    then show ?thesis using sub(1) xy by blast
  qed
qed

lemma disjoint_insert_family:
  assumes "\<forall>x\<in>B. \<forall>y\<in>B. x \<noteq> y \<longrightarrow> G x \<inter> G y = {}" "\<forall>x\<in>B. G x \<inter> G n = {}"
  shows "\<forall>x\<in>insert n B. \<forall>y\<in>insert n B. x \<noteq> y \<longrightarrow> G x \<inter> G y = {}"
  using assms by blast

lemma sum_split:
  fixes f g :: "'a \<Rightarrow> nat"
  assumes "finite B" "b \<in> B" "n \<notin> B" "\<And>x. x \<in> B \<Longrightarrow> x \<noteq> b \<Longrightarrow> g x = f x" "g b + g n = f b"
  shows "sum g (insert n B) = sum f B"
proof -
  have "sum g (B - {b}) = sum f (B - {b})" using assms(4) by (intro sum.cong) auto
  moreover have "sum g (insert n B) = g n + (g b + sum g (B - {b}))"
    using assms(1-3) by (simp add: sum.remove)
  moreover have "sum f B = f b + sum f (B - {b})" using assms(1,2) by (simp add: sum.remove)
  ultimately show ?thesis using assms(5) by simp
qed

end
