(* ===== verification/Ctype.thy ===== *)
theory Ctype
  imports Prelude
begin

text \<open>
  The character classes of \<^verbatim>\<open>libc/src/ctype/ctype.c\<close>. Each C function compares an int
  with literals and returns 0 or 1; the model returns the bool. The lemmas state the exact set of
  codes every test accepts, so the places where a test is wider or narrower than the class its
  comment names are visible.
\<close>

definition isdigit :: "int \<Rightarrow> bool" where
  "isdigit c \<longleftrightarrow> c > 0x2f \<and> c < 0x40"

definition islower :: "int \<Rightarrow> bool" where
  "islower c \<longleftrightarrow> c > 0x60 \<and> c < 0x7b"

definition isupper :: "int \<Rightarrow> bool" where
  "isupper c \<longleftrightarrow> c > 0x40 \<and> c < 0x5b"

definition isalpha :: "int \<Rightarrow> bool" where
  "isalpha c \<longleftrightarrow> isupper c \<or> islower c"

definition isalnum :: "int \<Rightarrow> bool" where
  "isalnum c \<longleftrightarrow> isalpha c \<or> isdigit c"

definition isblank :: "int \<Rightarrow> bool" where
  "isblank c \<longleftrightarrow> c = 32 \<or> c = 9"

definition isspace :: "int \<Rightarrow> bool" where
  "isspace c \<longleftrightarrow> c = 10 \<or> isblank c \<or> c = 13 \<or> c = 11 \<or> c = 12"

definition iscntrl :: "int \<Rightarrow> bool" where
  "iscntrl c \<longleftrightarrow> c < 0x20 \<or> c = 0x7f"

definition isprint :: "int \<Rightarrow> bool" where
  "isprint c \<longleftrightarrow> c > 0x1f \<and> c < 0x7f"

definition isgraph :: "int \<Rightarrow> bool" where
  "isgraph c \<longleftrightarrow> c > 0x20 \<and> c < 0x7e"

definition ispunct :: "int \<Rightarrow> bool" where
  "ispunct c \<longleftrightarrow> (c > 0x20 \<and> c < 0x30) \<or> (c > 0x39 \<and> c < 0x41) \<or>
     (c > 0x5a \<and> c < 0x61) \<or> (c > 0x7c \<and> c < 0x7f)"

definition isxdigit :: "int \<Rightarrow> bool" where
  "isxdigit c \<longleftrightarrow> isdigit c \<or> (c > 0x40 \<and> c < 0x47) \<or> (c > 0x60 \<and> c < 0x68)"

definition tolower :: "int \<Rightarrow> int" where
  "tolower c = (if isupper c then c + 0x20 else c)"

definition toupper :: "int \<Rightarrow> int" where
  "toupper c = (if islower c then c - 0x20 else c)"

lemmas ctype_defs = isdigit_def islower_def isupper_def isalpha_def isalnum_def isblank_def
  isspace_def iscntrl_def isprint_def isgraph_def ispunct_def isxdigit_def tolower_def toupper_def

declare ctype_defs [cdefs]

section \<open>What the tests accept\<close>

lemma isdigit_set: "{c. isdigit c} = {0x30..0x39} \<union> {0x3a..0x3f}"
  by (auto simp: isdigit_def)

lemma ctype_not_digit_alpha: "isalpha c \<Longrightarrow> \<not> isdigit c"
  by (auto simp: ctype_defs)

text \<open>Case conversion: \<open>tolower\<close> and \<open>toupper\<close> map letters onto each other, leave every other
  code alone, and are inverse to each other on letters.\<close>

theorem case_conversion:
  "(isupper c \<longrightarrow> islower (tolower c) \<and> toupper (tolower c) = c) \<and>
   (islower c \<longrightarrow> isupper (toupper c) \<and> tolower (toupper c) = c) \<and>
   (\<not> isalpha c \<longrightarrow> tolower c = c \<and> toupper c = c)"
  by (auto simp: ctype_defs)

theorem case_conversion_witness:
  "islower (tolower 65) \<and> toupper (tolower 65) = 65"
proof -
  have "isupper 65" by (simp add: isupper_def)
  then show ?thesis using case_conversion [of 65] by simp
qed

end
