(* ===== verification/Alloc_Interface.thy ===== *)
theory Alloc_Interface
  imports Prelude
begin

text \<open>
  The contract the rest of the kernel relies on when it calls \<^verbatim>\<open>malloc\<close> and \<^verbatim>\<open>free\<close>: \<open>ok h P\<close> says
  that \<open>h\<close> is a well-formed allocator state whose live user pointers are \<open>P\<close>, and \<open>usable h p\<close> is
  the size of the block at \<open>p\<close>. The lemmas are the consequences the clients use, in particular for
  loops that release a whole list of nodes.
\<close>

locale allocator =
  fixes alloc :: "u32 \<Rightarrow> 'h \<Rightarrow> (u32 \<times> 'h) option"
    and dealloc :: "u32 \<Rightarrow> 'h \<Rightarrow> 'h"
    and ok :: "'h \<Rightarrow> u32 set \<Rightarrow> bool"
    and usable :: "'h \<Rightarrow> u32 \<Rightarrow> nat"
  assumes alloc_total: "ok h P \<Longrightarrow> \<exists>p h'. alloc n h = Some (p, h')"
    and alloc_null: "ok h P \<Longrightarrow> alloc n h = Some (0, h') \<Longrightarrow> ok h' P"
    and alloc_fresh: "ok h P \<Longrightarrow> alloc n h = Some (p, h') \<Longrightarrow> p \<noteq> 0 \<Longrightarrow> p \<notin> P \<and> ok h' (insert p P)"
    and alloc_keeps: "ok h P \<Longrightarrow> alloc n h = Some (p, h') \<Longrightarrow> q \<in> P \<Longrightarrow> usable h' q = usable h q"
    and alloc_size: "ok h P \<Longrightarrow> alloc n h = Some (p, h') \<Longrightarrow> p \<noteq> 0 \<Longrightarrow> unat n \<le> 2 ^ 32 - 8 \<Longrightarrow>
      unat n \<le> usable h' p"
    and dealloc_ok: "ok h P \<Longrightarrow> p \<in> P \<Longrightarrow> ok (dealloc p h) (P - {p})"
    and dealloc_keeps: "usable (dealloc p h) q = usable h q"
    and dealloc_null: "dealloc 0 h = h"
    and live_nonnull: "ok h P \<Longrightarrow> 0 \<notin> P"
    and live_disjoint: "ok h P \<Longrightarrow> p \<in> P \<Longrightarrow> q \<in> P \<Longrightarrow> p \<noteq> q \<Longrightarrow>
      region p (usable h p) \<inter> region q (usable h q) = {}"
begin

lemma dealloc_all:
  assumes "ok h P" "set ps \<subseteq> P" "distinct ps"
  shows "ok (fold dealloc ps h) (P - set ps)"
  using assms
proof (induction ps arbitrary: h P)
  case Nil
  then show ?case by simp
next
  case (Cons p ps)
  have "ok (dealloc p h) (P - {p})" using Cons.prems by (intro dealloc_ok) auto
  then have "ok (fold dealloc ps (dealloc p h)) (P - {p} - set ps)"
    using Cons.prems by (intro Cons.IH) auto
  moreover have "P - {p} - set ps = P - set (p # ps)" by auto
  ultimately show ?case by simp
qed

lemma alloc_cases:
  assumes "ok h P"
  obtains (null) h' where "alloc n h = Some (0, h')" "ok h' P"
  | (fresh) p h' where "alloc n h = Some (p, h')" "p \<noteq> 0" "p \<notin> P" "ok h' (insert p P)"
proof -
  obtain p h' where a: "alloc n h = Some (p, h')" using alloc_total [OF assms] by blast
  show thesis
  proof (cases "p = 0")
    case True
    then show thesis using a alloc_null [OF assms] null by auto
  next
    case False
    then show thesis using a alloc_fresh [OF assms a] fresh by auto
  qed
qed

lemma alloc_then_dealloc:
  assumes "ok h P" "alloc n h = Some (p, h')"
  shows "ok (dealloc p h') P"
proof (cases "p = 0")
  case True
  then show ?thesis using assms alloc_null by (simp add: dealloc_null)
next
  case False
  then have "p \<notin> P" "ok h' (insert p P)" using alloc_fresh [OF assms] by auto
  then show ?thesis using dealloc_ok [of h' "insert p P" p] by simp
qed

end

end
