(* ===== verification/Malloc.thy ===== *)
theory Malloc
  imports Alloc_Interface
begin

text \<open>
  The kernel allocator, \<^verbatim>\<open>kernel/src/malloc.c\<close>. The state holds the two break pointers, the head
  of the free list and the two fields of the block headers (\<^verbatim>\<open>struct free_block\<close>: the usable size
  and the next free block), each as a map from header addresses. \<^verbatim>\<open>&_end\<close>, which the linker
  provides, is the argument \<open>e\<close>. The diagnostic \<^verbatim>\<open>printf\<close> calls are not modelled.

  The invariant \<open>heap_inv\<close> says that the free list is a NULL-terminated chain and that free and
  allocated blocks tile the heap without overlap; the lemmas show that every operation keeps it,
  that the search loop ends, and that a returned block is fresh, big enough and disjoint from every
  other live block. The interpretation at the end gives the clients' interface.
\<close>

section \<open>State and operations\<close>

record heap =
  heap_brk :: u32
  heap_max :: u32
  free_list :: u32
  blk_size :: "u32 \<Rightarrow> u32"
  blk_next :: "u32 \<Rightarrow> u32"

abbreviation (input) hdr :: u32 where "hdr \<equiv> 8"  \<comment> \<open>\<^verbatim>\<open>sizeof(free_block_t)\<close>\<close>

definition POOL_SIZE :: u32 where "POOL_SIZE = 16 * 1024 * 1024"

definition ALIGN_UP :: "u32 \<Rightarrow> u32" where
  "ALIGN_UP s = (s + 7) AND NOT 7"

text \<open>Before \<^verbatim>\<open>malloc_init\<close>: the initialised statics.\<close>

definition heap0 :: "u32 \<Rightarrow> heap" where
  "heap0 e = \<lparr>heap_brk = e, heap_max = 0, free_list = 0, blk_size = (\<lambda>_. 0), blk_next = (\<lambda>_. 0)\<rparr>"

definition request_memory :: "u32 \<Rightarrow> heap \<Rightarrow> u32 \<times> heap" where
  "request_memory sz h =
     (let sz' = ALIGN_UP sz in
      if heap_brk h + sz' > heap_max h then (0, h)
      else (heap_brk h, h\<lparr>heap_brk := heap_brk h + sz'\<rparr>))"

text \<open>Make a fresh pool the head of the free list, as \<^verbatim>\<open>malloc_init\<close> and \<^verbatim>\<open>expand_heap\<close> both do.\<close>

definition add_pool :: "u32 \<Rightarrow> heap \<Rightarrow> heap" where
  "add_pool b h = h\<lparr>blk_size := (blk_size h)(b := POOL_SIZE - hdr),
     blk_next := (blk_next h)(b := free_list h), free_list := b\<rparr>"

definition malloc_init :: "u32 \<Rightarrow> u32 \<Rightarrow> heap \<Rightarrow> heap" where
  "malloc_init e total_mb h =
     (let total_bytes = total_mb * 1024 * 1024;
          h1 = h\<lparr>heap_max := e + total_bytes\<rparr>;
          (mb, h2) = request_memory POOL_SIZE h1
      in if mb = 0 then h2 else add_pool mb h2)"

definition expand_heap :: "heap \<Rightarrow> int \<times> heap" where
  "expand_heap h =
     (let (mb, h') = request_memory POOL_SIZE h
      in if mb = 0 then (-1, h') else (0, add_pool mb h'))"

text \<open>Unlink \<open>prev\<close>'s successor in favour of \<open>q\<close>; a null \<open>prev\<close> stands for the list head.\<close>

definition relink :: "u32 \<Rightarrow> u32 \<Rightarrow> heap \<Rightarrow> heap" where
  "relink prev q h =
     (if prev = 0 then h\<lparr>free_list := q\<rparr> else h\<lparr>blk_next := (blk_next h)(prev := q)\<rparr>)"

text \<open>The body of the first-fit loop when the current block \<open>cur\<close> is large enough: split it if the rest can hold a
  header and 8 bytes, else take it whole.\<close>

definition take_block :: "u32 \<Rightarrow> u32 \<Rightarrow> u32 \<Rightarrow> heap \<Rightarrow> heap" where
  "take_block req prev cur h =
     (let remain = blk_size h cur - req in
      if remain \<ge> hdr + 8 then
        (let new_free = cur + hdr + req;
             h1 = h\<lparr>blk_size := (blk_size h)(new_free := remain - hdr, cur := req),
                    blk_next := (blk_next h)(new_free := blk_next h cur)\<rparr>
         in relink prev new_free h1)
      else relink prev (blk_next h cur) h)"

partial_function (option) malloc_loop :: "u32 \<Rightarrow> u32 \<Rightarrow> u32 \<Rightarrow> heap \<Rightarrow> (u32 option \<times> heap) option" where
  "malloc_loop req prev cur h =
     (if cur = 0 then Some (None, h)
      else if blk_size h cur \<ge> req then Some (Some (cur + hdr), take_block req prev cur h)
      else malloc_loop req cur (blk_next h cur) h)"

definition req_size :: "u32 \<Rightarrow> u32" where
  "req_size sz = (if ALIGN_UP sz < 8 then 8 else ALIGN_UP sz)"

partial_function (option) malloc :: "u32 \<Rightarrow> heap \<Rightarrow> (u32 \<times> heap) option" where
  "malloc sz h =
     (if sz = 0 then Some (0, h)
      else case malloc_loop (req_size sz) 0 (free_list h) h of
             None \<Rightarrow> None
           | Some (Some p, h') \<Rightarrow> Some (p, h')
           | Some (None, h') \<Rightarrow>
               (if fst (expand_heap h') = 0 then malloc sz (snd (expand_heap h'))
                else Some (0, snd (expand_heap h'))))"

definition free :: "u32 \<Rightarrow> heap \<Rightarrow> heap" where
  "free p h =
     (if p = 0 then h
      else let block = p - hdr
           in h\<lparr>blk_next := (blk_next h)(block := free_list h), free_list := block\<rparr>)"


section \<open>Arithmetic of sizes\<close>

lemma unat_ALIGN_UP: "unat (ALIGN_UP s) = 8 * (unat (s + 7) div 8)"
proof -
  have "ALIGN_UP s = push_bit 3 (drop_bit 3 (s + 7))"
  proof -
    have "(7 :: u32) = mask 3" by (simp add: mask_eq_exp_minus_1)
    then have "ALIGN_UP s = (s + 7) AND NOT (mask 3)" by (simp add: ALIGN_UP_def)
    also have "\<dots> = push_bit 3 (drop_bit 3 (s + 7))"
      by (rule bit_eqI) (auto simp: bit_simps)
    finally show ?thesis .
  qed
  then have "ALIGN_UP s = 8 * ((s + 7) div 8)"
    by (simp add: push_bit_eq_mult drop_bit_eq_div)
  then have "unat (ALIGN_UP s) = (8 * (unat (s + 7) div 8)) mod 2 ^ 32"
    by (simp add: unat_word_ariths(2) unat_div)
  also have "\<dots> = 8 * (unat (s + 7) div 8)"
    using unsigned_less [of "s + 7", where 'a = nat] by (intro mod_less) simp
  finally show ?thesis .
qed

lemma ALIGN_UP_ge: "unat s \<le> 2 ^ 32 - 8 \<Longrightarrow> unat s \<le> unat (ALIGN_UP s)"
proof -
  assume "unat s \<le> 2 ^ 32 - 8"
  then have "unat (s + 7) = unat s + 7" by (simp add: unat_word_ariths)
  then show ?thesis by (simp add: unat_ALIGN_UP)
qed

lemma ALIGN_UP_POOL: "ALIGN_UP POOL_SIZE = POOL_SIZE"
  by (simp add: ALIGN_UP_def POOL_SIZE_def)

lemma req_size_bounds:
  "8 \<le> unat (req_size sz)" "8 dvd unat (req_size sz)"
  "unat sz \<le> 2 ^ 32 - 8 \<Longrightarrow> unat sz \<le> unat (req_size sz)"
proof -
  show "8 \<le> unat (req_size sz)" by (auto simp: req_size_def word_less_nat_alt)
  show "8 dvd unat (req_size sz)" by (auto simp: req_size_def unat_ALIGN_UP)
  show "unat sz \<le> 2 ^ 32 - 8 \<Longrightarrow> unat sz \<le> unat (req_size sz)"
    using ALIGN_UP_ge [of sz] by (auto simp: req_size_def word_less_nat_alt)
qed

section \<open>Chains of headers\<close>

primrec chain :: "(u32 \<Rightarrow> u32) \<Rightarrow> u32 \<Rightarrow> u32 list \<Rightarrow> u32 \<Rightarrow> bool" where
  "chain nx p [] q \<longleftrightarrow> p = q"
| "chain nx p (b # bs) q \<longleftrightarrow> p = b \<and> b \<noteq> 0 \<and> chain nx (nx b) bs q"

lemma chain_append: "chain nx p (xs @ ys) q \<longleftrightarrow> (\<exists>r. chain nx p xs r \<and> chain nx r ys q)"
  by (induction xs arbitrary: p) auto

lemma chain_upd [simp]: "u \<notin> set xs \<Longrightarrow> chain (nx(u := v)) p xs q = chain nx p xs q"
  by (induction xs arbitrary: p) auto

lemma chain_null: "chain nx 0 xs q \<Longrightarrow> xs = [] \<and> q = 0"
  by (cases xs) auto

lemma chain_redirect:
  assumes "chain nx p (xs @ [b]) r" "b \<notin> set xs"
  shows "chain (nx(b := q)) p (xs @ [b]) q"
  using assms by (auto simp: chain_append)

section \<open>The invariant\<close>

definition foot :: "(u32 \<Rightarrow> u32) \<Rightarrow> u32 \<Rightarrow> nat set" where
  "foot sz b = {unat b ..< unat b + 8 + unat (sz b)}"

definition block_fits :: "u32 \<Rightarrow> u32 \<Rightarrow> (u32 \<Rightarrow> u32) \<Rightarrow> u32 \<Rightarrow> bool" where
  "block_fits e brk sz b \<longleftrightarrow> unat e \<le> unat b \<and> unat b + 8 + unat (sz b) \<le> unat brk \<and>
     8 \<le> unat (sz b) \<and> 8 dvd unat (sz b) \<and> unat b mod 8 = unat e mod 8"

definition blocks_ok :: "u32 \<Rightarrow> u32 \<Rightarrow> (u32 \<Rightarrow> u32) \<Rightarrow> u32 set \<Rightarrow> bool" where
  "blocks_ok e brk sz B \<longleftrightarrow>
     finite B \<and> e \<noteq> 0 \<and> unat e \<le> unat brk \<and> (\<forall>b\<in>B. block_fits e brk sz b) \<and>
     (\<forall>a\<in>B. \<forall>b\<in>B. a \<noteq> b \<longrightarrow> foot sz a \<inter> foot sz b = {}) \<and>
     (\<Sum>b\<in>B. 8 + unat (sz b)) = unat brk - unat e"

definition heap_inv :: "u32 \<Rightarrow> heap \<Rightarrow> u32 list \<Rightarrow> u32 set \<Rightarrow> bool" where
  "heap_inv e h fs A \<longleftrightarrow>
     chain (blk_next h) (free_list h) fs 0 \<and> distinct fs \<and> set fs \<inter> A = {} \<and>
     blocks_ok e (heap_brk h) (blk_size h) (set fs \<union> A)"

lemma blocks_okD:
  assumes "blocks_ok e brk sz B" "b \<in> B"
  shows "unat e \<le> unat b" "unat b + 8 + unat (sz b) \<le> unat brk" "8 \<le> unat (sz b)"
    "8 dvd unat (sz b)" "unat b mod 8 = unat e mod 8" "b \<noteq> 0"
proof -
  have e: "e \<noteq> 0" and bb: "unat e \<le> unat b \<and> unat b + 8 + unat (sz b) \<le> unat brk \<and>
      8 \<le> unat (sz b) \<and> 8 dvd unat (sz b) \<and> unat b mod 8 = unat e mod 8"
    using assms by (auto simp: blocks_ok_def block_fits_def)
  have "0 < unat e" using e by (simp add: unat_gt_0)
  then show "b \<noteq> 0" using bb by auto
  show "unat e \<le> unat b" "unat b + 8 + unat (sz b) \<le> unat brk" "8 \<le> unat (sz b)"
    "8 dvd unat (sz b)" "unat b mod 8 = unat e mod 8" using bb by blast+
qed

lemma blocks_ok_disjoint:
  assumes "blocks_ok e brk sz B" "a \<in> B" "b \<in> B" "a \<noteq> b"
  shows "foot sz a \<inter> foot sz b = {}"
  using assms unfolding blocks_ok_def by blast

lemma head_in_foot: "unat b \<in> foot sz b"
  by (simp add: foot_def)

lemma unat_le_max: "unat (x :: u32) < 4294967296"
  using unsigned_less [of x, where 'a = nat] by simp

text \<open>Splitting a block keeps the tiling.\<close>

lemma blocks_ok_split:
  assumes ok: "blocks_ok e brk sz B" and b: "b \<in> B"
    and r: "8 \<le> unat r" "8 dvd unat r" "unat r + 16 \<le> unat (sz b)"
  defines "nf \<equiv> b + 8 + r"
  defines "sz' \<equiv> sz(nf := sz b - r - 8, b := r)"
  shows "nf \<notin> B" "blocks_ok e brk sz' (insert nf B)"
proof -
  note bb = blocks_okD [OF ok b]
  have nf: "unat nf = unat b + 8 + unat r"
    using bb(2) r(3) unat_le_max [of brk] by (simp add: nf_def unat_word_ariths)
  have rem: "unat (sz b - r - 8) = unat (sz b) - unat r - 8"
    using r(3) by (simp add: unat_sub_if_size word_size)
  have ne: "nf \<noteq> b" using nf by auto
  have sz': "sz' b = r" "sz' nf = sz b - r - 8" using ne by (auto simp: sz'_def)
  have "unat nf \<in> foot sz b" using nf r bb by (auto simp: foot_def)
  then show notin: "nf \<notin> B"
    using blocks_ok_disjoint [OF ok _ b ne] head_in_foot [of nf sz] by blast
  then have szo: "sz' a = sz a" if "a \<in> B" "a \<noteq> b" for a using that by (auto simp: sz'_def)
  have dis: "\<forall>a\<in>insert nf B. \<forall>c\<in>insert nf B. a \<noteq> c \<longrightarrow> foot sz' a \<inter> foot sz' c = {}"
  proof (rule disjoint_split [where F = "foot sz" and b = b])
    show "\<forall>x\<in>B. \<forall>y\<in>B. x \<noteq> y \<longrightarrow> foot sz x \<inter> foot sz y = {}"
      using ok by (simp add: blocks_ok_def)
    show "foot sz' x = foot sz x" if "x \<in> B" "x \<noteq> b" for x
      using szo that by (simp add: foot_def)
  qed (use b nf r(3) bb rem in \<open>auto simp: foot_def sz'\<close>)
  have tile: "(\<Sum>a\<in>insert nf B. 8 + unat (sz' a)) = (\<Sum>a\<in>B. 8 + unat (sz a))"
    using ok b notin szo sz' rem r(3) by (intro sum_split [where b = b]) (auto simp: blocks_ok_def)
  have "8 dvd unat (sz b) - unat r - 8" using bb(4) r(2) by (simp add: dvd_diff_nat)
  moreover have "unat nf mod 8 = unat e mod 8"
    using nf r(2) bb(5) by (auto elim!: dvdE)
  ultimately have new: "block_fits e brk sz' nf"
    using nf bb r rem sz' by (simp add: block_fits_def)
  have old: "block_fits e brk sz' a" if "a \<in> B" for a
    using blocks_okD [OF ok that] szo that bb r sz' unfolding block_fits_def by (cases "a = b") simp_all
  show "blocks_ok e brk sz' (insert nf B)"
    using ok dis tile old new unfolding blocks_ok_def by simp
qed

text \<open>A fresh pool at the break keeps the tiling.\<close>

lemma blocks_ok_grow:
  assumes ok: "blocks_ok e brk sz B"
    and n: "16 \<le> unat n" "8 dvd unat n" "unat brk + unat n < 2 ^ 32" "unat brk mod 8 = unat e mod 8"
  shows "brk \<notin> B" "blocks_ok e (brk + n) (sz(brk := n - 8)) (insert brk B)"
proof -
  let ?sz = "sz(brk := n - 8)"
  have brk: "unat (brk + n) = unat brk + unat n" using n(3) by (simp add: unat_word_ariths)
  have n8: "unat (n - 8) = unat n - 8" using n(1) by (simp add: unat_sub_if_size word_size)
  show notin: "brk \<notin> B" using blocks_okD(2,3) [OF ok, of brk] by auto
  have fo: "foot ?sz a = foot sz a" if "a \<in> B" for a using that notin by (auto simp: foot_def)
  have below: "foot sz a \<subseteq> {..<unat brk}" if "a \<in> B" for a
    using blocks_okD(2) [OF ok that] by (auto simp: foot_def)
  have bf: "foot ?sz brk = {unat brk..<unat brk + 8 + (unat n - 8)}" by (simp add: foot_def n8)
  have dis: "\<forall>a\<in>insert brk B. \<forall>c\<in>insert brk B. a \<noteq> c \<longrightarrow> foot ?sz a \<inter> foot ?sz c = {}"
  proof (rule disjoint_insert_family)
    show "\<forall>x\<in>B. \<forall>y\<in>B. x \<noteq> y \<longrightarrow> foot ?sz x \<inter> foot ?sz y = {}"
      using ok fo by (simp add: blocks_ok_def)
    have "foot ?sz x \<inter> foot ?sz brk = {}" if "x \<in> B" for x
      using below [OF that] fo [OF that] unfolding bf by fastforce
    then show "\<forall>x\<in>B. foot ?sz x \<inter> foot ?sz brk = {}" by blast
  qed
  have "(\<Sum>a\<in>insert brk B. 8 + unat (?sz a)) = 8 + (unat n - 8) + (\<Sum>a\<in>B. 8 + unat (?sz a))"
    using ok notin n8 by (simp add: blocks_ok_def)
  also have "(\<Sum>a\<in>B. 8 + unat (?sz a)) = (\<Sum>a\<in>B. 8 + unat (sz a))"
    using notin by (intro sum.cong) auto
  finally have tile: "(\<Sum>a\<in>insert brk B. 8 + unat (?sz a)) = unat (brk + n) - unat e"
    using ok n(1) brk by (simp add: blocks_ok_def)
  have "8 dvd unat n - 8" using n(2) by (simp add: dvd_diff_nat)
  then have new: "block_fits e (brk + n) ?sz brk"
    using ok n brk n8 by (simp add: blocks_ok_def block_fits_def)
  have old: "block_fits e (brk + n) ?sz a" if "a \<in> B" for a
    using blocks_okD [OF ok that] notin that brk by (auto simp: block_fits_def)
  show "blocks_ok e (brk + n) ?sz (insert brk B)"
    using ok dis tile old new brk unfolding blocks_ok_def by simp
qed


section \<open>The operations keep the invariant\<close>

text \<open>The tiling fixes the alignment of the break.\<close>

lemma brk_aligned:
  assumes "blocks_ok e brk sz B"
  shows "unat brk mod 8 = unat e mod 8"
proof -
  have "8 dvd (\<Sum>b\<in>B. 8 + unat (sz b))"
    using blocks_okD(4) [OF assms] by (intro dvd_sum) auto
  then have "8 dvd unat brk - unat e" and "unat e \<le> unat brk"
    using assms by (auto simp: blocks_ok_def)
  then show ?thesis by (auto simp: mod_eq_dvd_iff_nat)
qed

lemma brk_nonzero: "blocks_ok e brk sz B \<Longrightarrow> brk \<noteq> 0"
proof -
  assume "blocks_ok e brk sz B"
  then have "0 < unat e" "unat e \<le> unat brk" by (auto simp: blocks_ok_def unat_gt_0)
  then show ?thesis by auto
qed

lemma request_pool:
  assumes "unat (heap_brk h) + 2 ^ 24 < 2 ^ 32"
  shows "request_memory POOL_SIZE h =
    (if unat (heap_brk h) + 2 ^ 24 > unat (heap_max h) then (0, h)
     else (heap_brk h, h\<lparr>heap_brk := heap_brk h + POOL_SIZE\<rparr>))"
proof -
  have "unat (heap_brk h + POOL_SIZE) = unat (heap_brk h) + 2 ^ 24"
    using assms by (simp add: POOL_SIZE_def unat_word_ariths)
  then show ?thesis by (simp add: request_memory_def ALIGN_UP_POOL word_less_nat_alt)
qed

lemma heap_inv_add_pool:
  assumes "heap_inv e h fs A" "unat (heap_brk h) + 2 ^ 24 < 2 ^ 32"
  shows "heap_inv e (add_pool (heap_brk h) (h\<lparr>heap_brk := heap_brk h + POOL_SIZE\<rparr>)) (heap_brk h # fs) A"
proof -
  have ok: "blocks_ok e (heap_brk h) (blk_size h) (set fs \<union> A)" using assms(1) by (simp add: heap_inv_def)
  have "unat POOL_SIZE = 2 ^ 24" by (simp add: POOL_SIZE_def)
  then have g: "heap_brk h \<notin> set fs \<union> A"
    "blocks_ok e (heap_brk h + POOL_SIZE) ((blk_size h)(heap_brk h := POOL_SIZE - 8))
       (insert (heap_brk h) (set fs \<union> A))"
    using blocks_ok_grow [OF ok, of POOL_SIZE] assms(2) brk_aligned [OF ok] by auto
  have "heap_brk h \<noteq> 0" by (rule brk_nonzero [OF ok])
  then show ?thesis using assms(1) g by (simp add: heap_inv_def add_pool_def)
qed

text \<open>The first-fit loop visits the chain in order and stops at the first block that fits.\<close>

lemma malloc_loop_none:
  assumes "chain (blk_next h) p bs 0" "\<forall>b\<in>set bs. blk_size h b < req"
  shows "malloc_loop req prev p h = Some (None, h)"
  using assms
  by (induction bs arbitrary: p prev) (auto simp: malloc_loop.simps not_le)

lemma malloc_loop_first:
  assumes "chain (blk_next h) p (xs @ b # ys) 0" "\<forall>x\<in>set xs. blk_size h x < req" "req \<le> blk_size h b"
  shows "malloc_loop req prev p h =
    Some (Some (b + 8), take_block req (if xs = [] then prev else last xs) b h)"
  using assms
proof (induction xs arbitrary: p prev)
  case Nil
  then show ?case by (subst malloc_loop.simps) simp
next
  case (Cons x xs)
  then have "malloc_loop req x (blk_next h x) h =
      Some (Some (b + 8), take_block req (if xs = [] then x else last xs) b h)"
    by (intro Cons.IH) auto
  then show ?case using Cons.prems by (auto simp: malloc_loop.simps [of req prev x] dest: leD)
qed

lemma first_fit_cases:
  obtains (none) "\<forall>b\<in>set bs. sz b < (r :: u32)"
  | (first) xs b ys where "bs = xs @ b # ys" "\<forall>x\<in>set xs. sz x < r" "r \<le> sz b"
proof (cases "\<exists>b\<in>set bs. r \<le> sz b")
  case True
  then obtain xs b ys where "bs = xs @ b # ys" "r \<le> sz b" "\<forall>x\<in>set xs. \<not> r \<le> sz x"
    using split_list_first_prop [of bs "\<lambda>b. r \<le> sz b"] by blast
  then show ?thesis using first by (simp add: not_le)
next
  case False
  then show ?thesis using none by (simp add: not_le)
qed

text \<open>Replacing the block \<open>b\<close> of the chain by the list \<open>ns\<close> (nothing, or the split-off rest).\<close>

lemma relink_chain:
  assumes "chain nx (free_list h) (xs @ b # ys) 0" "distinct (xs @ b # ys)"
    and "blk_next h = nx(nf := nx b)" "nf \<notin> set (xs @ b # ys)" "nf \<noteq> 0"
    and "prev = (if xs = [] then 0 else last xs)"
  shows "chain (blk_next (relink prev nf h)) (free_list (relink prev nf h)) (xs @ nf # ys) 0"
proof (cases xs rule: rev_cases)
  case Nil
  then show ?thesis using assms by (simp add: relink_def)
next
  case (snoc zs z)
  have z: "prev = z" "z \<noteq> 0" using assms snoc by (auto simp: chain_append)
  have "chain nx (free_list h) (zs @ [z]) b" "chain nx (nx b) ys 0"
    using assms(1) snoc by (auto simp: chain_append)
  then show ?thesis
    using assms snoc z by (auto simp: relink_def chain_append)
qed

lemma relink_chain_remove:
  assumes "chain (blk_next h) (free_list h) (xs @ b # ys) 0" "distinct (xs @ b # ys)"
    and "prev = (if xs = [] then 0 else last xs)"
  shows "chain (blk_next (relink prev (blk_next h b) h)) (free_list (relink prev (blk_next h b) h)) (xs @ ys) 0"
proof (cases xs rule: rev_cases)
  case Nil
  then show ?thesis using assms by (simp add: relink_def)
next
  case (snoc zs z)
  have "prev = z" "z \<noteq> 0" using assms snoc by (auto simp: chain_append)
  then show ?thesis using assms snoc by (auto simp: relink_def chain_append)
qed

lemma relink_simps [simp]:
  "heap_brk (relink p q h) = heap_brk h" "heap_max (relink p q h) = heap_max h"
  "blk_size (relink p q h) = blk_size h"
  by (auto simp: relink_def)

text \<open>What taking \<open>r\<close> bytes out of the free block \<open>b\<close> leaves on the free list: every other block, and the rest of
  \<open>b\<close> when that can hold a block.\<close>

definition keeps_free :: "u32 \<Rightarrow> u32 \<Rightarrow> u32 list \<Rightarrow> heap \<Rightarrow> u32 list \<Rightarrow> heap \<Rightarrow> bool" where
  "keeps_free r b fs h fs' h' \<longleftrightarrow> (\<forall>c\<in>set fs. c \<noteq> b \<longrightarrow> c \<in> set fs' \<and> blk_size h' c = blk_size h c) \<and>
     (unat r + 16 \<le> unat (blk_size h b) \<longrightarrow> (\<exists>c\<in>set fs'. unat (blk_size h' c) = unat (blk_size h b) - unat r - 8))"

lemma take_block_inv:
  assumes inv: "heap_inv e h (xs @ b # ys) A" and r: "8 \<le> unat r" "8 dvd unat r" "r \<le> blk_size h b"
    and prev: "prev = (if xs = [] then 0 else last xs)"
  defines "h' \<equiv> take_block r prev b h"
  shows "\<exists>fs'. heap_inv e h' fs' (insert b A) \<and> keeps_free r b (xs @ b # ys) h fs' h'"
    and "\<forall>a\<in>A. blk_size h' a = blk_size h a" "r \<le> blk_size h' b"
    and "heap_brk h' = heap_brk h" "heap_max h' = heap_max h"
proof -
  let ?fs = "xs @ b # ys" and ?rem = "blk_size h b - r"
  have ch: "chain (blk_next h) (free_list h) ?fs 0" "distinct ?fs" "set ?fs \<inter> A = {}"
    and ok: "blocks_ok e (heap_brk h) (blk_size h) (set ?fs \<union> A)" using inv by (auto simp: heap_inv_def)
  have rem: "unat ?rem = unat (blk_size h b) - unat r"
    using r(3) by (simp add: unat_sub_if_size word_le_nat_alt)
  show brk: "heap_brk h' = heap_brk h" "heap_max h' = heap_max h"
    by (simp_all add: h'_def take_block_def Let_def)
  show "\<exists>fs'. heap_inv e h' fs' (insert b A) \<and> keeps_free r b (xs @ b # ys) h fs' h'"
    "\<forall>a\<in>A. blk_size h' a = blk_size h a" "r \<le> blk_size h' b"
  proof (atomize (full), cases "?rem \<ge> 8 + 8")
    case True
    let ?nf = "b + 8 + r"
    let ?h1 = "h\<lparr>blk_size := (blk_size h)(?nf := ?rem - 8, b := r),
                 blk_next := (blk_next h)(?nf := blk_next h b)\<rparr>"
    have h': "h' = relink prev ?nf ?h1" using True by (simp add: h'_def take_block_def Let_def)
    have "unat r + 16 \<le> unat (blk_size h b)" using True rem by (simp add: word_le_nat_alt)
    then have sp: "?nf \<notin> set ?fs \<union> A"
      "blocks_ok e (heap_brk h) ((blk_size h)(?nf := ?rem - 8, b := r)) (insert ?nf (set ?fs \<union> A))"
      using blocks_ok_split [OF ok, of b r] r by auto
    have nf0: "?nf \<noteq> 0" using blocks_okD(6) [OF sp(2)] by auto
    have "chain (blk_next h') (free_list h') (xs @ ?nf # ys) 0"
      unfolding h' using ch sp(1) nf0 prev by (intro relink_chain [where nx = "blk_next h" and b = b]) auto
    moreover have "insert ?nf (set ?fs \<union> A) = set (xs @ ?nf # ys) \<union> insert b A" by auto
    ultimately have "heap_inv e h' (xs @ ?nf # ys) (insert b A)"
      using ch sp by (auto simp: heap_inv_def h')
    moreover have "keeps_free r b ?fs h (xs @ ?nf # ys) h'"
      using sp(1) rem True by (auto simp: keeps_free_def h' unat_sub word_le_nat_alt)
    ultimately show "(\<exists>fs'. heap_inv e h' fs' (insert b A) \<and> keeps_free r b ?fs h fs' h') \<and>
        (\<forall>a\<in>A. blk_size h' a = blk_size h a) \<and> r \<le> blk_size h' b"
      using sp(1) ch(3) by (auto simp: h')
  next
    case False
    have h': "h' = relink prev (blk_next h b) h" using False by (simp add: h'_def take_block_def Let_def)
    have "chain (blk_next h') (free_list h') (xs @ ys) 0"
      unfolding h' using ch prev by (intro relink_chain_remove) auto
    moreover have "set ?fs \<union> A = set (xs @ ys) \<union> insert b A" by auto
    ultimately have "heap_inv e h' (xs @ ys) (insert b A)" using ch ok by (auto simp: heap_inv_def h')
    moreover have "keeps_free r b ?fs h (xs @ ys) h'"
      using False rem by (auto simp: keeps_free_def h' word_le_nat_alt)
    ultimately show "(\<exists>fs'. heap_inv e h' fs' (insert b A) \<and> keeps_free r b ?fs h fs' h') \<and>
        (\<forall>a\<in>A. blk_size h' a = blk_size h a) \<and> r \<le> blk_size h' b"
      using r(3) by (auto simp: h')
  qed
qed


text \<open>What one call of \<open>malloc\<close> yields: a null pointer when nothing fits and the heap cannot grow, or
  the user pointer of a block \<open>b\<close> taken out of the free list.\<close>

definition malloc_result :: "u32 \<Rightarrow> u32 \<Rightarrow> heap \<Rightarrow> u32 set \<Rightarrow> u32 \<Rightarrow> heap \<Rightarrow> bool" where
  "malloc_result e sz h A p h' \<longleftrightarrow>
     heap_max h' = heap_max h \<and> unat (heap_brk h') \<le> unat (heap_max h) \<and>
     (\<forall>a\<in>A. blk_size h' a = blk_size h a) \<and>
     (if p = 0
      then (\<exists>fs'. heap_inv e h' fs' A \<and> (\<forall>b\<in>set fs'. blk_size h' b < req_size sz)) \<and>
           unat (heap_brk h') + 2 ^ 24 > unat (heap_max h)
      else (\<exists>fs'. heap_inv e h' fs' (insert (p - 8) A)) \<and> p - 8 \<notin> A \<and>
           req_size sz \<le> blk_size h' (p - 8))"

lemma block_user_pointer: "block_fits e brk sz b \<Longrightarrow> b + 8 \<noteq> 0"
proof -
  assume "block_fits e brk sz b"
  then have "unat (b + 8) = unat b + 8"
    using unat_le_max [of brk] by (simp add: block_fits_def unat_word_ariths)
  then show ?thesis by auto
qed

lemma malloc_spec:
  assumes "heap_inv e h fs A" "unat (heap_brk h) \<le> unat (heap_max h)"
    and "unat (heap_max h) + 2 ^ 24 < 2 ^ 32" "sz \<noteq> 0"
  shows "\<exists>p h'. malloc sz h = Some (p, h') \<and> malloc_result e sz h A p h'"
  using assms
proof (induction "unat (heap_max h) - unat (heap_brk h)" arbitrary: h fs rule: less_induct)
  case less
  let ?r = "req_size sz"
  have ch: "chain (blk_next h) (free_list h) fs 0" using less.prems by (simp add: heap_inv_def)
  show ?case
  proof (cases rule: first_fit_cases [where bs = fs and sz = "blk_size h" and r = ?r])
    case (first xs b ys)
    let ?h = "take_block ?r (if xs = [] then 0 else last xs) b h"
    have inv: "heap_inv e h (xs @ b # ys) A" using less.prems first by simp
    have "malloc_loop ?r 0 (free_list h) h = Some (Some (b + 8), ?h)"
      using malloc_loop_first [of h "free_list h" xs b ys ?r 0] ch first by simp
    then have m: "malloc sz h = Some (b + 8, ?h)" using less.prems(4) by (simp add: malloc.simps [of sz h])
    have "block_fits e (heap_brk h) (blk_size h) b" "b \<notin> A"
      using inv by (auto simp: heap_inv_def blocks_ok_def)
    then show ?thesis
      using m less.prems take_block_inv [OF inv req_size_bounds(1,2) first(3) refl]
        block_user_pointer by (auto simp: malloc_result_def)
  next
    case none
    have "unat (heap_brk h) + 2 ^ 24 < 2 ^ 32" using less.prems by simp
    note rp = request_pool [OF this]
    have loop: "malloc_loop ?r 0 (free_list h) h = Some (None, h)"
      using malloc_loop_none [OF ch none] .
    show ?thesis
    proof (cases "unat (heap_brk h) + 2 ^ 24 > unat (heap_max h)")
      case True
      then have "malloc sz h = Some (0, h)"
        using loop rp less.prems(4) by (simp add: malloc.simps [of sz h] expand_heap_def)
      then show ?thesis using True less.prems none by (auto simp: malloc_result_def)
    next
      case False
      let ?h = "add_pool (heap_brk h) (h\<lparr>heap_brk := heap_brk h + POOL_SIZE\<rparr>)"
      have ok: "blocks_ok e (heap_brk h) (blk_size h) (set fs \<union> A)" using less.prems by (simp add: heap_inv_def)
      have brk: "unat (heap_brk ?h) = unat (heap_brk h) + 2 ^ 24" "heap_max ?h = heap_max h"
        using less.prems by (simp_all add: add_pool_def POOL_SIZE_def unat_word_ariths)
      have "malloc sz h = malloc sz ?h"
        using loop rp less.prems(4) False brk_nonzero [OF ok]
        by (simp add: malloc.simps [of sz h] expand_heap_def)
      moreover have "\<exists>p h'. malloc sz ?h = Some (p, h') \<and> malloc_result e sz ?h A p h'"
        using less.prems False brk
        by (intro less.hyps [where fs = "heap_brk h # fs"] heap_inv_add_pool) auto
      moreover have "blk_size ?h a = blk_size h a" if "a \<in> A" for a
        using blocks_ok_grow(1) [OF ok, of POOL_SIZE] that brk_aligned [OF ok] less.prems
        by (auto simp: add_pool_def POOL_SIZE_def)
      ultimately show ?thesis using brk by (fastforce simp: malloc_result_def)
    qed
  qed
qed

lemma free_inv:
  assumes "heap_inv e h fs A" "p - 8 \<in> A" "p \<noteq> 0"
  shows "heap_inv e (free p h) ((p - 8) # fs) (A - {p - 8})"
proof -
  have "insert (p - 8) (set fs) \<union> (A - {p - 8}) = set fs \<union> A" using assms by auto
  moreover have "p - 8 \<noteq> 0"
    using assms blocks_okD(6) [of e "heap_brk h" "blk_size h" "set fs \<union> A" "p - 8"]
    by (simp add: heap_inv_def)
  moreover have "p - 8 \<notin> set fs" using assms by (auto simp: heap_inv_def)
  ultimately show ?thesis using assms by (auto simp: heap_inv_def free_def Let_def)
qed

text \<open>Blocks are carved out of pools and never merged, so none is larger than a pool without its header.\<close>

definition small_blocks :: "heap \<Rightarrow> bool" where
  "small_blocks h \<longleftrightarrow> (\<forall>b. blk_size h b \<le> POOL_SIZE - 8)"

lemma small_blocks_simps [simp]:
  "small_blocks (h\<lparr>heap_brk := x\<rparr>) = small_blocks h" "small_blocks (relink p q h) = small_blocks h"
  "small_blocks h \<Longrightarrow> small_blocks (add_pool b h)" "small_blocks (free p h) = small_blocks h"
  by (auto simp: small_blocks_def add_pool_def free_def relink_def Let_def)

lemma take_block_small:
  assumes "small_blocks h" "req \<le> blk_size h b"
  shows "small_blocks (take_block req prev b h)"
proof -
  have s: "blk_size h c \<le> POOL_SIZE - 8" for c using assms(1) by (simp add: small_blocks_def)
  have "blk_size h b - req - 8 \<le> POOL_SIZE - 8" if "blk_size h b - req \<ge> 16"
    using that assms(2) s [of b] by (simp add: word_le_nat_alt unat_sub)
  moreover have "req \<le> POOL_SIZE - 8" using assms(2) s [of b] by (rule order_trans)
  ultimately show ?thesis using assms by (auto simp: take_block_def small_blocks_def Let_def relink_def)
qed

lemma malloc_loop_small:
  assumes "malloc_loop req prev cur h = Some (r, h')" "small_blocks h"
  shows "small_blocks h' \<and> (r \<noteq> None \<longrightarrow> req \<le> POOL_SIZE - 8)"
proof -
  have "small_blocks h \<longrightarrow> small_blocks (snd (r, h')) \<and> (fst (r, h') \<noteq> None \<longrightarrow> req \<le> POOL_SIZE - 8)"
  proof (rule malloc_loop.raw_induct [OF _ assms(1)])
    fix rec req prev cur h y
    assume "\<And>req prev cur h y. rec req prev cur h = Some y \<Longrightarrow>
        small_blocks h \<longrightarrow> small_blocks (snd y) \<and> (fst y \<noteq> None \<longrightarrow> req \<le> POOL_SIZE - 8)"
      and "(if cur = 0 then Some (None, h)
            else if blk_size h cur \<ge> req then Some (Some (cur + hdr), take_block req prev cur h)
            else rec req cur (blk_next h cur) h) = Some y"
    then show "small_blocks h \<longrightarrow> small_blocks (snd y) \<and> (fst y \<noteq> None \<longrightarrow> req \<le> POOL_SIZE - 8)"
      by (auto simp: take_block_small split: if_splits)
        (metis small_blocks_def order_trans)
  qed
  then show ?thesis using assms(2) by simp
qed

lemma expand_heap_small: "small_blocks h \<Longrightarrow> small_blocks (snd (expand_heap h))"
  by (auto simp: expand_heap_def request_memory_def Let_def)

lemma malloc_small:
  assumes "malloc n h = Some (p, h')" "small_blocks h"
  shows "small_blocks h' \<and> (p \<noteq> 0 \<longrightarrow> req_size n \<le> POOL_SIZE - 8)"
proof -
  have "small_blocks h \<longrightarrow> small_blocks (snd (p, h')) \<and> (fst (p, h') \<noteq> 0 \<longrightarrow> req_size n \<le> POOL_SIZE - 8)"
  proof (rule malloc.raw_induct [OF _ assms(1)])
    fix rec sz h y
    assume IH: "\<And>sz h y. rec sz h = Some y \<Longrightarrow>
        small_blocks h \<longrightarrow> small_blocks (snd y) \<and> (fst y \<noteq> 0 \<longrightarrow> req_size sz \<le> POOL_SIZE - 8)"
      and eq: "(if sz = 0 then Some (0, h)
        else case malloc_loop (req_size sz) 0 (free_list h) h of
               None \<Rightarrow> None
             | Some (Some p, h') \<Rightarrow> Some (p, h')
             | Some (None, h') \<Rightarrow>
                 (if fst (expand_heap h') = 0 then rec sz (snd (expand_heap h'))
                  else Some (0, snd (expand_heap h')))) = Some y"
    show "small_blocks h \<longrightarrow> small_blocks (snd y) \<and> (fst y \<noteq> 0 \<longrightarrow> req_size sz \<le> POOL_SIZE - 8)"
      using eq IH [of sz _ y] malloc_loop_small [of "req_size sz" 0 "free_list h" h] expand_heap_small
      by (fastforce split: if_splits option.splits prod.splits)
  qed
  then show ?thesis using assms(2) by simp
qed


section \<open>The interface\<close>

definition heap_ok :: "u32 \<Rightarrow> heap \<Rightarrow> u32 set \<Rightarrow> bool" where
  "heap_ok e h P \<longleftrightarrow> (\<exists>fs. heap_inv e h fs ((\<lambda>p. p - 8) ` P)) \<and> small_blocks h \<and>
     unat (heap_brk h) \<le> unat (heap_max h) \<and> unat (heap_max h) + 2 ^ 24 < 2 ^ 32"

definition usable :: "heap \<Rightarrow> u32 \<Rightarrow> nat" where
  "usable h p = unat (blk_size h (p - 8))"

lemma heap_ok_nonnull: "heap_ok e h P \<Longrightarrow> 0 \<notin> P"
proof
  assume "heap_ok e h P" "0 \<in> P"
  then obtain fs where "blocks_ok e (heap_brk h) (blk_size h) (set fs \<union> (\<lambda>p. p - 8) ` P)"
    by (auto simp: heap_ok_def heap_inv_def)
  then have "unat ((0 :: u32) - 8) + 8 + unat (blk_size h (0 - 8)) \<le> unat (heap_brk h)"
    using \<open>0 \<in> P\<close> by (intro blocks_okD(2)) auto
  moreover have "unat ((0 :: u32) - 8) = 4294967288" by simp
  ultimately show False using unat_le_max [of "heap_brk h"] by simp
qed

lemma malloc_heap_ok:
  assumes "heap_ok e h P"
  shows "\<exists>p h'. malloc n h = Some (p, h') \<and>
    (if p = 0 then heap_ok e h' P else p \<notin> P \<and> heap_ok e h' (insert p P)) \<and>
    (\<forall>q\<in>P. usable h' q = usable h q) \<and> (p \<noteq> 0 \<longrightarrow> unat n \<le> 2 ^ 32 - 8 \<longrightarrow> unat n \<le> usable h' p)"
proof (cases "n = 0")
  case True
  moreover have "malloc 0 h = Some (0, h)" by (simp add: malloc.simps [of 0 h])
  ultimately show ?thesis using assms by auto
next
  case False
  obtain fs where "heap_inv e h fs ((\<lambda>p. p - 8) ` P)" using assms by (auto simp: heap_ok_def)
  then obtain p h' where m: "malloc n h = Some (p, h')" "malloc_result e n h ((\<lambda>p. p - 8) ` P) p h'"
    using malloc_spec assms False by (metis heap_ok_def)
  have "unat n \<le> usable h' p" if "p \<noteq> 0" "unat n \<le> 2 ^ 32 - 8"
    using m(2) that req_size_bounds(3) [of n] by (auto simp: malloc_result_def usable_def word_le_nat_alt)
  then show ?thesis
    using m assms malloc_small [OF m(1)] by (auto simp: malloc_result_def heap_ok_def usable_def split: if_splits)
qed

lemma free_heap_ok:
  assumes "heap_ok e h P" "p \<in> P"
  shows "heap_ok e (free p h) (P - {p})"
proof -
  obtain fs where "heap_inv e h fs ((\<lambda>p. p - 8) ` P)" using assms by (auto simp: heap_ok_def)
  then have "heap_inv e (free p h) ((p - 8) # fs) ((\<lambda>p. p - 8) ` P - {p - 8})"
    using assms heap_ok_nonnull [OF assms(1)] by (intro free_inv) auto
  moreover have "(\<lambda>p. p - 8) ` P - {p - 8} = (\<lambda>p. p - 8) ` (P - {p})" by auto
  moreover have "small_blocks (free p h)" "heap_brk (free p h) = heap_brk h" "heap_max (free p h) = heap_max h"
    using assms(1) by (simp_all add: heap_ok_def) (simp_all add: free_def Let_def)
  ultimately show ?thesis using assms(1) by (auto simp: heap_ok_def)
qed

lemma heap_ok_disjoint:
  assumes "heap_ok e h P" "p \<in> P" "q \<in> P" "p \<noteq> q"
  shows "region p (usable h p) \<inter> region q (usable h q) = {}"
proof -
  obtain fs where ok: "blocks_ok e (heap_brk h) (blk_size h) (set fs \<union> (\<lambda>p. p - 8) ` P)"
    using assms by (auto simp: heap_ok_def heap_inv_def)
  have u: "unat x = unat (x - 8) + 8 \<and> unat x + usable h x \<le> 2 ^ 32" if "x \<in> P" for x
  proof -
    have "unat (x - 8) + 8 + unat (blk_size h (x - 8)) \<le> unat (heap_brk h)"
      using blocks_okD(2) [OF ok] that by auto
    moreover have "unat x = unat (x - 8) + 8"
      using calculation unat_le_max [of "heap_brk h"] unat_add_of_nat [of "x - 8" 8] by simp
    ultimately show ?thesis using unat_le_max [of "heap_brk h"] by (simp add: usable_def)
  qed
  have "foot (blk_size h) (p - 8) \<inter> foot (blk_size h) (q - 8) = {}"
    using assms by (intro blocks_ok_disjoint [OF ok]) auto
  then show ?thesis
    using u [OF assms(2)] u [OF assms(3)] by (auto simp: foot_def usable_def region_nowrap disjoint_iff)
qed

interpretation km: allocator malloc free "heap_ok e" usable for e
proof unfold_locales
  fix h P n p q h'
  show "heap_ok e h P \<Longrightarrow> \<exists>p h'. malloc n h = Some (p, h')" using malloc_heap_ok by blast
  show "heap_ok e h P \<Longrightarrow> malloc n h = Some (0, h') \<Longrightarrow> heap_ok e h' P"
    using malloc_heap_ok [of e h P n] by auto
  show "heap_ok e h P \<Longrightarrow> malloc n h = Some (p, h') \<Longrightarrow> p \<noteq> 0 \<Longrightarrow> p \<notin> P \<and> heap_ok e h' (insert p P)"
    using malloc_heap_ok [of e h P n] by auto
  show "heap_ok e h P \<Longrightarrow> malloc n h = Some (p, h') \<Longrightarrow> q \<in> P \<Longrightarrow> usable h' q = usable h q"
    using malloc_heap_ok [of e h P n] by auto
  show "heap_ok e h P \<Longrightarrow> malloc n h = Some (p, h') \<Longrightarrow> p \<noteq> 0 \<Longrightarrow> unat n \<le> 2 ^ 32 - 8 \<Longrightarrow>
      unat n \<le> usable h' p"
    using malloc_heap_ok [of e h P n] by auto
  show "usable (free p h) q = usable h q" by (simp add: usable_def free_def Let_def)
qed (use free_heap_ok heap_ok_nonnull heap_ok_disjoint in \<open>auto simp: free_def\<close>)


section \<open>Properties\<close>

lemma heap_ok_aligned:
  assumes "heap_ok e h P" "p \<in> P"
  shows "unat p mod 8 = unat e mod 8"
proof -
  obtain fs where ok: "blocks_ok e (heap_brk h) (blk_size h) (set fs \<union> (\<lambda>p. p - 8) ` P)"
    using assms by (auto simp: heap_ok_def heap_inv_def)
  have b: "p - 8 \<in> set fs \<union> (\<lambda>p. p - 8) ` P" using assms(2) by simp
  have "unat (p - 8 + of_nat 8) = unat (p - 8) + 8"
    using blocks_okD(2) [OF ok b] unat_le_max [of "heap_brk h"] by (intro unat_add_of_nat) simp
  then have "unat p = unat (p - 8) + 8" by simp
  then show ?thesis using blocks_okD(5) [OF ok b] by simp
qed

lemma malloc_init_heap_ok:
  assumes "e \<noteq> 0" "16 \<le> mb" "unat e + mb * 2 ^ 20 + 2 ^ 24 < 2 ^ 32"
  shows "heap_ok e (malloc_init e (of_nat mb) (heap0 e)) {}"
proof -
  have "mb * 1048576 < 2 ^ 32" using assms(3) by simp
  then have mx: "unat (e + of_nat mb * 1024 * 1024) = unat e + mb * 2 ^ 20"
    using unat_add_of_nat [of e "mb * 2 ^ 20"] assms(3) by (simp add: mult.assoc)
  let ?h = "(heap0 e)\<lparr>heap_max := e + of_nat mb * 1024 * 1024\<rparr>"
  have inv: "heap_inv e ?h [] {}"
    using assms(1) by (simp add: heap_inv_def heap0_def blocks_ok_def)
  have brk: "heap_brk ?h = e" by (simp add: heap0_def)
  have "unat (heap_brk ?h) + 2 ^ 24 < 2 ^ 32" using assms brk by simp
  note rp = request_pool [OF this] and ap = heap_inv_add_pool [OF inv this]
  have req: "request_memory POOL_SIZE ?h = (e, ?h\<lparr>heap_brk := e + POOL_SIZE\<rparr>)"
    using rp mx assms(2) brk by (simp add: heap0_def)
  then have "malloc_init e (of_nat mb) (heap0 e) = add_pool e (?h\<lparr>heap_brk := e + POOL_SIZE\<rparr>)"
    using assms(1) by (simp add: malloc_init_def Let_def)
  moreover have "unat (e + POOL_SIZE) = unat e + 2 ^ 24"
    using assms(3) by (simp add: POOL_SIZE_def unat_word_ariths)
  moreover have "small_blocks ?h" by (simp add: small_blocks_def heap0_def)
  then have "small_blocks (add_pool e (?h\<lparr>heap_brk := e + POOL_SIZE\<rparr>))" by (intro small_blocks_simps) simp
  ultimately show ?thesis
    using ap brk mx assms by (auto simp: heap_ok_def add_pool_def)
qed

text \<open>What the heap can serve at most, whatever memory is left: one pool without its header.\<close>

lemma malloc_at_most_pool:
  assumes "heap_ok e h P" "malloc n h = Some (p, h')" "p \<noteq> 0" "unat n \<le> 2 ^ 32 - 8"
  shows "unat n \<le> 2 ^ 24 - 8"
proof -
  have "req_size n \<le> POOL_SIZE - 8" using malloc_small [OF assms(2)] assms(1,3) by (simp add: heap_ok_def)
  then show ?thesis using req_size_bounds(3) [of n] assms(4) by (simp add: word_le_nat_alt POOL_SIZE_def)
qed

text \<open>A machine with 32 MB whose kernel ends at 2 MB: the concrete heap of the witnesses.\<close>

definition demo_heap :: heap where
  "demo_heap = malloc_init 0x200000 32 (heap0 0x200000)"

lemma demo_heap_ok: "heap_ok 0x200000 demo_heap {}"
  unfolding demo_heap_def using malloc_init_heap_ok [of "0x200000" 32] by simp

text \<open>\<open>avail n h\<close>: some free block has at least \<open>n\<close> bytes. A request that leaves room for another block is
  served, and shrinks what is available by the size taken and one header.\<close>

definition avail :: "nat \<Rightarrow> heap \<Rightarrow> bool" where
  "avail n h \<longleftrightarrow> (\<exists>fs. chain (blk_next h) (free_list h) fs 0 \<and> (\<exists>b\<in>set fs. n \<le> unat (blk_size h b)))"

lemma avail_mono: "avail n h \<Longrightarrow> m \<le> n \<Longrightarrow> avail m h"
  by (auto simp: avail_def intro: order_trans)

lemma chain_unique: "chain nx p xs 0 \<Longrightarrow> chain nx p ys 0 \<Longrightarrow> xs = ys"
proof (induction xs arbitrary: p ys)
  case Nil
  then show ?case using chain_null by fastforce
next
  case (Cons x xs)
  then show ?case by (cases ys) auto
qed

lemma availD: "avail n h \<Longrightarrow> chain (blk_next h) (free_list h) fs 0 \<Longrightarrow> \<exists>b\<in>set fs. n \<le> unat (blk_size h b)"
  unfolding avail_def by (metis chain_unique)

lemma malloc_avail:
  assumes "heap_ok e h P" "avail n h" "sz \<noteq> 0" "unat (req_size sz) + 16 \<le> n"
  shows "\<exists>p h'. malloc sz h = Some (p, h') \<and> p \<noteq> 0 \<and> avail (n - unat (req_size sz) - 8) h'"
proof -
  let ?r = "req_size sz"
  obtain fs where inv: "heap_inv e h fs ((\<lambda>p. p - 8) ` P)" using assms(1) by (auto simp: heap_ok_def)
  then have ch: "chain (blk_next h) (free_list h) fs 0" by (simp add: heap_inv_def)
  then obtain c where c: "c \<in> set fs" "n \<le> unat (blk_size h c)" using availD [OF assms(2)] by blast
  then obtain xs b ys where f: "fs = xs @ b # ys" "\<forall>x\<in>set xs. blk_size h x < ?r" "?r \<le> blk_size h b"
    using assms(4) by (cases rule: first_fit_cases [where bs = fs and sz = "blk_size h" and r = ?r])
      (auto simp: word_less_nat_alt)
  let ?h = "take_block ?r (if xs = [] then 0 else last xs) b h"
  have "malloc_loop ?r 0 (free_list h) h = Some (Some (b + 8), ?h)"
    using malloc_loop_first [of h "free_list h" xs b ys ?r 0] ch f by simp
  then have m: "malloc sz h = Some (b + 8, ?h)" using assms(3) by (simp add: malloc.simps [of sz h])
  have "block_fits e (heap_brk h) (blk_size h) b" using inv f(1) by (auto simp: heap_inv_def blocks_ok_def)
  then have "b + 8 \<noteq> 0" by (rule block_user_pointer)
  obtain fs' where fs': "chain (blk_next ?h) (free_list ?h) fs' 0" "keeps_free ?r b fs h fs' ?h"
    using take_block_inv(1) [OF inv [unfolded f(1)] req_size_bounds(1,2) f(3) refl] f(1) by (auto simp: heap_inv_def)
  have "\<exists>d\<in>set fs'. n - unat ?r - 8 \<le> unat (blk_size ?h d)"
  proof (cases "c = b")
    case True
    then obtain d where "d \<in> set fs'" "unat (blk_size ?h d) = unat (blk_size h b) - unat ?r - 8"
      using fs'(2) c(2) assms(4) by (auto simp: keeps_free_def)
    moreover from this have "n - unat ?r - 8 \<le> unat (blk_size ?h d)"
      using c(2) unfolding True by linarith
    ultimately show ?thesis by blast
  next
    case False
    then have "c \<in> set fs'" "blk_size ?h c = blk_size h c" using fs'(2) c(1) by (auto simp: keeps_free_def)
    then show ?thesis using c(2) by (intro bexI [of _ c]) simp_all
  qed
  then have "avail (n - unat ?r - 8) ?h" using fs'(1) unfolding avail_def by blast
  then show ?thesis using m \<open>b + 8 \<noteq> 0\<close> by blast
qed

lemma free_avail:
  assumes "heap_ok e h P" "p \<in> P" "avail n h"
  shows "avail n (free p h)"
proof -
  have p: "p \<noteq> 0" using assms heap_ok_nonnull by blast
  obtain fs where inv: "heap_inv e h fs ((\<lambda>p. p - 8) ` P)" using assms(1) by (auto simp: heap_ok_def)
  then have "chain (blk_next h) (free_list h) fs 0" by (simp add: heap_inv_def)
  then obtain b where b: "b \<in> set fs" "n \<le> unat (blk_size h b)" using availD [OF assms(3)] by blast
  have "heap_inv e (free p h) ((p - 8) # fs) ((\<lambda>p. p - 8) ` P - {p - 8})" using inv assms(2) p by (intro free_inv) auto
  then have "chain (blk_next (free p h)) (free_list (free p h)) ((p - 8) # fs) 0" by (simp add: heap_inv_def)
  moreover have "blk_size (free p h) = blk_size h" by (simp add: free_def Let_def)
  ultimately show ?thesis using b unfolding avail_def by (metis list.set_intros(2))
qed

lemma malloc_init_avail:
  assumes "e \<noteq> 0" "16 \<le> mb" "unat e + mb * 2 ^ 20 + 2 ^ 24 < 2 ^ 32"
  shows "avail (2 ^ 24 - 8) (malloc_init e (of_nat mb) (heap0 e))"
proof -
  have "mb * 1048576 < 2 ^ 32" using assms(3) by simp
  then have mx: "unat (e + of_nat mb * 1024 * 1024) = unat e + mb * 2 ^ 20"
    using unat_add_of_nat [of e "mb * 2 ^ 20"] assms(3) by (simp add: mult.assoc)
  let ?h = "(heap0 e)\<lparr>heap_max := e + of_nat mb * 1024 * 1024\<rparr>"
  have "request_memory POOL_SIZE ?h = (e, ?h\<lparr>heap_brk := e + POOL_SIZE\<rparr>)"
    using request_pool [of ?h] mx assms(2,3) by (simp add: heap0_def)
  then have "malloc_init e (of_nat mb) (heap0 e) = add_pool e (?h\<lparr>heap_brk := e + POOL_SIZE\<rparr>)"
    using assms(1) by (simp add: malloc_init_def Let_def)
  then show ?thesis using assms(1)
    by (auto simp: avail_def add_pool_def heap0_def POOL_SIZE_def intro!: exI [of _ "[e]"])
qed

lemma demo_heap_eval:
  "demo_heap = \<lparr>heap_brk = 0x1200000, heap_max = 0x2200000, free_list = 0x200000,
     blk_size = (\<lambda>_. 0)(0x200000 := 0xFFFFF8), blk_next = (\<lambda>_. 0)\<rparr>"
  by (simp add: demo_heap_def malloc_init_def request_memory_def add_pool_def heap0_def Let_def
      POOL_SIZE_def ALIGN_UP_def fun_eq_iff)

text \<open>\<open>malloc_init\<close> sets up a well-formed heap with no live pointer, provided the machine has at
  least 16 MB and the heap end plus one pool stays inside the 32-bit address space.\<close>

theorem malloc_init_ok:
  assumes "e \<noteq> 0" "16 \<le> mb" "unat e + mb * 2 ^ 20 + 2 ^ 24 < 2 ^ 32"
  shows "heap_ok e (malloc_init e (of_nat mb) (heap0 e)) {}"
  using assms by (rule malloc_init_heap_ok)

theorem malloc_init_ok_witness:
  "heap_ok 0x200000 (malloc_init 0x200000 32 (heap0 0x200000)) {}"
  using malloc_init_ok [of "0x200000" 32] by simp

text \<open>C1. \<open>malloc\<close> is total and hands out fresh memory: from a well-formed heap with live pointers \<open>P\<close>
  it returns; a non-null result is a new pointer whose block (at least as large as the request) is
  disjoint from every live block, has the alignment of the heap start, and leaves a well-formed heap;
  the live blocks keep their sizes.\<close>

theorem malloc_correct:
  assumes "heap_ok e h P" "unat n \<le> 2 ^ 32 - 8"
  shows "\<exists>p h'. malloc n h = Some (p, h') \<and> (\<forall>q\<in>P. usable h' q = usable h q) \<and>
    (if p = 0 then heap_ok e h' P
     else p \<notin> P \<and> heap_ok e h' (insert p P) \<and> unat n \<le> usable h' p \<and>
       unat p mod 8 = unat e mod 8 \<and>
       (\<forall>q\<in>P. region p (usable h' p) \<inter> region q (usable h q) = {}))"
proof -
  obtain p h' where m: "malloc n h = Some (p, h')" using km.alloc_total [OF assms(1)] by blast
  have keep: "\<forall>q\<in>P. usable h' q = usable h q" using km.alloc_keeps [OF assms(1) m] by blast
  show ?thesis
  proof (cases "p = 0")
    case True
    then show ?thesis using m keep km.alloc_null [OF assms(1)] by auto
  next
    case False
    have f: "p \<notin> P" "heap_ok e h' (insert p P)" using km.alloc_fresh [OF assms(1) m False] by auto
    have "region p (usable h' p) \<inter> region q (usable h q) = {}" if "q \<in> P" for q
      using km.live_disjoint [OF f(2), of p q] f(1) keep that by fastforce
    then show ?thesis
      using m keep False f km.alloc_size [OF assms(1) m False assms(2)] heap_ok_aligned [OF f(2)]
      by (intro exI [of _ p] exI [of _ h']) auto
  qed
qed

theorem malloc_correct_witness:
  "\<exists>p h'. malloc 100 demo_heap = Some (p, h') \<and>
     heap_ok 0x200000 h' (if p = 0 then {} else {p})"
  using malloc_correct [OF demo_heap_ok, of 100] by (auto split: if_splits)

text \<open>C33. \<open>malloc\<close> fails only when it must: a null result for a non-zero request means that no block of
  the free list is large enough and that another 16 MB pool would pass the end of the heap.\<close>

theorem malloc_null_only_if_exhausted:
  assumes "heap_ok e h P" "n \<noteq> 0" "malloc n h = Some (0, h')"
  shows "\<exists>fs. chain (blk_next h') (free_list h') fs 0 \<and> (\<forall>b\<in>set fs. blk_size h' b < req_size n) \<and>
    unat (heap_brk h') + 2 ^ 24 > unat (heap_max h')"
proof -
  obtain fs where "heap_inv e h fs ((\<lambda>p. p - 8) ` P)" using assms by (auto simp: heap_ok_def)
  then have "malloc_result e n h ((\<lambda>p. p - 8) ` P) 0 h'"
    using malloc_spec [of e h fs "(\<lambda>p. p - 8) ` P" n] assms by (auto simp: heap_ok_def)
  then show ?thesis by (auto simp: malloc_result_def heap_inv_def)
qed

text \<open>With 32 MB a request of 32 MB has no pool to come from.\<close>

lemma demo_exhausted: "\<exists>h. malloc 0x2000000 demo_heap = Some (0, h)"
  by (simp add: demo_heap_eval malloc.simps malloc_loop.simps expand_heap_def request_memory_def
      add_pool_def POOL_SIZE_def ALIGN_UP_def req_size_def Let_def)

theorem malloc_null_only_if_exhausted_witness:
  "\<exists>h fs. malloc 0x2000000 demo_heap = Some (0, h) \<and> chain (blk_next h) (free_list h) fs 0 \<and>
     unat (heap_brk h) + 2 ^ 24 > unat (heap_max h)"
proof -
  obtain h where h: "malloc 0x2000000 demo_heap = Some (0, h)" using demo_exhausted by blast
  then show ?thesis using malloc_null_only_if_exhausted [OF demo_heap_ok _ h] by auto
qed

text \<open>A freed block is reused: allocating again a request that the block can hold returns the
  pointer just freed, because \<open>free\<close> pushes it on the list and the search starts there.\<close>

theorem free_then_malloc_reuses:
  assumes "heap_ok e h P" "p \<in> P" "n \<noteq> 0" "unat (req_size n) \<le> usable h p"
  shows "\<exists>h'. malloc n (free p h) = Some (p, h') \<and> heap_ok e h' P"
proof -
  have p: "p \<noteq> 0" using assms heap_ok_nonnull by blast
  obtain fs where "heap_inv e h fs ((\<lambda>p. p - 8) ` P)" using assms by (auto simp: heap_ok_def)
  then have "heap_inv e (free p h) ((p - 8) # fs) ((\<lambda>p. p - 8) ` P - {p - 8})"
    using assms p by (intro free_inv) auto
  then have "chain (blk_next (free p h)) (free_list (free p h)) ([] @ (p - 8) # fs) 0"
    by (simp add: heap_inv_def)
  moreover have "req_size n \<le> blk_size (free p h) (p - 8)"
    using assms(4) p by (simp add: usable_def free_def Let_def word_le_nat_alt)
  ultimately have "malloc_loop (req_size n) 0 (free_list (free p h)) (free p h) =
      Some (Some p, take_block (req_size n) 0 (p - 8) (free p h))"
    using malloc_loop_first [of "free p h" _ "[]" "p - 8" fs "req_size n" 0] by simp
  then obtain h' where m: "malloc n (free p h) = Some (p, h')"
    using assms(3) by (simp add: malloc.simps [of n "free p h"])
  have "heap_ok e h' (insert p (P - {p}))"
    using km.alloc_fresh [OF km.dealloc_ok [OF assms(1,2)] m p] by simp
  then show ?thesis using m assms(2) by (simp add: insert_absorb)
qed

lemma demo_block:
  "\<exists>h. malloc 100 demo_heap = Some (0x200008, h) \<and> heap_ok 0x200000 h {0x200008} \<and>
     usable h 0x200008 = 104"
proof -
  obtain h where h: "malloc 100 demo_heap = Some (0x200008, h)" "blk_size h 0x200000 = 104"
    by (simp add: demo_heap_eval malloc.simps malloc_loop.simps take_block_def relink_def
        ALIGN_UP_def req_size_def Let_def)
  then show ?thesis using km.alloc_fresh [OF demo_heap_ok h(1)] by (simp add: usable_def)
qed

theorem free_then_malloc_reuses_witness:
  "\<exists>h h'. heap_ok 0x200000 h {0x200008} \<and> malloc 40 (free 0x200008 h) = Some (0x200008, h')"
proof -
  obtain h where h: "heap_ok 0x200000 h {0x200008}" "usable h 0x200008 = 104"
    using demo_block by blast
  then show ?thesis
    using free_then_malloc_reuses [OF h(1), of "0x200008" 40] by (auto simp: req_size_def ALIGN_UP_def)
qed

lemma malloc_req_size_mono:
  assumes "malloc n h = Some r" "req_size n = req_size n'" "n \<noteq> 0" "n' \<noteq> 0"
  shows "malloc n' h = Some r"
proof -
  have "n \<noteq> 0 \<longrightarrow> req_size n = req_size n' \<longrightarrow> malloc n' h = Some r"
  proof (rule malloc.raw_induct [OF _ assms(1)])
    fix rec sz h y
    assume IH: "\<And>sz h y. rec sz h = Some y \<Longrightarrow>
        sz \<noteq> 0 \<longrightarrow> req_size sz = req_size n' \<longrightarrow> malloc n' h = Some y"
      and eq: "(if sz = 0 then Some (0, h)
        else case malloc_loop (req_size sz) 0 (free_list h) h of
               None \<Rightarrow> None
             | Some (Some p, h') \<Rightarrow> Some (p, h')
             | Some (None, h') \<Rightarrow>
                 (if fst (expand_heap h') = 0 then rec sz (snd (expand_heap h'))
                  else Some (0, snd (expand_heap h')))) = Some y"
    show "sz \<noteq> 0 \<longrightarrow> req_size sz = req_size n' \<longrightarrow> malloc n' h = Some y"
    proof (intro impI)
      assume "sz \<noteq> 0" "req_size sz = req_size n'"
      with eq assms(4) IH [of sz _ y] show "malloc n' h = Some y"
        unfolding malloc.simps [of n' h] by (auto split: option.splits prod.splits if_splits)
    qed
  qed
  then show ?thesis using assms by blast
qed

text \<open>A huge request is served with 8 bytes: the rounding of a size above \<open>2 ^ 32 - 8\<close> wraps to 0,
  so \<open>malloc\<close> treats it exactly as a request for 8 bytes.\<close>

theorem malloc_size_wraps:
  assumes "unat n > 2 ^ 32 - 8"
  shows "malloc n h = malloc 8 h"
proof -
  have "unat n < 2 ^ 32" using unat_le_max [of n] by simp
  then have "unat (n + 7) = unat n + 7 - 2 ^ 32" using assms by (simp add: unat_word_ariths mod_if)
  then have "unat (n + 7) < 8" using \<open>unat n < 2 ^ 32\<close> by linarith
  then have "unat (ALIGN_UP n) = 0" by (simp add: unat_ALIGN_UP)
  then have "ALIGN_UP n = 0" by (simp add: unat_eq_zero)
  moreover have "ALIGN_UP 8 = 8" by (simp add: ALIGN_UP_def)
  ultimately have "req_size n = req_size 8" by (simp add: req_size_def)
  moreover have "n \<noteq> 0" using assms by auto
  ultimately show ?thesis
    using malloc_req_size_mono [of n h _ 8] malloc_req_size_mono [of 8 h _ n]
    by (cases "malloc n h"; cases "malloc 8 h") auto
qed

theorem malloc_size_wraps_witness:
  "malloc 0xFFFFFFFA demo_heap = malloc 8 demo_heap"
  using malloc_size_wraps [of "0xFFFFFFFA" demo_heap] by simp

end
