(* ===== verification/Buckets.thy ===== *)
theory Buckets
  imports Malloc "HOL-Library.Char_ord"
begin

text \<open>
  What the two hash tables of the RAM file system share (\<^verbatim>\<open>kernel/src/ramfs_hash.c\<close> for folders,
  \<^verbatim>\<open>kernel/src/ramfs_hash_file.c\<close> for files): 16 chains of heap-allocated nodes, a djb2 hash, keys
  cut at 127 characters, and a count. A table keeps each chain as the list of its nodes in link
  order, every node with the address \<^verbatim>\<open>malloc\<close> gave it; C strings that no operation aliases are
  HOL strings (their characters before the NUL). The operations thread the allocator state, and
  None is an allocation that does not return.

  The locale \<open>hash_table\<close> states what the operations need from the key comparison and proves the
  map laws once; both tables interpret it. The laws that speak of a second key are relative to a
  set \<open>K\<close> of keys that the comparison tells apart.
\<close>

section \<open>Keys\<close>

text \<open>\<^verbatim>\<open>_strcpy\<close>, \<^verbatim>\<open>_file_strcpy\<close>: copy while \<^verbatim>\<open>src[i] && i < 127\<close>.\<close>

fun key_copy_loop :: "nat \<Rightarrow> string \<Rightarrow> string" where
  "key_copy_loop i [] = []"
| "key_copy_loop i (c # cs) = (if i < 127 then c # key_copy_loop (Suc i) cs else [])"

definition key_copy :: "string \<Rightarrow> string" where
  "key_copy src = key_copy_loop 0 src"

text \<open>\<^verbatim>\<open>_hash\<close>, \<^verbatim>\<open>_file_hash\<close>: \<open>c\<close> is a sign-extended \<^verbatim>\<open>char\<close>, the sum wraps at 32 bits.\<close>

fun hash_loop :: "u32 \<Rightarrow> string \<Rightarrow> u32" where
  "hash_loop h [] = h"
| "hash_loop h (c # cs) = hash_loop ((push_bit 5 h + h) + scast (of_char c :: u8)) cs"

definition BUCKETS :: nat where "BUCKETS = 16"

definition hash_key :: "string \<Rightarrow> nat" where
  "hash_key k = unat (hash_loop 5381 k mod 16)"


section \<open>Chains and tables\<close>

record 'v hnode =
  nd_addr :: u32
  nd_key :: string
  nd_value :: 'v

record 'v hmap =
  buckets :: "'v hnode list list"
  hm_count :: int

text \<open>The search loop: the first node of the chain whose key compares equal.\<close>

fun chain_find :: "(string \<Rightarrow> string \<Rightarrow> bool) \<Rightarrow> string \<Rightarrow> 'v hnode list \<Rightarrow> 'v hnode option" where
  "chain_find eq k [] = None"
| "chain_find eq k (n # ns) = (if eq (nd_key n) k then Some n else chain_find eq k ns)"

text \<open>Overwrite the value of that node, if there is one.\<close>

fun chain_set :: "(string \<Rightarrow> string \<Rightarrow> bool) \<Rightarrow> string \<Rightarrow> 'v \<Rightarrow> 'v hnode list \<Rightarrow> 'v hnode list option" where
  "chain_set eq k v [] = None"
| "chain_set eq k v (n # ns) =
     (if eq (nd_key n) k then Some (n\<lparr>nd_value := v\<rparr> # ns)
      else map_option ((#) n) (chain_set eq k v ns))"

text \<open>Unlink that node, if there is one; its address comes back to be freed.\<close>

fun chain_del :: "(string \<Rightarrow> string \<Rightarrow> bool) \<Rightarrow> string \<Rightarrow> 'v hnode list \<Rightarrow> (u32 \<times> 'v hnode list) option" where
  "chain_del eq k [] = None"
| "chain_del eq k (n # ns) =
     (if eq (nd_key n) k then Some (nd_addr n, ns)
      else map_option (\<lambda>(a, ns'). (a, n # ns')) (chain_del eq k ns))"

definition hm_init :: "'v hmap" where
  "hm_init = \<lparr>buckets = replicate BUCKETS [], hm_count = 0\<rparr>"

definition hm_find :: "(string \<Rightarrow> string \<Rightarrow> bool) \<Rightarrow> 'v hmap \<Rightarrow> string \<Rightarrow> 'v option" where
  "hm_find eq m k = map_option nd_value (chain_find eq k (buckets m ! hash_key k))"

definition hm_insert ::
  "(string \<Rightarrow> string \<Rightarrow> bool) \<Rightarrow> u32 \<Rightarrow> 'v hmap \<Rightarrow> string \<Rightarrow> 'v \<Rightarrow> heap \<Rightarrow> (int \<times> 'v hmap \<times> heap) option" where
  "hm_insert eq node_size m k v h =
     (let idx = hash_key k in
      case chain_set eq k v (buckets m ! idx) of
        Some ns \<Rightarrow> Some (1, m\<lparr>buckets := (buckets m)[idx := ns]\<rparr>, h)
      | None \<Rightarrow>
          (case malloc node_size h of
             None \<Rightarrow> None
           | Some (p, h') \<Rightarrow>
               (if p = 0 then Some (0, m, h')
                else
                  let node = \<lparr>nd_addr = p, nd_key = key_copy k, nd_value = v\<rparr>
                  in Some (1, m\<lparr>buckets := (buckets m)[idx := node # buckets m ! idx],
                                hm_count := hm_count m + 1\<rparr>, h'))))"

definition hm_delete :: "(string \<Rightarrow> string \<Rightarrow> bool) \<Rightarrow> 'v hmap \<Rightarrow> string \<Rightarrow> heap \<Rightarrow> int \<times> 'v hmap \<times> heap" where
  "hm_delete eq m k h =
     (let idx = hash_key k in
      case chain_del eq k (buckets m ! idx) of
        None \<Rightarrow> (0, m, h)
      | Some (a, ns) \<Rightarrow>
          (1, m\<lparr>buckets := (buckets m)[idx := ns], hm_count := hm_count m - 1\<rparr>, free a h))"

text \<open>\<^verbatim>\<open>ramfs_hashmap_list\<close>: the rows of the \<^verbatim>\<open>char[n][128]\<close> array in the order they are written,
  with the pointer to the array (null for an empty table or a failed allocation).\<close>

definition hm_keys :: "'v hmap \<Rightarrow> string list" where
  "hm_keys m = map nd_key (concat (buckets m))"

definition hm_list :: "'v hmap \<Rightarrow> heap \<Rightarrow> (u32 \<times> string list \<times> heap) option" where
  "hm_list m h =
     (if hm_count m = 0 then Some (0, [], h)
      else case malloc (of_int (hm_count m * 128)) h of
             None \<Rightarrow> None
           | Some (p, h') \<Rightarrow> Some (p, if p = 0 then [] else map key_copy (hm_keys m), h'))"

text \<open>\<^verbatim>\<open>ramfs_hashmap_destroy\<close>: free every node of every chain, then empty the table.\<close>

definition hm_nodes :: "'v hmap \<Rightarrow> u32 list" where
  "hm_nodes m = map nd_addr (concat (buckets m))"

definition hm_destroy :: "'v hmap \<Rightarrow> heap \<Rightarrow> 'v hmap \<times> heap" where
  "hm_destroy m h = (\<lparr>buckets = replicate BUCKETS [], hm_count = 0\<rparr>, fold free (hm_nodes m) h)"

text \<open>A store through the pointer that a lookup returned.\<close>

definition hm_modify :: "(string \<Rightarrow> string \<Rightarrow> bool) \<Rightarrow> 'v hmap \<Rightarrow> string \<Rightarrow> ('v \<Rightarrow> 'v) \<Rightarrow> 'v hmap" where
  "hm_modify eq m k f =
     (let idx = hash_key k in
      case chain_find eq k (buckets m ! idx) of
        None \<Rightarrow> m
      | Some n \<Rightarrow> m\<lparr>buckets := (buckets m)[idx := the (chain_set eq k (f (nd_value n)) (buckets m ! idx))]\<rparr>)"


section \<open>Keys and hashes\<close>

lemma key_copy_loop_take: "key_copy_loop i s = take (127 - i) s"
  by (induction i s rule: key_copy_loop.induct) (auto simp: take_Cons' Suc_diff_Suc split: if_splits)

lemma key_copy_take: "key_copy s = take 127 s"
  by (simp add: key_copy_def key_copy_loop_take)

lemma key_copy_id [simp]: "length s \<le> 127 \<Longrightarrow> key_copy s = s"
  by (simp add: key_copy_take)

lemma length_key_copy [simp]: "length (key_copy s) \<le> 127"
  by (simp add: key_copy_take)

lemma hash_key_less [simp]: "hash_key k < BUCKETS"
proof -
  have "unat (hash_loop 5381 k mod 16) = unat (hash_loop 5381 k) mod 16" by (simp add: unat_mod)
  then show ?thesis by (simp add: hash_key_def BUCKETS_def)
qed


section \<open>Chains\<close>

text \<open>Relative to a set of keys that the comparison tells apart, every chain operation is the one
  that compares with equality.\<close>

definition separates :: "(string \<Rightarrow> string \<Rightarrow> bool) \<Rightarrow> string set \<Rightarrow> bool" where
  "separates eq K \<longleftrightarrow> (\<forall>a\<in>K. \<forall>b\<in>K. eq a b \<longleftrightarrow> a = b)"

lemma chain_cong:
  assumes "separates eq K" "k \<in> K" "nd_key ` set ns \<subseteq> K"
  shows "chain_find eq k ns = chain_find (=) k ns" "chain_set eq k v ns = chain_set (=) k v ns"
    "chain_del eq k ns = chain_del (=) k ns"
  using assms(3) assms(1,2) by (induction ns) (auto simp: separates_def)

lemma chain_find_eq_None: "chain_find (=) k ns = None \<longleftrightarrow> k \<notin> nd_key ` set ns"
  by (induction ns) auto

lemma chain_find_key: "chain_find (=) k ns = Some n \<Longrightarrow> nd_key n = k \<and> n \<in> set ns"
  by (induction ns) (auto split: if_splits)

lemma chain_set_eq_None: "chain_set eq k v ns = None \<longleftrightarrow> chain_find eq k ns = None"
  by (induction ns) auto

lemma chain_del_eq_None: "chain_del eq k ns = None \<longleftrightarrow> chain_find eq k ns = None"
  by (induction ns) auto

lemma chain_set_keeps:
  "chain_set eq k v ns = Some ns' \<Longrightarrow>
   map nd_key ns' = map nd_key ns \<and> map nd_addr ns' = map nd_addr ns \<and> length ns' = length ns"
  by (induction ns arbitrary: ns') (auto split: if_splits)

lemma chain_set_find_same:
  "chain_set eq k v ns = Some ns' \<Longrightarrow> map_option nd_value (chain_find eq k ns') = Some v"
  by (induction ns arbitrary: ns') (auto split: if_splits)

lemma chain_set_find_other:
  "chain_set (=) k v ns = Some ns' \<Longrightarrow> k' \<noteq> k \<Longrightarrow>
   map_option nd_value (chain_find (=) k' ns') = map_option nd_value (chain_find (=) k' ns)"
  by (induction ns arbitrary: ns') (auto split: if_splits)

lemma chain_del_split:
  "chain_del eq k ns = Some (a, ns') \<Longrightarrow>
   \<exists>xs n ys. ns = xs @ n # ys \<and> ns' = xs @ ys \<and> nd_addr n = a \<and> eq (nd_key n) k"
proof (induction ns arbitrary: ns')
  case Nil
  then show ?case by simp
next
  case (Cons n ns)
  show ?case
  proof (cases "eq (nd_key n) k")
    case True
    then show ?thesis using Cons.prems by (intro exI [of _ "[]"]) auto
  next
    case False
    then obtain ns2 where "chain_del eq k ns = Some (a, ns2)" "ns' = n # ns2" using Cons.prems by auto
    then obtain xs n' ys where "ns = xs @ n' # ys" "ns2 = xs @ ys" "nd_addr n' = a" "eq (nd_key n') k"
      using Cons.IH by blast
    then show ?thesis using \<open>ns' = n # ns2\<close> by (intro exI [of _ "n # xs"]) auto
  qed
qed

lemma chain_find_remove:
  "k' \<noteq> nd_key n \<Longrightarrow> chain_find (=) k' (xs @ n # ys) = chain_find (=) k' (xs @ ys)"
  by (induction xs) auto


section \<open>The table invariant\<close>

definition hm_ok :: "string set \<Rightarrow> 'v hmap \<Rightarrow> bool" where
  "hm_ok K m \<longleftrightarrow> length (buckets m) = BUCKETS \<and>
     (\<forall>i<BUCKETS. \<forall>n\<in>set (buckets m ! i). nd_key n \<in> K \<and> hash_key (nd_key n) = i \<and> length (nd_key n) \<le> 127) \<and>
     distinct (hm_keys m) \<and> distinct (hm_nodes m) \<and> hm_count m = int (length (concat (buckets m)))"

text \<open>The map the table stands for.\<close>

definition hm_map :: "'v hmap \<Rightarrow> (string \<rightharpoonup> 'v)" where
  "hm_map m k = map_option nd_value (chain_find (=) k (buckets m ! hash_key k))"

lemma in_other_positions:
  assumes "c \<in> set (take i bs) \<union> set (drop (Suc i) bs)"
  shows "\<exists>j. j \<noteq> i \<and> j < length bs \<and> c = bs ! j"
  using assms
proof
  assume "c \<in> set (take i bs)"
  then obtain j where "j < length (take i bs)" "take i bs ! j = c" by (auto simp: in_set_conv_nth)
  then show ?thesis by (intro exI [of _ j]) auto
next
  assume "c \<in> set (drop (Suc i) bs)"
  then obtain j where "j < length (drop (Suc i) bs)" "drop (Suc i) bs ! j = c" by (auto simp: in_set_conv_nth)
  then show ?thesis by (intro exI [of _ "Suc i + j"]) auto
qed

lemma concat_split_at:
  assumes "i < length bs"
  shows "concat bs = concat (take i bs) @ bs ! i @ concat (drop (Suc i) bs)"
    and "concat (bs[i := ns]) = concat (take i bs) @ ns @ concat (drop (Suc i) bs)"
  using assms id_take_nth_drop [OF assms]
  by (metis concat.simps(2) concat_append, simp add: upd_conv_take_nth_drop)

lemma hm_ok_chain:
  assumes "hm_ok K m"
  shows "nd_key ` set (buckets m ! hash_key k) \<subseteq> K" "hash_key k < length (buckets m)"
    "distinct (map nd_key (buckets m ! hash_key k))"
proof -
  show "hash_key k < length (buckets m)" using assms by (simp add: hm_ok_def)
  then show "distinct (map nd_key (buckets m ! hash_key k))"
    using assms concat_split_at(1) [of "hash_key k" "buckets m"] by (simp add: hm_ok_def hm_keys_def)
  show "nd_key ` set (buckets m ! hash_key k) \<subseteq> K"
    using assms unfolding hm_ok_def by (metis (no_types, lifting) hash_key_less image_subsetI)
qed

lemma hm_ok_node:
  "hm_ok K m \<Longrightarrow> n \<in> set (buckets m ! hash_key k) \<Longrightarrow>
   nd_key n \<in> K \<and> hash_key (nd_key n) = hash_key k \<and> length (nd_key n) \<le> 127"
  unfolding hm_ok_def by (metis hash_key_less)

lemma hm_init_ok [simp]: "hm_ok K hm_init"
  by (simp add: hm_ok_def hm_init_def hm_keys_def hm_nodes_def)

lemma hm_count_init [simp]: "hm_count hm_init = 0"
  by (simp add: hm_init_def)

lemma hm_nodes_init [simp]: "hm_nodes hm_init = []"
  by (simp add: hm_init_def hm_nodes_def)

lemma hm_init_map [simp]: "hm_map hm_init = Map.empty"
  by (simp add: hm_map_def hm_init_def fun_eq_iff)

lemma hm_ok_in_table:
  assumes "hm_ok K m"
  shows "n \<in> set (concat (buckets m)) \<longleftrightarrow> n \<in> set (buckets m ! hash_key (nd_key n))"
proof
  assume "n \<in> set (concat (buckets m))"
  then obtain c where "c \<in> set (buckets m)" "n \<in> set c" by auto
  then obtain i where "i < BUCKETS" "n \<in> set (buckets m ! i)"
    using assms by (metis hm_ok_def in_set_conv_nth)
  then show "n \<in> set (buckets m ! hash_key (nd_key n))" using assms by (auto simp: hm_ok_def)
next
  assume "n \<in> set (buckets m ! hash_key (nd_key n))"
  then show "n \<in> set (concat (buckets m))" using hm_ok_chain(2) [OF assms] by force
qed

lemma dom_hm_map: "hm_ok K m \<Longrightarrow> dom (hm_map m) = set (hm_keys m)"
proof -
  assume ok: "hm_ok K m"
  have "k \<in> dom (hm_map m) \<longleftrightarrow> k \<in> set (hm_keys m)" for k
  proof -
    have "k \<in> dom (hm_map m) \<longleftrightarrow> chain_find (=) k (buckets m ! hash_key k) \<noteq> None"
      by (auto simp: hm_map_def)
    also have "\<dots> \<longleftrightarrow> k \<in> nd_key ` set (buckets m ! hash_key k)" by (simp add: chain_find_eq_None)
    also have "\<dots> \<longleftrightarrow> k \<in> nd_key ` set (concat (buckets m))"
      using hm_ok_in_table [OF ok] by blast
    finally show ?thesis by (simp only: hm_keys_def set_map)
  qed
  then show ?thesis by blast
qed

text \<open>The count is the number of entries of the map.\<close>

lemma hm_count_card: "hm_ok K m \<Longrightarrow> hm_count m = int (card (dom (hm_map m)))"
  using dom_hm_map [of K m] distinct_card [of "hm_keys m"] by (simp add: hm_ok_def hm_keys_def)


text \<open>One chain replaced: what the operations have to show of the new chain.\<close>

lemma hm_ok_update:
  assumes "hm_ok K m"
    and "\<And>n. n \<in> set ns \<Longrightarrow> nd_key n \<in> K \<and> hash_key (nd_key n) = hash_key k \<and> length (nd_key n) \<le> 127"
    and "distinct (map nd_key ns)"
    and "distinct (map nd_addr (concat ((buckets m)[hash_key k := ns])))"
    and "c = hm_count m + int (length ns) - int (length (buckets m ! hash_key k))"
  shows "hm_ok K (m\<lparr>buckets := (buckets m)[hash_key k := ns], hm_count := c\<rparr>)"
proof -
  let ?i = "hash_key k" and ?A = "concat (take (hash_key k) (buckets m))"
    and ?B = "concat (drop (Suc (hash_key k)) (buckets m))"
  have i: "?i < length (buckets m)" using assms(1) hm_ok_chain by blast
  note sp = concat_split_at [OF i]
  have len: "length (buckets m) = BUCKETS" using assms(1) by (simp add: hm_ok_def)
  have bs: "\<forall>j<BUCKETS. \<forall>n\<in>set ((buckets m)[?i := ns] ! j).
      nd_key n \<in> K \<and> hash_key (nd_key n) = j \<and> length (nd_key n) \<le> 127"
    using assms(1,2) len by (auto simp: hm_ok_def nth_list_update)
  have other: "hash_key (nd_key n) \<noteq> ?i" if n: "n \<in> set ?A \<union> set ?B" for n
  proof -
    obtain c where c: "n \<in> set c" "c \<in> set (take ?i (buckets m)) \<union> set (drop (Suc ?i) (buckets m))"
      using n unfolding set_concat by blast
    then obtain j where j: "j \<noteq> ?i" "j < BUCKETS" "c = buckets m ! j"
      using in_other_positions [OF c(2)] len by metis
    then show ?thesis using c(1) assms(1) by (auto simp: hm_ok_def)
  qed
  have "distinct (map nd_key (concat (buckets m)))" using assms(1) by (simp add: hm_ok_def hm_keys_def)
  then have "distinct (map nd_key (?A @ buckets m ! ?i @ ?B))" by (simp only: sp(1))
  then have "distinct (map nd_key (?A @ ?B))" by (auto simp del: set_concat)
  moreover have "nd_key ` set ns \<inter> nd_key ` (set ?A \<union> set ?B) = {}"
    using other assms(2) by fastforce
  ultimately have "distinct (map nd_key (?A @ ns @ ?B))" using assms(3) by (auto simp del: set_concat)
  then have "distinct (map nd_key (concat ((buckets m)[?i := ns])))" by (simp only: sp(2))
  moreover have "c = int (length (concat ((buckets m)[?i := ns])))"
    using assms(1,5) arg_cong [OF sp(1), of length] arg_cong [OF sp(2), of length ns]
    by (simp add: hm_ok_def)
  ultimately show ?thesis
    using bs assms(4) len by (simp add: hm_ok_def hm_keys_def hm_nodes_def)
qed

lemma hm_nodes_update:
  assumes "hm_ok K m"
  shows "set (hm_nodes (m\<lparr>buckets := (buckets m)[hash_key k := ns], hm_count := c\<rparr>)) \<union> nd_addr ` set (buckets m ! hash_key k)
    = set (hm_nodes m) \<union> nd_addr ` set ns"
  using concat_split_at [OF hm_ok_chain(2) [OF assms], of k] by (auto simp: hm_nodes_def simp del: set_concat)


lemma find_update:
  assumes "hm_ok K m"
  shows "buckets (m\<lparr>buckets := (buckets m)[hash_key k := ns], hm_count := c\<rparr>) ! hash_key k' =
    (if hash_key k' = hash_key k then ns else buckets m ! hash_key k')"
  using hm_ok_chain(2) [OF assms] by (simp add: nth_list_update)


text \<open>Overwriting the value of a present key.\<close>

lemma set_chain_table:
  assumes "hm_ok K m" "chain_set (=) k v (buckets m ! hash_key k) = Some ns"
  defines "m' \<equiv> m\<lparr>buckets := (buckets m)[hash_key k := ns]\<rparr>"
  shows "hm_map m' = (hm_map m)(k \<mapsto> v)" "hm_ok K m'" "hm_nodes m' = hm_nodes m" "hm_count m' = hm_count m"
proof -
  note ch = hm_ok_chain [OF assms(1), of k]
  note keep = chain_set_keeps [OF assms(2)] and sp = concat_split_at [OF ch(2)]
  have m': "m' = m\<lparr>buckets := (buckets m)[hash_key k := ns], hm_count := hm_count m\<rparr>" by (simp add: m'_def)
  show as: "hm_nodes m' = hm_nodes m" using keep sp by (simp add: m'_def hm_nodes_def)
  have "nd_key ` set ns = nd_key ` set (buckets m ! hash_key k)"
    using keep by (metis set_map)
  then have "nd_key n \<in> K \<and> hash_key (nd_key n) = hash_key k \<and> length (nd_key n) \<le> 127" if "n \<in> set ns" for n
    using that hm_ok_node [OF assms(1), of _ k] by (metis (no_types, lifting) imageE imageI)
  then show "hm_ok K m'"
    using assms(1) keep ch(3) as unfolding m'
    by (intro hm_ok_update) (auto simp: hm_ok_def hm_nodes_def)
  show "hm_map m' = (hm_map m)(k \<mapsto> v)"
    using find_update [OF assms(1), where k = k and ns = ns and c = "hm_count m"]
      chain_set_find_same [OF assms(2)] chain_set_find_other [OF assms(2)]
    by (auto simp: m' hm_map_def fun_eq_iff)
  show "hm_count m' = hm_count m" by (simp add: m'_def)
qed


text \<open>The key under which the table files \<open>k\<close>: the one of the node that the search finds, which a
  comparison coarser than equality may make a different one.\<close>

definition hm_key :: "(string \<Rightarrow> string \<Rightarrow> bool) \<Rightarrow> 'v hmap \<Rightarrow> string \<Rightarrow> string" where
  "hm_key eq m k = (case chain_find eq k (buckets m ! hash_key k) of None \<Rightarrow> k | Some n \<Rightarrow> nd_key n)"

lemma chain_alias:
  assumes "distinct (map nd_key ns)" "chain_find eq k ns = Some n"
  shows "chain_find (=) (nd_key n) ns = Some n" "chain_del eq k ns = chain_del (=) (nd_key n) ns"
    "chain_set eq k v ns = chain_set (=) (nd_key n) v ns" "n \<in> set ns" "eq (nd_key n) k"
proof -
  have "chain_find (=) (nd_key n) ns = Some n \<and> chain_del eq k ns = chain_del (=) (nd_key n) ns \<and>
    chain_set eq k v ns = chain_set (=) (nd_key n) v ns \<and> n \<in> set ns \<and> eq (nd_key n) k"
    using assms by (induction ns) (auto split: if_splits)
  then show "chain_find (=) (nd_key n) ns = Some n" "chain_del eq k ns = chain_del (=) (nd_key n) ns"
    "chain_set eq k v ns = chain_set (=) (nd_key n) v ns" "n \<in> set ns" "eq (nd_key n) k" by blast+
qed


section \<open>The contract of a table\<close>

text \<open>\<open>tbl_ok\<close>: the table is well formed, its nodes are live blocks of a well-formed heap.\<close>

definition tbl_ok :: "u32 \<Rightarrow> string set \<Rightarrow> 'v hmap \<Rightarrow> heap \<Rightarrow> u32 set \<Rightarrow> bool" where
  "tbl_ok e K m h P \<longleftrightarrow> hm_ok K m \<and> heap_ok e h P \<and> set (hm_nodes m) \<subseteq> P"

locale hash_table =
  fixes eq :: "string \<Rightarrow> string \<Rightarrow> bool" and node_size :: u32
  assumes eq_refl: "eq k k"
begin

text \<open>Inserting a key makes a lookup of that key return the value, whatever else the comparison
  confuses.\<close>

lemma insert_find_same:
  assumes "hm_insert eq node_size m k v h = Some (1, m', h')" "length (buckets m) = BUCKETS" "length k \<le> 127"
  shows "hm_find eq m' k = Some v"
proof (cases "chain_set eq k v (buckets m ! hash_key k)")
  case None
  then show ?thesis
    using assms by (auto simp: hm_insert_def hm_find_def eq_refl Let_def split: option.splits if_splits)
next
  case (Some ns)
  then show ?thesis
    using assms chain_set_find_same [OF Some] by (auto simp: hm_insert_def hm_find_def Let_def)
qed

lemma find_map:
  assumes "separates eq K" "hm_ok K m" "k \<in> K"
  shows "hm_find eq m k = hm_map m k"
  using chain_cong(1) [OF assms(1,3) hm_ok_chain(1) [OF assms(2)]] by (simp add: hm_find_def hm_map_def)

lemma insert_present:
  assumes "separates eq K" "tbl_ok e K m h P" "k \<in> K" "hm_map m k \<noteq> None"
  shows "\<exists>m'. hm_insert eq node_size m k v h = Some (1, m', h) \<and> hm_map m' = (hm_map m)(k \<mapsto> v) \<and>
    hm_count m' = hm_count m \<and> hm_nodes m' = hm_nodes m \<and> tbl_ok e K m' h P"
proof -
  have ok: "hm_ok K m" using assms(2) by (simp add: tbl_ok_def)
  obtain ns where ns: "chain_set (=) k v (buckets m ! hash_key k) = Some ns"
    using assms(4) chain_set_eq_None [of "(=)" k v] by (fastforce simp: hm_map_def)
  have "hm_insert eq node_size m k v h = Some (1, m\<lparr>buckets := (buckets m)[hash_key k := ns]\<rparr>, h)"
    using ns chain_cong(2) [OF assms(1,3) hm_ok_chain(1) [OF ok]] by (simp add: hm_insert_def Let_def)
  then show ?thesis using set_chain_table [OF ok ns] assms(2) by (auto simp: tbl_ok_def)
qed

lemma modify_spec:
  assumes "separates eq K" "hm_ok K m" "k \<in> K"
  shows "hm_map (hm_modify eq m k f) = (hm_map m)(k := map_option f (hm_map m k))"
    and "hm_ok K (hm_modify eq m k f)" and "hm_nodes (hm_modify eq m k f) = hm_nodes m"
    and "hm_count (hm_modify eq m k f) = hm_count m"
proof -
  let ?c = "buckets m ! hash_key k" and ?m = "hm_modify eq m k f"
  note eqs = chain_cong [OF assms(1,3) hm_ok_chain(1) [OF assms(2)]]
  have "hm_map ?m = (hm_map m)(k := map_option f (hm_map m k)) \<and> hm_ok K ?m \<and>
    hm_nodes ?m = hm_nodes m \<and> hm_count ?m = hm_count m"
  proof (cases "chain_find (=) k ?c")
    case None
    then have "?m = m" "hm_map m k = None" using eqs(1) by (simp_all add: hm_modify_def hm_map_def Let_def)
    then show ?thesis using assms(2) by (simp add: fun_upd_idem)
  next
    case (Some n)
    then obtain ns where ns: "chain_set (=) k (f (nd_value n)) ?c = Some ns"
      using chain_set_eq_None [of "(=)" k "f (nd_value n)" ?c] by fastforce
    have "?m = m\<lparr>buckets := (buckets m)[hash_key k := ns]\<rparr>" "hm_map m k = Some (nd_value n)"
      using Some ns eqs by (simp_all add: hm_modify_def hm_map_def Let_def)
    then show ?thesis using set_chain_table [OF assms(2) ns] by simp
  qed
  then show "hm_map ?m = (hm_map m)(k := map_option f (hm_map m k))" "hm_ok K ?m"
    "hm_nodes ?m = hm_nodes m" "hm_count ?m = hm_count m" by blast+
qed

lemma insert_absent:
  assumes "separates eq K" "tbl_ok e K m h P" "k \<in> K" "length k \<le> 127" "hm_map m k = None"
  shows "(\<exists>h'. hm_insert eq node_size m k v h = Some (0, m, h') \<and> tbl_ok e K m h' P) \<or>
    (\<exists>p m' h'. hm_insert eq node_size m k v h = Some (1, m', h') \<and> hm_map m' = (hm_map m)(k \<mapsto> v) \<and>
      hm_count m' = hm_count m + 1 \<and> p \<notin> P \<and> set (hm_nodes m') = insert p (set (hm_nodes m)) \<and>
      tbl_ok e K m' h' (insert p P))"
proof -
  have ok: "hm_ok K m" and hp: "heap_ok e h P" and sub: "set (hm_nodes m) \<subseteq> P"
    using assms(2) by (simp_all add: tbl_ok_def)
  note ch = hm_ok_chain [OF ok, of k]
  note eqs = chain_cong [OF assms(1,3) ch(1)]
  have kn: "k \<notin> nd_key ` set (buckets m ! hash_key k)"
    using assms(5) chain_find_eq_None by (fastforce simp: hm_map_def)
  then have none: "chain_set eq k v (buckets m ! hash_key k) = None"
    using eqs by (simp add: chain_set_eq_None chain_find_eq_None)
  show ?thesis
  proof (rule km.alloc_cases [OF hp, of node_size])
    fix h' assume "malloc node_size h = Some (0, h')" "heap_ok e h' P"
    then show ?thesis using none assms(2) by (auto simp: hm_insert_def Let_def tbl_ok_def)
  next
    fix p h' assume p: "malloc node_size h = Some (p, h')" "p \<noteq> 0" "p \<notin> P" "heap_ok e h' (insert p P)"
    let ?n = "\<lparr>nd_addr = p, nd_key = key_copy k, nd_value = v\<rparr>"
    let ?ns = "?n # buckets m ! hash_key k"
    let ?m = "m\<lparr>buckets := (buckets m)[hash_key k := ?ns], hm_count := hm_count m + 1\<rparr>"
    have ins: "hm_insert eq node_size m k v h = Some (1, ?m, h')"
      using none p by (simp add: hm_insert_def Let_def)
    note sp = concat_split_at [OF ch(2)]
    have nodes: "set (hm_nodes ?m) = insert p (set (hm_nodes m))"
      using sp by (auto simp: hm_nodes_def simp del: set_concat)
    have "distinct (map nd_addr (concat ((buckets m)[hash_key k := ?ns])))"
      using sp ok p(3) sub by (auto simp: hm_ok_def hm_nodes_def simp del: set_concat)
    then have "hm_ok K ?m"
      using ch(3) kn assms(3,4) hm_ok_node [OF ok, of _ k] by (intro hm_ok_update [OF ok]) auto
    moreover have "hm_map ?m = (hm_map m)(k \<mapsto> v)"
      using find_update [OF ok, where k = k and ns = ?ns and c = "hm_count m + 1"] assms(4)
      by (auto simp: hm_map_def fun_eq_iff)
    ultimately show ?thesis using ins nodes p sub by (auto simp: tbl_ok_def)
  qed
qed

text \<open>Either way an insertion returns, and what it returns.\<close>

lemma insert_spec:
  assumes "separates eq K" "tbl_ok e K m h P" "k \<in> K" "length k \<le> 127"
  shows "\<exists>r m' h' P'. hm_insert eq node_size m k v h = Some (r, m', h') \<and> tbl_ok e K m' h' P' \<and> P \<subseteq> P' \<and>
    P' - set (hm_nodes m') = P - set (hm_nodes m) \<and>
    (r = 1 \<and> hm_map m' = (hm_map m)(k \<mapsto> v) \<or> r = 0 \<and> m' = m \<and> hm_map m k = None)"
proof (cases "hm_map m k")
  case None
  from insert_absent [OF assms None, of v] show ?thesis
  proof (elim disjE exE conjE)
    fix h' assume "hm_insert eq node_size m k v h = Some (0, m, h')" "tbl_ok e K m h' P"
    then show ?thesis using None by blast
  next
    fix p m' h'
    assume "hm_insert eq node_size m k v h = Some (1, m', h')" "hm_map m' = (hm_map m)(k \<mapsto> v)"
      "p \<notin> P" "set (hm_nodes m') = insert p (set (hm_nodes m))" "tbl_ok e K m' h' (insert p P)"
    moreover from this have "insert p P - set (hm_nodes m') = P - set (hm_nodes m)" by auto
    ultimately show ?thesis by (metis subset_insertI)
  qed
next
  case (Some w)
  then obtain m' where m': "hm_insert eq node_size m k v h = Some (1, m', h)" "hm_map m' = (hm_map m)(k \<mapsto> v)"
    "tbl_ok e K m' h P" "set (hm_nodes m') = set (hm_nodes m)"
    using insert_present [OF assms(1-3)] by (metis option.distinct(1))
  then show ?thesis by (metis order_refl)
qed

lemma delete_spec:
  assumes "separates eq K" "tbl_ok e K m h P" "k \<in> K"
  shows "\<exists>r m' h' P'. hm_delete eq m k h = (r, m', h') \<and> tbl_ok e K m' h' P' \<and>
    hm_map m' = (hm_map m)(k := None) \<and> r = (if hm_map m k = None then 0 else 1) \<and>
    hm_count m' = hm_count m - r \<and> P' \<subseteq> P \<and> P' - set (hm_nodes m') = P - set (hm_nodes m)"
proof (cases "hm_map m k")
  case None
  have ok: "hm_ok K m" using assms(2) by (simp add: tbl_ok_def)
  note eqs = chain_cong [OF assms(1,3) hm_ok_chain(1) [OF ok, of k]]
  have "chain_del eq k (buckets m ! hash_key k) = None"
    using None eqs(1) by (simp add: chain_del_eq_None hm_map_def)
  then show ?thesis using None assms(2) by (auto simp: hm_delete_def Let_def fun_upd_idem)
next
  case (Some w)
  have ok: "hm_ok K m" and hp: "heap_ok e h P" and sub: "set (hm_nodes m) \<subseteq> P"
    using assms(2) by (simp_all add: tbl_ok_def)
  note ch = hm_ok_chain [OF ok, of k]
  note eqs = chain_cong [OF assms(1,3) ch(1)]
  have "chain_del (=) k (buckets m ! hash_key k) \<noteq> None"
    using Some by (auto simp: hm_map_def chain_del_eq_None)
  then obtain a ns where del: "chain_del (=) k (buckets m ! hash_key k) = Some (a, ns)" by auto
  then obtain xs n ys where c: "buckets m ! hash_key k = xs @ n # ys" "ns = xs @ ys" "nd_addr n = a" "nd_key n = k"
    using chain_del_split [OF del] by auto
  let ?m = "m\<lparr>buckets := (buckets m)[hash_key k := ns], hm_count := hm_count m - 1\<rparr>"
  note sp = concat_split_at [OF ch(2)]
  have "distinct (hm_nodes m)" using ok by (simp add: hm_ok_def)
  then have d: "distinct (hm_nodes ?m)" and nodes: "set (hm_nodes ?m) = set (hm_nodes m) - {a}" and a: "a \<in> set (hm_nodes m)"
    using sp c by (auto simp: hm_nodes_def simp del: set_concat)
  have "hm_ok K ?m"
    using ch(3) c d hm_ok_node [OF ok, of _ k] by (intro hm_ok_update [OF ok]) (auto simp: hm_nodes_def)
  moreover have "k \<notin> nd_key ` set ns" using ch(3) c by auto
  then have "hm_map ?m = (hm_map m)(k := None)"
    using find_update [OF ok, where k = k and ns = ns and c = "hm_count m - 1"] c
    by (auto simp: hm_map_def fun_eq_iff chain_find_eq_None chain_find_remove)
  moreover have "heap_ok e (free a h) (P - {a})" using hp sub a by (intro km.dealloc_ok) auto
  moreover have "hm_delete eq m k h = (1, ?m, free a h)"
    using del eqs by (simp add: hm_delete_def Let_def)
  moreover have "P - {a} - set (hm_nodes ?m) = P - set (hm_nodes m)" using nodes a by auto
  ultimately show ?thesis using Some nodes sub by (intro exI [of _ 1] exI [of _ ?m] exI [of _ "free a h"] exI [of _ "P - {a}"]) (auto simp: tbl_ok_def)
qed

text \<open>Whatever the comparison confuses, an operation on \<open>k\<close> is the operation with equality on the key that
  the table files it under.\<close>

lemma aliased:
  fixes m :: "'v hmap"
  assumes "hm_ok K m" and k': "k' = hm_key eq m k"
  shows "hash_key k' = hash_key k" "hm_find eq m k = hm_map m k'"
    "hm_delete eq m k h = hm_delete (=) m k' h" "hm_modify eq m k f = hm_modify (=) m k' f"
    "hm_find eq m k \<noteq> None \<Longrightarrow> k' \<in> K \<and> length k' \<le> 127"
    "hm_find eq m k = None \<Longrightarrow> k' = k \<and> hm_insert eq node_size m k v h = hm_insert (=) node_size m k v h"
proof -
  let ?c = "buckets m ! hash_key k"
  have all: "hash_key k' = hash_key k \<and> hm_find eq m k = hm_map m k' \<and> hm_delete eq m k h = hm_delete (=) m k' h \<and>
    hm_modify eq m k f = hm_modify (=) m k' f \<and> (hm_find eq m k \<noteq> None \<longrightarrow> k' \<in> K \<and> length k' \<le> 127) \<and>
    (hm_find eq m k = None \<longrightarrow> k' = k \<and> hm_insert eq node_size m k v h = hm_insert (=) node_size m k v h)"
  proof (cases "chain_find eq k ?c")
    case None
    have "chain_find (=) k ns = None" if "chain_find eq k ns = None" for ns :: "'v hnode list"
      using that by (induction ns) (auto simp: eq_refl split: if_splits)
    then have n: "chain_find (=) k ?c = None" using None by blast
    then have "chain_del eq k ?c = None" "chain_del (=) k ?c = None" "chain_set eq k w ?c = None" "chain_set (=) k w ?c = None" for w
      using None by (simp_all add: chain_del_eq_None chain_set_eq_None)
    then show ?thesis using None n
      by (simp add: k' hm_key_def hm_find_def hm_map_def hm_delete_def hm_modify_def hm_insert_def Let_def)
  next
    case (Some n)
    note ca = chain_alias [OF hm_ok_chain(3) [OF assms(1)] Some]
    have k: "k' = nd_key n" using Some by (simp add: k' hm_key_def)
    have h: "hash_key k' = hash_key k" "k' \<in> K" "length k' \<le> 127" using hm_ok_node [OF assms(1) ca(4)] k by auto
    then show ?thesis using Some ca(1,2) ca(3) [of "f (nd_value n)"] k
      by (simp add: hm_find_def hm_map_def hm_delete_def hm_modify_def Let_def)
  qed
  then show "hash_key k' = hash_key k" "hm_find eq m k = hm_map m k'"
    "hm_delete eq m k h = hm_delete (=) m k' h" "hm_modify eq m k f = hm_modify (=) m k' f" by blast+
  show "hm_find eq m k \<noteq> None \<Longrightarrow> k' \<in> K \<and> length k' \<le> 127"
    "hm_find eq m k = None \<Longrightarrow> k' = k \<and> hm_insert eq node_size m k v h = hm_insert (=) node_size m k v h"
    using all by blast+
qed

lemma hm_key_id:
  assumes "separates eq K" "hm_ok K m" "k \<in> K"
  shows "hm_key eq m k = k"
  using chain_cong(1) [OF assms(1,3) hm_ok_chain(1) [OF assms(2)], of k] chain_find_key [of k "buckets m ! hash_key k"]
  by (auto simp: hm_key_def split: option.splits)

end

interpretation he: hash_table "(=)" node_size for node_size
  by unfold_locales simp

lemma separates_eq [simp]: "separates (=) K"
  by (simp add: separates_def)

text \<open>Destroying a table frees exactly its nodes and leaves it empty.\<close>

lemma destroy_spec:
  assumes "tbl_ok e K m h P" "hm_destroy m h = (m', h')"
  shows "tbl_ok e K m' h' (P - set (hm_nodes m))" "hm_map m' = Map.empty" "hm_count m' = 0"
  using assms km.dealloc_all [of e h P "hm_nodes m"] hm_init_ok [of K] hm_init_map
  by (auto simp: hm_destroy_def tbl_ok_def hm_ok_def hm_init_def hm_nodes_def)

text \<open>The listing has every key exactly once.\<close>

lemma list_spec:
  assumes "tbl_ok e K m h P" "hm_list m h = Some (p, rows, h')"
  shows "heap_ok e h' (if p = 0 then P else insert p P)"
    and "p \<noteq> 0 \<Longrightarrow> set rows = dom (hm_map m) \<and> distinct rows"
    and "p = 0 \<Longrightarrow> rows = []"
proof -
  have ok: "hm_ok K m" and hp: "heap_ok e h P" using assms(1) by (simp_all add: tbl_ok_def)
  have "length (nd_key n) \<le> 127" if "n \<in> set (concat (buckets m))" for n
    using that hm_ok_in_table [OF ok] hm_ok_node [OF ok] by blast
  then have "map key_copy (hm_keys m) = hm_keys m"
    by (intro map_idI) (auto simp: hm_keys_def simp del: set_concat)
  then show "p \<noteq> 0 \<Longrightarrow> set rows = dom (hm_map m) \<and> distinct rows" "p = 0 \<Longrightarrow> rows = []"
    using assms(2) ok dom_hm_map [OF ok] by (auto simp: hm_list_def hm_ok_def split: if_splits option.splits)
  show "heap_ok e h' (if p = 0 then P else insert p P)"
    using assms(2) km.alloc_null [OF hp] km.alloc_fresh [OF hp] hp
    by (auto simp: hm_list_def split: if_splits option.splits)
qed

end
