(* ===== verification/Strings.thy ===== *)
theory Strings
  imports Prelude
begin

text \<open>
  The string and memory routines of \<^verbatim>\<open>libc/src/string\<close>, on the flat byte memory. A loop over a
  NUL-terminated string is a \<^theory_text>\<open>partial_function (option)\<close>, with None for a loop that never
  ends; a counted loop recurses on the remaining count. \<open>cstr m p s\<close> says that the bytes \<open>s\<close>
  followed by a NUL stand at \<open>p\<close>; the lemmas show what each routine computes on such strings, what
  it writes, and that it writes nothing else.
\<close>

section \<open>The routines\<close>

partial_function (option) strlen_loop :: "mem \<Rightarrow> u32 \<Rightarrow> u32 option" where
  "strlen_loop m ss = (if m ss = 0 then Some ss else strlen_loop m (ss + 1))"

definition strlen :: "mem \<Rightarrow> u32 \<Rightarrow> u32 option" where
  "strlen m s = map_option (\<lambda>ss. ss - s) (strlen_loop m s)"

text \<open>\<^verbatim>\<open>while ((*s++ = *t++)) ;\<close>\<close>

partial_function (option) strcpy_loop :: "mem \<Rightarrow> u32 \<Rightarrow> u32 \<Rightarrow> mem option" where
  "strcpy_loop m s t =
     (if m t = 0 then Some (m(s := m t)) else strcpy_loop (m(s := m t)) (s + 1) (t + 1))"

definition strcpy :: "mem \<Rightarrow> u32 \<Rightarrow> u32 \<Rightarrow> (mem \<times> u32) option" where
  "strcpy m s t = map_option (\<lambda>m'. (m', s)) (strcpy_loop m s t)"

text \<open>\<^verbatim>\<open>strncpy\<close> counts an int down: the first loop copies while \<^verbatim>\<open>n--\<close> is not zero and the
  byte copied is not NUL (a negative count never reaches zero by itself), the second pads while
  \<^verbatim>\<open>n-- > 0\<close>. The first loop yields the memory, the write position and the count it leaves.\<close>

partial_function (option) strncpy_copy :: "mem \<Rightarrow> u32 \<Rightarrow> u32 \<Rightarrow> int \<Rightarrow> (mem \<times> u32 \<times> int) option" where
  "strncpy_copy m s t n =
     (if n = 0 then Some (m, s, n - 1)
      else if m t = 0 then Some (m(s := m t), s + 1, n - 1)
      else strncpy_copy (m(s := m t)) (s + 1) (t + 1) (n - 1))"

function strncpy_pad :: "mem \<Rightarrow> u32 \<Rightarrow> int \<Rightarrow> mem" where
  "strncpy_pad m s n = (if n > 0 then strncpy_pad (m(s := 0)) (s + 1) (n - 1) else m)"
  by pat_completeness auto
termination by (relation "measure (\<lambda>(m, s, n). nat n)") auto

definition strncpy :: "mem \<Rightarrow> u32 \<Rightarrow> u32 \<Rightarrow> int \<Rightarrow> (mem \<times> u32) option" where
  "strncpy m s t n =
     map_option (\<lambda>(m', s', n'). (strncpy_pad m' s' n', s)) (strncpy_copy m s t n)"

definition strcat :: "mem \<Rightarrow> u32 \<Rightarrow> u32 \<Rightarrow> (mem \<times> u32) option" where
  "strcat m s t =
     (case strlen_loop m s of None \<Rightarrow> None
      | Some e \<Rightarrow> map_option (\<lambda>m'. (m', s)) (strcpy_loop m e t))"

definition strncat :: "mem \<Rightarrow> u32 \<Rightarrow> u32 \<Rightarrow> int \<Rightarrow> (mem \<times> u32) option" where
  "strncat m s t n =
     (case strlen_loop m s of None \<Rightarrow> None
      | Some e \<Rightarrow> map_option (\<lambda>(m', _). (m', s)) (strncpy m e t n))"

partial_function (option) strcmp :: "mem \<Rightarrow> u32 \<Rightarrow> u32 \<Rightarrow> int option" where
  "strcmp m s t =
     (if m s = m t then (if m s = 0 then Some 0 else strcmp m (s + 1) (t + 1))
      else Some (schar (m s) - schar (m t)))"

text \<open>\<^verbatim>\<open>for ( ; *s == *t && n--; s++, t++) { if (!*s || !n) return 0; } return *s - *t;\<close>\<close>

partial_function (option) strncmp :: "mem \<Rightarrow> u32 \<Rightarrow> u32 \<Rightarrow> int \<Rightarrow> int option" where
  "strncmp m s t n =
     (if m s = m t \<and> n \<noteq> 0
      then (if m s = 0 \<or> n - 1 = 0 then Some 0 else strncmp m (s + 1) (t + 1) (n - 1))
      else Some (schar (m s) - schar (m t)))"

text \<open>A null result is address 0; \<^verbatim>\<open>*ss == c\<close> compares the sign-extended byte with the int.\<close>

partial_function (option) strchr :: "mem \<Rightarrow> u32 \<Rightarrow> int \<Rightarrow> u32 option" where
  "strchr m ss c =
     (if m ss = 0 then Some (if c = 0 then ss else 0)
      else if schar (m ss) = c then Some ss
      else strchr m (ss + 1) c)"

partial_function (option) strrchr_loop :: "mem \<Rightarrow> u32 \<Rightarrow> u32 \<Rightarrow> int \<Rightarrow> u32 option" where
  "strrchr_loop m s ss c =
     (if ss \<noteq> s then (if schar (m ss) = c then Some ss else strrchr_loop m s (ss - 1) c)
      else Some (if schar (m ss) = c then ss else 0))"

definition strrchr :: "mem \<Rightarrow> u32 \<Rightarrow> int \<Rightarrow> u32 option" where
  "strrchr m s c =
     (case strlen m s of None \<Rightarrow> None | Some n \<Rightarrow> strrchr_loop m s (s + n) c)"

text \<open>\<^verbatim>\<open>memset\<close>, \<^verbatim>\<open>memcpy\<close>, \<^verbatim>\<open>memmove\<close>, \<^verbatim>\<open>memcmp\<close>: the index \<open>i\<close> runs over a size_t count.\<close>

fun memset_loop :: "mem \<Rightarrow> u32 \<Rightarrow> u8 \<Rightarrow> nat \<Rightarrow> nat \<Rightarrow> mem" where
  "memset_loop m buf v i 0 = m"
| "memset_loop m buf v i (Suc k) = memset_loop (m(buf + of_nat i := v)) buf v (Suc i) k"

definition memset :: "mem \<Rightarrow> u32 \<Rightarrow> int \<Rightarrow> u32 \<Rightarrow> mem" where
  "memset m buf value sz = memset_loop m buf (of_int value) 0 (unat sz)"

fun copy_up :: "mem \<Rightarrow> u32 \<Rightarrow> u32 \<Rightarrow> nat \<Rightarrow> nat \<Rightarrow> mem" where
  "copy_up m dst src i 0 = m"
| "copy_up m dst src i (Suc k) =
     copy_up (m(dst + of_nat i := m (src + of_nat i))) dst src (Suc i) k"

fun copy_down :: "mem \<Rightarrow> u32 \<Rightarrow> u32 \<Rightarrow> nat \<Rightarrow> mem" where
  "copy_down m dst src 0 = m"
| "copy_down m dst src (Suc i) = copy_down (m(dst + of_nat i := m (src + of_nat i))) dst src i"

definition memcpy :: "mem \<Rightarrow> u32 \<Rightarrow> u32 \<Rightarrow> u32 \<Rightarrow> mem" where
  "memcpy m dst src sz = copy_up m dst src 0 (unat sz)"

definition memmove :: "mem \<Rightarrow> u32 \<Rightarrow> u32 \<Rightarrow> u32 \<Rightarrow> mem" where
  "memmove m dst src sz =
     (if dst < src then copy_up m dst src 0 (unat sz) else copy_down m dst src (unat sz))"

text \<open>\<^verbatim>\<open>if (a[i] < b[i]) return -1; else if (b[i] > a[i]) return 1;\<close>\<close>

fun memcmp_loop :: "mem \<Rightarrow> u32 \<Rightarrow> u32 \<Rightarrow> nat \<Rightarrow> nat \<Rightarrow> int" where
  "memcmp_loop m a b i 0 = 0"
| "memcmp_loop m a b i (Suc k) =
     (if m (a + of_nat i) < m (b + of_nat i) then -1
      else if m (b + of_nat i) > m (a + of_nat i) then 1
      else memcmp_loop m a b (Suc i) k)"

definition memcmp :: "mem \<Rightarrow> u32 \<Rightarrow> u32 \<Rightarrow> u32 \<Rightarrow> int" where
  "memcmp m a b sz = memcmp_loop m a b 0 (unat sz)"

text \<open>\<^verbatim>\<open>reverse\<close> swaps through int indices; \<open>x = strlen(str) - 1\<close> is a size_t converted to int.\<close>

function reverse_loop :: "mem \<Rightarrow> u32 \<Rightarrow> int \<Rightarrow> int \<Rightarrow> mem" where
  "reverse_loop m str i x =
     (if i < x
      then let y = m (str + of_int i);
               m' = m(str + of_int i := m (str + of_int x));
               m'' = m'(str + of_int x := y)
           in reverse_loop m'' str (i + 1) (x - 1)
      else m)"
  by pat_completeness auto
termination by (relation "measure (\<lambda>(m, str, i, x). nat (x - i))") auto

definition reverse :: "mem \<Rightarrow> u32 \<Rightarrow> mem option" where
  "reverse m str = map_option (\<lambda>n. reverse_loop m str 0 (sint (n - 1))) (strlen m str)"

text \<open>\<^verbatim>\<open>strnlen\<close> of \<^verbatim>\<open>kernel/src/stdlib.c\<close>; the count is bounded, so it always returns.\<close>

fun strnlen_loop :: "mem \<Rightarrow> u32 \<Rightarrow> nat \<Rightarrow> nat \<Rightarrow> nat" where
  "strnlen_loop m p count 0 = count"
| "strnlen_loop m p count (Suc k) =
     (if m p \<noteq> 0 then strnlen_loop m (p + 1) (Suc count) k else count)"

definition strnlen :: "mem \<Rightarrow> u32 \<Rightarrow> u32 \<Rightarrow> u32" where
  "strnlen m s maxlen = of_nat (strnlen_loop m s 0 (unat maxlen))"

declare strncpy_pad.simps [simp del] reverse_loop.simps [simp del]


section \<open>C strings in memory\<close>

primrec cstr :: "mem \<Rightarrow> u32 \<Rightarrow> u8 list \<Rightarrow> bool" where
  "cstr m p [] \<longleftrightarrow> m p = 0"
| "cstr m p (x # xs) \<longleftrightarrow> m p = x \<and> x \<noteq> 0 \<and> cstr m (p + 1) xs"

lemma cstr_iff:
  "cstr m p xs \<longleftrightarrow>
     (\<forall>i<length xs. m (p + of_nat i) = xs ! i \<and> xs ! i \<noteq> 0) \<and> m (p + of_nat (length xs)) = 0"
  by (induction xs arbitrary: p) (auto simp: All_less_Suc2 add.assoc)

lemma cstr_length: "cstr m p xs \<Longrightarrow> length xs < 2 ^ 32"
proof (rule ccontr)
  assume c: "cstr m p xs" and "\<not> length xs < 2 ^ 32"
  then have i: "length xs mod 2 ^ 32 < length xs"
    by (meson leI less_le_trans mod_less_divisor zero_less_numeral zero_less_power)
  have "m (p + of_nat (length xs mod 2 ^ 32)) \<noteq> 0" using c i unfolding cstr_iff by metis
  then show False using c unfolding of_nat_mod_u32 by (simp add: cstr_iff)
qed

lemma cstr_nonzero: "cstr m p xs \<Longrightarrow> 0 \<notin> set xs"
  by (induction xs arbitrary: p) auto

lemma cstr_unique: "cstr m p xs \<Longrightarrow> cstr m p ys \<Longrightarrow> xs = ys"
proof (induction xs arbitrary: p ys)
  case Nil
  then show ?case by (cases ys) auto
next
  case (Cons x xs)
  then show ?case by (cases ys) auto
qed

lemma cstr_frame:
  assumes "\<And>a. a \<in> region p (Suc (length xs)) \<Longrightarrow> m' a = m a"
  shows "cstr m' p xs \<longleftrightarrow> cstr m p xs"
proof -
  have "m' (p + of_nat i) = m (p + of_nat i)" if "i \<le> length xs" for i
    using that by (intro assms) (simp add: region_offset)
  then show ?thesis by (simp add: cstr_iff)
qed

lemma cstr_write_bytes:
  assumes "0 \<notin> set xs" "length xs < 2 ^ 32"
  shows "cstr (write_bytes m p (xs @ [0])) p xs"
proof -
  have w: "write_bytes m p (xs @ [0]) (p + of_nat i) = (xs @ [0]) ! i" if "i \<le> length xs" for i
    using assms that by (intro write_bytes_inside) auto
  show ?thesis using assms(1) w by (auto simp: cstr_iff nth_append dest: nth_mem)
qed

subsection \<open>strlen\<close>

lemma strlen_loop_cstr: "cstr m p xs \<Longrightarrow> strlen_loop m p = Some (p + of_nat (length xs))"
  by (induction xs arbitrary: p) (simp_all add: strlen_loop.simps add.assoc)

lemma strlen_cstr: "cstr m p xs \<Longrightarrow> strlen m p = Some (of_nat (length xs))"
  by (simp add: strlen_def strlen_loop_cstr)

lemma strlen_loop_SomeD:
  assumes "strlen_loop m p = Some e"
  shows "\<exists>xs. cstr m p xs"
proof (rule strlen_loop.raw_induct [where P = "\<lambda>m p e. \<exists>xs. cstr m p xs", OF _ assms])
  fix f m p e
  assume IH: "\<And>m p e. f m p = Some e \<Longrightarrow> \<exists>xs. cstr m p xs"
    and eq: "(if m p = 0 then Some p else f m (p + 1)) = Some e"
  show "\<exists>xs. cstr m p xs"
  proof (cases "m p = 0")
    case True
    then have "cstr m p []" by simp
    then show ?thesis ..
  next
    case False
    then have "f m (p + 1) = Some e" using eq by simp
    then obtain xs where "cstr m (p + 1) xs" using IH by blast
    then have "cstr m p (m p # xs)" using False by simp
    then show ?thesis ..
  qed
qed

text \<open>\<open>strlen\<close> returns exactly on memories that hold a string at the address, and then it
  returns the number of bytes before the NUL; it runs forever otherwise.\<close>

theorem strlen_correct:
  "strlen m p = Some n \<longleftrightarrow> (\<exists>xs. cstr m p xs \<and> n = of_nat (length xs))"
proof
  assume "strlen m p = Some n"
  then obtain e where "strlen_loop m p = Some e" by (auto simp: strlen_def)
  then obtain xs where "cstr m p xs" using strlen_loop_SomeD by blast
  then show "\<exists>xs. cstr m p xs \<and> n = of_nat (length xs)"
    using \<open>strlen m p = Some n\<close> by (auto simp: strlen_cstr)
next
  assume "\<exists>xs. cstr m p xs \<and> n = of_nat (length xs)"
  then show "strlen m p = Some n" by (auto simp: strlen_cstr)
qed

subsection \<open>strcpy, strncpy, strcat, strncat\<close>

lemma region_disjoint_Suc:
  assumes "region s (Suc n) \<inter> region t (Suc k) = {}"
  shows "s \<notin> region t (Suc k)" and "region (s + 1) n \<inter> region (t + 1) k = {}"
  using assms by (auto simp: region_Suc)

lemma strcpy_loop_cstr:
  assumes "cstr m t xs"
    and "region s (Suc (length xs)) \<inter> region t (Suc (length xs)) = {}"
  shows "strcpy_loop m s t = Some (write_bytes m s (xs @ [0]))"
  using assms
proof (induction xs arbitrary: m s t)
  case Nil
  then show ?case by (simp add: strcpy_loop.simps)
next
  case (Cons x xs)
  note d = region_disjoint_Suc [OF Cons.prems(2) [unfolded length_Cons]]
  have "cstr (m(s := x)) (t + 1) xs"
    using Cons.prems(1) d(1) by (subst cstr_frame [where m = m]) (auto simp: region_Suc)
  then have "strcpy_loop (m(s := x)) (s + 1) (t + 1) = Some (write_bytes (m(s := x)) (s + 1) (xs @ [0]))"
    using Cons.IH d(2) by simp
  then show ?case using Cons.prems(1) by (simp add: strcpy_loop.simps [of m s t])
qed

text \<open>\<open>strcpy\<close> of a string onto a disjoint destination returns, stores exactly the string and
  its NUL there, and returns the destination pointer.\<close>

theorem strcpy_correct:
  assumes "cstr m t xs"
    and "region s (Suc (length xs)) \<inter> region t (Suc (length xs)) = {}"
  shows "\<exists>m'. strcpy m s t = Some (m', s) \<and> cstr m' s xs \<and> cstr m' t xs \<and>
    (\<forall>a. a \<notin> region s (Suc (length xs)) \<longrightarrow> m' a = m a)"
proof -
  let ?m = "write_bytes m s (xs @ [0])"
  have out: "?m a = m a" if "a \<notin> region s (Suc (length xs))" for a
    using that by (simp add: write_bytes_outside)
  have "strcpy m s t = Some (?m, s)"
    using strcpy_loop_cstr [OF assms] by (simp add: strcpy_def)
  moreover have "cstr ?m s xs"
    using assms(1) by (intro cstr_write_bytes) (auto dest: cstr_nonzero cstr_length)
  moreover have "cstr ?m t xs"
    using assms out by (subst cstr_frame [where m = m]) auto
  ultimately show ?thesis using out by auto
qed

theorem strcpy_correct_witness:
  "\<exists>m'. strcpy (write_bytes (\<lambda>_. 0) 0x10 [104, 105]) 0x100 0x10 = Some (m', 0x100) \<and>
     cstr m' 0x100 [104, 105]"
  using strcpy_correct [of "write_bytes (\<lambda>_. 0) 0x10 [104, 105]" "0x10" "[104, 105]" "0x100"]
  by (force simp: region_Suc)

lemma strncpy_pad_replicate:
  "strncpy_pad m s n = write_bytes m s (replicate (nat n) 0)"
proof (induction m s n rule: strncpy_pad.induct)
  case (1 m s n)
  show ?case
  proof (cases "n > 0")
    case True
    then have "nat n = Suc (nat (n - 1))" by simp
    then show ?thesis using 1 True by (simp add: strncpy_pad.simps [of m s n])
  next
    case False
    then show ?thesis by (simp add: strncpy_pad.simps [of m s n])
  qed
qed

lemma strncpy_copy_cstr:
  assumes "cstr m t xs"
    and "region s k \<inter> region t (Suc (length xs)) = {}"
  shows "strncpy_copy m s t (int k) =
    (if k \<le> length xs then Some (write_bytes m s (take k xs), s + of_nat k, -1)
     else Some (write_bytes m s (xs @ [0]), s + of_nat (Suc (length xs)), int (k - Suc (length xs))))"
  using assms
proof (induction k arbitrary: m s t xs)
  case 0
  then show ?case by (simp add: strncpy_copy.simps)
next
  case (Suc k)
  note d = region_disjoint_Suc [OF Suc.prems(2)]
  show ?case
  proof (cases xs)
    case Nil
    then show ?thesis using Suc.prems(1) by (simp add: strncpy_copy.simps [of m])
  next
    case (Cons x ys)
    have "cstr (m(s := x)) (t + 1) ys"
      using Suc.prems(1) d(1) Cons by (subst cstr_frame [where m = m]) (auto simp: region_Suc)
    then show ?thesis
      using Suc.IH [of "m(s := x)" "t + 1" ys "s + 1"] Suc.prems(1) d(2) Cons
      by (simp add: strncpy_copy.simps [of m s t] ac_simps)
  qed
qed

lemma write_bytes_append:
  "write_bytes m p (xs @ ys) = write_bytes (write_bytes m p xs) (p + of_nat (length xs)) ys"
  by (induction xs arbitrary: m p) (simp_all add: add.assoc)

text \<open>\<open>strncpy\<close> with a count \<open>k\<close> writes exactly \<open>k\<close> bytes: the first \<open>k\<close> bytes of the source,
  padded with NULs when the source is shorter (so the copy is terminated only in that case).\<close>

theorem strncpy_correct:
  assumes "cstr m t xs"
    and "region s k \<inter> region t (Suc (length xs)) = {}"
  shows "strncpy m s t (int k) =
    Some (write_bytes m s (take k xs @ replicate (k - length xs) 0), s)"
proof (cases "k \<le> length xs")
  case True
  then show ?thesis
    using strncpy_copy_cstr [OF assms] by (simp add: strncpy_def strncpy_pad_replicate)
next
  case False
  then have "replicate (k - length xs) (0 :: u8) = 0 # replicate (k - Suc (length xs)) 0"
    by (metis Suc_diff_Suc not_le replicate_Suc)
  moreover have "nat (int k - (1 + int (length xs))) = k - Suc (length xs)" by arith
  ultimately show ?thesis
    using False strncpy_copy_cstr [OF assms]
    by (simp add: strncpy_def strncpy_pad_replicate write_bytes_append ac_simps)
qed

theorem strncpy_correct_witness:
  "strncpy (write_bytes (\<lambda>_. 0) 0x10 [104, 105]) 0x100 0x10 3 =
     Some (write_bytes (write_bytes (\<lambda>_. 0) 0x10 [104, 105]) 0x100 [104, 105, 0], 0x100)"
  using strncpy_correct [of "write_bytes (\<lambda>_. 0) 0x10 [104, 105]" "0x10" "[104, 105]" "0x100" 3]
  by (simp add: region_Suc region_numeral)

lemma write_bytes_shift_outside:
  assumes "length xs + length bs \<le> 2 ^ 32" "i < length xs"
  shows "write_bytes m (s + of_nat (length xs)) bs (s + of_nat i) = m (s + of_nat i)"
proof (rule write_bytes_outside, rule notI)
  assume "s + of_nat i \<in> region (s + of_nat (length xs)) (length bs)"
  then obtain j where j: "j < length bs" "s + of_nat i = s + of_nat (length xs) + of_nat j"
    by (auto simp: region_iff)
  then have "s + of_nat i = s + of_nat (length xs + j)" by (simp add: add.assoc)
  then have "i = length xs + j" using assms j(1) by (intro offset_inj) auto
  then show False using assms(2) by simp
qed

text \<open>\<open>strcat\<close> appends: on a string \<open>xs\<close> at \<open>s\<close> and a string \<open>ys\<close> at \<open>t\<close> it leaves the string
  \<open>xs @ ys\<close> at \<open>s\<close>, provided the bytes it writes do not overlap the source.\<close>

theorem strcat_correct:
  assumes "cstr m s xs" "cstr m t ys"
    and "region (s + of_nat (length xs)) (Suc (length ys)) \<inter> region t (Suc (length ys)) = {}"
    and "length xs + Suc (length ys) \<le> 2 ^ 32"
  shows "\<exists>m'. strcat m s t = Some (m', s) \<and> cstr m' s (xs @ ys)"
proof -
  let ?e = "s + of_nat (length xs)"
  let ?m = "write_bytes m ?e (ys @ [0])"
  have "strcat m s t = Some (?m, s)"
    using strlen_loop_cstr [OF assms(1)] strcpy_loop_cstr [OF assms(2,3)] by (simp add: strcat_def)
  moreover have "cstr ?m s (xs @ ys)"
  proof -
    have tail: "cstr ?m ?e ys"
      using assms by (intro cstr_write_bytes) (auto dest: cstr_nonzero)
    have pre: "?m (s + of_nat i) = xs ! i" "xs ! i \<noteq> 0" if "i < length xs" for i
      using that assms(1,4) write_bytes_shift_outside [of xs "ys @ [0]" i m s] by (auto simp: cstr_iff)
    have "?m (s + of_nat i) = (xs @ ys) ! i \<and> (xs @ ys) ! i \<noteq> 0" if "i < length xs + length ys" for i
    proof (cases "i < length xs")
      case True
      then show ?thesis using pre by (simp add: nth_append)
    next
      case False
      define j where "j = i - length xs"
      then have j: "i = length xs + j" "j < length ys" using False \<open>i < length xs + length ys\<close> by auto
      then have "?m (?e + of_nat j) = ys ! j \<and> ys ! j \<noteq> 0"
        using tail unfolding cstr_iff by blast
      moreover have "s + of_nat i = ?e + of_nat j" using j by (simp add: add.assoc)
      moreover have "(xs @ ys) ! i = ys ! j" using j by (simp add: nth_append)
      ultimately show ?thesis by (simp only: simp_thms)
    qed
    moreover have "?m (s + of_nat (length xs + length ys)) = 0"
      using tail by (simp add: cstr_iff add.assoc)
    ultimately show ?thesis by (simp add: cstr_iff)
  qed
  ultimately show ?thesis by blast
qed

theorem strcat_correct_witness:
  "\<exists>m'. strcat (write_bytes (write_bytes (\<lambda>_. 0) 0x10 [104, 105]) 0x100 [97]) 0x100 0x10 =
     Some (m', 0x100) \<and> cstr m' 0x100 [97, 104, 105]"
  using strcat_correct [of "write_bytes (write_bytes (\<lambda>_. 0) 0x10 [104, 105]) 0x100 [97]"
      "0x100" "[97]" "0x10" "[104, 105]"]
  by (simp add: region_Suc)

subsection \<open>strcmp, strchr, strrchr\<close>

text \<open>The order \<open>strcmp\<close> uses: the difference of the first two signed characters that differ, the
  end of a string counting as 0.\<close>

fun cmp_bytes :: "u8 list \<Rightarrow> u8 list \<Rightarrow> int" where
  "cmp_bytes [] [] = 0"
| "cmp_bytes [] (y # ys) = - schar y"
| "cmp_bytes (x # xs) [] = schar x"
| "cmp_bytes (x # xs) (y # ys) = (if x = y then cmp_bytes xs ys else schar x - schar y)"

lemma sint_0_iff: "sint (x :: u8) = 0 \<longleftrightarrow> x = 0"
  by (metis sint_0 signed_word_eqI)

lemma strcmp_cstr:
  "cstr m s xs \<Longrightarrow> cstr m t ys \<Longrightarrow> strcmp m s t = Some (cmp_bytes xs ys)"
proof (induction xs ys arbitrary: s t rule: cmp_bytes.induct)
  case 1
  then show ?case by (simp add: strcmp.simps [of m])
next
  case (2 y ys)
  then show ?case by (subst strcmp.simps) auto
next
  case (3 x xs)
  then show ?case by (subst strcmp.simps) auto
next
  case (4 x xs y ys)
  then show ?case by (subst strcmp.simps) auto
qed

lemma cmp_bytes_0: "0 \<notin> set xs \<Longrightarrow> 0 \<notin> set ys \<Longrightarrow> cmp_bytes xs ys = 0 \<longleftrightarrow> xs = ys"
proof (induction xs ys rule: cmp_bytes.induct)
  case (4 x xs y ys)
  then show ?case by (auto dest: signed_word_eqI)
qed (auto simp: sint_0_iff)

text \<open>\<open>strcmp\<close> decides string equality: on two strings in memory it returns, and returns 0
  exactly when their contents are equal.\<close>

theorem strcmp_zero_iff_equal:
  assumes "cstr m s xs" "cstr m t ys"
  shows "\<exists>r. strcmp m s t = Some r \<and> (r = 0 \<longleftrightarrow> xs = ys)"
  using assms strcmp_cstr cmp_bytes_0 cstr_nonzero by blast

theorem strcmp_zero_iff_equal_witness:
  "\<exists>r. strcmp (write_bytes (write_bytes (\<lambda>_. 0) 0x10 [104, 105]) 0x100 [104, 106]) 0x100 0x10 =
     Some r \<and> r \<noteq> 0"
  using strcmp_zero_iff_equal [of "write_bytes (write_bytes (\<lambda>_. 0) 0x10 [104, 105]) 0x100 [104, 106]"
      "0x100" "[104, 106]" "0x10" "[104, 105]"]
  by simp

lemma strchr_cstr:
  "cstr m p xs \<Longrightarrow> strchr m p c =
     Some (if c = 0 then p + of_nat (length xs)
           else case List.find (\<lambda>i. schar (xs ! i) = c) [0..<length xs] of
                  None \<Rightarrow> 0 | Some i \<Rightarrow> p + of_nat i)"
proof (induction xs arbitrary: p)
  case Nil
  then show ?case by (subst strchr.simps) simp
next
  case (Cons x xs)
  have u: "[0..<length (x # xs)] = 0 # map Suc [0..<length xs]"
    by (simp only: map_Suc_upt upt_conv_Cons length_Cons zero_less_Suc)
  have f: "List.find (\<lambda>i. schar ((x # xs) ! i) = c) (map Suc is) =
      map_option Suc (List.find (\<lambda>i. schar (xs ! i) = c) is)" for "is"
    by (induction "is") auto
  show ?case
    using Cons unfolding u
    by (subst strchr.simps) (auto simp: f sint_0_iff add.assoc split: option.splits)
qed

lemma strrchr_loop_spec:
  assumes "k < 2 ^ 32"
  shows "strrchr_loop m s (s + of_nat k) c =
    Some (case List.find (\<lambda>i. schar (m (s + of_nat i)) = c) (rev [0..<Suc k]) of
            None \<Rightarrow> 0 | Some i \<Rightarrow> s + of_nat i)"
  using assms
proof (induction k)
  case 0
  then show ?case by (subst strrchr_loop.simps) simp
next
  case (Suc k)
  have "s + of_nat (Suc k) \<noteq> s"
    using Suc.prems offset_inj [of "Suc k" 0 s] by auto
  moreover have "s + of_nat (Suc k) - 1 = s + of_nat k" by simp
  ultimately show ?case using Suc by (subst strrchr_loop.simps) simp
qed

text \<open>\<open>strrchr\<close> finds the last occurrence: for a non-zero character it returns the address of
  the last position of the string that holds it, or the null pointer if there is none.\<close>

theorem strrchr_last:
  assumes "cstr m p xs" "c \<noteq> 0"
  shows "strrchr m p c =
    Some (case List.find (\<lambda>i. schar (xs ! i) = c) (rev [0..<length xs]) of
            None \<Rightarrow> 0 | Some i \<Rightarrow> p + of_nat i)"
proof -
  have "List.find (\<lambda>i. schar (m (p + of_nat i)) = c) (rev [0..<length xs]) =
      List.find (\<lambda>i. schar (xs ! i) = c) (rev [0..<length xs])"
    using assms(1) by (intro find_cong) (auto simp: cstr_iff)
  then show ?thesis
    using assms strrchr_loop_spec [of "length xs" m p c] cstr_length [OF assms(1)]
    by (simp add: strrchr_def strlen_cstr cstr_iff)
qed

theorem strrchr_last_witness:
  "strrchr (write_bytes (\<lambda>_. 0) 0x10 [47, 97, 47, 98]) 0x10 47 = Some 0x12"
  using strrchr_last [of "write_bytes (\<lambda>_. 0) 0x10 [47, 97, 47, 98]" "0x10" "[47, 97, 47, 98]" 47]
  by (simp add: upt_rec)

subsection \<open>memset, memcpy, memmove, memcmp\<close>

lemma memset_loop_spec:
  assumes "i + k \<le> 2 ^ 32"
  shows "memset_loop m buf v i k = write_bytes m (buf + of_nat i) (replicate k v)"
  using assms by (induction m buf v i k rule: memset_loop.induct) (simp_all add: ac_simps)

lemma memset_spec: "memset m buf v sz = write_bytes m buf (replicate (unat sz) (of_int v))"
  using memset_loop_spec [of 0 "unat sz" m buf "of_int v"] unsigned_less [of sz, where 'a = nat]
  by (simp add: memset_def)

text \<open>Copying upwards reads original bytes as long as no write lands on a byte still to be read,
  copying downwards symmetrically.\<close>

lemma copy_up_spec:
  assumes "i + k \<le> 2 ^ 32"
    and "\<And>j j'. i \<le> j \<Longrightarrow> j < j' \<Longrightarrow> j' < i + k \<Longrightarrow> src + of_nat j' \<noteq> dst + of_nat j"
  shows "(\<forall>j. i \<le> j \<and> j < i + k \<longrightarrow> copy_up m dst src i k (dst + of_nat j) = m (src + of_nat j)) \<and>
    (\<forall>a. (\<forall>j. i \<le> j \<and> j < i + k \<longrightarrow> a \<noteq> dst + of_nat j) \<longrightarrow> copy_up m dst src i k a = m a)"
  using assms
proof (induction m dst src i k rule: copy_up.induct)
  case (1 m dst src i)
  show ?case by auto
next
  case (2 m dst src i k)
  let ?m = "m(dst + of_nat i := m (src + of_nat i))"
  have IH: "(\<forall>j. Suc i \<le> j \<and> j < Suc i + k \<longrightarrow>
        copy_up ?m dst src (Suc i) k (dst + of_nat j) = ?m (src + of_nat j)) \<and>
      (\<forall>a. (\<forall>j. Suc i \<le> j \<and> j < Suc i + k \<longrightarrow> a \<noteq> dst + of_nat j) \<longrightarrow>
        copy_up ?m dst src (Suc i) k a = ?m a)"
    using "2.prems" by (intro "2.IH") auto
  have src: "?m (src + of_nat j) = m (src + of_nat j)" if "i < j" "j < i + Suc k" for j
    using "2.prems"(2) [of i j] that by simp
  have "copy_up ?m dst src (Suc i) k (dst + of_nat i) = ?m (dst + of_nat i)"
  proof (rule IH [THEN conjunct2, rule_format])
    fix j assume "Suc i \<le> j \<and> j < Suc i + k"
    then show "dst + of_nat i \<noteq> dst + of_nat j" using offset_inj [of i j dst] "2.prems"(1) by auto
  qed
  then have first: "copy_up m dst src i (Suc k) (dst + of_nat i) = m (src + of_nat i)" by simp
  have rest: "copy_up m dst src i (Suc k) (dst + of_nat j) = m (src + of_nat j)"
    if "i < j" "j < i + Suc k" for j
    using IH that src [of j] by simp
  show ?case
  proof (intro conjI allI impI)
    fix j assume "i \<le> j \<and> j < i + Suc k"
    then show "copy_up m dst src i (Suc k) (dst + of_nat j) = m (src + of_nat j)"
      using first rest by (cases "j = i") auto
  next
    fix a assume "\<forall>j. i \<le> j \<and> j < i + Suc k \<longrightarrow> a \<noteq> dst + of_nat j"
    then show "copy_up m dst src i (Suc k) a = m a"
      using IH by (auto simp: fun_upd_apply)
  qed
qed

lemma copy_down_spec:
  assumes "k \<le> 2 ^ 32"
    and "\<And>j j'. j' < j \<Longrightarrow> j < k \<Longrightarrow> src + of_nat j' \<noteq> dst + of_nat j"
  shows "(\<forall>j<k. copy_down m dst src k (dst + of_nat j) = m (src + of_nat j)) \<and>
    (\<forall>a. (\<forall>j<k. a \<noteq> dst + of_nat j) \<longrightarrow> copy_down m dst src k a = m a)"
  using assms
proof (induction m dst src k rule: copy_down.induct)
  case (1 m dst src)
  then show ?case by simp
next
  case (2 m dst src i)
  let ?m = "m(dst + of_nat i := m (src + of_nat i))"
  have IH: "(\<forall>j<i. copy_down ?m dst src i (dst + of_nat j) = ?m (src + of_nat j)) \<and>
      (\<forall>a. (\<forall>j<i. a \<noteq> dst + of_nat j) \<longrightarrow> copy_down ?m dst src i a = ?m a)"
    using "2.prems" by (intro "2.IH") auto
  have src: "?m (src + of_nat j) = m (src + of_nat j)" if "j < i" for j
    using "2.prems"(2) [of j i] that by simp
  have "copy_down ?m dst src i (dst + of_nat i) = ?m (dst + of_nat i)"
  proof (rule IH [THEN conjunct2, rule_format])
    fix j assume "j < i"
    then show "dst + of_nat i \<noteq> dst + of_nat j" using offset_inj [of i j dst] "2.prems"(1) by auto
  qed
  then have first: "copy_down m dst src (Suc i) (dst + of_nat i) = m (src + of_nat i)" by simp
  have rest: "copy_down m dst src (Suc i) (dst + of_nat j) = m (src + of_nat j)" if "j < i" for j
    using IH that src [of j] by simp
  show ?case
    using first rest IH by (auto simp: less_Suc_eq fun_upd_apply)
qed

lemma copied_eq_write_bytes:
  assumes "n \<le> 2 ^ 32"
    and "\<forall>j<n. m' (dst + of_nat j) = m (src + of_nat j)"
    and "\<forall>a. (\<forall>j<n. a \<noteq> dst + of_nat j) \<longrightarrow> m' a = m a"
  shows "m' = write_bytes m dst (read_bytes m src n)"
  using assms by (intro write_bytes_eqI) (auto simp: region_iff)

text \<open>C39. \<open>memmove\<close> copies correctly whatever the overlap: if neither block wraps around the address
  space, the destination afterwards holds the bytes the source held before, and no other byte
  changes.\<close>

theorem memmove_correct:
  assumes "unat dst + unat sz \<le> 2 ^ 32" "unat src + unat sz \<le> 2 ^ 32"
  shows "memmove m dst src sz = write_bytes m dst (read_bytes m src (unat sz))"
proof -
  let ?n = "unat sz"
  have n: "?n \<le> 2 ^ 32" using assms by simp
  have d: "unat (dst + of_nat j) = unat dst + j" and s: "unat (src + of_nat j) = unat src + j"
    if "j < ?n" for j using that assms by (auto intro!: unat_add_of_nat)
  show ?thesis
  proof (cases "dst < src")
    case True
    have "src + of_nat j' \<noteq> dst + of_nat j" if "j < j'" "j' < ?n" for j j'
      using that d [of j] s [of j'] True by (auto simp: word_less_nat_alt)
    then show ?thesis
      using copy_up_spec [of 0 ?n src dst m] n True
      by (simp add: memmove_def) (rule copied_eq_write_bytes, auto)
  next
    case False
    have "src + of_nat j' \<noteq> dst + of_nat j" if "j' < j" "j < ?n" for j j'
      using that d [of j] s [of j'] False by (auto simp: word_less_nat_alt)
    then show ?thesis
      using copy_down_spec [of ?n src dst m] n False
      by (simp add: memmove_def) (rule copied_eq_write_bytes, auto)
  qed
qed

theorem memmove_correct_witness:
  "memmove (write_bytes (\<lambda>_. 0) 0x10 [1, 2, 3]) 0x11 0x10 3 =
     write_bytes (write_bytes (\<lambda>_. 0) 0x10 [1, 2, 3]) 0x11 [1, 2, 3]"
  using memmove_correct [of "0x11" 3 "0x10" "write_bytes (\<lambda>_. 0) 0x10 [1, 2, 3]"]
  by (simp add: read_bytes_def upt_rec)

lemma memcpy_correct:
  assumes "region dst (unat sz) \<inter> region src (unat sz) = {}"
  shows "memcpy m dst src sz = write_bytes m dst (read_bytes m src (unat sz))"
proof -
  have n: "unat sz \<le> 2 ^ 32" using unsigned_less [of sz, where 'a = nat] by simp
  have "src + of_nat j' \<noteq> dst + of_nat j" if "j < j'" "j' < unat sz" for j j'
  proof -
    have "dst + of_nat j \<in> region dst (unat sz)" "src + of_nat j' \<in> region src (unat sz)"
      using that by (auto intro!: region_offset)
    then show ?thesis using assms by fastforce
  qed
  then show ?thesis
    using copy_up_spec [of 0 "unat sz" src dst m] n
    by (simp add: memcpy_def) (rule copied_eq_write_bytes, auto)
qed

lemma interval_Suc_left: "{i..<i + Suc k} = insert i {Suc i..<Suc i + k}"
  by auto

lemma memcmp_loop_spec:
  "memcmp_loop m a b i k =
     (if \<exists>j\<in>{i..<i + k}. m (a + of_nat j) < m (b + of_nat j) then -1 else 0)"
  by (induction m a b i k rule: memcmp_loop.induct)
     (simp_all add: interval_Suc_left del: add_Suc_right)

text \<open>What \<open>memcmp\<close> decides: it returns -1 when some byte of the first block is smaller than the
  byte of the second block at the same place, and 0 otherwise. It never returns 1, so a block that
  dominates another bytewise compares as equal to it.\<close>

theorem memcmp_decides_domination:
  "memcmp m a b sz = (if \<forall>j<unat sz. m (b + of_nat j) \<le> m (a + of_nat j) then 0 else -1)"
  by (auto simp: memcmp_def memcmp_loop_spec not_le [symmetric])

theorem memcmp_decides_domination_witness:
  "memcmp (write_bytes (write_bytes (\<lambda>_. 0) 0x10 [113]) 0x20 [97]) 0x10 0x20 1 = 0 \<and>
   memcmp (write_bytes (write_bytes (\<lambda>_. 0) 0x10 [113]) 0x20 [97]) 0x20 0x10 1 = -1"
  using memcmp_decides_domination [of "write_bytes (write_bytes (\<lambda>_. 0) 0x10 [113]) 0x20 [97]" "0x10" "0x20" 1]
    memcmp_decides_domination [of "write_bytes (write_bytes (\<lambda>_. 0) 0x10 [113]) 0x20 [97]" "0x20" "0x10" 1]
  by simp

subsection \<open>reverse, strnlen\<close>

lemma swap_bytes:
  fixes m :: mem
  assumes "i < n" "x < n" "j < n" "n \<le> 2 ^ 32"
  shows "(m(p + of_nat i := m (p + of_nat x), p + of_nat x := m (p + of_nat i))) (p + of_nat j) =
    m (p + of_nat (if j = i then x else if j = x then i else j))"
proof -
  have "p + of_nat j = p + of_nat k \<longleftrightarrow> j = k" if "k < n" for k
    using offset_inj [of j k p] that assms by auto
  then show ?thesis using assms by auto
qed

lemma reverse_loop_spec:
  assumes "0 \<le> i" "x < int n" "n \<le> 2 ^ 32"
  shows "(\<forall>j<n. reverse_loop m p i x (p + of_nat j) =
      m (p + of_int (if i \<le> int j \<and> int j \<le> x then i + x - int j else int j))) \<and>
    (\<forall>a. a \<notin> region p n \<longrightarrow> reverse_loop m p i x a = m a)"
  using assms
proof (induction m p i x rule: reverse_loop.induct)
  case (1 m p i x)
  show ?case
  proof (cases "i < x")
    case False
    have "(if i \<le> int j \<and> int j \<le> x then i + x - int j else int j) = int j" for j
      using False by auto
    then show ?thesis using False by (simp add: reverse_loop.simps [of m p i x])
  next
    case True
    obtain i' x' where ix: "i = int i'" "x = int x'"
      using True "1.prems" by (metis dual_order.trans less_imp_le nonneg_int_cases)
    then have lt: "i' < x'" "x' < n" using True "1.prems" by auto
    define m'' where "m'' = m(p + of_nat i' := m (p + of_nat x'), p + of_nat x' := m (p + of_nat i'))"
    have step: "reverse_loop m p i x = reverse_loop m'' p (i + 1) (x - 1)"
      using True unfolding ix
      by (simp add: reverse_loop.simps [of m p "int i'" "int x'"] m''_def Let_def)
    have sw: "m'' (p + of_nat j) = m (p + of_nat (if j = i' then x' else if j = x' then i' else j))"
      if "j < n" for j unfolding m''_def using swap_bytes [of i' n x' j] lt that "1.prems"(3) by simp
    have IH: "(\<forall>j<n. reverse_loop m'' p (i + 1) (x - 1) (p + of_nat j) =
        m'' (p + of_int (if i + 1 \<le> int j \<and> int j \<le> x - 1 then i + 1 + (x - 1) - int j else int j))) \<and>
      (\<forall>a. a \<notin> region p n \<longrightarrow> reverse_loop m'' p (i + 1) (x - 1) a = m'' a)"
      using "1.IH" [OF True refl refl refl] "1.prems" unfolding m''_def by (simp add: ix)
    have "reverse_loop m p i x (p + of_nat j) =
        m (p + of_int (if i \<le> int j \<and> int j \<le> x then i + x - int j else int j))"
      if j: "j < n" for j
    proof (cases "i' < j \<and> j < x'")
      case True
      define k where "k = i' + x' - j"
      have k: "int i' + int x' - int j = int k" "k < n" "k \<noteq> i'" "k \<noteq> x'"
        using True lt by (auto simp: k_def)
      have "reverse_loop m p i x (p + of_nat j) = m'' (p + of_nat k)"
        using IH j True k(1) unfolding step unfolding ix by simp
      then show ?thesis using True k sw [of k] unfolding ix by simp
    next
      case False
      have "reverse_loop m p i x (p + of_nat j) = m'' (p + of_nat j)"
        using IH j False unfolding step unfolding ix by auto
      then show ?thesis using False sw [of j] j lt unfolding ix by auto
    qed
    moreover have "m'' a = m a" if "a \<notin> region p n" for a
      using that lt by (auto simp: m''_def)
    ultimately show ?thesis using IH unfolding step by simp
  qed
qed

lemma sint_pred_of_nat:
  assumes "n < 2 ^ 31"
  shows "sint ((of_nat n :: u32) - 1) = int n - 1"
proof -
  have "sint ((of_nat n :: u32) - 1) = sint (of_int (int n - 1) :: u32)" by simp
  also have "\<dots> = signed_take_bit 31 (int n - 1)"
    unfolding signed_of_int by simp
  also have "\<dots> = int n - 1"
    using assms by (intro signed_take_bit_int_eq_self) auto
  finally show ?thesis .
qed

text \<open>\<open>reverse\<close> reverses a string in place: a string shorter than \<open>2 ^ 31\<close> bytes becomes its
  reversal, and no byte outside it changes.\<close>

theorem reverse_correct:
  assumes "cstr m p xs" "length xs < 2 ^ 31"
  shows "\<exists>m'. reverse m p = Some m' \<and> cstr m' p (rev xs) \<and>
    (\<forall>a. a \<notin> region p (length xs) \<longrightarrow> m' a = m a)"
proof -
  let ?n = "length xs"
  let ?m = "reverse_loop m p 0 (int ?n - 1)"
  have spec: "(\<forall>j<?n. ?m (p + of_nat j) =
      m (p + of_int (if 0 \<le> int j \<and> int j \<le> int ?n - 1 then 0 + (int ?n - 1) - int j else int j))) \<and>
    (\<forall>a. a \<notin> region p ?n \<longrightarrow> ?m a = m a)"
    using assms(2) by (intro reverse_loop_spec) auto
  have "?m (p + of_nat j) = rev xs ! j \<and> rev xs ! j \<noteq> 0" if "j < ?n" for j
  proof -
    have "?m (p + of_nat j) = m (p + (of_nat ?n - 1 - of_nat j))" using spec that by simp
    moreover have "(of_nat ?n - 1 - of_nat j :: u32) = of_nat (?n - Suc j)"
      using that by (simp add: of_nat_diff)
    ultimately have "?m (p + of_nat j) = m (p + of_nat (?n - Suc j))" by (simp only:)
    then show ?thesis using assms(1) that by (simp add: cstr_iff rev_nth del: of_nat_diff)
  qed
  moreover have "?m (p + of_nat ?n) = 0"
  proof -
    have "p + of_nat ?n \<notin> region p ?n"
      using assms(2) by (intro end_notin_region) simp
    then show ?thesis using spec assms(1) by (simp add: cstr_iff)
  qed
  ultimately have "cstr ?m p (rev xs)" by (simp add: cstr_iff)
  moreover have "reverse m p = Some ?m"
    using assms by (simp add: reverse_def strlen_cstr sint_pred_of_nat)
  ultimately show ?thesis using spec by blast
qed

theorem reverse_correct_witness:
  "\<exists>m'. reverse (write_bytes (\<lambda>_. 0) 0x10 [97, 98, 99]) 0x10 = Some m' \<and> cstr m' 0x10 [99, 98, 97]"
  using reverse_correct [of "write_bytes (\<lambda>_. 0) 0x10 [97, 98, 99]" "0x10" "[97, 98, 99]"]
  by force

lemma strnlen_loop_cstr:
  "cstr m p xs \<Longrightarrow> strnlen_loop m p c k = c + min k (length xs)"
proof (induction k arbitrary: p c xs)
  case (Suc k)
  then show ?case by (cases xs) auto
qed simp

lemma strnlen_cstr: "cstr m p xs \<Longrightarrow> strnlen m p n = of_nat (min (unat n) (length xs))"
  by (simp add: strnlen_def strnlen_loop_cstr)

end
