(* ===== verification/Hashmap.thy ===== *)
theory Hashmap
  imports Buckets Strings
begin

text \<open>
  The folder table (\<^verbatim>\<open>kernel/src/ramfs_hash.c\<close>) and the file table
  (\<^verbatim>\<open>kernel/src/ramfs_hash_file.c\<close>) of the RAM file system, with the entry types of
  \<^verbatim>\<open>kernel/includes/ramfs_types.h\<close>. Both interpret the locale \<open>hash_table\<close>; they differ in the
  comparison of keys. The folder table compares exactly, so it is a map on all names of at most 127
  characters. The file table compares with \<open>memcmp\<close>, which only decides whether one name dominates
  the other character by character; it is a map only on sets of names none of which dominates
  another. The null-pointer guards of the C functions have no counterpart: tables, keys and values
  are HOL values here.
\<close>

section \<open>Entries\<close>

record foder_info =
  di_name :: string
  di_type :: int
  di_ptr :: u32
  di_drive_addr :: int

record file_info =
  fi_name :: string
  fi_type :: int
  fi_length :: int
  fi_ptr :: u32
  fi_drive_addr :: int

abbreviation (input) RAMFS_FOLDER_TYPE_MEM :: int where "RAMFS_FOLDER_TYPE_MEM \<equiv> 0"
abbreviation (input) RAMFS_FOLDER_TYPE_DISK_CLEAN :: int where "RAMFS_FOLDER_TYPE_DISK_CLEAN \<equiv> 1"
abbreviation (input) RAMFS_FOLDER_TYPE_NEW :: int where "RAMFS_FOLDER_TYPE_NEW \<equiv> 2"
abbreviation (input) RAMFS_FOLDER_TYPE_DIRTY :: int where "RAMFS_FOLDER_TYPE_DIRTY \<equiv> 3"
abbreviation (input) RAMFS_TYPE_MEM :: int where "RAMFS_TYPE_MEM \<equiv> 0"
abbreviation (input) RAMFS_TYPE_NEW :: int where "RAMFS_TYPE_NEW \<equiv> 1"
abbreviation (input) RAMFS_TYPE_DIRTY :: int where "RAMFS_TYPE_DIRTY \<equiv> 2"

text \<open>The sizes of the nodes on the 32-bit target: a 128-byte key, the entry and the link.\<close>

definition hash_node_size :: u32 where "hash_node_size = 128 + (128 + 4 + 4 + 4) + 4"

definition file_node_size :: u32 where "file_node_size = 128 + (128 + 4 + 8 + 4 + 4) + 4"


section \<open>The folder table\<close>

text \<open>\<^verbatim>\<open>while (a[i] && b[i]) { if (a[i] != b[i]) return 0; ++i; } return a[i] == b[i];\<close>\<close>

fun ramfs_streq :: "string \<Rightarrow> string \<Rightarrow> bool" where
  "ramfs_streq (a # as) (b # bs) = (if a \<noteq> b then False else ramfs_streq as bs)"
| "ramfs_streq [] [] = True"
| "ramfs_streq [] (b # bs) = False"
| "ramfs_streq (a # as) [] = False"

type_synonym foder_map = "foder_info hmap"

definition ramfs_hashmap_init :: foder_map where
  "ramfs_hashmap_init = hm_init"

definition ramfs_hashmap_insert :: "foder_map \<Rightarrow> string \<Rightarrow> foder_info \<Rightarrow> heap \<Rightarrow> (int \<times> foder_map \<times> heap) option" where
  "ramfs_hashmap_insert m key value h =
     hm_insert ramfs_streq hash_node_size m key (value\<lparr>di_name := key_copy key\<rparr>) h"

definition ramfs_hashmap_find :: "foder_map \<Rightarrow> string \<Rightarrow> foder_info option" where
  "ramfs_hashmap_find m key = hm_find ramfs_streq m key"

definition ramfs_hashmap_delete :: "foder_map \<Rightarrow> string \<Rightarrow> heap \<Rightarrow> int \<times> foder_map \<times> heap" where
  "ramfs_hashmap_delete m key h = hm_delete ramfs_streq m key h"

definition ramfs_hashmap_count :: "foder_map \<Rightarrow> int" where
  "ramfs_hashmap_count m = hm_count m"

definition ramfs_hashmap_list :: "foder_map \<Rightarrow> heap \<Rightarrow> (u32 \<times> string list \<times> heap) option" where
  "ramfs_hashmap_list m h = hm_list m h"

definition ramfs_hashmap_destroy :: "foder_map \<Rightarrow> heap \<Rightarrow> foder_map \<times> heap" where
  "ramfs_hashmap_destroy m h = hm_destroy m h"


section \<open>The file table\<close>

text \<open>\<^verbatim>\<open>memcmp\<close> on the characters of two strings of the same length.\<close>

fun chars_memcmp :: "string \<Rightarrow> string \<Rightarrow> int" where
  "chars_memcmp (a # as) (b # bs) = (if a < b then -1 else if b > a then 1 else chars_memcmp as bs)"
| "chars_memcmp _ _ = 0"

definition file_streq :: "string \<Rightarrow> string \<Rightarrow> bool" where
  "file_streq a b = (if length a \<noteq> length b then False else chars_memcmp a b = 0)"

type_synonym file_map = "file_info hmap"

definition ramfs_file_hashmap_init :: file_map where
  "ramfs_file_hashmap_init = hm_init"

definition ramfs_file_hashmap_insert :: "file_map \<Rightarrow> string \<Rightarrow> file_info \<Rightarrow> heap \<Rightarrow> (int \<times> file_map \<times> heap) option" where
  "ramfs_file_hashmap_insert m key value h =
     hm_insert file_streq file_node_size m key (value\<lparr>fi_name := key_copy key\<rparr>) h"

definition ramfs_file_hashmap_find :: "file_map \<Rightarrow> string \<Rightarrow> file_info option" where
  "ramfs_file_hashmap_find m key = hm_find file_streq m key"

definition ramfs_file_hashmap_delete :: "file_map \<Rightarrow> string \<Rightarrow> heap \<Rightarrow> int \<times> file_map \<times> heap" where
  "ramfs_file_hashmap_delete m key h = hm_delete file_streq m key h"

definition ramfs_file_hashmap_count :: "file_map \<Rightarrow> int" where
  "ramfs_file_hashmap_count m = hm_count m"

definition ramfs_file_hashmap_list :: "file_map \<Rightarrow> heap \<Rightarrow> (u32 \<times> string list \<times> heap) option" where
  "ramfs_file_hashmap_list m h = hm_list m h"

definition ramfs_file_hashmap_destroy :: "file_map \<Rightarrow> heap \<Rightarrow> file_map \<times> heap" where
  "ramfs_file_hashmap_destroy m h = hm_destroy m h"

lemmas foder_defs = ramfs_hashmap_init_def ramfs_hashmap_insert_def ramfs_hashmap_find_def
  ramfs_hashmap_delete_def ramfs_hashmap_count_def ramfs_hashmap_list_def ramfs_hashmap_destroy_def

lemmas file_defs = ramfs_file_hashmap_init_def ramfs_file_hashmap_insert_def ramfs_file_hashmap_find_def
  ramfs_file_hashmap_delete_def ramfs_file_hashmap_count_def ramfs_file_hashmap_list_def
  ramfs_file_hashmap_destroy_def


section \<open>The comparisons\<close>

lemma ramfs_streq_eq: "ramfs_streq a b \<longleftrightarrow> a = b"
  by (induction a b rule: ramfs_streq.induct) auto

text \<open>The string comparison is the memory comparison of \<open>libc\<close> on the two names.\<close>

lemma of_char_less: "a < b \<longleftrightarrow> (of_char a :: u8) < of_char b"
proof -
  have "unat (of_char c :: u8) = of_char c" for c :: char
  proof -
    have "unat (of_char c :: u8) = unat (of_nat (of_char c) :: u8)" by (simp only: of_nat_of_char)
    also have "\<dots> = of_char c mod 2 ^ 8" by (simp only: unat_of_nat) simp
    finally show ?thesis by simp
  qed
  then show ?thesis by (simp add: less_char_def word_less_nat_alt)
qed

lemma chars_memcmp_dominates:
  "length a = length b \<Longrightarrow> chars_memcmp a b = (if list_all2 (\<lambda>x y. y \<le> x) a b then 0 else -1)"
  by (induction a b rule: list_induct2) auto

lemma file_streq_dominates: "file_streq a b \<longleftrightarrow> list_all2 (\<lambda>x y. y \<le> x) a b"
  using chars_memcmp_dominates [of a b] by (auto simp: file_streq_def dest: list_all2_lengthD)

lemma memcmp_chars:
  assumes "cstr m p (map of_char a)" "cstr m q (map of_char b)" "length a = length b"
  shows "memcmp m p q (of_nat (length a)) = chars_memcmp a b"
proof -
  have n: "unat (of_nat (length a) :: u32) = length a"
    using cstr_length [OF assms(1)] by (simp add: unat_of_nat)
  have "m (p + of_nat j) = of_char (a ! j)" "m (q + of_nat j) = of_char (b ! j)" if "j < length a" for j
    using assms that by (simp_all add: cstr_iff)
  then have "memcmp m p q (of_nat (length a)) = (if \<forall>j<length a. b ! j \<le> a ! j then 0 else -1)"
    by (auto simp: memcmp_def memcmp_loop_spec n of_char_less not_less [symmetric])
  then show ?thesis using assms(3) by (simp add: chars_memcmp_dominates list_all2_conv_all_nth)
qed

interpretation fo: hash_table ramfs_streq hash_node_size
  by unfold_locales (simp add: ramfs_streq_eq)

interpretation ff: hash_table file_streq file_node_size
  by unfold_locales (simp add: file_streq_dominates list_all2_refl)


section \<open>The folder table is a map\<close>

lemma foder_separates [simp]: "separates ramfs_streq K"
  by (simp add: separates_def ramfs_streq_eq)

lemma foder_find_map: "hm_ok UNIV m \<Longrightarrow> ramfs_hashmap_find m = hm_map m"
  using fo.find_map [of UNIV m] by (simp add: foder_defs fun_eq_iff)

text \<open>C30. Inserting a folder: on a well-formed table and heap, \<open>ramfs_hashmap_insert\<close> of a name of at
  most 127 characters returns; it either stores the entry (with the name in its name field), so that
  lookups see exactly this update, or reports 0, changes nothing in the table, and that happens only
  for a new name. The table and heap stay well formed and no other block is lost.\<close>

theorem foder_insert_correct:
  assumes "tbl_ok e UNIV m h P" "length key \<le> 127"
  shows "\<exists>r m' h' P'. ramfs_hashmap_insert m key v h = Some (r, m', h') \<and> tbl_ok e UNIV m' h' P' \<and>
    P' - set (hm_nodes m') = P - set (hm_nodes m) \<and>
    (r = 1 \<and> ramfs_hashmap_find m' = (ramfs_hashmap_find m)(key \<mapsto> v\<lparr>di_name := key\<rparr>) \<or>
     r = 0 \<and> m' = m \<and> ramfs_hashmap_find m key = None)"
proof -
  obtain r m' h' P' where
    "hm_insert ramfs_streq hash_node_size m key (v\<lparr>di_name := key\<rparr>) h = Some (r, m', h')"
    "tbl_ok e UNIV m' h' P'" "P' - set (hm_nodes m') = P - set (hm_nodes m)"
    "r = 1 \<and> hm_map m' = (hm_map m)(key \<mapsto> v\<lparr>di_name := key\<rparr>) \<or> r = 0 \<and> m' = m \<and> hm_map m key = None"
    using fo.insert_spec [OF foder_separates assms(1) UNIV_I assms(2), of "v\<lparr>di_name := key\<rparr>"] by blast
  then show ?thesis
    using assms foder_find_map [of m] foder_find_map [of m']
    by (auto simp: ramfs_hashmap_insert_def tbl_ok_def)
qed

lemma demo_table_ok: "tbl_ok 0x200000 UNIV hm_init demo_heap {}"
  using demo_heap_ok by (simp add: tbl_ok_def)

definition demo_entry :: foder_info where
  "demo_entry = \<lparr>di_name = [], di_type = 0, di_ptr = 0x1000, di_drive_addr = 0\<rparr>"

theorem foder_insert_correct_witness:
  "\<exists>r m' h'. ramfs_hashmap_insert hm_init ''home'' demo_entry demo_heap = Some (r, m', h') \<and>
     (r = 1 \<and> ramfs_hashmap_find m' ''home'' = Some (demo_entry\<lparr>di_name := ''home''\<rparr>) \<or> r = 0 \<and> m' = hm_init)"
  using foder_insert_correct [OF demo_table_ok, of "''home''" demo_entry] by fastforce

text \<open>C31. Deleting a folder: \<open>ramfs_hashmap_delete\<close> removes exactly the given name from the table, frees
  its node, decrements the count and reports 1; for an absent name it reports 0 and changes nothing.\<close>

theorem foder_delete_correct:
  assumes "tbl_ok e UNIV m h P"
  shows "\<exists>r m' h' P'. ramfs_hashmap_delete m key h = (r, m', h') \<and> tbl_ok e UNIV m' h' P' \<and>
    ramfs_hashmap_find m' = (ramfs_hashmap_find m)(key := None) \<and>
    r = (if ramfs_hashmap_find m key = None then 0 else 1) \<and>
    ramfs_hashmap_count m' = ramfs_hashmap_count m - r \<and>
    P' - set (hm_nodes m') = P - set (hm_nodes m)"
proof -
  obtain r m' h' P' where "hm_delete ramfs_streq m key h = (r, m', h')"
    "tbl_ok e UNIV m' h' P'" "hm_map m' = (hm_map m)(key := None)"
    "r = (if hm_map m key = None then 0 else 1)" "hm_count m' = hm_count m - r"
    "P' - set (hm_nodes m') = P - set (hm_nodes m)"
    using fo.delete_spec [OF foder_separates assms UNIV_I] by blast
  then show ?thesis
    using assms foder_find_map [of m] foder_find_map [of m']
    by (auto simp: ramfs_hashmap_delete_def ramfs_hashmap_count_def tbl_ok_def)
qed

theorem foder_delete_correct_witness:
  "\<exists>m' h'. ramfs_hashmap_delete hm_init ''home'' demo_heap = (0, m', h') \<and>
     ramfs_hashmap_find m' ''home'' = None"
  using foder_delete_correct [OF demo_table_ok, of "''home''"]
  by (auto simp: foder_find_map)

text \<open>The count and the listing: \<open>ramfs_hashmap_count\<close> is the number of names in the table, and
  when \<open>ramfs_hashmap_list\<close> returns an array its rows are exactly those names, each once.\<close>

theorem foder_list_correct:
  assumes "tbl_ok e UNIV m h P" "ramfs_hashmap_list m h = Some (p, rows, h')" "p \<noteq> 0"
  shows "set rows = dom (ramfs_hashmap_find m) \<and> distinct rows \<and>
    int (length rows) = ramfs_hashmap_count m"
proof -
  have ok: "hm_ok UNIV m" using assms(1) by (simp add: tbl_ok_def)
  have "set rows = dom (hm_map m) \<and> distinct rows"
    using list_spec(2) [OF assms(1)] assms(2,3) by (simp add: ramfs_hashmap_list_def)
  then show ?thesis
    using hm_count_card [OF ok] foder_find_map [OF ok] distinct_card [of rows]
    by (simp add: ramfs_hashmap_count_def)
qed

lemma demo_malloc_node:
  "malloc hash_node_size demo_heap = Some (0x200008, \<lparr>heap_brk = 0x1200000, heap_max = 0x2200000,
     free_list = 0x200118, blk_size = (\<lambda>_. 0)(0x200000 := 0xFFFFF8, 0x200118 := 0xFFFEE0, 0x200000 := 0x110),
     blk_next = (\<lambda>_. 0)(0x200118 := 0)\<rparr>)"
  "\<exists>h. malloc file_node_size demo_heap = Some (0x200008, h)"
  by (simp_all add: demo_heap_eval malloc.simps malloc_loop.simps take_block_def relink_def
      ALIGN_UP_def req_size_def Let_def hash_node_size_def file_node_size_def)

text \<open>A table with the one folder \<^verbatim>\<open>home\<close>, and the listing of it.\<close>

lemma demo_list:
  "\<exists>m h P p rows h'. tbl_ok 0x200000 UNIV m h P \<and> ramfs_hashmap_list m h = Some (p, rows, h') \<and> p \<noteq> 0"
proof -
  obtain h where h: "malloc hash_node_size demo_heap = Some (0x200008, h)"
    using demo_malloc_node(1) by blast
  then have "hm_insert ramfs_streq hash_node_size hm_init ''home'' demo_entry demo_heap \<noteq> Some (0, hm_init, h')" for h'
    by (simp add: hm_insert_def hm_init_def Let_def)
  then obtain p m h2 where m: "hm_insert ramfs_streq hash_node_size hm_init ''home'' demo_entry demo_heap = Some (1, m, h2)"
    "tbl_ok 0x200000 UNIV m h2 {p}" "hm_count m = 1"
    using fo.insert_absent [OF foder_separates demo_table_ok UNIV_I, of "''home''" demo_entry]
    by auto
  have "h2 = h" using m(1) h by (simp add: hm_insert_def hm_init_def Let_def)
  have "\<exists>h'. malloc 128 h = Some (0x200120, h')"
    using h demo_malloc_node(1)
    by (auto simp: malloc.simps malloc_loop.simps take_block_def relink_def ALIGN_UP_def req_size_def Let_def)
  then show ?thesis using m(2,3) \<open>h2 = h\<close> by (fastforce simp: ramfs_hashmap_list_def hm_list_def)
qed

theorem foder_list_correct_witness:
  "\<exists>m h p rows h'. ramfs_hashmap_list m h = Some (p, rows, h') \<and> distinct rows \<and>
     set rows = dom (ramfs_hashmap_find m) \<and> int (length rows) = ramfs_hashmap_count m"
  using demo_list foder_list_correct by metis

text \<open>A name longer than 127 characters is stored cut and is lost at once: the insertion may report
  success, but a lookup of the name afterwards finds nothing.\<close>

theorem foder_long_key_lost:
  assumes "hm_ok UNIV m" "length key > 127" "ramfs_hashmap_insert m key v h = Some (r, m', h')"
  shows "ramfs_hashmap_find m' key = None"
proof -
  let ?c = "buckets m ! hash_key key"
  have none: "chain_find ramfs_streq key ns = None" if "\<forall>n\<in>set ns. length (nd_key n) \<le> 127" for ns :: "foder_info hnode list"
    using that assms(2) by (induction ns) (auto simp: ramfs_streq_eq)
  have old: "\<forall>n\<in>set ?c. length (nd_key n) \<le> 127" using hm_ok_node [OF assms(1)] by blast
  then have "chain_set ramfs_streq key w ?c = None" for w by (simp add: chain_set_eq_None none)
  then have "\<forall>n\<in>set (buckets m' ! hash_key key). length (nd_key n) \<le> 127"
    using assms(3) old hm_ok_chain(2) [OF assms(1), of key]
    by (auto simp: ramfs_hashmap_insert_def hm_insert_def Let_def split: option.splits if_splits)
  then show ?thesis by (simp add: ramfs_hashmap_find_def hm_find_def none)
qed

lemma demo_insert_long:
  "\<exists>r m' h'. ramfs_hashmap_insert hm_init (replicate 128 CHR ''x'') demo_entry demo_heap = Some (r, m', h')"
proof -
  obtain p h' where "malloc hash_node_size demo_heap = Some (p, h')"
    using km.alloc_total [OF demo_heap_ok] by blast
  then show ?thesis
    by (auto simp: ramfs_hashmap_insert_def hm_insert_def hm_init_def Let_def)
qed

theorem foder_long_key_lost_witness:
  "\<exists>r m' h'. ramfs_hashmap_insert hm_init (replicate 128 CHR ''x'') demo_entry demo_heap = Some (r, m', h') \<and>
     ramfs_hashmap_find m' (replicate 128 CHR ''x'') = None"
proof -
  obtain r m' h' where "ramfs_hashmap_insert hm_init (replicate 128 CHR ''x'') demo_entry demo_heap = Some (r, m', h')"
    using demo_insert_long by blast
  then show ?thesis using foder_long_key_lost [OF hm_init_ok, of "replicate 128 CHR ''x''"] by auto
qed

section \<open>The file table is a map up to domination\<close>

text \<open>When two file names are taken for the same: exactly when they have the same length and every
  character of the stored name is at least the one of the name asked for.\<close>

theorem file_streq_iff:
  "file_streq a b \<longleftrightarrow> list_all2 (\<lambda>stored asked. asked \<le> stored) a b"
  by (rule file_streq_dominates)

definition no_confusion :: "string set \<Rightarrow> bool" where
  "no_confusion K \<longleftrightarrow> (\<forall>a\<in>K. \<forall>b\<in>K. list_all2 (\<lambda>x y. y \<le> x) a b \<longrightarrow> a = b)"

lemma file_separates: "no_confusion K \<Longrightarrow> separates file_streq K"
  by (auto simp: separates_def no_confusion_def file_streq_dominates list_all2_refl)

lemma file_find_map: "no_confusion K \<Longrightarrow> hm_ok K m \<Longrightarrow> k \<in> K \<Longrightarrow> ramfs_file_hashmap_find m k = hm_map m k"
  using ff.find_map [OF file_separates] by (simp add: file_defs)

text \<open>A file just inserted is found again: after a successful \<open>ramfs_file_hashmap_insert\<close> of a name of
  at most 127 characters, a lookup of that name returns the inserted entry with that name, even where
  the comparison confuses other names with it.\<close>

theorem file_insert_then_find:
  assumes "ramfs_file_hashmap_insert m key v h = Some (1, m', h')" "length (buckets m) = BUCKETS" "length key \<le> 127"
  shows "ramfs_file_hashmap_find m' key = Some (v\<lparr>fi_name := key\<rparr>)"
  using assms ff.insert_find_same by (simp add: file_defs)

definition demo_file :: file_info where
  "demo_file = \<lparr>fi_name = [], fi_type = 0, fi_length = 0, fi_ptr = 0, fi_drive_addr = 0\<rparr>"

lemma demo_file_insert:
  "\<exists>m h. ramfs_file_hashmap_insert ramfs_file_hashmap_init ''q'' demo_file demo_heap = Some (1, m, h)"
  using demo_malloc_node(2) by (auto simp: file_defs hm_insert_def hm_init_def Let_def)

theorem file_insert_then_find_witness:
  "\<exists>m h. ramfs_file_hashmap_insert ramfs_file_hashmap_init ''q'' demo_file demo_heap = Some (1, m, h) \<and>
     ramfs_file_hashmap_find m ''q'' = Some (demo_file\<lparr>fi_name := ''q''\<rparr>)"
proof -
  obtain m h where m: "ramfs_file_hashmap_insert ramfs_file_hashmap_init ''q'' demo_file demo_heap = Some (1, m, h)"
    using demo_file_insert by blast
  then show ?thesis
    using file_insert_then_find [OF m] by (simp add: file_defs hm_init_def)
qed

text \<open>C32. On names that do not dominate each other the file table is a map: insertion and deletion change
  the lookup of the given name and of no other name of the set.\<close>

theorem file_table_is_map:
  assumes "no_confusion K" "tbl_ok e K m h P" "key \<in> K" "length key \<le> 127" "k' \<in> K"
  shows "\<exists>r m' h'. ramfs_file_hashmap_insert m key v h = Some (r, m', h') \<and>
    ramfs_file_hashmap_find m' k' =
      (if r = 1 \<and> k' = key then Some (v\<lparr>fi_name := key\<rparr>) else ramfs_file_hashmap_find m k') \<and>
    (case ramfs_file_hashmap_delete m key h of (_, m2, _) \<Rightarrow>
      ramfs_file_hashmap_find m2 k' = (if k' = key then None else ramfs_file_hashmap_find m k'))"
proof -
  note sep = file_separates [OF assms(1)]
  obtain r m' h' P' where ins: "hm_insert file_streq file_node_size m key (v\<lparr>fi_name := key\<rparr>) h = Some (r, m', h')"
    "tbl_ok e K m' h' P'"
    "r = 1 \<and> hm_map m' = (hm_map m)(key \<mapsto> v\<lparr>fi_name := key\<rparr>) \<or> r = 0 \<and> m' = m"
    using ff.insert_spec [OF sep assms(2-4), of "v\<lparr>fi_name := key\<rparr>"] by blast
  obtain r2 m2 h2 P2 where del: "hm_delete file_streq m key h = (r2, m2, h2)" "tbl_ok e K m2 h2 P2"
    "hm_map m2 = (hm_map m)(key := None)"
    using ff.delete_spec [OF sep assms(2,3)] by blast
  have f: "ramfs_file_hashmap_find m k' = hm_map m k'" "ramfs_file_hashmap_find m' k' = hm_map m' k'"
    "ramfs_file_hashmap_find m2 k' = hm_map m2 k'"
    using file_find_map [OF assms(1) _ assms(5)] assms(2) ins(2) del(2) by (simp_all add: tbl_ok_def)
  have "ramfs_file_hashmap_insert m key v h = Some (r, m', h')" "ramfs_file_hashmap_delete m key h = (r2, m2, h2)"
    using ins(1) del(1) assms(4) by (simp_all add: ramfs_file_hashmap_insert_def ramfs_file_hashmap_delete_def)
  moreover have "hm_map m' k' = (if r = 1 \<and> k' = key then Some (v\<lparr>fi_name := key\<rparr>) else hm_map m k')"
    using ins(3) by auto
  moreover have "hm_map m2 k' = (if k' = key then None else hm_map m k')" using del(3) by simp
  ultimately show ?thesis
    using f by (intro exI [of _ r] exI [of _ m'] exI [of _ h']) (cases "k' = key"; simp)
qed

theorem file_table_is_map_witness:
  "\<exists>r m' h'. ramfs_file_hashmap_insert hm_init ''a.c'' demo_file demo_heap = Some (r, m', h') \<and>
     ramfs_file_hashmap_find m' ''b.a'' = ramfs_file_hashmap_find hm_init ''b.a''"
proof -
  have nc: "no_confusion {''a.c'', ''b.a''}" by (simp add: no_confusion_def less_eq_char_def)
  have ok: "tbl_ok 0x200000 {''a.c'', ''b.a''} hm_init demo_heap {}"
    using demo_heap_ok by (simp add: tbl_ok_def)
  show ?thesis using file_table_is_map [OF nc ok, of "''a.c''" "''b.a''" demo_file] by auto
qed

text \<open>The confusion is real: in a table that holds only a file \<^verbatim>\<open>q\<close>, looking up \<^verbatim>\<open>a\<close> finds the entry of
  \<^verbatim>\<open>q\<close>, inserting \<^verbatim>\<open>a\<close> overwrites it, and deleting \<^verbatim>\<open>a\<close> deletes \<^verbatim>\<open>q\<close>.\<close>

theorem file_confusion:
  assumes "ramfs_file_hashmap_insert ramfs_file_hashmap_init ''q'' v h = Some (1, m, h1)"
  shows "ramfs_file_hashmap_find m ''a'' = Some (v\<lparr>fi_name := ''q''\<rparr>) \<and>
    (\<exists>m2. ramfs_file_hashmap_insert m ''a'' w h1 = Some (1, m2, h1) \<and>
      ramfs_file_hashmap_find m2 ''q'' = Some (w\<lparr>fi_name := ''a''\<rparr>)) \<and>
    (\<exists>m3 h3. ramfs_file_hashmap_delete m ''a'' h1 = (1, m3, h3) \<and> ramfs_file_hashmap_find m3 ''q'' = None)"
proof -
  have h: "hash_key ''q'' = hash_key ''a''" "hash_key ''a'' < 16"
    by (simp_all add: hash_key_def)
  have eq: "file_streq ''q'' ''a''" "file_streq ''q'' ''q''"
    by (simp_all add: file_streq_def less_char_def)
  obtain p where "buckets m = (replicate 16 [])[hash_key ''a'' :=
      [\<lparr>nd_addr = p, nd_key = ''q'', nd_value = v\<lparr>fi_name := ''q''\<rparr>\<rparr>]]"
    using assms h by (auto simp: file_defs hm_insert_def hm_init_def BUCKETS_def Let_def
        split: option.splits if_splits)
  then show ?thesis
    using h eq by (simp add: file_defs hm_find_def hm_insert_def hm_delete_def Let_def)
qed

theorem file_confusion_witness:
  "\<exists>m h. ramfs_file_hashmap_insert ramfs_file_hashmap_init ''q'' demo_file demo_heap = Some (1, m, h) \<and>
     ramfs_file_hashmap_find m ''a'' = Some (demo_file\<lparr>fi_name := ''q''\<rparr>)"
proof -
  obtain m h where m: "ramfs_file_hashmap_insert ramfs_file_hashmap_init ''q'' demo_file demo_heap = Some (1, m, h)"
    using demo_file_insert by blast
  then show ?thesis using file_confusion [OF m, of demo_file] by blast
qed

end
