(* ===== verification/Uthash.thy ===== *)
theory Uthash
  imports Hashmap
begin

text \<open>
  The parts of \<^verbatim>\<open>kernel/includes/uthash.h\<close> that the kernel uses: string-keyed tables built with
  \<^verbatim>\<open>HASH_ADD_STR\<close>, searched with \<^verbatim>\<open>HASH_FIND_STR\<close> and traversed with \<^verbatim>\<open>HASH_ITER\<close>. A table keeps its
  elements in application order (the \<^verbatim>\<open>prev\<close>/\<^verbatim>\<open>next\<close> list); since the kernel never deletes an element,
  the position in this order stands for the element's address, and a bucket holds the positions of
  its elements in \<^verbatim>\<open>hh_next\<close> order. A null head pointer is the value None. \<^verbatim>\<open>HASH_KEYCMP\<close> is the kernel's
  own \<^verbatim>\<open>memcmp\<close>. The macros allocate on the modelled heap; an operation is None when it does not
  return, which includes \<^verbatim>\<open>uthash_fatal\<close>, the call of \<^verbatim>\<open>exit\<close> that answers a failed allocation.

  \<open>ut_ok\<close> is the table invariant; the lemmas show that adding keeps it through every bucket
  expansion, and that a search finds exactly the element of the given key as long as no two keys in
  use have one hash value and one length and dominate each other character by character.
\<close>

section \<open>Data\<close>

record 'v uelem =
  el_key :: string
  el_hashv :: u32
  el_value :: 'v

record ut_bucket =
  hh_chain :: "nat list"
  bk_count :: u32
  expand_mult :: u32

record 'v ut_table =
  ut_items :: "'v uelem list"
  ut_buckets :: "ut_bucket list"
  ut_buckets_ptr :: u32
  num_buckets :: u32
  log2_num_buckets :: u32
  num_items :: u32
  ideal_chain_maxlen :: u32
  nonideal_items :: u32
  ineff_expands :: u32
  noexpand :: bool

type_synonym 'v uthash = "'v ut_table option"

definition empty_bucket :: ut_bucket where
  "empty_bucket = \<lparr>hh_chain = [], bk_count = 0, expand_mult = 0\<rparr>"

definition sizeof_ut_table :: u32 where "sizeof_ut_table = 44"
definition sizeof_ut_bucket :: u32 where "sizeof_ut_bucket = 12"
definition sizeof_ut_handle :: u32 where "sizeof_ut_handle = 32"

section \<open>Bob Jenkins' hash\<close>

definition HASH_JEN_MIX :: "u32 \<Rightarrow> u32 \<Rightarrow> u32 \<Rightarrow> u32 \<times> u32 \<times> u32" where
  "HASH_JEN_MIX a b c =
     (let a = (a - b - c) XOR drop_bit 13 c; b = (b - c - a) XOR push_bit 8 a; c = (c - a - b) XOR drop_bit 13 b;
          a = (a - b - c) XOR drop_bit 12 c; b = (b - c - a) XOR push_bit 16 a; c = (c - a - b) XOR drop_bit 5 b;
          a = (a - b - c) XOR drop_bit 3 c; b = (b - c - a) XOR push_bit 10 a; c = (c - a - b) XOR drop_bit 15 b
      in (a, b, c))"

text \<open>Four key bytes from position \<open>i\<close> on, as the main loop adds them.\<close>

definition jen_word :: "u8 list \<Rightarrow> nat \<Rightarrow> u32" where
  "jen_word ks i = ucast (ks ! i) + push_bit 8 (ucast (ks ! (i + 1))) + push_bit 16 (ucast (ks ! (i + 2))) +
     push_bit 24 (ucast (ks ! (i + 3)))"

function jen_loop :: "u32 \<Rightarrow> u32 \<Rightarrow> u32 \<Rightarrow> u8 list \<Rightarrow> u32 \<times> u32 \<times> u32 \<times> u8 list" where
  "jen_loop i j hashv ks =
     (if length ks \<ge> 12
      then let (i', j', h') = HASH_JEN_MIX (i + jen_word ks 0) (j + jen_word ks 4) (hashv + jen_word ks 8)
           in jen_loop i' j' h' (drop 12 ks)
      else (i, j, hashv, ks))"
  by pat_completeness auto
termination by (relation "measure (\<lambda>(_, _, _, ks). length ks)") auto

declare jen_loop.simps [simp del]

text \<open>One case of the switch on the number of remaining bytes.\<close>

definition jen_tail :: "u8 list \<Rightarrow> nat \<Rightarrow> nat \<Rightarrow> u32" where
  "jen_tail ks i sh = (if i < length ks then push_bit sh (ucast (ks ! i)) else 0)"

definition HASH_JEN :: "string \<Rightarrow> u32" where
  "HASH_JEN key =
     (let (i, j, h, ks) = jen_loop 0x9e3779b9 0x9e3779b9 0xfeedbeef (map of_char key);
          h' = h + of_nat (length key) + jen_tail ks 10 24 + jen_tail ks 9 16 + jen_tail ks 8 8;
          j' = j + jen_tail ks 7 24 + jen_tail ks 6 16 + jen_tail ks 5 8 + jen_tail ks 4 0;
          i' = i + jen_tail ks 3 24 + jen_tail ks 2 16 + jen_tail ks 1 8 + jen_tail ks 0 0
      in snd (snd (HASH_JEN_MIX i' j' h')))"


section \<open>Operations\<close>

definition HASH_TO_BKT :: "u32 \<Rightarrow> u32 \<Rightarrow> nat" where
  "HASH_TO_BKT hashv num_bkts = unat (hashv AND (num_bkts - 1))"

fun HASH_FIND_IN_BKT :: "'v uelem list \<Rightarrow> nat list \<Rightarrow> string \<Rightarrow> u32 \<Rightarrow> nat option" where
  "HASH_FIND_IN_BKT items [] key hashval = None"
| "HASH_FIND_IN_BKT items (i # is) key hashval =
     (if el_hashv (items ! i) = hashval \<and> length (el_key (items ! i)) = length key \<and>
         chars_memcmp (el_key (items ! i)) key = 0
      then Some i else HASH_FIND_IN_BKT items is key hashval)"

definition HASH_FIND_STR :: "'v uthash \<Rightarrow> string \<Rightarrow> nat option" where
  "HASH_FIND_STR head findstr =
     (case head of None \<Rightarrow> None
      | Some t \<Rightarrow>
          (let hashv = HASH_JEN findstr
           in HASH_FIND_IN_BKT (ut_items t) (hh_chain (ut_buckets t ! HASH_TO_BKT hashv (num_buckets t))) findstr hashv))"

definition HASH_MAKE_TABLE :: "heap \<Rightarrow> ('v ut_table \<times> heap) option" where
  "HASH_MAKE_TABLE h =
     (case malloc sizeof_ut_table h of None \<Rightarrow> None
      | Some (p, h1) \<Rightarrow>
          (if p = 0 then None
           else case malloc (32 * sizeof_ut_bucket) h1 of None \<Rightarrow> None
           | Some (q, h2) \<Rightarrow>
               (if q = 0 then None
                else Some (\<lparr>ut_items = [], ut_buckets = replicate 32 empty_bucket, ut_buckets_ptr = q,
                            num_buckets = 32, log2_num_buckets = 5, num_items = 0, ideal_chain_maxlen = 0,
                            nonideal_items = 0, ineff_expands = 0, noexpand = False\<rparr>, h2))))"

text \<open>Move one element to the new bucket array; the second component counts the non-ideal items.\<close>

definition rehash :: "'v uelem list \<Rightarrow> u32 \<Rightarrow> u32 \<Rightarrow> nat \<Rightarrow> ut_bucket list \<times> u32 \<Rightarrow> ut_bucket list \<times> u32" where
  "rehash items nb ideal i = (\<lambda>(nbs, nonideal).
     (let b = HASH_TO_BKT (el_hashv (items ! i)) nb;
          cnt = bk_count (nbs ! b) + 1;
          over = (cnt > ideal);
          em = expand_mult (nbs ! b)
      in (nbs[b := \<lparr>hh_chain = i # hh_chain (nbs ! b), bk_count = cnt,
                    expand_mult = (if over \<and> cnt > em * ideal then em + 1 else em)\<rparr>],
          if over then nonideal + 1 else nonideal)))"

definition HASH_EXPAND_BUCKETS :: "'v ut_table \<Rightarrow> heap \<Rightarrow> ('v ut_table \<times> heap) option" where
  "HASH_EXPAND_BUCKETS t h =
     (case malloc (sizeof_ut_bucket * num_buckets t * 2) h of None \<Rightarrow> None
      | Some (p, h') \<Rightarrow>
          (if p = 0 then None
           else
             let ideal = drop_bit (unat (log2_num_buckets t + 1)) (num_items t) +
                   (if num_items t AND (num_buckets t * 2 - 1) \<noteq> 0 then 1 else 0);
                 (nbs, nonideal) = fold (rehash (ut_items t) (num_buckets t * 2) ideal)
                   (concat (map hh_chain (ut_buckets t))) (replicate (2 * length (ut_buckets t)) empty_bucket, 0);
                 ineff = (if nonideal > drop_bit 1 (num_items t) then ineff_expands t + 1 else 0)
             in Some (t\<lparr>ideal_chain_maxlen := ideal, nonideal_items := nonideal, num_buckets := num_buckets t * 2,
                       log2_num_buckets := log2_num_buckets t + 1, ut_buckets := nbs, ut_buckets_ptr := p,
                       ineff_expands := ineff, noexpand := noexpand t \<or> ineff > 1\<rparr>,
                     free (ut_buckets_ptr t) h')))"

definition HASH_ADD_TO_BKT :: "nat \<Rightarrow> nat \<Rightarrow> 'v ut_table \<Rightarrow> heap \<Rightarrow> ('v ut_table \<times> heap) option" where
  "HASH_ADD_TO_BKT b i t h =
     (let bk = ut_buckets t ! b;
          cnt = bk_count bk + 1;
          t' = t\<lparr>ut_buckets := (ut_buckets t)[b := bk\<lparr>hh_chain := i # hh_chain bk, bk_count := cnt\<rparr>]\<rparr>
      in if cnt \<ge> (expand_mult bk + 1) * 10 \<and> \<not> noexpand t then HASH_EXPAND_BUCKETS t' h else Some (t', h))"

text \<open>\<^verbatim>\<open>HASH_ADD_STR\<close>: make the table for the first element, append the element to the application
  order, put it at the front of its bucket.\<close>

definition HASH_ADD_STR :: "'v uthash \<Rightarrow> string \<Rightarrow> 'v \<Rightarrow> heap \<Rightarrow> ('v uthash \<times> heap) option" where
  "HASH_ADD_STR head key v h =
     (let hashv = HASH_JEN key;
          add = \<lparr>el_key = key, el_hashv = hashv, el_value = v\<rparr>
      in case (case head of None \<Rightarrow> HASH_MAKE_TABLE h | Some t \<Rightarrow> Some (t, h)) of
           None \<Rightarrow> None
         | Some (t, h1) \<Rightarrow>
             (let t1 = t\<lparr>ut_items := ut_items t @ [add], num_items := num_items t + 1\<rparr>
              in map_option (\<lambda>(t2, h2). (Some t2, h2))
                   (HASH_ADD_TO_BKT (HASH_TO_BKT hashv (num_buckets t1)) (length (ut_items t)) t1 h1)))"

text \<open>A store into the value of element \<open>i\<close>, and the order of \<^verbatim>\<open>HASH_ITER\<close>.\<close>

definition ut_set :: "nat \<Rightarrow> 'v \<Rightarrow> 'v uthash \<Rightarrow> 'v uthash" where
  "ut_set i v head = map_option (\<lambda>t. t\<lparr>ut_items := (ut_items t)[i := (ut_items t ! i)\<lparr>el_value := v\<rparr>]\<rparr>) head"

definition HASH_ITER :: "'v uthash \<Rightarrow> (string \<times> 'v) list" where
  "HASH_ITER head = (case head of None \<Rightarrow> [] | Some t \<Rightarrow> map (\<lambda>e. (el_key e, el_value e)) (ut_items t))"

definition ut_value :: "'v uthash \<Rightarrow> nat \<Rightarrow> 'v" where
  "ut_value head i = el_value (ut_items (the head) ! i)"



section \<open>The table invariant\<close>

definition ut_ok :: "'v ut_table \<Rightarrow> bool" where
  "ut_ok t \<longleftrightarrow> 5 \<le> unat (log2_num_buckets t) \<and> unat (log2_num_buckets t) \<le> 20 \<and>
     unat (num_buckets t) = 2 ^ unat (log2_num_buckets t) \<and> length (ut_buckets t) = unat (num_buckets t) \<and>
     (\<forall>x\<in>set (ut_items t). el_hashv x = HASH_JEN (el_key x)) \<and>
     (\<forall>b<length (ut_buckets t). set (hh_chain (ut_buckets t ! b)) =
        {i. i < length (ut_items t) \<and> HASH_TO_BKT (el_hashv (ut_items t ! i)) (num_buckets t) = b})"

text \<open>The blocks a table owns and may give back.\<close>

definition ut_owns :: "'v uthash \<Rightarrow> u32 set" where
  "ut_owns head = (case head of None \<Rightarrow> {} | Some t \<Rightarrow> {ut_buckets_ptr t})"

definition uth_ok :: "'v uthash \<Rightarrow> bool" where
  "uth_ok head = (case head of None \<Rightarrow> True | Some t \<Rightarrow> ut_ok t)"

lemma HASH_TO_BKT_less: "0 < unat nb \<Longrightarrow> HASH_TO_BKT h nb < unat nb"
proof -
  assume nb: "0 < unat nb"
  have "h AND (nb - 1) \<le> nb - 1" by (rule word_and_le1)
  then have "HASH_TO_BKT h nb \<le> unat (nb - 1)" by (simp add: HASH_TO_BKT_def word_le_nat_alt)
  moreover have "unat (nb - 1) = unat nb - 1" using nb by (intro unat_minus_one) auto
  ultimately show ?thesis using nb by simp
qed

lemma rehash_length [simp]: "length (fst (rehash items nb ideal i st)) = length (fst st)"
  by (cases st) (simp add: rehash_def Let_def)

lemma rehash_chain:
  assumes "\<forall>i. HASH_TO_BKT (el_hashv (items ! i)) nb < length (fst st)" "b < length (fst st)"
  shows "set (hh_chain (fst (rehash items nb ideal i st) ! b)) =
    set (hh_chain (fst st ! b)) \<union> (if HASH_TO_BKT (el_hashv (items ! i)) nb = b then {i} else {})"
  using assms by (cases st) (auto simp: rehash_def Let_def nth_list_update)

lemma rehash_all:
  assumes "\<forall>i. HASH_TO_BKT (el_hashv (items ! i)) nb < length (fst st)" "b < length (fst st)"
  shows "length (fst (fold (rehash items nb ideal) is st)) = length (fst st) \<and>
    set (hh_chain (fst (fold (rehash items nb ideal) is st) ! b)) =
      set (hh_chain (fst st ! b)) \<union> {i \<in> set is. HASH_TO_BKT (el_hashv (items ! i)) nb = b}"
  using assms
proof (induction "is" arbitrary: st)
  case Nil
  then show ?case by simp
next
  case (Cons i "is")
  then show ?case using rehash_chain [OF Cons.prems, of ideal i] by auto
qed

lemma ut_ok_chains:
  assumes "ut_ok t"
  shows "set (concat (map hh_chain (ut_buckets t))) = {..<length (ut_items t)}"
proof -
  have lt: "HASH_TO_BKT h (num_buckets t) < length (ut_buckets t)" for h
    using assms HASH_TO_BKT_less [of "num_buckets t" h] by (simp add: ut_ok_def)
  have c: "set (hh_chain (ut_buckets t ! b)) = {i. i < length (ut_items t) \<and> HASH_TO_BKT (el_hashv (ut_items t ! i)) (num_buckets t) = b}"
    if "b < length (ut_buckets t)" for b
    using assms that by (simp add: ut_ok_def)
  have "set (ut_buckets t) = (!) (ut_buckets t) ` {..<length (ut_buckets t)}" by (auto simp: set_conv_nth)
  then have "set (concat (map hh_chain (ut_buckets t))) = (\<Union>b<length (ut_buckets t). set (hh_chain (ut_buckets t ! b)))"
    by simp
  also have "\<dots> = {..<length (ut_items t)}" using c lt by auto
  finally show ?thesis .
qed

text \<open>A successful allocation of twice the buckets bounds their number.\<close>

lemma bucket_array_bound:
  assumes "unat nb = 2 ^ l" "l \<le> 20" "heap_ok e h P" "malloc (sizeof_ut_bucket * nb * 2) h = Some (p, h1)" "p \<noteq> 0"
  shows "l < 20" "unat (nb * 2) = 2 * 2 ^ l"
proof -
  have le: "(2 :: nat) ^ l \<le> 2 ^ 20" using assms(2) by (intro power_increasing) auto
  then have n: "unat (sizeof_ut_bucket * nb * 2) = 24 * 2 ^ l" and "unat (nb * 2) = 2 * 2 ^ l"
    using assms(1) by (simp_all add: sizeof_ut_bucket_def unat_word_ariths)
  then show "unat (nb * 2) = 2 * 2 ^ l" by blast
  have "24 * 2 ^ l \<le> (2 :: nat) ^ 24 - 8" using malloc_at_most_pool [OF assms(3-5)] n le by simp
  then have "(2 :: nat) ^ l < 2 ^ 20" by simp
  then show "l < 20" by (rule power_less_imp_less_exp [rotated]) simp
qed

text \<open>Expansion keeps the invariant.\<close>

lemma expand_spec:
  assumes "ut_ok t" "heap_ok e h P" "ut_buckets_ptr t \<in> P"
  shows "case HASH_EXPAND_BUCKETS t h of
      None \<Rightarrow> True
    | Some (t', h') \<Rightarrow> ut_ok t' \<and> ut_items t' = ut_items t \<and>
        (\<exists>P'. heap_ok e h' P' \<and> ut_buckets_ptr t' \<in> P' \<and> ut_buckets_ptr t' \<notin> P \<and> P - {ut_buckets_ptr t} \<subseteq> P')"
proof -
  let ?l = "unat (log2_num_buckets t)" and ?n = "sizeof_ut_bucket * num_buckets t * 2" and ?nb = "num_buckets t * 2"
  have l: "5 \<le> ?l" "?l \<le> 20" "unat (num_buckets t) = 2 ^ ?l" using assms(1) by (auto simp: ut_ok_def)
  show ?thesis
  proof (cases "HASH_EXPAND_BUCKETS t h")
    case (Some r)
    then obtain p h1 where m: "malloc ?n h = Some (p, h1)" "p \<noteq> 0"
      by (auto simp: HASH_EXPAND_BUCKETS_def split: option.splits if_splits)
    have f: "p \<notin> P" "heap_ok e h1 (insert p P)" using km.alloc_fresh [OF assms(2) m] by auto
    have fr: "heap_ok e (free (ut_buckets_ptr t) h1) (insert p P - {ut_buckets_ptr t})"
      using km.dealloc_ok [OF f(2)] assms(3) by blast
    note l' = bucket_array_bound(1) [OF l(3,2) assms(2) m] and n = bucket_array_bound(2) [OF l(3,2) assms(2) m]
    from l' have lg: "unat (log2_num_buckets t + 1) = Suc ?l" by (simp add: unat_word_ariths)
    let ?st = "(replicate (2 * length (ut_buckets t)) empty_bucket, 0 :: u32)"
    have len: "length (fst ?st) = unat ?nb" using n l(3) assms(1) by (simp add: ut_ok_def)
    have bk: "\<forall>i. HASH_TO_BKT (el_hashv (ut_items t ! i)) ?nb < length (fst ?st)"
      using HASH_TO_BKT_less [of ?nb] n len by simp
    obtain ideal nbs nonideal ineff where t':
      "r = (t\<lparr>ideal_chain_maxlen := ideal, nonideal_items := nonideal, num_buckets := ?nb,
          log2_num_buckets := log2_num_buckets t + 1, ut_buckets := nbs, ut_buckets_ptr := p,
          ineff_expands := ineff, noexpand := noexpand t \<or> ineff > 1\<rparr>, free (ut_buckets_ptr t) h1)"
      "fold (rehash (ut_items t) ?nb ideal) (concat (map hh_chain (ut_buckets t))) ?st = (nbs, nonideal)"
      using Some m by (auto simp: HASH_EXPAND_BUCKETS_def Let_def split: prod.splits)
    have c: "length nbs = length (fst ?st) \<and> set (hh_chain (nbs ! b)) =
        {i. i < length (ut_items t) \<and> HASH_TO_BKT (el_hashv (ut_items t ! i)) ?nb = b}" if "b < length (fst ?st)" for b
      using rehash_all [OF bk that, of ideal "concat (map hh_chain (ut_buckets t))"] that
      unfolding t'(2) ut_ok_chains [OF assms(1)] by (simp add: empty_bucket_def)
    have "0 < length (fst ?st)" using len n by simp
    then have "length nbs = length (fst ?st)" using c by blast
    then have "ut_ok (fst r)"
      using assms(1) c lg l l' n len t'(1) by (auto simp: ut_ok_def)
    moreover have "ut_items (fst r) = ut_items t" "ut_buckets_ptr (fst r) = p" using t'(1) by simp_all
    moreover have "snd r = free (ut_buckets_ptr t) h1" using t'(1) by simp
    moreover have "p \<in> insert p P - {ut_buckets_ptr t}" using f(1) assms(3) by auto
    ultimately show ?thesis using fr f(1) Some by (cases r) (auto intro!: exI [of _ "insert p P - {ut_buckets_ptr t}"])
  qed simp
qed


section \<open>Adding and finding\<close>

lemma make_table_spec:
  assumes "heap_ok e h P"
  shows "case HASH_MAKE_TABLE h of None \<Rightarrow> True
    | Some (t :: 'v ut_table, h') \<Rightarrow> ut_ok t \<and> ut_items t = [] \<and>
        (\<exists>P'. heap_ok e h' P' \<and> ut_buckets_ptr t \<in> P' \<and> ut_buckets_ptr t \<notin> P \<and> P \<subseteq> P')"
proof (cases "HASH_MAKE_TABLE h :: ('v ut_table \<times> heap) option")
  case (Some r)
  then obtain p h1 q h2 where m: "malloc sizeof_ut_table h = Some (p, h1)" "p \<noteq> 0"
    "malloc (32 * sizeof_ut_bucket) h1 = Some (q, h2)" "q \<noteq> 0"
    by (auto simp: HASH_MAKE_TABLE_def split: option.splits if_splits)
  have "q \<notin> insert p P" "heap_ok e h2 (insert q (insert p P))"
    using km.alloc_fresh [OF assms m(1,2)] km.alloc_fresh [OF _ m(3,4)] by auto
  moreover have "HASH_TO_BKT hv 32 < 32" for hv using HASH_TO_BKT_less [of 32 hv] by simp
  ultimately show ?thesis
    using Some m by (auto simp: HASH_MAKE_TABLE_def ut_ok_def empty_bucket_def
        intro!: exI [of _ "insert q (insert p P)"])
qed simp

lemma add_to_bkt_ok:
  assumes "ut_ok t" "t1 = t\<lparr>ut_items := ut_items t @ [\<lparr>el_key = key, el_hashv = HASH_JEN key, el_value = v\<rparr>], num_items := n\<rparr>"
    and "b = HASH_TO_BKT (HASH_JEN key) (num_buckets t)"
  shows "ut_ok (t1\<lparr>ut_buckets := (ut_buckets t1)[b := (ut_buckets t1 ! b)\<lparr>hh_chain := length (ut_items t) # hh_chain (ut_buckets t1 ! b), bk_count := c\<rparr>]\<rparr>)"
proof -
  let ?it = "ut_items t @ [\<lparr>el_key = key, el_hashv = HASH_JEN key, el_value = v\<rparr>]"
  have old: "set (hh_chain (ut_buckets t ! k)) = {i. i < length (ut_items t) \<and> HASH_TO_BKT (el_hashv (ut_items t ! i)) (num_buckets t) = k}"
    if "k < length (ut_buckets t)" for k
    using assms(1) that by (simp add: ut_ok_def)
  have new: "{i. i < length ?it \<and> HASH_TO_BKT (el_hashv (?it ! i)) (num_buckets t) = k} =
      {i. i < length (ut_items t) \<and> HASH_TO_BKT (el_hashv (ut_items t ! i)) (num_buckets t) = k} \<union>
      (if b = k then {length (ut_items t)} else {})" for k
    using assms(3) by (auto simp: nth_append less_Suc_eq)
  have "set (hh_chain ((ut_buckets t)[b := (ut_buckets t ! b)\<lparr>hh_chain := length (ut_items t) # hh_chain (ut_buckets t ! b), bk_count := c\<rparr>] ! k)) =
      {i. i < length ?it \<and> HASH_TO_BKT (el_hashv (?it ! i)) (num_buckets t) = k}" if "k < length (ut_buckets t)" for k
    unfolding new using old [OF that] that by (auto simp: nth_list_update)
  moreover have "\<forall>x\<in>set ?it. el_hashv x = HASH_JEN (el_key x)" using assms(1) by (auto simp: ut_ok_def)
  ultimately show ?thesis using assms(1) unfolding ut_ok_def assms(2) by simp
qed

lemma add_spec:
  assumes "uth_ok head" "heap_ok e h P" "ut_owns head \<subseteq> P"
  shows "case HASH_ADD_STR head key v h of None \<Rightarrow> True
    | Some (head', h') \<Rightarrow> uth_ok head' \<and> HASH_ITER head' = HASH_ITER head @ [(key, v)] \<and> head' \<noteq> None \<and>
        (\<exists>P'. heap_ok e h' P' \<and> ut_owns head' \<subseteq> P' - (P - ut_owns head) \<and> P - ut_owns head \<subseteq> P')"
proof (cases "HASH_ADD_STR head key v h")
  case (Some r)
  let ?el = "\<lparr>el_key = key, el_hashv = HASH_JEN key, el_value = v\<rparr>"
  obtain t h1 where t: "(case head of None \<Rightarrow> HASH_MAKE_TABLE h | Some t \<Rightarrow> Some (t, h)) = Some (t, h1)"
    using Some by (cases "case head of None \<Rightarrow> HASH_MAKE_TABLE h | Some t \<Rightarrow> Some (t, h)") (auto simp: HASH_ADD_STR_def Let_def)
  have it: "HASH_ITER head = HASH_ITER (Some t)" "ut_ok t"
    and "\<exists>P1. heap_ok e h1 P1 \<and> ut_buckets_ptr t \<in> P1 \<and> ut_buckets_ptr t \<notin> P - ut_owns head \<and> P - ut_owns head \<subseteq> P1"
    using t assms make_table_spec [OF assms(2), where ?'v = 'a]
    by (auto simp: uth_ok_def ut_owns_def HASH_ITER_def split: option.splits)
  then obtain P1 where P1: "heap_ok e h1 P1" "ut_buckets_ptr t \<in> P1" "ut_buckets_ptr t \<notin> P - ut_owns head" "P - ut_owns head \<subseteq> P1"
    by blast
  define t1 where "t1 = t\<lparr>ut_items := ut_items t @ [?el], num_items := num_items t + 1\<rparr>"
  define b where "b = HASH_TO_BKT (HASH_JEN key) (num_buckets t)"
  define t2 where "t2 = t1\<lparr>ut_buckets := (ut_buckets t1)[b := (ut_buckets t1 ! b)\<lparr>hh_chain := length (ut_items t) # hh_chain (ut_buckets t1 ! b),
    bk_count := bk_count (ut_buckets t1 ! b) + 1\<rparr>]\<rparr>"
  have ok: "ut_ok t2" unfolding t2_def by (rule add_to_bkt_ok [OF it(2) t1_def b_def])
  have ptr: "ut_buckets_ptr t2 = ut_buckets_ptr t" "ut_items t2 = ut_items t @ [?el]" by (simp_all add: t2_def t1_def)
  have "num_buckets t1 = num_buckets t" by (simp add: t1_def)
  then obtain t' h' where r: "r = (Some t', h')"
    and "HASH_ADD_TO_BKT b (length (ut_items t)) t1 h1 = Some (t', h')"
    using Some t by (auto simp: HASH_ADD_STR_def Let_def t1_def b_def)
  then have "(t', h') = (t2, h1) \<or> HASH_EXPAND_BUCKETS t2 h1 = Some (t', h')"
    by (auto simp: HASH_ADD_TO_BKT_def Let_def t2_def split: if_splits)
  then have "ut_ok t' \<and> ut_items t' = ut_items t2 \<and> (\<exists>P'. heap_ok e h' P' \<and> ut_buckets_ptr t' \<in> P' \<and>
      ut_buckets_ptr t' \<notin> P - ut_owns head \<and> P - ut_owns head \<subseteq> P')"
    using ok ptr P1 expand_spec [OF ok P1(1)] by (auto split: option.splits)
  then show ?thesis
    using Some r it ptr by (auto simp: uth_ok_def ut_owns_def HASH_ITER_def)
qed simp


section \<open>The dictionary interface\<close>

text \<open>What the environment and the command registry rely on: over a set \<open>K\<close> of keys, an ordered list of
  entries with distinct keys, a search that finds the position of a key, and a store into a position.\<close>

locale dictionary =
  fixes look :: "'d \<Rightarrow> string \<Rightarrow> nat option"
    and entries :: "'d \<Rightarrow> (string \<times> 'v) list"
    and store :: "nat \<Rightarrow> 'v \<Rightarrow> 'd \<Rightarrow> 'd"
    and ok :: "'d \<Rightarrow> bool"
    and K :: "string set"
  assumes look_iff: "ok d \<Longrightarrow> k \<in> K \<Longrightarrow> look d k = Some i \<longleftrightarrow> i < length (entries d) \<and> fst (entries d ! i) = k"
    and ok_distinct: "ok d \<Longrightarrow> distinct (map fst (entries d))"
    and entries_store: "ok d \<Longrightarrow> i < length (entries d) \<Longrightarrow> entries (store i v d) = (entries d)[i := (fst (entries d ! i), v)]"
    and store_ok: "ok d \<Longrightarrow> i < length (entries d) \<Longrightarrow> ok (store i v d)"
begin

lemma look_Some:
  assumes "ok d" "k \<in> K" "look d k = Some i"
  shows "i < length (entries d)" "map_of (entries d) k = Some (snd (entries d ! i))"
proof -
  show l: "i < length (entries d)" using look_iff [OF assms(1,2)] assms(3) by blast
  have "entries d ! i = (k, snd (entries d ! i))" using look_iff [OF assms(1,2)] assms(3) by (metis prod.collapse)
  then have "(k, snd (entries d ! i)) \<in> set (entries d)" using l by (metis nth_mem)
  then show "map_of (entries d) k = Some (snd (entries d ! i))" using ok_distinct [OF assms(1)] by (simp add: map_of_is_SomeI)
qed

lemma look_None:
  assumes "ok d" "k \<in> K"
  shows "look d k = None \<longleftrightarrow> map_of (entries d) k = None"
proof
  assume none: "look d k = None"
  show "map_of (entries d) k = None"
  proof (rule ccontr)
    assume "map_of (entries d) k \<noteq> None"
    then obtain v where "(k, v) \<in> set (entries d)" by (auto dest: map_of_SomeD)
    then obtain i where "i < length (entries d)" "entries d ! i = (k, v)" by (auto simp: in_set_conv_nth)
    then show False using look_iff [OF assms, of i] none by simp
  qed
next
  show "map_of (entries d) k = None \<Longrightarrow> look d k = None" using look_Some [OF assms] by (cases "look d k") auto
qed

lemma store_map:
  assumes "ok d" "k \<in> K" "look d k = Some i"
  shows "map_of (entries (store i v d)) = (map_of (entries d))(k \<mapsto> v)"
proof -
  have i: "i < length (entries d)" "fst (entries d ! i) = k" using look_iff [OF assms(1,2)] assms(3) by auto
  have keys: "map fst ((entries d)[i := (k, v)]) = map fst (entries d)"
    using i by (simp add: map_update list_update_same_conv)
  have d: "distinct (map fst ((entries d)[i := (k, v)]))" unfolding keys using ok_distinct [OF assms(1)] .
  have "map_of ((entries d)[i := (k, v)]) x = ((map_of (entries d))(k \<mapsto> v)) x" for x
  proof (cases "x = k")
    case True
    have "(k, v) \<in> set ((entries d)[i := (k, v)])" using i by (simp add: set_update_memI)
    then show ?thesis using True d by (simp add: map_of_is_SomeI)
  next
    case False
    have "(x, w) \<in> set ((entries d)[i := (k, v)]) \<longleftrightarrow> (x, w) \<in> set (entries d)" for w
      using False i by (auto simp: in_set_conv_nth nth_list_update) (metis fst_conv)
    then have "map_of ((entries d)[i := (k, v)]) x = Some w \<longleftrightarrow> map_of (entries d) x = Some w" for w
      using d ok_distinct [OF assms(1)] by (simp add: map_of_eq_Some_iff)
    then have "map_of ((entries d)[i := (k, v)]) x = map_of (entries d) x" by (metis option.exhaust)
    then show ?thesis using False by simp
  qed
  then show ?thesis using i entries_store [OF assms(1) i(1), of v] by auto
qed

end

text \<open>Keys that the search tells apart.\<close>

definition ut_sep :: "string set \<Rightarrow> bool" where
  "ut_sep K \<longleftrightarrow> (\<forall>a\<in>K. \<forall>b\<in>K. HASH_JEN a = HASH_JEN b \<and> list_all2 (\<lambda>x y. y \<le> x) a b \<longrightarrow> a = b)"

definition ut_dict :: "string set \<Rightarrow> 'v uthash \<Rightarrow> bool" where
  "ut_dict K d \<longleftrightarrow> ut_sep K \<and> uth_ok d \<and> fst ` set (HASH_ITER d) \<subseteq> K \<and> distinct (map fst (HASH_ITER d))"

lemma find_in_bkt_Some:
  "HASH_FIND_IN_BKT items is key hv = Some i \<Longrightarrow> i \<in> set is \<and> el_hashv (items ! i) = hv \<and>
     list_all2 (\<lambda>x y. y \<le> x) (el_key (items ! i)) key"
  by (induction "is") (auto simp: chars_memcmp_dominates split: if_splits)

lemma find_in_bkt_None:
  "HASH_FIND_IN_BKT items is key hv = None \<Longrightarrow> i \<in> set is \<Longrightarrow> \<not> (el_hashv (items ! i) = hv \<and> el_key (items ! i) = key)"
  by (induction "is") (auto simp: chars_memcmp_dominates list_all2_refl split: if_splits)

lemma HASH_FIND_STR_iff:
  assumes "ut_dict K d" "k \<in> K"
  shows "HASH_FIND_STR d k = Some i \<longleftrightarrow> i < length (HASH_ITER d) \<and> fst (HASH_ITER d ! i) = k"
proof (cases d)
  case None
  then show ?thesis by (simp add: HASH_FIND_STR_def HASH_ITER_def)
next
  case (Some t)
  have ok: "ut_ok t" using assms Some by (simp add: ut_dict_def uth_ok_def)
  have hv: "el_hashv (ut_items t ! j) = HASH_JEN (el_key (ut_items t ! j))" if "j < length (ut_items t)" for j
    using ok that by (simp add: ut_ok_def)
  have inK: "el_key (ut_items t ! j) \<in> K" if "j < length (ut_items t)" for j
    using assms(1) nth_mem [OF that] Some by (force simp: ut_dict_def HASH_ITER_def)
  let ?b = "HASH_TO_BKT (HASH_JEN k) (num_buckets t)"
  let ?c = "hh_chain (ut_buckets t ! ?b)"
  have "?b < length (ut_buckets t)" using ok HASH_TO_BKT_less [of "num_buckets t"] by (simp add: ut_ok_def)
  then have c: "set ?c = {i. i < length (ut_items t) \<and> HASH_TO_BKT (el_hashv (ut_items t ! i)) (num_buckets t) = ?b}"
    using ok by (simp add: ut_ok_def)
  have find: "HASH_FIND_STR d k = HASH_FIND_IN_BKT (ut_items t) ?c k (HASH_JEN k)"
    using Some by (simp add: HASH_FIND_STR_def Let_def)
  have sep: "a = b" if "a \<in> K" "b \<in> K" "HASH_JEN a = HASH_JEN b" "list_all2 (\<lambda>x y. y \<le> x) a b" for a b
    using assms(1) that unfolding ut_dict_def ut_sep_def by blast
  have sound: "j < length (ut_items t) \<and> el_key (ut_items t ! j) = k" if "HASH_FIND_STR d k = Some j" for j
  proof -
    have f: "j \<in> set ?c" "el_hashv (ut_items t ! j) = HASH_JEN k" "list_all2 (\<lambda>x y. y \<le> x) (el_key (ut_items t ! j)) k"
      using find_in_bkt_Some [of "ut_items t" ?c k "HASH_JEN k" j] that find by simp_all
    then have j: "j < length (ut_items t)" using c by simp
    then show ?thesis using sep [OF inK [OF j] assms(2)] f hv [OF j] by simp
  qed
  have complete: "HASH_FIND_STR d k \<noteq> None" if "el_key (ut_items t ! i) = k" "i < length (ut_items t)"
  proof -
    have "el_hashv (ut_items t ! i) = HASH_JEN k" using hv [OF that(2)] that(1) by simp
    moreover have "i \<in> set ?c" unfolding c using calculation that(2) by simp
    ultimately show ?thesis using find_in_bkt_None [of "ut_items t" ?c k "HASH_JEN k" i] find that(1) by auto
  qed
  have unique: "i = j" if "i < length (ut_items t)" "j < length (ut_items t)" "el_key (ut_items t ! i) = el_key (ut_items t ! j)" for j
    using assms(1) that Some by (auto simp: ut_dict_def HASH_ITER_def comp_def distinct_conv_nth)
  have iter: "length (HASH_ITER d) = length (ut_items t)" "i < length (ut_items t) \<Longrightarrow> fst (HASH_ITER d ! i) = el_key (ut_items t ! i)"
    using Some by (simp_all add: HASH_ITER_def)
  show ?thesis
  proof
    assume "HASH_FIND_STR d k = Some i"
    then show "i < length (HASH_ITER d) \<and> fst (HASH_ITER d ! i) = k" using sound [of i] iter by simp
  next
    assume a: "i < length (HASH_ITER d) \<and> fst (HASH_ITER d ! i) = k"
    then obtain j where j: "HASH_FIND_STR d k = Some j" using complete iter by auto
    then show "HASH_FIND_STR d k = Some i" using unique [of j] sound [OF j] a iter by simp
  qed
qed

lemma HASH_ITER_ut_set:
  "i < length (HASH_ITER d) \<Longrightarrow> HASH_ITER (ut_set i v d) = (HASH_ITER d)[i := (fst (HASH_ITER d ! i), v)]"
  by (auto simp: HASH_ITER_def ut_set_def map_update split: option.splits)

lemma ut_set_ok:
  assumes "uth_ok d" "i < length (HASH_ITER d)"
  shows "uth_ok (ut_set i v d)"
proof (cases d)
  case (Some t)
  let ?it = "(ut_items t)[i := (ut_items t ! i)\<lparr>el_value := v\<rparr>]"
  have "el_hashv (?it ! j) = el_hashv (ut_items t ! j)" for j
    using assms Some by (cases "i = j") (simp_all add: HASH_ITER_def)
  moreover have "\<forall>x\<in>set ?it. el_hashv x = HASH_JEN (el_key x)"
    using assms Some by (auto simp: uth_ok_def ut_ok_def HASH_ITER_def dest!: subsetD [OF set_update_subset_insert])
  ultimately show ?thesis using assms Some by (auto simp: uth_ok_def ut_set_def ut_ok_def)
qed (simp add: ut_set_def uth_ok_def)

interpretation ud: dictionary HASH_FIND_STR HASH_ITER ut_set "ut_dict K" K for K
proof unfold_locales
  fix d :: "'a uthash" and k i v
  show "ut_dict K d \<Longrightarrow> k \<in> K \<Longrightarrow> HASH_FIND_STR d k = Some i \<longleftrightarrow> i < length (HASH_ITER d) \<and> fst (HASH_ITER d ! i) = k"
    by (rule HASH_FIND_STR_iff)
  show "ut_dict K d \<Longrightarrow> distinct (map fst (HASH_ITER d))" by (simp add: ut_dict_def)
  show "ut_dict K d \<Longrightarrow> i < length (HASH_ITER d) \<Longrightarrow> HASH_ITER (ut_set i v d) = (HASH_ITER d)[i := (fst (HASH_ITER d ! i), v)]"
    by (rule HASH_ITER_ut_set)
  assume *: "ut_dict K d" "i < length (HASH_ITER d)"
  have "map fst ((HASH_ITER d)[i := (fst (HASH_ITER d ! i), v)]) = map fst (HASH_ITER d)"
    using *(2) by (simp add: map_update list_update_same_conv)
  then show "ut_dict K (ut_set i v d)"
    using * ut_set_ok [of d i v] HASH_ITER_ut_set [OF *(2)] unfolding ut_dict_def by (metis set_map)
qed

lemma ut_add_dict:
  assumes "ut_dict K d" "key \<in> K" "HASH_FIND_STR d key = None" "heap_ok e h P" "ut_owns d \<subseteq> P"
    and "HASH_ADD_STR d key v h = Some (d', h')"
  shows "ut_dict K d'" "map_of (HASH_ITER d') = (map_of (HASH_ITER d))(key \<mapsto> v)"
    "\<exists>P'. heap_ok e h' P' \<and> ut_owns d' \<subseteq> P' - (P - ut_owns d) \<and> P - ut_owns d \<subseteq> P'"
proof -
  have new: "key \<notin> fst ` set (HASH_ITER d)" using ud.look_None [OF assms(1,2)] assms(3) by (simp add: map_of_eq_None_iff)
  note a = add_spec [of d e h P key v, unfolded assms(6)]
  have "uth_ok d" using assms(1) by (simp add: ut_dict_def)
  note a = a [OF this assms(4,5)]
  show "ut_dict K d'" using a new assms(1,2) by (auto simp: ut_dict_def)
  show "map_of (HASH_ITER d') = (map_of (HASH_ITER d))(key \<mapsto> v)"
  proof -
    have "map_of (xs @ [(key, v)]) = (map_of xs)(key \<mapsto> v)" if "key \<notin> fst ` set xs" for xs
      using that by (induction xs) auto
    then show ?thesis using a new by auto
  qed
  show "\<exists>P'. heap_ok e h' P' \<and> ut_owns d' \<subseteq> P' - (P - ut_owns d) \<and> P - ut_owns d \<subseteq> P'" using a by auto
qed

end
