(* ===== verification/Env_Commands.thy ===== *)
theory Env_Commands
  imports Uthash
begin

text \<open>
  The two tables built on \<open>uthash\<close>: the environment variables (\<^verbatim>\<open>kernel/src/env_var.c\<close>) and the
  command registry (\<^verbatim>\<open>kernel/src/command_system.c\<close>). Names and values that the code copies into arrays
  are cut as \<^verbatim>\<open>strncpy\<close> cuts them; the registry keeps the pointer to the full name. Neither checks the
  result of \<^verbatim>\<open>malloc\<close>: a store through the null pointer is None, like every other operation that does
  not return.
\<close>

section \<open>Environment variables\<close>

text \<open>\<^verbatim>\<open>EnvVar\<close>: the name is the key of the table, the value its content.\<close>

type_synonym env = "string uthash"

definition sizeof_EnvVar :: u32 where "sizeof_EnvVar = 64 + 256 + sizeof_ut_handle"

definition env_set :: "string \<Rightarrow> string \<Rightarrow> env \<Rightarrow> heap \<Rightarrow> (env \<times> heap) option" where
  "env_set name val env h =
     (case HASH_FIND_STR env name of
        Some i \<Rightarrow> Some (ut_set i (take 255 val) env, h)
      | None \<Rightarrow>
          (case malloc sizeof_EnvVar h of None \<Rightarrow> None
           | Some (p, h1) \<Rightarrow>
               (if p = 0 then None else HASH_ADD_STR env (take 63 name) (take 255 val) h1)))"

definition env_get :: "env \<Rightarrow> string \<Rightarrow> string option" where
  "env_get env name = map_option (ut_value env) (HASH_FIND_STR env name)"

section \<open>Commands\<close>

record 'f command_entry =
  ce_desc :: string
  ce_func :: 'f

type_synonym 'f commands = "'f command_entry uthash"

definition sizeof_CommandEntry :: u32 where "sizeof_CommandEntry = 12 + sizeof_ut_handle"

definition register_command :: "string \<Rightarrow> string \<Rightarrow> 'f \<Rightarrow> 'f commands \<Rightarrow> heap \<Rightarrow> ('f commands \<times> heap) option" where
  "register_command name desc func cmds h =
     (case HASH_FIND_STR cmds name of
        None \<Rightarrow>
          (case malloc sizeof_CommandEntry h of None \<Rightarrow> None
           | Some (p, h1) \<Rightarrow>
               (if p = 0 then None else HASH_ADD_STR cmds name \<lparr>ce_desc = desc, ce_func = func\<rparr> h1))
      | Some i \<Rightarrow> Some (ut_set i \<lparr>ce_desc = desc, ce_func = func\<rparr> cmds, h))"

definition find_command :: "'f commands \<Rightarrow> string \<Rightarrow> 'f command_entry option" where
  "find_command cmds cmd_name = map_option (ut_value cmds) (HASH_FIND_STR cmds cmd_name)"

text \<open>\<^verbatim>\<open>foreach_command\<close> calls the callback on every entry; here the callback transforms a state.\<close>

definition foreach_command :: "(string \<Rightarrow> string \<Rightarrow> 's \<Rightarrow> 's option) \<Rightarrow> 'f commands \<Rightarrow> 's \<Rightarrow> 's option" where
  "foreach_command callback cmds s =
     fold (\<lambda>(name, e) r. case r of None \<Rightarrow> None | Some s' \<Rightarrow> callback name (ce_desc e) s') (HASH_ITER cmds) (Some s)"


section \<open>Both are finite maps\<close>

lemma ut_value_iter: "i < length (HASH_ITER d) \<Longrightarrow> ut_value d i = snd (HASH_ITER d ! i)"
  by (auto simp: ut_value_def HASH_ITER_def split: option.splits)

lemma look_map:
  assumes "ut_dict K d" "k \<in> K"
  shows "map_option (ut_value d) (HASH_FIND_STR d k) = map_of (HASH_ITER d) k"
  using ud.look_None [OF assms] ud.look_Some [OF assms]
  by (cases "HASH_FIND_STR d k") (auto simp: ut_value_iter)

lemmas env_get_map = look_map [of K env k for K :: "string set" and env :: env and k, folded env_get_def]
lemmas find_command_map = look_map [of K cmds k for K :: "string set" and cmds :: "'f commands" and k, folded find_command_def]

text \<open>The common shape of \<^verbatim>\<open>env_set\<close> and \<^verbatim>\<open>register_command\<close>: overwrite an entry or add one.\<close>

lemma upsert_spec:
  assumes "ut_dict K d" "key \<in> K" "heap_ok e h P" "ut_owns d \<subseteq> P"
    and "(case HASH_FIND_STR d key of
        Some i \<Rightarrow> Some (ut_set i v d, h)
      | None \<Rightarrow> (case malloc n h of None \<Rightarrow> None
           | Some (p, h1) \<Rightarrow> if p = 0 then None else HASH_ADD_STR d key v h1)) = Some (d', h')"
  shows "ut_dict K d' \<and> map_of (HASH_ITER d') = (map_of (HASH_ITER d))(key \<mapsto> v) \<and>
    (\<exists>P'. heap_ok e h' P' \<and> ut_owns d' \<subseteq> P' - (P - ut_owns d) \<and> P - ut_owns d \<subseteq> P')"
proof (cases "HASH_FIND_STR d key")
  case (Some i)
  have i: "i < length (HASH_ITER d)" using ud.look_Some(1) [OF assms(1,2) Some] .
  have "ut_owns (ut_set i v d) = ut_owns d" by (auto simp: ut_owns_def ut_set_def split: option.splits)
  then show ?thesis
    using assms Some ud.store_ok [OF assms(1) i, of v] ud.store_map [OF assms(1,2) Some, of v] by auto
next
  case None
  then obtain p h1 where m: "malloc n h = Some (p, h1)" "p \<noteq> 0" "HASH_ADD_STR d key v h1 = Some (d', h')"
    using assms(5) by (auto split: option.splits if_splits)
  have f: "p \<notin> P" "heap_ok e h1 (insert p P)" using km.alloc_fresh [OF assms(3) m(1,2)] by auto
  have "ut_owns d \<subseteq> insert p P" using assms(4) by auto
  from ut_add_dict [OF assms(1,2) None f(2) this m(3)] f(1) assms(4) show ?thesis by blast
qed

text \<open>Environment variables are a map: as long as the names in use are told apart by the hash table,
  \<open>env_set\<close> of a name of at most 63 characters, when it returns, makes \<open>env_get\<close> yield the value cut to
  255 characters for that name and what it was for every other name; on a name that is already set it
  returns without allocating. A longer name is never found again.\<close>

lemma env_set_spec:
  assumes "ut_dict K env" "name \<in> K" "length name \<le> 63" "heap_ok e h P" "ut_owns env \<subseteq> P"
    and "env_set name val env h = Some (env', h')"
  shows "ut_dict K env'" "k \<in> K \<Longrightarrow> env_get env' k = (if k = name then Some (take 255 val) else env_get env k)"
    "\<exists>P'. heap_ok e h' P' \<and> ut_owns env' \<subseteq> P' - (P - ut_owns env) \<and> P - ut_owns env \<subseteq> P'"
proof -
  note u = upsert_spec [OF assms(1,2,4,5), of "take 255 val" sizeof_EnvVar env' h']
  have u: "ut_dict K env' \<and> map_of (HASH_ITER env') = (map_of (HASH_ITER env))(name \<mapsto> take 255 val) \<and>
    (\<exists>P'. heap_ok e h' P' \<and> ut_owns env' \<subseteq> P' - (P - ut_owns env) \<and> P - ut_owns env \<subseteq> P')"
    using assms(3,6) by (intro u) (auto simp: env_set_def split: option.splits if_splits)
  then show "ut_dict K env'" by blast
  show "\<exists>P'. heap_ok e h' P' \<and> ut_owns env' \<subseteq> P' - (P - ut_owns env) \<and> P - ut_owns env \<subseteq> P'" using u by blast
  show "k \<in> K \<Longrightarrow> env_get env' k = (if k = name then Some (take 255 val) else env_get env k)"
    using u env_get_map [OF assms(1), of k] env_get_map [of K env' k] by simp
qed

lemma env_set_present:
  assumes "ut_dict K env" "name \<in> K" "env_get env name \<noteq> None"
  shows "\<exists>env'. env_set name val env h = Some (env', h) \<and> ut_dict K env' \<and> ut_owns env' = ut_owns env \<and>
    (\<forall>k\<in>K. env_get env' k = (if k = name then Some (take 255 val) else env_get env k))"
proof -
  obtain i where i: "HASH_FIND_STR env name = Some i" using assms(3) by (auto simp: env_get_def)
  have "ut_owns (ut_set i v env) = ut_owns env" for v by (auto simp: ut_owns_def ut_set_def split: option.splits)
  moreover have "ut_dict K (ut_set i v env)" for v using ud.store_ok [OF assms(1) ud.look_Some(1) [OF assms(1,2) i]] .
  ultimately show ?thesis
    using i ud.store_map [OF assms(1,2) i, of "take 255 val"] env_get_map [OF assms(1)]
      env_get_map [of K "ut_set i (take 255 val) env"]
    by (simp add: env_set_def)
qed

lemma env_long_name:
  assumes "uth_ok env" "\<forall>(k, v) \<in> set (HASH_ITER env). length k \<le> 63" "length name > 63"
  shows "env_get env name = None"
proof (cases env)
  case (Some t)
  have "HASH_FIND_STR env name \<noteq> Some i" for i
  proof
    assume f: "HASH_FIND_STR env name = Some i"
    let ?b = "HASH_TO_BKT (HASH_JEN name) (num_buckets t)"
    have "?b < length (ut_buckets t)" using assms(1) Some HASH_TO_BKT_less [of "num_buckets t"] by (simp add: ut_ok_def uth_ok_def)
    then have "i < length (ut_items t) \<and> length (el_key (ut_items t ! i)) = length name"
      using find_in_bkt_Some [of "ut_items t" "hh_chain (ut_buckets t ! ?b)" name "HASH_JEN name" i] f Some assms(1)
      by (auto simp: HASH_FIND_STR_def Let_def uth_ok_def ut_ok_def dest: list_all2_lengthD)
    moreover have "length (el_key x) \<le> 63" if "x \<in> set (ut_items t)" for x
      using assms(2) that Some by (auto simp: HASH_ITER_def)
    ultimately show False using assms(3) nth_mem by fastforce
  qed
  then show ?thesis by (cases "HASH_FIND_STR env name") (auto simp: env_get_def)
qed (simp add: env_get_def HASH_FIND_STR_def)

lemma register_command_spec:
  assumes "ut_dict K cmds" "name \<in> K" "heap_ok e h P" "ut_owns cmds \<subseteq> P"
    and "register_command name desc func cmds h = Some (cmds', h')"
  shows "ut_dict K cmds'"
    "k \<in> K \<Longrightarrow> find_command cmds' k = (if k = name then Some \<lparr>ce_desc = desc, ce_func = func\<rparr> else find_command cmds k)"
    "\<exists>P'. heap_ok e h' P' \<and> ut_owns cmds' \<subseteq> P' - (P - ut_owns cmds) \<and> P - ut_owns cmds \<subseteq> P'"
proof -
  have u: "ut_dict K cmds' \<and> map_of (HASH_ITER cmds') = (map_of (HASH_ITER cmds))(name \<mapsto> \<lparr>ce_desc = desc, ce_func = func\<rparr>) \<and>
    (\<exists>P'. heap_ok e h' P' \<and> ut_owns cmds' \<subseteq> P' - (P - ut_owns cmds) \<and> P - ut_owns cmds \<subseteq> P')"
    using assms(5) by (intro upsert_spec [OF assms(1-4), of _ sizeof_CommandEntry]) (auto simp: register_command_def split: option.splits if_splits)
  then show "ut_dict K cmds'" by blast
  show "\<exists>P'. heap_ok e h' P' \<and> ut_owns cmds' \<subseteq> P' - (P - ut_owns cmds) \<and> P - ut_owns cmds \<subseteq> P'" using u by blast
  show "k \<in> K \<Longrightarrow> find_command cmds' k = (if k = name then Some \<lparr>ce_desc = desc, ce_func = func\<rparr> else find_command cmds k)"
    using u find_command_map [OF assms(1), of k] find_command_map [of K cmds' k] by simp
qed

end
