(* ===== verification/Stdlib.thy ===== *)
theory Stdlib
  imports Strings Ctype "HOL-Library.Signed_Division"
begin

text \<open>
  Number conversion: \<^verbatim>\<open>itoa\<close> (\<^verbatim>\<open>libc/src/stdlib/itoa.c\<close>) and \<^verbatim>\<open>atoi\<close>
  (\<^verbatim>\<open>libc/src/stdlib/atoi.c\<close>) on the byte memory. The accumulator of \<^verbatim>\<open>atoi\<close> is a 32-bit
  word, so an overflow wraps as the i386 code does. \<open>numeral_bytes\<close> is the reference: the text of a
  number in a base. The lemmas show that \<^verbatim>\<open>itoa\<close> writes that text and that \<^verbatim>\<open>atoi\<close> reads it back for
  the bases up to 10.
\<close>

section \<open>itoa\<close>

definition digits :: "u8 list" where
  "digits = map of_char
     ''zyxwvutsrqponmlkjihgfedcba9876543210123456789abcdefghijklmnopqrstuvwxyz''"

text \<open>The loop for a negative value in base 10 works on the signed value with C's truncating
  division, the other loop on the unsigned reading of the value.\<close>

partial_function (option) itoa_neg :: "mem \<Rightarrow> u32 \<Rightarrow> int \<Rightarrow> int \<Rightarrow> (mem \<times> u32) option" where
  "itoa_neg m ctmp value base =
     (let tmp = value; value' = value sdiv base;
          m' = m(ctmp := digits ! nat (35 + (tmp - value' * base)))
      in if value' \<noteq> 0 then itoa_neg m' (ctmp + 1) value' base else Some (m', ctmp + 1))"

partial_function (option) itoa_uns :: "mem \<Rightarrow> u32 \<Rightarrow> u32 \<Rightarrow> int \<Rightarrow> (mem \<times> u32) option" where
  "itoa_uns m ctmp unsigned_equiv base =
     (let utmp = unsigned_equiv; u' = unsigned_equiv div of_int base;
          m' = m(ctmp := digits ! unat (35 + (utmp - u' * of_int base)))
      in if u' \<noteq> 0 then itoa_uns m' (ctmp + 1) u' base else Some (m', ctmp + 1))"

definition itoa :: "mem \<Rightarrow> int \<Rightarrow> u32 \<Rightarrow> int \<Rightarrow> mem option" where
  "itoa m value buff base =
     (if base < 2 \<or> base > 36 then Some (m(buff := 0))
      else if value < 0 \<and> base = 10 then
        (case itoa_neg m buff value base of
           None \<Rightarrow> None
         | Some (m', ctmp) \<Rightarrow> reverse (m'(ctmp := 45, ctmp + 1 := 0)) buff)
      else
        (case itoa_uns m buff (of_int value) base of
           None \<Rightarrow> None
         | Some (m', ctmp) \<Rightarrow> reverse (m'(ctmp := 0)) buff))"

section \<open>atoi\<close>

partial_function (option) atoi_skip :: "mem \<Rightarrow> u32 \<Rightarrow> u32 option" where
  "atoi_skip m p = (if isspace (schar (m p)) then atoi_skip m (p + 1) else Some p)"

text \<open>The sign or base prefix: the position after it and the sign, or None for
  \<^verbatim>\<open>return 0\<close>. The last test of the source repeats the condition of an earlier branch and is
  never reached with a '0'.\<close>

definition atoi_prefix :: "mem \<Rightarrow> u32 \<Rightarrow> int \<Rightarrow> (u32 \<times> int) option" where
  "atoi_prefix m p base =
     (let c = schar (m p); d = schar (m (p + 1)) in
      if c = 43 \<or> c = 45 then
        (if base = 10 then Some (p + 1, if c = 45 then -1 else 1) else None)
      else if c = 48 then
        (if d = 98 \<or> d = 66 then (if base = 2 then Some (p + 2, 1) else None)
         else if d = 120 then (if base = 16 then Some (p + 2, 1) else None)
         else Some (p, 1))
      else if c = 48 \<and> d \<ge> 0x30 \<and> d \<le> 0x37 then
        (if base = 8 then Some (p + 1, 1) else None)
      else Some (p, 1))"

partial_function (option) atoi_loop :: "mem \<Rightarrow> u32 \<Rightarrow> int \<Rightarrow> int \<Rightarrow> u32 \<Rightarrow> u32 option" where
  "atoi_loop m p base sign val =
     (let c = schar (m p) in
      if isalnum c then
        (let tmp = c - 48;
             tmp' = (if base \<le> 10 then tmp else tmp - (if islower c then 0x27 else 0x7))
         in if tmp' \<ge> base then Some 0
            else atoi_loop m (p + 1) base sign (val * of_int base + of_int tmp'))
      else Some (if base = 10 then of_int sign * val else val))"

definition atoi :: "mem \<Rightarrow> u32 \<Rightarrow> int \<Rightarrow> u32 option" where
  "atoi m str base =
     (if base > 36 \<or> base < 2 then Some 0
      else case atoi_skip m str of
             None \<Rightarrow> None
           | Some p \<Rightarrow> (case atoi_prefix m p base of
                         None \<Rightarrow> Some 0
                       | Some (q, sign) \<Rightarrow> atoi_loop m q base sign 0))"

section \<open>The text of a number\<close>

fun rdigits :: "nat \<Rightarrow> nat \<Rightarrow> nat list" where
  "rdigits b n = (if b < 2 \<or> n < b then [n] else n mod b # rdigits b (n div b))"

declare rdigits.simps [simp del]

definition digit_char :: "nat \<Rightarrow> u8" where
  "digit_char d = of_nat (if d < 10 then 48 + d else 87 + d)"

definition digit_text :: "nat \<Rightarrow> nat \<Rightarrow> u8 list" where
  "digit_text b n = rev (map digit_char (rdigits b n))"

definition numeral_bytes :: "int \<Rightarrow> int \<Rightarrow> u8 list" where
  "numeral_bytes v b =
     (if v < 0 \<and> b = 10 then 45 # digit_text 10 (nat (- v))
      else digit_text (nat b) (nat (v mod 2 ^ 32)))"

lemma rdigits_less: "2 \<le> b \<Longrightarrow> d \<in> set (rdigits b n) \<Longrightarrow> d < b"
proof (induction b n rule: rdigits.induct)
  case (1 b n)
  show ?case
  proof (cases "n < b")
    case True
    then show ?thesis using "1.prems" by (simp add: rdigits.simps [of b n])
  next
    case False
    then show ?thesis using 1 by (auto simp: rdigits.simps [of b n])
  qed
qed

lemma rdigits_not_Nil [simp]: "rdigits b n \<noteq> []"
  by (simp add: rdigits.simps [of b n])

lemma length_rdigits: "2 \<le> b \<Longrightarrow> 0 < k \<Longrightarrow> n < 2 ^ k \<Longrightarrow> length (rdigits b n) \<le> k"
proof (induction k arbitrary: n)
  case 0
  then show ?case by simp
next
  case (Suc k)
  show ?case
  proof (cases "n < b \<or> k = 0")
    case True
    then have "n < b" using Suc.prems by (cases k) auto
    then show ?thesis by (simp add: rdigits.simps [of b n])
  next
    case False
    have "n div b \<le> n div 2" using Suc.prems(1) by (intro div_le_mono2) auto
    also have "\<dots> < 2 ^ k" using Suc.prems(3) by auto
    finally have "length (rdigits b (n div b)) \<le> k" using Suc False by auto
    then show ?thesis using False Suc.prems(1) by (simp add: rdigits.simps [of b n])
  qed
qed

lemma digit_char_nonzero: "d < 36 \<Longrightarrow> digit_char d \<noteq> 0"
proof -
  assume "d < 36"
  then have "unat (digit_char d) = (if d < 10 then 48 + d else 87 + d)"
    by (auto simp: digit_char_def unat_of_nat take_bit_eq_mod)
  then have "unat (digit_char d) \<noteq> 0" by simp
  then show ?thesis by auto
qed

lemma digits_nth: "d < 36 \<Longrightarrow> digits ! (35 + d) = digit_char d" "d < 36 \<Longrightarrow> digits ! (35 - d) = digit_char d"
proof -
  have all: "\<forall>d\<in>set [0..<36]. digits ! (35 + d) = digit_char d \<and> digits ! (35 - d) = digit_char d"
    by (simp add: digits_def digit_char_def upt_rec numeral_eq_Suc)
  show "d < 36 \<Longrightarrow> digits ! (35 + d) = digit_char d" "d < 36 \<Longrightarrow> digits ! (35 - d) = digit_char d"
    using all by auto
qed


section \<open>itoa writes the text\<close>

lemma mod_base_less:
  assumes "2 \<le> b" "b \<le> 36"
  shows "n mod b < (36 :: nat)"
  using assms mod_less_divisor [of b n] by linarith

lemma unat_div_mod_base:
  assumes "2 \<le> b" "b \<le> 36"
  shows "unat ((u :: u32) div of_nat b) = unat u div b"
    and "unat (35 + (u - u div of_nat b * of_nat b)) = 35 + unat u mod b"
proof -
  have b: "unat (of_nat b :: u32) = b" using assms by (simp add: unat_of_nat take_bit_eq_mod)
  then show q: "unat (u div of_nat b) = unat u div b" by (simp add: unat_div)
  have "u - u div of_nat b * of_nat b = u mod of_nat b"
    by (simp add: minus_div_mult_eq_mod)
  then have r: "unat (u - u div of_nat b * of_nat b) = unat u mod b" using b by (simp add: unat_mod)
  then show "unat (35 + (u - u div of_nat b * of_nat b)) = 35 + unat u mod b"
    using mod_base_less [OF assms, of "unat u"] by (simp add: unat_word_ariths)
qed

lemma itoa_uns_spec:
  assumes "2 \<le> b" "b \<le> 36"
  shows "itoa_uns m c u (int b) =
    Some (write_bytes m c (map digit_char (rdigits b (unat u))),
          c + of_nat (length (rdigits b (unat u))))"
proof (induction "unat u" arbitrary: m c u rule: less_induct)
  case less
  let ?u = "u div of_nat b" and ?i = "unat (35 + (u - u div of_nat b * of_nat b))"
  note um = unat_div_mod_base [OF assms, of u]
  have i: "digits ! ?i = digit_char (unat u mod b)"
    using um(2) digits_nth(1) [OF mod_base_less [OF assms, of "unat u"]] by simp
  have z: "?u = 0 \<longleftrightarrow> unat u < b"
    using um(1) assms by (metis div_eq_0_iff div_less le_zero_eq not_numeral_le_zero unat_eq_zero)
  show ?case
  proof (cases "unat u < b")
    case True
    then have "?u = 0" using z by simp
    moreover have "digits ! unat (35 + u) = digit_char (unat u)"
      using i True \<open>?u = 0\<close> by simp
    ultimately show ?thesis
      using True by (simp add: itoa_uns.simps [of m c u] rdigits.simps [of b "unat u"] Let_def)
  next
    case False
    then have "unat ?u < unat u" using um(1) assms by (metis div_less_dividend less_le_trans nat_neq_iff not_less zero_less_numeral One_nat_def Suc_1 Suc_le_lessD le_zero_eq linorder_not_le)
    then have "itoa_uns (m(c := digit_char (unat u mod b))) (c + 1) ?u (int b) =
      Some (write_bytes (m(c := digit_char (unat u mod b))) (c + 1) (map digit_char (rdigits b (unat ?u))),
            c + 1 + of_nat (length (rdigits b (unat ?u))))"
      by (rule less.hyps)
    then show ?thesis
      using False z i um(1) assms(1)
      by (simp add: itoa_uns.simps [of m c u] rdigits.simps [of b "unat u"] Let_def add.assoc)
  qed
qed

lemma itoa_neg_spec:
  "itoa_neg m c (- int n) 10 =
    Some (write_bytes m c (map digit_char (rdigits 10 n)), c + of_nat (length (rdigits 10 n)))"
proof (induction n arbitrary: m c rule: less_induct)
  case (less n)
  have q: "(- int n) sdiv 10 = - int (n div 10)"
    by (cases "n = 0") (simp_all add: signed_divide_int_def zdiv_int)
  have "35 + (- int n - (- int n) sdiv 10 * 10) = int (35 - n mod 10)"
    unfolding q using mod_less_divisor [of 10 n] mult_div_mod_eq [of 10 n] by linarith
  then have i: "digits ! nat (35 + (- int n - (- int n) sdiv 10 * 10)) = digit_char (n mod 10)"
    using digits_nth(2) [of "n mod 10"] mod_less_divisor [of 10 n] by (simp only: nat_int)
  show ?case
  proof (cases "n < 10")
    case True
    then show ?thesis using i q
      by (simp add: itoa_neg.simps [of m c] rdigits.simps [of 10 n] Let_def)
  next
    case False
    then have "itoa_neg (m(c := digit_char (n mod 10))) (c + 1) (- int (n div 10)) 10 =
      Some (write_bytes (m(c := digit_char (n mod 10))) (c + 1) (map digit_char (rdigits 10 (n div 10))),
            c + 1 + of_nat (length (rdigits 10 (n div 10))))"
      by (intro less.IH) simp
    moreover have "n div 10 \<noteq> 0" using False by simp
    ultimately show ?thesis using False i q
      by (simp add: itoa_neg.simps [of m c] rdigits.simps [of 10 n] Let_def add.assoc)
  qed
qed


lemma reverse_text:
  assumes "0 \<notin> set ds" "length ds < 2 ^ 31"
  shows "\<exists>m'. reverse (write_bytes m p (ds @ [0])) p = Some m' \<and> cstr m' p (rev ds) \<and>
    (\<forall>a. a \<notin> region p (Suc (length ds)) \<longrightarrow> m' a = m a)"
proof -
  let ?m = "write_bytes m p (ds @ [0])"
  have "cstr ?m p ds" using assms by (intro cstr_write_bytes) auto
  then obtain m' where m': "reverse ?m p = Some m'" "cstr m' p (rev ds)"
    "\<forall>a. a \<notin> region p (length ds) \<longrightarrow> m' a = ?m a"
    using reverse_correct assms(2) by blast
  moreover have "m' a = m a" if "a \<notin> region p (Suc (length ds))" for a
    using that m'(3) region_mono [of "length ds" "Suc (length ds)" p]
    by (auto simp: write_bytes_outside subset_iff)
  ultimately show ?thesis by blast
qed

lemma digit_bytes_nonzero: "2 \<le> b \<Longrightarrow> b \<le> 36 \<Longrightarrow> 0 \<notin> set (map digit_char (rdigits b n))"
  using rdigits_less [of b _ n] digit_char_nonzero by fastforce

lemma length_numeral_bytes:
  assumes "2 \<le> b" "- (2 ^ 31) \<le> v"
  shows "length (numeral_bytes v b) \<le> 33"
proof (cases "v < 0 \<and> b = 10")
  case True
  then have "length (rdigits 10 (nat (- v))) \<le> 32"
    using assms(2) by (intro length_rdigits) auto
  then show ?thesis using True by (simp add: numeral_bytes_def digit_text_def)
next
  case False
  have "nat (v mod 2 ^ 32) < 2 ^ 32" by (simp add: nat_less_iff)
  then have "length (rdigits (nat b) (nat (v mod 2 ^ 32))) \<le> 32"
    using assms(1) by (intro length_rdigits) auto
  then show ?thesis using False by (auto simp: numeral_bytes_def digit_text_def)
qed

lemma itoa_writes:
  assumes "2 \<le> base" "base \<le> 36" "- (2 ^ 31) \<le> value" "value < 2 ^ 31"
  shows "\<exists>m'. itoa m value buff base = Some m' \<and> cstr m' buff (numeral_bytes value base) \<and>
    (\<forall>a. a \<notin> region buff (Suc (length (numeral_bytes value base))) \<longrightarrow> m' a = m a) \<and>
    length (numeral_bytes value base) \<le> 33"
proof -
  define b where "b = nat base"
  have b: "base = int b" "2 \<le> b" "b \<le> 36" using assms by (auto simp: b_def)
  have len: "length (numeral_bytes value base) \<le> 33"
    using assms by (intro length_numeral_bytes) auto
  show ?thesis
  proof (cases "value < 0 \<and> base = 10")
    case True
    define ds where "ds = map digit_char (rdigits 10 (nat (- value))) @ [45]"
    have t: "numeral_bytes value base = rev ds"
      using True by (simp add: numeral_bytes_def digit_text_def ds_def)
    have "itoa_neg m buff value base = Some (write_bytes m buff (map digit_char (rdigits 10 (nat (- value)))),
        buff + of_nat (length (rdigits 10 (nat (- value)))))"
      using itoa_neg_spec [of m buff "nat (- value)"] True by simp
    then have "itoa m value buff base = reverse (write_bytes m buff (ds @ [0])) buff"
      using True assms by (simp add: itoa_def ds_def write_bytes_append)
    moreover have "0 \<notin> set ds" "length ds < 2 ^ 31"
      using digit_bytes_nonzero [of 10 "nat (- value)"] len t by (auto simp: ds_def)
    ultimately show ?thesis using reverse_text [of ds m buff] len unfolding t by simp
  next
    case False
    define n where "n = unat (of_int value :: u32)"
    define ds where "ds = map digit_char (rdigits b n)"
    have "n = nat (value mod 2 ^ 32)"
      by (simp add: n_def unat_eq_nat_uint uint_word_of_int)
    then have t: "numeral_bytes value base = rev ds"
      using False by (auto simp: numeral_bytes_def digit_text_def ds_def b_def)
    have "itoa m value buff base = reverse (write_bytes m buff (ds @ [0])) buff"
      using False assms itoa_uns_spec [OF b(2,3), of m buff "of_int value"]
      by (auto simp: itoa_def ds_def n_def b(1) write_bytes_append)
    moreover have "0 \<notin> set ds" "length ds < 2 ^ 31"
      using digit_bytes_nonzero [OF b(2,3)] len t by (auto simp: ds_def)
    ultimately show ?thesis using reverse_text [of ds m buff] len unfolding t by simp
  qed
qed

text \<open>\<open>itoa\<close> writes the text of every 32-bit value in every base from 2 to 36 (signed in base 10,
  unsigned otherwise, INT_MIN included), terminated, and touches only the buffer bytes of that text;
  the text with its terminator fits in 34 bytes.\<close>

theorem itoa_correct:
  assumes "2 \<le> base" "base \<le> 36" "- (2 ^ 31) \<le> value" "value < 2 ^ 31"
  shows "\<exists>m'. itoa m value buff base = Some m' \<and> cstr m' buff (numeral_bytes value base) \<and>
    (\<forall>a. a \<notin> region buff (Suc (length (numeral_bytes value base))) \<longrightarrow> m' a = m a) \<and>
    length (numeral_bytes value base) \<le> 33"
  using assms by (rule itoa_writes)

theorem itoa_correct_witness:
  "\<exists>m'. itoa (\<lambda>_. 0) (- (2 ^ 31)) 0x40 10 = Some m' \<and> cstr m' 0x40 (numeral_bytes (- (2 ^ 31)) 10)"
  using itoa_correct [of 10 "- (2 ^ 31)" "\<lambda>_. 0" "0x40"] by force

section \<open>atoi reads it back\<close>

lemma schar_digit: "d < 10 \<Longrightarrow> schar (digit_char d) = 48 + int d"
proof -
  assume d: "d < 10"
  then have "digit_char d = of_int (48 + int d)" by (simp add: digit_char_def)
  then have "schar (digit_char d) = signed_take_bit 7 (48 + int d)"
    by (simp only: signed_of_int) simp
  then show ?thesis using d by (simp add: signed_take_bit_int_eq_self)
qed

lemma atoi_loop_digits:
  assumes "2 \<le> b" "b \<le> 10" "cstr m p (map digit_char ds)" "\<forall>d\<in>set ds. d < b"
  shows "atoi_loop m p (int b) sign val =
    Some (let v = foldl (\<lambda>v d. v * of_nat b + of_nat d) val ds
          in if b = 10 then of_int sign * v else v)"
  using assms(3,4)
proof (induction ds arbitrary: p val)
  case Nil
  then show ?case by (simp add: atoi_loop.simps [of m p] ctype_defs)
next
  case (Cons d ds)
  have c: "schar (m p) = 48 + int d" using Cons.prems assms(2) by (auto simp: schar_digit)
  have "isalnum (48 + int d)" using Cons.prems assms(2) by (auto simp: ctype_defs)
  then show ?case
    using Cons c assms(2) by (simp add: atoi_loop.simps [of m p] Let_def)
qed

lemma foldl_rdigits:
  "2 \<le> b \<Longrightarrow> foldl (\<lambda>v d. v * of_nat b + of_nat d) (0 :: u32) (rev (rdigits b n)) = of_nat n"
proof (induction b n rule: rdigits.induct)
  case (1 b n)
  show ?case
  proof (cases "n < b")
    case True
    then show ?thesis by (simp add: rdigits.simps [of b n])
  next
    case False
    have "of_nat (n div b) * of_nat b + of_nat (n mod b) = (of_nat n :: u32)"
      by (metis div_mult_mod_eq of_nat_add of_nat_mult)
    then show ?thesis using 1 False by (simp add: rdigits.simps [of b n])
  qed
qed

lemma atoi_prefix_digits:
  assumes "cstr m p (map digit_char ds)" "ds \<noteq> []" "\<forall>d\<in>set ds. d < 10"
  shows "atoi_prefix m p base = Some (p, 1)" "\<not> isspace (schar (m p))"
proof -
  obtain d ds' where ds: "ds = d # ds'" using assms(2) by (cases ds) auto
  have c: "schar (m p) = 48 + int d" using assms ds by (auto simp: schar_digit)
  have e: "schar (m (p + 1)) = 0 \<or> (\<exists>d'<10. schar (m (p + 1)) = 48 + int d')"
    using assms ds by (cases ds') (auto simp: schar_digit)
  show "atoi_prefix m p base = Some (p, 1)"
    using c e assms(3) ds by (auto simp: atoi_prefix_def Let_def)
  show "\<not> isspace (schar (m p))" using c by (simp add: ctype_defs)
qed

text \<open>\<open>atoi\<close> inverts \<open>itoa\<close> up to base 10: on memory that holds the text of a 32-bit value in a
  base from 2 to 10 it returns exactly that value (as a 32-bit word).\<close>

theorem atoi_reads_numeral:
  assumes "2 \<le> base" "base \<le> 10" "cstr m p (numeral_bytes v base)"
  shows "atoi m p base = Some (of_int v)"
proof -
  define b where "b = nat base"
  have b: "base = int b" "2 \<le> b" "b \<le> 10" using assms by (auto simp: b_def)
  have num: "atoi_loop m q base sign 0 = Some (if b = 10 then of_int sign * of_nat n else of_nat n)"
    if "cstr m q (digit_text b n)" for q sign n
    using that atoi_loop_digits [OF b(2,3), of m q "rev (rdigits b n)" sign 0]
      rdigits_less [OF b(2)] foldl_rdigits [OF b(2), of n]
    by (simp add: digit_text_def b(1) rev_map)
  have pre: "atoi_prefix m q base = Some (q, 1)" "\<not> isspace (schar (m q))"
    if "cstr m q (digit_text b n)" for q n
    using that b rdigits_less [OF b(2), of _ n]
      atoi_prefix_digits [of m q "rev (rdigits b n)"] by (fastforce simp: digit_text_def rev_map)+
  show ?thesis
  proof (cases "v < 0 \<and> base = 10")
    case True
    then have c: "m p = 45" "cstr m (p + 1) (digit_text b (nat (- v)))"
      using assms(3) by (auto simp: numeral_bytes_def b_def)
    have "atoi_skip m p = Some p" using c(1) by (simp add: atoi_skip.simps [of m p] ctype_defs)
    moreover have "atoi_prefix m p base = Some (p + 1, -1)"
      using c(1) True by (simp add: atoi_prefix_def Let_def)
    moreover have "- (of_nat (nat (- v)) :: u32) = of_int v" using True by simp
    ultimately show ?thesis using True num [OF c(2)] by (simp add: atoi_def b_def)
  next
    case False
    then have c: "cstr m p (digit_text b (nat (v mod 2 ^ 32)))"
      using assms(3) by (auto simp: numeral_bytes_def b_def)
    have "(of_nat (nat (v mod 2 ^ 32)) :: u32) = of_int (v mod 2 ^ 32)" by simp
    also have "\<dots> = of_int v" unfolding word_of_int_eq_iff by (simp add: take_bit_eq_mod)
    finally show ?thesis
      using num [OF c] pre [OF c] assms by (simp add: atoi_def atoi_skip.simps [of m p])
  qed
qed

theorem atoi_reads_numeral_witness:
  "atoi (write_bytes (\<lambda>_. 0) 0x10 [45, 52, 50]) 0x10 10 = Some (of_int (- 42))"
proof -
  have "numeral_bytes (- 42) 10 = [45, 52, 50]" by code_simp
  then show ?thesis
    using atoi_reads_numeral [of 10 "write_bytes (\<lambda>_. 0) 0x10 [45, 52, 50]" "0x10" "- 42"] by simp
qed

text \<open>Above base 10 the conversion goes wrong: 7 is subtracted from decimal digits too, so the
  one-digit text of \<open>d\<close> is read as \<open>d - 7\<close>.\<close>

theorem atoi_misreads_digits:
  assumes "11 \<le> base" "base \<le> 36" "d < 10" "cstr m p [digit_char d]"
  shows "atoi m p base = Some (of_int (int d - 7))"
proof -
  have c: "schar (m p) = 48 + int d" "m (p + 1) = 0" using assms by (auto simp: schar_digit)
  have "atoi_prefix m p base = Some (p, 1)" "\<not> isspace (schar (m p))"
    using atoi_prefix_digits [of m p "[d]"] assms by auto
  moreover have "atoi_loop m (p + 1) base 1 v = Some v" for v
    using c(2) assms by (simp add: atoi_loop.simps [of m "p + 1"] ctype_defs)
  ultimately show ?thesis
    using c assms by (simp add: atoi_def atoi_skip.simps [of m p] atoi_loop.simps [of m p] ctype_defs Let_def)
qed

theorem atoi_misreads_digits_witness:
  "atoi (write_bytes (\<lambda>_. 0) 0x10 [57]) 0x10 16 = Some 2"
  using atoi_misreads_digits [of 16 9 "write_bytes (\<lambda>_. 0) 0x10 [57]" "0x10"] by (simp add: digit_char_def)

end
