(* ===== verification/Ports.thy ===== *)
theory Ports
  imports Prelude
begin

text \<open>
  Port-mapped I/O, \<^verbatim>\<open>drivers/includes/io.h\<close>. \<^verbatim>\<open>outb\<close> and \<^verbatim>\<open>inb\<close> are machine instructions
  (\<^verbatim>\<open>io.asm\<close>): a device is a parameter that maps its own state. The recorder is the device that
  only remembers what was written, oldest first; the properties about what a driver sends use it.
\<close>

record 'w ports =
  outb :: "u16 \<Rightarrow> u8 \<Rightarrow> 'w \<Rightarrow> 'w"
  inb :: "u16 \<Rightarrow> 'w \<Rightarrow> u8 \<times> 'w"

type_synonym trace = "(u16 \<times> u8) list"

definition recorder :: "trace ports" where
  "recorder = \<lparr>outb = (\<lambda>p v w. w @ [(p, v)]), inb = (\<lambda>p w. (0, w))\<rparr>"

lemma outb_recorder [simp]: "outb recorder p v w = w @ [(p, v)]"
  by (simp add: recorder_def)

end
