(* ===== verification/Tty.thy ===== *)
theory Tty
  imports Ports
begin

text \<open>
  The text console, \<^verbatim>\<open>drivers/src/tty.c\<close>: cursor position, colour, the VGA text cells, scrolling, and
  the hardware cursor. The cells are a function on 32-bit cell indices, so that a store beyond the
  25 by 80 screen is visible in the model. \<open>tty\<close> is parametric in the state of the I/O ports, which
  are a parameter of the operations (\<^verbatim>\<open>outb\<close> and \<^verbatim>\<open>inb\<close> are machine instructions); \<open>crtc_ports\<close>
  states the behaviour of the VGA index and data registers the driver relies on.
\<close>

section \<open>State and operations\<close>

record 'w tty =
  terminal_row :: int
  terminal_column :: int
  terminal_colour :: u8
  terminal_buffer :: "u32 \<Rightarrow> u16"
  tty_io :: 'w

definition VGA_HEIGHT :: nat where "VGA_HEIGHT = 25"
definition VGA_WIDTH :: nat where "VGA_WIDTH = 80"

abbreviation (input) COLOUR_BLACK :: u8 where "COLOUR_BLACK \<equiv> 0"
abbreviation (input) COLOUR_WHITE :: u8 where "COLOUR_WHITE \<equiv> 15"

definition makeColour :: "u8 \<Rightarrow> u8 \<Rightarrow> u8" where
  "makeColour fg bg = fg OR push_bit 4 bg"

text \<open>\<^verbatim>\<open>uint16_t c16 = c\<close> sign-extends the character.\<close>

definition makeVGAEntry :: "u8 \<Rightarrow> u8 \<Rightarrow> u16" where
  "makeVGAEntry c colour = scast c OR push_bit 8 (ucast colour)"

definition getCharOffset :: "u32 \<Rightarrow> u32 \<Rightarrow> u32" where
  "getCharOffset x y = y * of_nat VGA_WIDTH + x"

definition clearTerminal :: "'w tty \<Rightarrow> 'w tty" where
  "clearTerminal t = t\<lparr>terminal_buffer :=
     fold (\<lambda>y. fold (\<lambda>x b. b(getCharOffset (of_nat x) (of_nat y) := makeVGAEntry 32 (terminal_colour t)))
                [0..<VGA_WIDTH])
       [0..<VGA_HEIGHT] (terminal_buffer t)\<rparr>"

definition initTerminal :: "'w tty \<Rightarrow> 'w tty" where
  "initTerminal t = clearTerminal
     (t\<lparr>terminal_row := 0, terminal_column := 0, terminal_colour := makeColour COLOUR_WHITE COLOUR_BLACK\<rparr>)"

text \<open>\<^verbatim>\<open>memcpy\<close> of \<^verbatim>\<open>VGA_WIDTH * 2\<close> bytes, cell by cell.\<close>

definition copy_cells :: "u32 \<Rightarrow> u32 \<Rightarrow> (u32 \<Rightarrow> u16) \<Rightarrow> (u32 \<Rightarrow> u16)" where
  "copy_cells dst src b = fold (\<lambda>x b. b(dst + of_nat x := b (src + of_nat x))) [0..<VGA_WIDTH] b"

definition doScroll :: "'w tty \<Rightarrow> 'w tty" where
  "doScroll t =
     (let b1 = fold (\<lambda>y. copy_cells (getCharOffset 0 (of_nat y - 1)) (getCharOffset 0 (of_nat y)))
                 [1..<VGA_HEIGHT] (terminal_buffer t);
          b2 = fold (\<lambda>x b. b(getCharOffset (of_nat x) (of_nat VGA_HEIGHT - 1) := makeVGAEntry 0 (terminal_colour t)))
                 [0..<VGA_WIDTH * 2] b1
      in t\<lparr>terminal_buffer := b2\<rparr>)"

definition checkScroll :: "'w tty \<Rightarrow> 'w tty" where
  "checkScroll t =
     (let t1 = t\<lparr>terminal_column := terminal_column t + 1\<rparr>;
          t2 = (if terminal_column t1 = int VGA_WIDTH
                then t1\<lparr>terminal_column := 0, terminal_row := terminal_row t1 + 1\<rparr> else t1)
      in if terminal_row t2 = int VGA_HEIGHT
         then (doScroll t2)\<lparr>terminal_row := terminal_row t2 - 1\<rparr> else t2)"

definition terminalSetColour :: "u8 \<Rightarrow> 'w tty \<Rightarrow> 'w tty" where
  "terminalSetColour colour t = t\<lparr>terminal_colour := colour\<rparr>"

definition terminalMvPutC :: "u8 \<Rightarrow> u8 \<Rightarrow> int \<Rightarrow> int \<Rightarrow> 'w tty \<Rightarrow> 'w tty" where
  "terminalMvPutC c colour col row t =
     t\<lparr>terminal_buffer := (terminal_buffer t)(getCharOffset (of_int col) (of_int row) := makeVGAEntry c colour)\<rparr>"

definition ttySetCursor :: "'w ports \<Rightarrow> u16 \<Rightarrow> 'w \<Rightarrow> 'w" where
  "ttySetCursor io offset w =
     (let w1 = outb io 0x3d4 14 w;
          w2 = outb io 0x3d5 (ucast (drop_bit 8 offset AND 0xff)) w1;
          w3 = outb io 0x3d4 15 w2
      in outb io 0x3d5 (ucast offset AND 0xff) w3)"

definition ttyGetCursor :: "'w ports \<Rightarrow> 'w \<Rightarrow> u16 \<times> 'w" where
  "ttyGetCursor io w =
     (let w1 = outb io 0x3d4 14 w;
          (hi, w2) = inb io 0x3d5 w1;
          w3 = outb io 0x3d4 15 w2;
          (lo, w4) = inb io 0x3d5 w3
      in (push_bit 8 (ucast hi) + ucast lo, w4))"

text \<open>\<^verbatim>\<open>terminalPutC\<close>: the switch on the character, then the hardware cursor follows.\<close>

definition putc_switch :: "'w ports \<Rightarrow> u8 \<Rightarrow> 'w tty \<Rightarrow> 'w tty" where
  "putc_switch io c t =
     (if c = 10 then (checkScroll (t\<lparr>terminal_row := terminal_row t + 1\<rparr>))\<lparr>terminal_column := 0\<rparr>
      else if c = 13 then t\<lparr>terminal_column := 0\<rparr>
      else if c = 8 then
        (let (p, w) = ttyGetCursor io (tty_io t);
             p' = (if p \<noteq> 0 then p - 1 else p)
         in t\<lparr>tty_io := w, terminal_column := uint (p' mod of_nat VGA_WIDTH),
              terminal_row := uint (p' div of_nat VGA_WIDTH)\<rparr>)
      else checkScroll (terminalMvPutC c (terminal_colour t) (terminal_column t) (terminal_row t) t))"

definition terminalPutC :: "'w ports \<Rightarrow> u8 \<Rightarrow> 'w tty \<Rightarrow> 'w tty" where
  "terminalPutC io c t =
     (let t' = putc_switch io c t
      in t'\<lparr>tty_io := ttySetCursor io
           (ucast (getCharOffset (of_int (terminal_column t')) (of_int (terminal_row t')))) (tty_io t')\<rparr>)"

definition terminalPutS :: "'w ports \<Rightarrow> u8 list \<Rightarrow> 'w tty \<Rightarrow> int \<times> 'w tty" where
  "terminalPutS io str t = (int (length str), fold (terminalPutC io) str t)"


section \<open>The registers of the video controller\<close>

text \<open>Port 0x3d4 selects a register, port 0x3d5 writes and reads the selected one.\<close>

definition crtc_ports :: "'w ports \<Rightarrow> ('w \<Rightarrow> u8) \<Rightarrow> ('w \<Rightarrow> u8 \<Rightarrow> u8) \<Rightarrow> bool" where
  "crtc_ports io index reg \<longleftrightarrow>
     (\<forall>v w. index (outb io 0x3d4 v w) = v \<and> reg (outb io 0x3d4 v w) = reg w) \<and>
     (\<forall>v w. index (outb io 0x3d5 v w) = index w \<and> reg (outb io 0x3d5 v w) = (reg w)(index w := v)) \<and>
     (\<forall>w. inb io 0x3d5 w = (reg w (index w), w))"

definition cursor_reg :: "('w \<Rightarrow> u8 \<Rightarrow> u8) \<Rightarrow> 'w \<Rightarrow> u16" where
  "cursor_reg reg w = push_bit 8 (ucast (reg w 14)) + ucast (reg w 15)"

lemma split_u16:
  fixes x :: u16
  shows "push_bit 8 (ucast (ucast (drop_bit 8 x AND 0xff) :: u8)) + ucast (ucast x AND 0xff :: u8) = x"
proof -
  have m: "(0xff :: u16) = mask 8" "(0xff :: u8) = mask 8" by (simp_all add: mask_eq_exp_minus_1)
  have "(ucast (ucast (drop_bit 8 x AND 0xff) :: u8) :: u16) = drop_bit 8 x"
    unfolding m by (rule bit_eqI) (auto simp: bit_simps dest: bit_imp_le_length)
  moreover have "(ucast (ucast x AND 0xff :: u8) :: u16) = take_bit 8 x"
    unfolding m by (rule bit_eqI) (auto simp: bit_simps)
  ultimately show ?thesis by (simp add: bits_ident)
qed

lemma setCursor_reg:
  assumes "crtc_ports io index reg"
  shows "cursor_reg reg (ttySetCursor io off w) = off"
  using assms split_u16 [of off] by (simp add: crtc_ports_def ttySetCursor_def cursor_reg_def Let_def)

lemma getCursor_reg:
  assumes "crtc_ports io index reg"
  shows "fst (ttyGetCursor io w) = cursor_reg reg w" "reg (snd (ttyGetCursor io w)) = reg w"
  using assms by (simp_all add: crtc_ports_def ttyGetCursor_def cursor_reg_def Let_def)



section \<open>Scrolling\<close>

text \<open>Cells by their number, row by row.\<close>

lemma unat_cell: "i < 2 ^ 32 \<Longrightarrow> unat (of_nat i :: u32) = i"
  by (simp add: unat_of_nat)

lemma cell_inj: "i < 2 ^ 32 \<Longrightarrow> j < 2 ^ 32 \<Longrightarrow> (of_nat i :: u32) = of_nat j \<longleftrightarrow> i = j"
  using unat_cell by metis

lemma getCharOffset_nat: "getCharOffset (of_nat x) (of_nat y) = of_nat (y * 80 + x)"
  by (simp add: getCharOffset_def VGA_WIDTH_def)

lemma fold_const_upd:
  "fold (\<lambda>x b. b(f x := v)) xs b i = (if i \<in> f ` set xs then v else b i)"
  by (induction xs arbitrary: b) auto

lemma copy_cells_nat:
  fixes b :: "u32 \<Rightarrow> u16"
  assumes "d + m \<le> s" "s + m < 2 ^ 32" "n < 2 ^ 32"
  shows "fold (\<lambda>x b. b(of_nat d + of_nat x := b (of_nat s + of_nat x))) [0..<m] b (of_nat n) =
    (if d \<le> n \<and> n < d + m then b (of_nat (n - d + s)) else b (of_nat n))"
  using assms
proof (induction m arbitrary: n)
  case 0
  then show ?case by auto
next
  case (Suc m)
  let ?b = "fold (\<lambda>x b. b(of_nat d + of_nat x := b (of_nat s + of_nat x))) [0..<m] b"
  have IH: "?b (of_nat k) = (if d \<le> k \<and> k < d + m then b (of_nat (k - d + s)) else b (of_nat k))"
    if "k < 2 ^ 32" for k using Suc that by simp
  have "?b (of_nat (s + m)) = b (of_nat (s + m))" using IH [of "s + m"] Suc.prems by simp
  moreover have "(of_nat n :: u32) = of_nat (d + m) \<longleftrightarrow> n = d + m"
    using Suc.prems by (intro cell_inj) auto
  ultimately show ?case using IH [OF Suc.prems(3)] by (auto simp: ac_simps)
qed

lemma shift_rows:
  fixes b :: "u32 \<Rightarrow> u16"
  assumes "k < 25" "n < 2 ^ 32"
  shows "fold (\<lambda>y. copy_cells (getCharOffset 0 (of_nat y - 1)) (getCharOffset 0 (of_nat y))) [1..<Suc k] b (of_nat n) =
    (if n < k * 80 then b (of_nat (n + 80)) else b (of_nat n))"
  using assms
proof (induction k arbitrary: n)
  case 0
  then show ?case by simp
next
  case (Suc k)
  let ?b = "fold (\<lambda>y. copy_cells (getCharOffset 0 (of_nat y - 1)) (getCharOffset 0 (of_nat y))) [1..<Suc k] b"
  have "getCharOffset 0 (of_nat (Suc k) - 1) = of_nat (k * 80)" "getCharOffset 0 (of_nat (Suc k)) = of_nat (Suc k * 80)"
    using getCharOffset_nat [of 0 k] getCharOffset_nat [of 0 "Suc k"] by simp_all
  then have "copy_cells (getCharOffset 0 (of_nat (Suc k) - 1)) (getCharOffset 0 (of_nat (Suc k))) ?b (of_nat n) =
      (if k * 80 \<le> n \<and> n < k * 80 + 80 then ?b (of_nat (n - k * 80 + Suc k * 80)) else ?b (of_nat n))"
    using copy_cells_nat [of "k * 80" 80 "Suc k * 80" n ?b] Suc.prems
    by (simp add: copy_cells_def VGA_WIDTH_def)
  moreover have "n - k * 80 + Suc k * 80 = n + 80" if "k * 80 \<le> n" using that by simp
  ultimately show ?case
    using Suc.IH [of n] Suc.IH [of "n + 80"] Suc.prems by auto
qed

text \<open>Scrolling moves every row of the screen up by one and blanks the last row; but it blanks one row
  too many, the 80 cells behind the screen included, and touches no cell further on.\<close>

theorem doScroll_cells:
  assumes "n < 2 ^ 32"
  shows "terminal_buffer (doScroll t) (of_nat n) =
    (if n < 24 * 80 then terminal_buffer t (of_nat (n + 80))
     else if n < 26 * 80 then makeVGAEntry 0 (terminal_colour t)
     else terminal_buffer t (of_nat n))"
proof -
  have "(of_nat n :: u32) \<in> (\<lambda>x. getCharOffset (of_nat x) (of_nat VGA_HEIGHT - 1)) ` {0..<VGA_WIDTH * 2} \<longleftrightarrow>
      1920 \<le> n \<and> n < 2080"
  proof -
    have "getCharOffset (of_nat x) (of_nat VGA_HEIGHT - 1) = of_nat (1920 + x)" for x
      using getCharOffset_nat [of x 24] by (simp add: VGA_HEIGHT_def)
    moreover have "(of_nat n :: u32) = of_nat (1920 + x) \<longleftrightarrow> n = 1920 + x" if "x < 160" for x
      using that assms by (intro cell_inj) auto
    ultimately show ?thesis by (force simp: VGA_WIDTH_def image_iff Bex_def le_iff_add)
  qed
  moreover have "[1..<VGA_HEIGHT] = [1..<Suc 24]" by (simp add: VGA_HEIGHT_def)
  ultimately show ?thesis
    using shift_rows [of 24 n "terminal_buffer t"] assms
    by (simp add: doScroll_def Let_def fold_const_upd del: upt_Suc)
qed

theorem doScroll_cells_witness:
  "terminal_buffer (doScroll \<lparr>terminal_row = 24, terminal_column = 0, terminal_colour = 15,
     terminal_buffer = (\<lambda>i. if i = 85 then 0x0f41 else 0), tty_io = ()\<rparr>) 5 = 0x0f41"
  using doScroll_cells [of 5 "\<lparr>terminal_row = 24, terminal_column = 0, terminal_colour = 15,
     terminal_buffer = (\<lambda>i. if i = 85 then 0x0f41 else 0), tty_io = ()\<rparr>"] by simp


section \<open>The cursor\<close>

definition on_screen :: "'w tty \<Rightarrow> bool" where
  "on_screen t \<longleftrightarrow> 0 \<le> terminal_row t \<and> terminal_row t < 25 \<and> 0 \<le> terminal_column t \<and> terminal_column t < 80"

definition cursor_at :: "'w tty \<Rightarrow> nat" where
  "cursor_at t = nat (terminal_row t * 80 + terminal_column t)"

lemma doScroll_simps [simp]:
  "terminal_row (doScroll t) = terminal_row t" "terminal_column (doScroll t) = terminal_column t"
  "terminal_colour (doScroll t) = terminal_colour t" "tty_io (doScroll t) = tty_io t"
  by (simp_all add: doScroll_def Let_def)

lemma checkScroll_row:
  "terminal_column (checkScroll t) = (if terminal_column t = 79 then 0 else terminal_column t + 1)"
  "terminal_row (checkScroll t) =
     (let r = terminal_row t + (if terminal_column t = 79 then 1 else 0) in if r = 25 then 24 else r)"
  by (auto simp: checkScroll_def Let_def VGA_WIDTH_def VGA_HEIGHT_def)

lemma checkScroll_io [simp]:
  "tty_io (checkScroll t) = tty_io t" "terminal_colour (checkScroll t) = terminal_colour t"
  by (auto simp: checkScroll_def Let_def)

lemma putc_row_column [simp]:
  "terminal_row (terminalPutC io c t) = terminal_row (putc_switch io c t)"
  "terminal_column (terminalPutC io c t) = terminal_column (putc_switch io c t)"
  by (simp_all add: terminalPutC_def Let_def)

lemma mvputc_simps [simp]:
  "terminal_row (terminalMvPutC c cl x y t) = terminal_row t"
  "terminal_column (terminalMvPutC c cl x y t) = terminal_column t"
  "terminal_colour (terminalMvPutC c cl x y t) = terminal_colour t"
  "tty_io (terminalMvPutC c cl x y t) = tty_io t"
  by (simp_all add: terminalMvPutC_def)

text \<open>The hardware cursor after a character is where the driver's own position is.\<close>

definition synced :: "('w \<Rightarrow> u8 \<Rightarrow> u8) \<Rightarrow> 'w tty \<Rightarrow> bool" where
  "synced reg t \<longleftrightarrow> unat (cursor_reg reg (tty_io t)) = cursor_at t"

lemma on_screen_cursor: "on_screen t \<Longrightarrow> cursor_at t < 2000"
  by (auto simp: on_screen_def cursor_at_def)

lemma putc_synced:
  assumes "crtc_ports io index reg" "on_screen (terminalPutC io c t)"
  shows "synced reg (terminalPutC io c t)"
proof -
  let ?t = "terminalPutC io c t"
  have r: "0 \<le> terminal_row ?t" "terminal_row ?t < 25" "0 \<le> terminal_column ?t" "terminal_column ?t < 80"
    using assms(2) by (simp_all add: on_screen_def)
  let ?o = "getCharOffset (of_int (terminal_column ?t)) (of_int (terminal_row ?t))"
  have "?o = getCharOffset (of_nat (nat (terminal_column ?t))) (of_nat (nat (terminal_row ?t)))"
    using r by simp
  also have "\<dots> = of_nat (cursor_at ?t)"
    using r by (simp only: getCharOffset_nat cursor_at_def) (simp add: nat_add_distrib nat_mult_distrib)
  finally have "(ucast ?o :: u16) = of_nat (cursor_at ?t)"
    using on_screen_cursor [OF assms(2)] by (simp add: unsigned_of_nat take_bit_nat_eq_self)
  moreover have "unat (of_nat (cursor_at ?t) :: u16) = cursor_at ?t"
    using on_screen_cursor [OF assms(2)] by (simp add: unat_of_nat)
  moreover have "cursor_reg reg (tty_io ?t) = ucast ?o"
    using setCursor_reg [OF assms(1)] by (simp add: terminalPutC_def Let_def)
  ultimately show ?thesis by (simp add: synced_def)
qed

text \<open>C40. The cursor stays on the screen: with the cursor on the screen and the hardware cursor in step,
  writing any character keeps both true, except for one case, a newline in the last column of the
  last row.\<close>

theorem putc_stays_on_screen:
  assumes "crtc_ports io index reg" "on_screen t" "synced reg t"
    "\<not> (c = 10 \<and> terminal_row t = 24 \<and> terminal_column t = 79)"
  shows "on_screen (terminalPutC io c t) \<and> synced reg (terminalPutC io c t)"
proof -
  have "on_screen (terminalPutC io c t)"
  proof (cases "c = 8")
    case True
    let ?p = "cursor_reg reg (tty_io t)"
    let ?q = "if ?p \<noteq> 0 then ?p - 1 else ?p"
    have "unat ?p < 2000" using assms(2,3) on_screen_cursor by (simp add: synced_def)
    then have "unat ?q < 2000" by (auto simp: unat_minus_one)
    then have "unat (?q div 80) < 25" "unat (?q mod 80) < 80"
      by (simp_all add: unat_div unat_mod)
    then have "uint (?q div 80) < 25" "uint (?q mod 80) < 80"
      unfolding uint_nat by linarith+
    moreover have "terminal_row (putc_switch io c t) = uint (?q div 80)"
      "terminal_column (putc_switch io c t) = uint (?q mod 80)"
      using True getCursor_reg(1) [OF assms(1), of "tty_io t"]
      by (simp_all add: putc_switch_def Let_def VGA_WIDTH_def split_beta)
    ultimately show ?thesis by (simp add: on_screen_def)
  next
    case False
    then show ?thesis
      using assms(2,4) by (auto simp: on_screen_def putc_switch_def checkScroll_row Let_def)
  qed
  then show ?thesis using putc_synced [OF assms(1)] by blast
qed


text \<open>The video registers of the witnesses: the selected register and the register file.\<close>

definition demo_ports :: "(u8 \<times> (u8 \<Rightarrow> u8)) ports" where
  "demo_ports = \<lparr>outb = (\<lambda>p v (i, r). if p = 0x3d4 then (v, r) else if p = 0x3d5 then (i, r(i := v)) else (i, r)),
     inb = (\<lambda>p (i, r). (if p = 0x3d5 then r i else 0, (i, r)))\<rparr>"

lemma demo_ports_crtc: "crtc_ports demo_ports fst snd"
  by (auto simp: crtc_ports_def demo_ports_def)

definition demo_tty :: "int \<Rightarrow> int \<Rightarrow> (u8 \<times> (u8 \<Rightarrow> u8)) tty" where
  "demo_tty row col = \<lparr>terminal_row = row, terminal_column = col, terminal_colour = 15, terminal_buffer = (\<lambda>_. 0),
     tty_io = (0, (\<lambda>_. 0)(14 := of_int ((row * 80 + col) div 256), 15 := of_int ((row * 80 + col) mod 256)))\<rparr>"

theorem putc_stays_on_screen_witness:
  "on_screen (terminalPutC demo_ports 8 (demo_tty 2 0)) \<and> on_screen (terminalPutC demo_ports 10 (demo_tty 24 7))"
proof -
  have "on_screen (demo_tty 2 0)" "on_screen (demo_tty 24 7)" "synced snd (demo_tty 2 0)" "synced snd (demo_tty 24 7)"
    by (simp_all add: on_screen_def demo_tty_def synced_def cursor_reg_def cursor_at_def)
  then show ?thesis
    using putc_stays_on_screen [OF demo_ports_crtc, of "demo_tty 2 0" 8]
      putc_stays_on_screen [OF demo_ports_crtc, of "demo_tty 24 7" 10] by (simp add: demo_tty_def)
qed

lemma row_lost_step:
  "terminal_row t > 25 \<Longrightarrow> c \<noteq> 8 \<Longrightarrow> terminal_row (terminalPutC io c t) > 25"
  by (auto simp: putc_switch_def checkScroll_row Let_def)

lemma row_lost:
  "terminal_row t > 25 \<Longrightarrow> 8 \<notin> set cs \<Longrightarrow> terminal_row (fold (terminalPutC io) cs t) > 25"
  by (induction cs arbitrary: t) (simp_all add: row_lost_step del: putc_row_column)

text \<open>The exception is real and permanent: a newline in the last column of the last row puts the
  cursor on row 26, and from a row above 25 no sequence of characters without a backspace ever brings
  it back, so the console never scrolls again.\<close>

theorem newline_in_last_cell_loses_cursor:
  assumes "terminal_row t = 24" "terminal_column t = 79" "8 \<notin> set cs"
  shows "terminal_row (fold (terminalPutC io) (10 # cs) t) > 25"
proof -
  have "terminal_row (terminalPutC io 10 t) > 25"
    using assms by (simp add: putc_switch_def checkScroll_row)
  from row_lost [OF this assms(3)] show ?thesis by simp
qed

theorem newline_in_last_cell_loses_cursor_witness:
  "terminal_row (fold (terminalPutC demo_ports) [10, 65, 10] (demo_tty 24 79)) > 25"
  using newline_in_last_cell_loses_cursor [of "demo_tty 24 79" "[65, 10]" demo_ports] by (simp add: demo_tty_def)

definition printable :: "u8 \<Rightarrow> bool" where
  "printable c \<longleftrightarrow> c \<noteq> 10 \<and> c \<noteq> 13 \<and> c \<noteq> 8"

lemma putc_printable:
  assumes "on_screen t" "printable c" "terminal_column t < 79"
  shows "terminal_row (terminalPutC io c t) = terminal_row t"
    "terminal_column (terminalPutC io c t) = terminal_column t + 1"
    "terminal_colour (terminalPutC io c t) = terminal_colour t"
    "terminal_buffer (terminalPutC io c t) = (terminal_buffer t)(of_nat (cursor_at t) := makeVGAEntry c (terminal_colour t))"
proof -
  have r: "0 \<le> terminal_row t" "terminal_row t < 25" "0 \<le> terminal_column t"
    using assms(1) by (simp_all add: on_screen_def)
  have "getCharOffset (of_int (terminal_column t)) (of_int (terminal_row t)) =
      getCharOffset (of_nat (nat (terminal_column t))) (of_nat (nat (terminal_row t)))" using r by simp
  also have "\<dots> = of_nat (cursor_at t)"
    using r by (simp only: getCharOffset_nat cursor_at_def) (simp add: nat_add_distrib nat_mult_distrib)
  finally show "terminal_buffer (terminalPutC io c t) = (terminal_buffer t)(of_nat (cursor_at t) := makeVGAEntry c (terminal_colour t))"
    using assms r by (simp add: terminalPutC_def putc_switch_def printable_def checkScroll_def
        terminalMvPutC_def Let_def VGA_WIDTH_def VGA_HEIGHT_def)
qed (use assms in \<open>simp_all add: on_screen_def putc_switch_def printable_def checkScroll_row terminalPutC_def Let_def\<close>)

text \<open>Printing on one line: a string of ordinary characters that fits on the current row appears in
  consecutive cells from the cursor on in the current colour, the cursor ends behind it, no other cell
  changes, and \<open>terminalPutS\<close> returns its length.\<close>

theorem terminalPutS_line:
  assumes "on_screen t" "list_all printable str" "terminal_column t + int (length str) < 80"
  shows "\<exists>t'. terminalPutS io str t = (int (length str), t') \<and>
    terminal_row t' = terminal_row t \<and> terminal_column t' = terminal_column t + int (length str) \<and>
    (\<forall>n<2 ^ 32. terminal_buffer t' (of_nat n) =
      (if cursor_at t \<le> n \<and> n < cursor_at t + length str
       then makeVGAEntry (str ! (n - cursor_at t)) (terminal_colour t) else terminal_buffer t (of_nat n)))"
  using assms
proof (induction str arbitrary: t)
  case Nil
  then show ?case by (auto simp: terminalPutS_def)
next
  case (Cons c cs)
  let ?t = "terminalPutC io c t"
  have "printable c" "terminal_column t < 79" using Cons.prems by auto
  note p = putc_printable [OF Cons.prems(1) this, of io]
  have on: "on_screen ?t" using Cons.prems p by (auto simp: on_screen_def simp del: putc_row_column)
  have cur: "cursor_at ?t = Suc (cursor_at t)"
    using Cons.prems(1) p by (simp add: cursor_at_def on_screen_def nat_add_distrib del: putc_row_column)
  obtain t' where t': "terminalPutS io cs ?t = (int (length cs), t')" "terminal_row t' = terminal_row ?t"
    "terminal_column t' = terminal_column ?t + int (length cs)"
    "\<And>n. n < 2 ^ 32 \<Longrightarrow> terminal_buffer t' (of_nat n) =
      (if cursor_at ?t \<le> n \<and> n < cursor_at ?t + length cs
       then makeVGAEntry (cs ! (n - cursor_at ?t)) (terminal_colour ?t) else terminal_buffer ?t (of_nat n))"
    using Cons.IH [OF on] Cons.prems p by (auto simp del: putc_row_column)
  have "cursor_at t < 2 ^ 32" using on_screen_cursor [OF Cons.prems(1)] by simp
  then have "terminal_buffer t' (of_nat n) =
      (if cursor_at t \<le> n \<and> n < cursor_at t + length (c # cs)
       then makeVGAEntry ((c # cs) ! (n - cursor_at t)) (terminal_colour t) else terminal_buffer t (of_nat n))"
    if "n < 2 ^ 32" for n
    using t'(4) [OF that] cell_inj [OF that] p cur by (auto simp: nth_Cons' simp del: putc_row_column)
  then show ?case using t' p by (auto simp: terminalPutS_def simp del: putc_row_column)
qed


theorem terminalPutS_line_witness:
  "\<exists>t'. terminalPutS demo_ports [104, 105] (demo_tty 3 10) = (2, t') \<and> terminal_column t' = 12 \<and>
     terminal_buffer t' 251 = makeVGAEntry 105 15"
proof -
  have "on_screen (demo_tty 3 10)" "list_all printable [104, 105]"
    by (simp_all add: on_screen_def demo_tty_def printable_def)
  then obtain t' where t: "terminalPutS demo_ports [104, 105] (demo_tty 3 10) = (2, t')" "terminal_column t' = 12"
    "\<forall>n<2 ^ 32. terminal_buffer t' (of_nat n) =
      (if 250 \<le> n \<and> n < 252 then makeVGAEntry ([104, 105] ! (n - 250)) 15 else 0)"
    using terminalPutS_line [of "demo_tty 3 10" "[104, 105]" demo_ports]
    by (auto simp: demo_tty_def cursor_at_def)
  then show ?thesis using t(3) [THEN spec [of _ 251]] by simp
qed

end
