(* ===== verification/Printf.thy ===== *)
theory Printf
  imports Stdlib Tty
begin

text \<open>
  Formatted output, \<^verbatim>\<open>libc/src/stdio/printf.c\<close>, \<^verbatim>\<open>putchar.c\<close> and \<^verbatim>\<open>puts.c\<close>. A format and the string arguments
  are HOL strings, an integer argument is the 32-bit word that \<^verbatim>\<open>va_arg\<close> takes. \<open>printf\<close> yields the
  characters that reach the console, in order; the console of theory \<open>Tty\<close> consumes them. None is a
  call whose behaviour C leaves undefined: a conversion without its argument, more flags than the
  eight-byte array holds, a format that ends inside a conversion, or a text that does not fit into the
  buffer of 2048 bytes. Numbers are converted by the \<open>itoa\<close> of theory \<open>Stdlib\<close>.
\<close>

section \<open>Conversions\<close>

datatype arg = ArgI u32 | ArgS string

record formatSpecifier =
  spec_flags :: string
  spec_width :: int
  spec_precision :: int
  specifier :: char

fun inGroup :: "char \<Rightarrow> string \<Rightarrow> bool" where
  "inGroup target [] = False"
| "inGroup target (g # gs) = (if target = g then True else inGroup target gs)"

abbreviation (input) char_int :: "char \<Rightarrow> int" where
  "char_int c \<equiv> schar (of_char c)"

fun parse_flags :: "string \<Rightarrow> string \<times> string" where
  "parse_flags [] = ([], [])"
| "parse_flags (c # cs) = (if inGroup c ''0#+-'' then (let (fl, r) = parse_flags cs in (c # fl, r)) else ([], c # cs))"

fun parse_number :: "int \<Rightarrow> string \<Rightarrow> int \<times> string" where
  "parse_number n [] = (n, [])"
| "parse_number n (c # cs) = (if isdigit (char_int c) then parse_number (10 * n + (char_int c - 48)) cs else (n, c # cs))"

text \<open>The specifier and the format after it.\<close>

definition parseSpecifier :: "string \<Rightarrow> (formatSpecifier \<times> string) option" where
  "parseSpecifier sp =
     (let (fl, r1) = parse_flags sp;
          (w, r2) = parse_number 0 r1;
          (p, r3) = (case r2 of c # cs \<Rightarrow> if c = CHR ''.'' then parse_number 0 cs else (0, r2) | [] \<Rightarrow> (0, r2))
      in if length fl > 7 then None
         else case r3 of [] \<Rightarrow> None
           | c # cs \<Rightarrow> Some (\<lparr>spec_flags = fl, spec_width = w, spec_precision = p, specifier = c\<rparr>, cs))"

text \<open>Insert \<open>num\<close> characters in front of a string.\<close>

definition insertChars :: "char \<Rightarrow> int \<Rightarrow> string \<Rightarrow> string" where
  "insertChars c num start = replicate (nat num) c @ start"

text \<open>The memory that holds a string at address 0, and the string that a memory holds there.\<close>

definition string_mem :: "string \<Rightarrow> mem" where
  "string_mem s = (\<lambda>a. if unat a < length s then of_char (s ! unat a) else 0)"

definition mem_string :: "mem \<Rightarrow> string option" where
  "mem_string m = map_option (\<lambda>n. map (\<lambda>i. char_of (unat (m (of_nat i)))) [0..<unat n]) (strlen m 0)"

definition itoa_text :: "int \<Rightarrow> int \<Rightarrow> string option" where
  "itoa_text v base = (case itoa (\<lambda>_. 0) v 0 base of None \<Rightarrow> None | Some m \<Rightarrow> mem_string m)"

text \<open>Zero padding of a number: not when left justified.\<close>

definition zero_pad :: "formatSpecifier \<Rightarrow> string \<Rightarrow> string \<Rightarrow> string" where
  "zero_pad sp prefix num =
     (if \<not> inGroup (CHR ''-'') (spec_flags sp) \<and> inGroup (CHR ''0'') (spec_flags sp)
      then let pad = spec_width sp - int (length (prefix @ num))
           in if pad \<ge> 0 then prefix @ insertChars (CHR ''0'') pad num else prefix @ num
      else prefix @ num)"

text \<open>The text of one conversion before the final padding, and the arguments left.\<close>

definition convert :: "formatSpecifier \<Rightarrow> arg list \<Rightarrow> (string \<times> arg list) option" where
  "convert sp args =
     (let c = specifier sp in
      if c = CHR ''%'' then Some (''%'', args)
      else if c = CHR ''c'' then
        (case args of ArgI i # as \<Rightarrow> Some (if (ucast i :: u8) = 0 then [] else [char_of (unat (ucast i :: u8))], as) | _ \<Rightarrow> None)
      else if c = CHR ''x'' then
        (case args of
           ArgI i # as \<Rightarrow>
             map_option (\<lambda>num. (zero_pad sp (if inGroup (CHR ''#'') (spec_flags sp) then ''0x'' else []) num, as))
               (itoa_text (sint i) 16)
         | _ \<Rightarrow> None)
      else if c = CHR ''s'' then (case args of ArgS s # as \<Rightarrow> Some (s, as) | _ \<Rightarrow> None)
      else if c = CHR ''i'' \<or> c = CHR ''d'' then
        (case args of
           ArgI i # as \<Rightarrow>
             map_option (\<lambda>num.
                 (if sint i < 0 then zero_pad sp (take 1 num) (drop 1 num)
                  else zero_pad sp (if inGroup (CHR ''+'') (spec_flags sp) then ''+'' else []) num, as))
               (itoa_text (sint i) 10)
         | _ \<Rightarrow> None)
      else Some ([CHR ''%'', c], args))"

definition pad_field :: "formatSpecifier \<Rightarrow> string \<Rightarrow> string" where
  "pad_field sp buffer =
     (let pad = spec_width sp - int (length buffer)
      in if pad \<ge> 0 then
           (if inGroup (CHR ''-'') (spec_flags sp) then buffer @ replicate (nat pad) (CHR '' '')
            else insertChars (CHR '' '') pad buffer)
         else buffer)"

lemma parse_flags_length: "length (snd (parse_flags s)) \<le> length s"
  by (induction s) (auto simp: split_beta Let_def)

lemma parse_number_length: "length (snd (parse_number n s)) \<le> length s"
  by (induction n s rule: parse_number.induct) (auto simp: le_Suc_eq)

lemma parseSpecifier_length: "parseSpecifier s = Some (sp, r) \<Longrightarrow> length r < length s"
proof -
  assume a: "parseSpecifier s = Some (sp, r)"
  have n: "length (snd (parse_number n x)) \<le> length x" for n x by (rule parse_number_length)
  obtain fl r1 where 1: "parse_flags s = (fl, r1)" by fastforce
  obtain w r2 where 2: "parse_number 0 r1 = (w, r2)" by fastforce
  have l: "length r1 \<le> length s" "length r2 \<le> length r1"
    using parse_flags_length [of s] n [of 0 r1] 1 2 by simp_all
  show ?thesis
  proof (cases r2)
    case (Cons c cs)
    then show ?thesis
      using a 1 2 l n [of 0 cs] by (auto simp: parseSpecifier_def Let_def split: if_splits prod.splits list.splits)
  qed (use a 1 2 in \<open>auto simp: parseSpecifier_def Let_def split: if_splits\<close>)
qed

function printf :: "string \<Rightarrow> arg list \<Rightarrow> string option" where
  "printf [] args = Some []"
| "printf (c # format) args =
     (if c = CHR ''%'' then
        (case parseSpecifier format of None \<Rightarrow> None
         | Some (sp, format') \<Rightarrow>
             (case convert sp args of None \<Rightarrow> None
              | Some (buffer, args') \<Rightarrow>
                  (let buffer' = pad_field sp buffer
                   in if length buffer' \<ge> 2048 then None
                      else map_option ((@) buffer') (printf format' args'))))
      else map_option ((#) c) (printf format args))"
  by pat_completeness auto
termination
  by (relation "measure (length \<circ> fst)") (auto dest: parseSpecifier_length)

definition putchar :: "'w ports \<Rightarrow> u32 \<Rightarrow> 'w tty \<Rightarrow> int \<times> 'w tty" where
  "putchar io c t = (sint (ucast c :: u8), terminalPutC io (ucast c) t)"

definition puts :: "string \<Rightarrow> string option" where
  "puts str = printf ''%s\<newline>'' [ArgS str]"

text \<open>\<^verbatim>\<open>printf\<close> on the console: the return value counts the characters.\<close>

definition console_printf :: "'w ports \<Rightarrow> string \<Rightarrow> arg list \<Rightarrow> 'w tty \<Rightarrow> (int \<times> 'w tty) option" where
  "console_printf io format args t =
     map_option (\<lambda>text. terminalPutS io (map of_char text) t) (printf format args)"



section \<open>Numbers\<close>

definition numeral_text :: "int \<Rightarrow> int \<Rightarrow> string" where
  "numeral_text v base = map (\<lambda>b. char_of (unat b)) (numeral_bytes v base)"

lemma mem_string_cstr:
  assumes "cstr m 0 bs"
  shows "mem_string m = Some (map (\<lambda>b. char_of (unat b)) bs)"
proof -
  have "unat (of_nat (length bs) :: u32) = length bs"
    using cstr_length [OF assms] by (simp add: unat_of_nat)
  moreover have "map (\<lambda>i. char_of (unat (m (of_nat i)))) [0..<length bs] = map (\<lambda>b. char_of (unat b)) bs"
    using assms by (auto simp: cstr_iff intro!: nth_equalityI)
  ultimately show ?thesis using strlen_cstr [OF assms] by (simp add: mem_string_def)
qed

lemma itoa_text_spec:
  assumes "2 \<le> base" "base \<le> 36"
  shows "itoa_text (sint (i :: u32)) base = Some (numeral_text (sint i) base)"
    "length (numeral_text (sint i) base) \<le> 33"
proof -
  have r: "- (2 ^ 31) \<le> sint i" "sint i < 2 ^ 31" using sint_ge [of i] sint_lt [of i] by simp_all
  obtain m where "itoa (\<lambda>_. 0) (sint i) 0 base = Some m" "cstr m 0 (numeral_bytes (sint i) base)"
    "length (numeral_bytes (sint i) base) \<le> 33"
    using itoa_writes [OF assms r, of "\<lambda>_. 0" 0] by blast
  then show "itoa_text (sint i) base = Some (numeral_text (sint i) base)" "length (numeral_text (sint i) base) \<le> 33"
    by (simp_all add: itoa_text_def mem_string_cstr numeral_text_def)
qed

lemma printf_plain:
  "CHR ''%'' \<notin> set s \<Longrightarrow> printf (s @ format) args = map_option ((@) s) (printf format args)"
  by (induction s) (auto simp: option.map_comp comp_def map_option_case split: option.splits)

lemma printf_no_conversion: "CHR ''%'' \<notin> set s \<Longrightarrow> printf s args = Some s"
  using printf_plain [of s "[]" args] by simp

lemma parse_plain: "parseSpecifier (CHR ''s'' # r) = Some (\<lparr>spec_flags = [], spec_width = 0, spec_precision = 0, specifier = CHR ''s''\<rparr>, r)"
  "parseSpecifier (CHR ''d'' # r) = Some (\<lparr>spec_flags = [], spec_width = 0, spec_precision = 0, specifier = CHR ''d''\<rparr>, r)"
  "parseSpecifier (CHR ''x'' # r) = Some (\<lparr>spec_flags = [], spec_width = 0, spec_precision = 0, specifier = CHR ''x''\<rparr>, r)"
  "parseSpecifier (CHR ''c'' # r) = Some (\<lparr>spec_flags = [], spec_width = 0, spec_precision = 0, specifier = CHR ''c''\<rparr>, r)"
  "parseSpecifier (CHR ''l'' # r) = Some (\<lparr>spec_flags = [], spec_width = 0, spec_precision = 0, specifier = CHR ''l''\<rparr>, r)"
  by (simp_all add: parseSpecifier_def isdigit_def)

lemma pad_none [simp]: "spec_width sp = 0 \<Longrightarrow> pad_field sp b = b"
  by (simp add: pad_field_def insertChars_def Let_def)

text \<open>The conversions without flags and width, as rewrite rules for the clients.\<close>

lemma printf_s:
  "length s < 2048 \<Longrightarrow> printf (CHR ''%'' # CHR ''s'' # r) (ArgS s # args) = map_option ((@) s) (printf r args)"
  by (simp add: parse_plain convert_def Let_def)

lemma printf_d:
  "printf (CHR ''%'' # CHR ''d'' # r) (ArgI i # args) = map_option ((@) (numeral_text (sint i) 10)) (printf r args)"
proof -
  have t: "itoa_text (sint i) 10 = Some (numeral_text (sint i) 10)" "length (numeral_text (sint i) 10) \<le> 33"
    using itoa_text_spec [of 10 i] by simp_all
  have "zero_pad \<lparr>spec_flags = [], spec_width = 0, spec_precision = 0, specifier = x\<rparr> p n = p @ n" for x p n
    by (simp add: zero_pad_def)
  then show ?thesis using t by (simp add: parse_plain convert_def Let_def)
qed

lemma printf_c:
  "printf (CHR ''%'' # CHR ''c'' # r) (ArgI i # args) =
     map_option ((@) (if (ucast i :: u8) = 0 then [] else [char_of (unat (ucast i :: u8))])) (printf r args)"
  by (simp add: parse_plain convert_def Let_def)

lemmas printf_rules = printf_s printf_d printf_c

text \<open>C38. Decimal output: for every 32-bit value and every \<open>%d\<close> conversion whose flags have neither \<^verbatim>\<open>+\<close> nor \<^verbatim>\<open>0\<close>
  and whose width is below 2048, \<open>printf\<close> prints the signed decimal numeral of the value, padded with
  spaces to the width on the left, or on the right under the flag \<^verbatim>\<open>-\<close>, and then the rest of the format.\<close>

theorem printf_decimal_field:
  assumes "parseSpecifier f = Some (sp, rest)" "specifier sp = CHR ''d''" "0 \<le> spec_width sp" "spec_width sp < 2048"
    and "CHR ''+'' \<notin> set (spec_flags sp)" "CHR ''0'' \<notin> set (spec_flags sp)"
  shows "printf (CHR ''%'' # f) (ArgI i # args) =
    (let text = numeral_text (sint i) 10;
         pad = replicate (nat (spec_width sp) - length text) (CHR '' '')
     in map_option ((@) (if CHR ''-'' \<in> set (spec_flags sp) then text @ pad else pad @ text)) (printf rest args))"
proof -
  have g: "inGroup c s \<longleftrightarrow> c \<in> set s" for c s by (induction s) auto
  have t: "itoa_text (sint i) 10 = Some (numeral_text (sint i) 10)" "length (numeral_text (sint i) 10) \<le> 33"
    using itoa_text_spec [of 10 i] by simp_all
  have z: "zero_pad sp p n = p @ n" for p n using assms(6) by (simp add: zero_pad_def g)
  have "pad_field sp (numeral_text (sint i) 10) =
      (let pad = replicate (nat (spec_width sp) - length (numeral_text (sint i) 10)) (CHR '' '')
       in if CHR ''-'' \<in> set (spec_flags sp) then numeral_text (sint i) 10 @ pad else pad @ numeral_text (sint i) 10)"
    using assms(3) by (auto simp: pad_field_def g insertChars_def Let_def nat_diff_distrib)
  moreover have "convert sp (ArgI i # args) = Some (numeral_text (sint i) 10, args)"
    using assms(2,5) t by (simp add: convert_def z g)
  moreover have "length (pad_field sp (numeral_text (sint i) 10)) < 2048"
    using assms(3,4) t(2) by (auto simp: pad_field_def insertChars_def Let_def)
  ultimately show ?thesis using assms(1) by (simp add: Let_def)
qed

theorem printf_decimal_field_witness:
  "printf ''%6d!'' [ArgI (- 42)] = Some ''   -42!''"
proof -
  have p: "parseSpecifier ''6d!'' = Some (\<lparr>spec_flags = [], spec_width = 6, spec_precision = 0, specifier = CHR ''d''\<rparr>, ''!'')"
    by (simp add: parseSpecifier_def isdigit_def)
  have "numeral_text (- 42) 10 = ''-42''"
    by (simp add: numeral_text_def numeral_bytes_def digit_text_def rdigits.simps digit_char_def char_of_def bit_0)
  moreover have "sint (- 42 :: u32) = - 42" by simp
  ultimately show ?thesis
    using printf_decimal_field [OF p, of "- 42" "[]"] by (simp add: Let_def numeral_eq_Suc)
qed

text \<open>There is no \<open>long long\<close> output: \<open>%lld\<close> and \<open>%llu\<close> are printed as they stand and consume no
  argument, so a length or size never appears.\<close>

theorem printf_long_unsupported:
  "printf (''%lld'' @ rest) args = map_option ((@) ''%lld'') (printf rest args) \<and>
   printf (''%llu'' @ rest) args = map_option ((@) ''%llu'') (printf rest args)"
  by (cases "printf rest args") (simp_all add: parse_plain convert_def Let_def)

text \<open>What \<open>printf\<close> does to the console: the characters of the text one after the other.\<close>

lemma console_printf_plain:
  "CHR ''%'' \<notin> set s \<Longrightarrow> console_printf io s args t = Some (int (length s), fold (terminalPutC io) (map of_char s) t)"
  by (simp add: console_printf_def printf_no_conversion terminalPutS_def)

end
