(* ===== verification/Ahci.thy ===== *)
theory Ahci
  imports Prelude
begin

text \<open>
  The AHCI disk driver, \<^verbatim>\<open>drivers/src/drive.c\<close>, from the command it builds for the controller up to
  byte-wise reads and writes of at most 256 bytes. The controller with its disks is a \<open>device\<close>: a
  reactive process that answers every issued command with the number of polls after which the
  command slot clears (None: never), the task-file error bit, and the contents it leaves in the DMA
  buffer. \<open>sector_device\<close> states the behaviour the driver relies on: the device serves the sector
  whose number stands in the command's LBA bytes. The reset and start sequences of the controller
  registers (\<^verbatim>\<open>port_stop\<close>, \<^verbatim>\<open>port_start\<close>, \<^verbatim>\<open>port_init\<close>, the PCI scan and reset of \<^verbatim>\<open>ahci_init\<close>) are
  in theory \<open>Ahci_Init\<close>.

  The local \<^verbatim>\<open>sector_buf\<close> arrays are stack memory with indeterminate contents: the model keeps one
  array in the state.
\<close>

section \<open>Commands and devices\<close>

text \<open>What \<^verbatim>\<open>exec_ata_cmd\<close> puts into command header, region descriptor and command FIS.\<close>

record ata_cmd =
  hdr_cfl :: u8
  hdr_w :: bool
  hdr_prdtl :: u16
  prdt_dbc :: u16
  cfis :: "u8 list"

text \<open>An answer: after how many polls slot 0 is clear, the task-file error bit, the buffer.\<close>

type_synonym answer = "nat option \<times> bool \<times> u8 list"

codatatype device = Device (serve: "int \<times> ata_cmd \<times> u8 list \<Rightarrow> answer \<times> device")

record ahci =
  ahci_initialized :: bool
  drive_port :: "int list"
  drive_size_bytes :: "u64 list"
  drive_count :: int
  byte_buffer :: "u8 list"
  sector_buf :: "u8 list"
  ahci_hba_base :: u64
  hba :: device

definition SECTOR_SIZE :: nat where "SECTOR_SIZE = 512"

abbreviation (input) ATA_CMD_IDENTIFY :: u8 where "ATA_CMD_IDENTIFY \<equiv> 0xEC"
abbreviation (input) ATA_CMD_READ_DMA_EXT :: u8 where "ATA_CMD_READ_DMA_EXT \<equiv> 0x25"
abbreviation (input) ATA_CMD_WRITE_DMA_EXT :: u8 where "ATA_CMD_WRITE_DMA_EXT \<equiv> 0x35"

text \<open>\<^verbatim>\<open>while (timeout_us--)\<close>: poll until the slot is clear.\<close>

fun wait_cmd_complete :: "nat \<Rightarrow> nat option \<Rightarrow> bool \<Rightarrow> int" where
  "wait_cmd_complete 0 clear_after tf_error = -1"
| "wait_cmd_complete (Suc timeout) (Some 0) tf_error = (if tf_error then -1 else 0)"
| "wait_cmd_complete (Suc timeout) (Some (Suc k)) tf_error = wait_cmd_complete timeout (Some k) tf_error"
| "wait_cmd_complete (Suc timeout) None tf_error = wait_cmd_complete timeout None tf_error"

definition build_fis :: "u8 \<Rightarrow> u64 \<Rightarrow> u16 \<Rightarrow> u8 list" where
  "build_fis cmd lba sector_count =
     [0x27, 0x80, cmd, 0, ucast lba, ucast (drop_bit 8 lba), ucast (drop_bit 16 lba), ucast (drop_bit 24 lba),
      ucast (drop_bit 32 lba AND 0xFF), ucast (drop_bit 40 lba AND 0xFF), ucast sector_count,
      ucast (drop_bit 8 sector_count), 0, 0, 0x40, 0]"

definition build_cmd :: "u8 \<Rightarrow> u64 \<Rightarrow> u16 \<Rightarrow> bool \<Rightarrow> ata_cmd" where
  "build_cmd cmd lba sector_count is_write =
     (let bytes = (if sector_count = 0 then 512 else ucast sector_count * of_nat SECTOR_SIZE) :: u32
      in \<lparr>hdr_cfl = 5, hdr_w = is_write, hdr_prdtl = 1, prdt_dbc = ucast (bytes - 1),
          cfis = build_fis cmd lba sector_count\<rparr>)"

definition exec_ata_cmd :: "int \<Rightarrow> u8 \<Rightarrow> u64 \<Rightarrow> u16 \<Rightarrow> u8 list \<Rightarrow> bool \<Rightarrow> device \<Rightarrow> int \<times> u8 list \<times> device" where
  "exec_ata_cmd port cmd lba sector_count data_buf is_write dev =
     (let ((clear_after, tf_error, buf'), dev') =
            serve dev (port, build_cmd cmd lba sector_count is_write, data_buf)
      in (wait_cmd_complete 1000000 clear_after tf_error, buf', dev'))"

definition port_read_sectors :: "int \<Rightarrow> u64 \<Rightarrow> u16 \<Rightarrow> u8 list \<Rightarrow> device \<Rightarrow> int \<times> u8 list \<times> device" where
  "port_read_sectors port lba sector_count buffer dev =
     (if sector_count = 0 then (0, buffer, dev)
      else if sector_count > 1 then (-1, buffer, dev)
      else exec_ata_cmd port ATA_CMD_READ_DMA_EXT lba sector_count buffer False dev)"

definition port_write_sectors :: "int \<Rightarrow> u64 \<Rightarrow> u16 \<Rightarrow> u8 list \<Rightarrow> device \<Rightarrow> int \<times> u8 list \<times> device" where
  "port_write_sectors port lba sector_count buffer dev =
     (if sector_count = 0 then (0, buffer, dev)
      else if sector_count > 1 then (-1, buffer, dev)
      else exec_ata_cmd port ATA_CMD_WRITE_DMA_EXT lba sector_count buffer True dev)"


section \<open>The drive table\<close>

definition MAX_DRIVES :: int where "MAX_DRIVES = 32"

definition add_drive_to_table :: "int \<Rightarrow> u64 \<Rightarrow> ahci \<Rightarrow> int \<times> ahci" where
  "add_drive_to_table port sz s =
     (if drive_count s \<ge> MAX_DRIVES then (-1, s)
      else (drive_count s, s\<lparr>drive_port := (drive_port s)[nat (drive_count s) := port],
              drive_size_bytes := (drive_size_bytes s)[nat (drive_count s) := sz],
              drive_count := drive_count s + 1\<rparr>))"

fun remove_loop :: "nat list \<Rightarrow> int \<Rightarrow> ahci \<Rightarrow> ahci" where
  "remove_loop [] port s = s"
| "remove_loop (i # is) port s =
     (if drive_port s ! i = port
      then let l = nat (drive_count s - 1)
           in s\<lparr>drive_port := (drive_port s)[i := drive_port s ! l],
                drive_size_bytes := (drive_size_bytes s)[i := drive_size_bytes s ! l],
                drive_count := drive_count s - 1\<rparr>
      else remove_loop is port s)"

definition remove_drive_from_table :: "int \<Rightarrow> ahci \<Rightarrow> ahci" where
  "remove_drive_from_table port s = remove_loop [0..<nat (drive_count s)] port s"

definition word16 :: "u8 list \<Rightarrow> nat \<Rightarrow> u16" where
  "word16 bs i = ucast (bs ! (2 * i)) OR push_bit 8 (ucast (bs ! (2 * i + 1)))"

definition identify_size :: "u8 list \<Rightarrow> u64" where
  "identify_size buf =
     (let low = ucast (word16 buf 100) OR push_bit 16 (ucast (word16 buf 101)) :: u32;
          high = ucast (word16 buf 102) OR push_bit 16 (ucast (word16 buf 103)) :: u32;
          sectors = push_bit 32 (ucast high) OR ucast low
      in sectors * of_nat SECTOR_SIZE)"

definition identify_device :: "int \<Rightarrow> ahci \<Rightarrow> u64 option \<times> ahci" where
  "identify_device port s =
     (let (ret, buf, dev) = exec_ata_cmd port ATA_CMD_IDENTIFY 0 0 (take 512 (sector_buf s)) False (hba s);
          s' = s\<lparr>hba := dev\<rparr>
      in if ret \<noteq> 0 then (None, s') else (Some (identify_size buf), s'))"

text \<open>\<open>ssts\<close> gives the value of each port's status register; a device is present when its low four
  bits are 3.\<close>

definition port_scan_update :: "(int \<Rightarrow> u32) \<Rightarrow> int \<Rightarrow> ahci \<Rightarrow> ahci" where
  "port_scan_update ssts port s =
     (let already = (port \<in> set (take (nat (drive_count s)) (drive_port s)));
          present = (ssts port AND 0x0F = 0x03)
      in if present \<and> \<not> already then
           (case identify_device port s of
              (None, s') \<Rightarrow> s'
            | (Some sz, s') \<Rightarrow> snd (add_drive_to_table port sz s'))
         else if \<not> present \<and> already then remove_drive_from_table port s
         else s)"

definition ahci_table_update :: "u32 \<Rightarrow> (int \<Rightarrow> u32) \<Rightarrow> ahci \<Rightarrow> ahci" where
  "ahci_table_update ports_impl ssts s =
     (if \<not> ahci_initialized s then s
      else if ahci_hba_base s = 0 then s
      else fold (\<lambda>port. if bit ports_impl port then port_scan_update ssts (int port) else id) [0..<32] s)"


section \<open>Bytes\<close>

text \<open>The part of the local buffer that sector \<open>i\<close> of a request uses, and storing it.\<close>

definition buf_sector :: "nat \<Rightarrow> ahci \<Rightarrow> u8 list" where
  "buf_sector i s = take SECTOR_SIZE (drop (i * SECTOR_SIZE) (sector_buf s))"

definition set_buf_sector :: "nat \<Rightarrow> u8 list \<Rightarrow> ahci \<Rightarrow> ahci" where
  "set_buf_sector i bs s = s\<lparr>sector_buf :=
     take (i * SECTOR_SIZE) (sector_buf s) @ bs @ drop (i * SECTOR_SIZE + length bs) (sector_buf s)\<rparr>"

definition req_sectors :: "u64 \<Rightarrow> u64 \<Rightarrow> u16" where
  "req_sectors addr len = ucast ((addr + len - 1) div 512 - addr div 512 + 1)"

definition start_off :: "u64 \<Rightarrow> nat \<Rightarrow> u32" where
  "start_off addr i = (if i = 0 then ucast (addr mod 512) else 0)"

definition end_off :: "u64 \<Rightarrow> u64 \<Rightarrow> nat \<Rightarrow> u32" where
  "end_off addr len i =
     (if i = unat (req_sectors addr len) - 1 then ucast ((addr + len - 1) mod 512 + 1) else 512)"

text \<open>\<open>store_at bs k xs\<close>: \<open>bs\<close> with \<open>xs\<close> stored from index \<open>k\<close> on.\<close>

definition store_at :: "'a list \<Rightarrow> nat \<Rightarrow> 'a list \<Rightarrow> 'a list" where
  "store_at bs k xs = take k bs @ xs @ drop (k + length xs) bs"

fun ahci_read_loop :: "int \<Rightarrow> u64 \<Rightarrow> u64 \<Rightarrow> nat list \<Rightarrow> u32 \<Rightarrow> ahci \<Rightarrow> bool \<times> ahci" where
  "ahci_read_loop port addr len [] copied s = (True, s)"
| "ahci_read_loop port addr len (i # is) copied s =
     (let lba = addr div 512 + of_nat i;
          (ret, sec, dev) = port_read_sectors port lba 1 (buf_sector i s) (hba s);
          s1 = (set_buf_sector i sec s)\<lparr>hba := dev\<rparr>
      in if ret \<noteq> 0 then (False, s1)
         else
           let so = start_off addr i;
               chunk0 = end_off addr len i - so;
               chunk = (if ucast chunk0 > len - ucast copied then ucast (len - ucast copied) else chunk0);
               s2 = s1\<lparr>byte_buffer := store_at (byte_buffer s1) (unat copied) (take (unat chunk) (drop (unat so) sec))\<rparr>
           in ahci_read_loop port addr len is (copied + chunk) s2)"

text \<open>\<^verbatim>\<open>ahci_read\<close> returns a pointer to \<^verbatim>\<open>byte_buffer\<close>, or NULL: here whether it is non-null.\<close>

definition ahci_read :: "int \<Rightarrow> u64 \<Rightarrow> u64 \<Rightarrow> ahci \<Rightarrow> bool \<times> ahci" where
  "ahci_read drive addr len s =
     (if \<not> ahci_initialized s then (False, s)
      else if drive < 0 \<or> drive \<ge> drive_count s then (False, s)
      else if len \<le> 0 \<or> len > 256 then (False, s)
      else if req_sectors addr len > 2 then (False, s)
      else ahci_read_loop (drive_port s ! nat drive) addr len [0..<unat (req_sectors addr len)] 0 s)"

fun ahci_write_loop :: "int \<Rightarrow> u64 \<Rightarrow> u64 \<Rightarrow> nat list \<Rightarrow> u8 list \<Rightarrow> ahci \<Rightarrow> int \<times> ahci" where
  "ahci_write_loop port addr len [] src s = (0, s)"
| "ahci_write_loop port addr len (i # is) src s =
     (let lba = addr div 512 + of_nat i;
          so = start_off addr i;
          eo = end_off addr len i;
          chunk = eo - so;
          (ret1, s1) =
            (if so \<noteq> 0 \<or> eo \<noteq> 512
             then let (r, sec, dev) = port_read_sectors port lba 1 (buf_sector i s) (hba s)
                  in (r, (set_buf_sector i sec s)\<lparr>hba := dev\<rparr>)
             else (0, s))
      in if ret1 \<noteq> 0 then (-1, s1)
         else
           let sec' = store_at (buf_sector i s1) (unat so) (take (unat chunk) src);
               s2 = set_buf_sector i sec' s1;
               (ret2, sec'', dev) = port_write_sectors port lba 1 sec' (hba s2);
               s3 = (set_buf_sector i sec'' s2)\<lparr>hba := dev\<rparr>
           in if ret2 \<noteq> 0 then (-1, s3)
              else ahci_write_loop port addr len is (drop (unat chunk) src) s3)"

text \<open>The source buffer of a write is None for a null pointer.\<close>

definition ahci_write :: "int \<Rightarrow> u64 \<Rightarrow> u64 \<Rightarrow> u8 list option \<Rightarrow> ahci \<Rightarrow> int \<times> ahci" where
  "ahci_write drive addr len data s =
     (if \<not> ahci_initialized s then (-1, s)
      else if drive < 0 \<or> drive \<ge> drive_count s then (-1, s)
      else if len \<le> 0 \<or> len > 256 \<or> data = None then (-1, s)
      else if req_sectors addr len > 2 then (-1, s)
      else ahci_write_loop (drive_port s ! nat drive) addr len [0..<unat (req_sectors addr len)] (the data) s)"



section \<open>A device that serves sectors\<close>

type_synonym disks = "int \<Rightarrow> u64 \<Rightarrow> u8 list"

definition fis_lba :: "ata_cmd \<Rightarrow> u64" where
  "fis_lba c = ucast (cfis c ! 4) OR push_bit 8 (ucast (cfis c ! 5)) OR push_bit 16 (ucast (cfis c ! 6)) OR
     push_bit 24 (ucast (cfis c ! 7)) OR push_bit 32 (ucast (cfis c ! 8)) OR push_bit 40 (ucast (cfis c ! 9))"

text \<open>A read command is answered with the sector, a write command changes it, both without error and
  before the driver gives up polling.\<close>

coinductive sector_device :: "disks \<Rightarrow> device \<Rightarrow> bool" where
  serves: "(\<And>port c buf. cfis c ! 2 = ATA_CMD_READ_DMA_EXT \<Longrightarrow>
      \<exists>k dev'. k < 1000000 \<and> serve dev (port, c, buf) = ((Some k, False, d port (fis_lba c)), dev') \<and> sector_device d dev') \<Longrightarrow>
    (\<And>port c buf. cfis c ! 2 = ATA_CMD_WRITE_DMA_EXT \<Longrightarrow>
      \<exists>k dev'. k < 1000000 \<and> serve dev (port, c, buf) = ((Some k, False, buf), dev') \<and>
        sector_device (d(port := (d port)(fis_lba c := buf))) dev') \<Longrightarrow>
    sector_device d dev"

inductive_cases sector_deviceE: "sector_device d dev"

text \<open>The ideal disk, which answers at once.\<close>

definition ideal_answer :: "disks \<Rightarrow> int \<times> ata_cmd \<times> u8 list \<Rightarrow> answer \<times> disks" where
  "ideal_answer d = (\<lambda>(port, c, buf).
     if cfis c ! 2 = ATA_CMD_READ_DMA_EXT then ((Some 0, False, d port (fis_lba c)), d)
     else if cfis c ! 2 = ATA_CMD_WRITE_DMA_EXT then ((Some 0, False, buf), d(port := (d port)(fis_lba c := buf)))
     else ((Some 0, False, replicate 512 0), d))"

primcorec ideal_device :: "disks \<Rightarrow> device" where
  "serve (ideal_device d) = map_prod id ideal_device \<circ> ideal_answer d"

lemma ideal_sector_device: "sector_device d (ideal_device d)"
proof (coinduction arbitrary: d)
  case sector_device
  then show ?case by (auto simp: ideal_answer_def)
qed

lemma wait_cmd_complete_ok: "k < t \<Longrightarrow> wait_cmd_complete t (Some k) False = 0"
  by (induction t "Some k" False arbitrary: k rule: wait_cmd_complete.induct) auto

lemma ucast_byte: "(ucast (ucast (x :: u64) :: u8) :: u64) = take_bit 8 x"
  by (rule bit_eqI) (auto simp: bit_simps)

lemma ucast_byte_mask: "(ucast (ucast (x AND 0xFF :: u64) :: u8) :: u64) = take_bit 8 x"
proof -
  have "(0xFF :: u64) = mask 8" by (simp add: mask_eq_exp_minus_1)
  then show ?thesis by (simp only: ucast_byte take_bit_eq_mask [symmetric]) simp
qed

lemma take_bit_join:
  fixes x :: u64
  shows "take_bit n x OR push_bit n (take_bit 8 (drop_bit n x)) = take_bit (n + 8) x"
proof (rule bit_eqI)
  fix k :: nat
  assume "possible_bit TYPE(u64) k"
  then show "bit (take_bit n x OR push_bit n (take_bit 8 (drop_bit n x))) k \<longleftrightarrow> bit (take_bit (n + 8) x) k"
    by (cases "n \<le> k") (auto simp: bit_simps)
qed

lemma fis_lba_build: "fis_lba (build_cmd cmd lba n w) = take_bit 48 lba"
proof -
  let ?c = "build_cmd cmd lba n w"
  have c: "cfis ?c ! 4 = ucast lba" "cfis ?c ! 5 = ucast (drop_bit 8 lba)" "cfis ?c ! 6 = ucast (drop_bit 16 lba)"
    "cfis ?c ! 7 = ucast (drop_bit 24 lba)" "cfis ?c ! 8 = ucast (drop_bit 32 lba AND 0xFF)"
    "cfis ?c ! 9 = ucast (drop_bit 40 lba AND 0xFF)"
    by (simp_all add: build_cmd_def build_fis_def Let_def)
  have "fis_lba ?c =
      take_bit 8 lba OR push_bit 8 (take_bit 8 (drop_bit 8 lba)) OR push_bit 16 (take_bit 8 (drop_bit 16 lba)) OR
      push_bit 24 (take_bit 8 (drop_bit 24 lba)) OR push_bit 32 (take_bit 8 (drop_bit 32 lba)) OR
      push_bit 40 (take_bit 8 (drop_bit 40 lba))"
    unfolding fis_lba_def c ucast_byte_mask unfolding ucast_byte by (rule refl)
  also have "\<dots> = take_bit (8 + 8 + 8 + 8 + 8 + 8) lba"
    using take_bit_join [of 8 lba] take_bit_join [of 16 lba] take_bit_join [of 24 lba] take_bit_join [of 32 lba]
      take_bit_join [of 40 lba] by (simp add: or.assoc [symmetric])
  finally show ?thesis by simp
qed

lemma cfis_cmd [simp]: "cfis (build_cmd cmd lba n w) ! 2 = cmd"
  by (simp add: build_cmd_def build_fis_def Let_def)


definition disk_ok :: "disks \<Rightarrow> bool" where
  "disk_ok d \<longleftrightarrow> (\<forall>port lba. length (d port lba) = 512)"

lemma take_bit_lba: "unat lba < 2 ^ 48 \<Longrightarrow> take_bit 48 (lba :: u64) = lba"
  by (rule unsigned_word_eqI [where ?'a = nat]) (simp add: unsigned_take_bit_eq take_bit_nat_eq_self)

lemma read_sector_served:
  assumes "sector_device d dev" "unat lba < 2 ^ 48"
  shows "\<exists>dev'. port_read_sectors port lba 1 buf dev = (0, d port lba, dev') \<and> sector_device d dev'"
proof -
  let ?c = "build_cmd ATA_CMD_READ_DMA_EXT lba 1 False"
  obtain k dev' where "k < 1000000" "serve dev (port, ?c, buf) = ((Some k, False, d port lba), dev')" "sector_device d dev'"
    using assms(1) take_bit_lba [OF assms(2)] fis_lba_build [of ATA_CMD_READ_DMA_EXT lba 1 False]
    by (metis cfis_cmd sector_deviceE)
  then show ?thesis
    by (simp add: port_read_sectors_def exec_ata_cmd_def wait_cmd_complete_ok)
qed

lemma write_sector_served:
  assumes "sector_device d dev" "unat lba < 2 ^ 48"
  shows "\<exists>dev'. port_write_sectors port lba 1 buf dev = (0, buf, dev') \<and>
    sector_device (d(port := (d port)(lba := buf))) dev'"
proof -
  let ?c = "build_cmd ATA_CMD_WRITE_DMA_EXT lba 1 True"
  obtain k dev' where "k < 1000000" "serve dev (port, ?c, buf) = ((Some k, False, buf), dev')"
    "sector_device (d(port := (d port)(lba := buf))) dev'"
    using assms(1) take_bit_lba [OF assms(2)] fis_lba_build [of ATA_CMD_WRITE_DMA_EXT lba 1 True]
    by (metis cfis_cmd sector_deviceE)
  then show ?thesis
    by (simp add: port_write_sectors_def exec_ata_cmd_def wait_cmd_complete_ok)
qed


section \<open>Request geometry\<close>

lemma geometry:
  fixes addr len :: u64
  assumes "0 < unat len" "unat len \<le> 256" "unat addr + unat len \<le> 2 ^ 56"
  shows last_byte: "unat (addr + len - 1) = unat addr + unat len - 1"
    and unat_req_sectors: "unat (req_sectors addr len) = (unat addr + unat len - 1) div 512 - unat addr div 512 + 1"
    and unat_start_off: "unat (start_off addr i) = (if i = 0 then unat addr mod 512 else 0)"
    and unat_end_off: "unat (end_off addr len i) =
      (if i = unat (req_sectors addr len) - 1 then (unat addr + unat len - 1) mod 512 + 1 else 512)"
proof -
  have sum: "unat (addr + len) = unat addr + unat len" using assms(3) by (simp add: unat_word_ariths)
  then have "addr + len \<noteq> 0" using assms(1) by (metis add_is_0 unat_0 less_numeral_extra(3))
  then show l: "unat (addr + len - 1) = unat addr + unat len - 1" using sum by (simp add: unat_minus_one)
  let ?q1 = "(addr + len - 1) div 512" and ?q0 = "addr div 512"
  have u: "unat ?q1 = (unat addr + unat len - 1) div 512" "unat ?q0 = unat addr div 512"
    using l by (simp_all add: unat_div)
  have le: "unat addr div 512 \<le> (unat addr + unat len - 1) div 512" using assms(1) by (intro div_le_mono) simp
  have two: "(unat addr + unat len - 1) div 512 - unat addr div 512 \<le> 1" using assms(1,2) by linarith
  have "?q0 \<le> ?q1" using u le by (simp add: word_le_nat_alt)
  then have "unat (?q1 - ?q0) = (unat addr + unat len - 1) div 512 - unat addr div 512"
    using u by (simp add: unat_sub)
  then have "unat (?q1 - ?q0 + 1) = (unat addr + unat len - 1) div 512 - unat addr div 512 + 1"
    using two by (simp add: unat_word_ariths)
  then show "unat (req_sectors addr len) = (unat addr + unat len - 1) div 512 - unat addr div 512 + 1"
    using two by (simp add: req_sectors_def unat_ucast_small)
  have "unat (addr mod 512) = unat addr mod 512" by (simp add: unat_mod)
  moreover have "unat addr mod 512 < 512" by simp
  ultimately show "unat (start_off addr i) = (if i = 0 then unat addr mod 512 else 0)"
    by (simp add: start_off_def unat_ucast_small)
  have "unat ((addr + len - 1) mod 512) = (unat addr + unat len - 1) mod 512" using l by (simp add: unat_mod)
  moreover have "(unat addr + unat len - 1) mod 512 < 512" by simp
  ultimately have "unat ((addr + len - 1) mod 512 + 1) = (unat addr + unat len - 1) mod 512 + 1"
    by (simp add: unat_word_ariths)
  moreover have "(unat addr + unat len - 1) mod 512 + 1 \<le> 512" by (simp add: Suc_leI)
  ultimately show "unat (end_off addr len i) =
      (if i = unat (req_sectors addr len) - 1 then (unat addr + unat len - 1) mod 512 + 1 else 512)"
    by (simp add: end_off_def unat_ucast_small)
qed

lemma lba_nat: "addr div 512 + of_nat k = (of_nat (unat addr div 512 + k) :: u64)"
proof -
  have "addr div 512 = of_nat (unat addr div 512)"
    using word_arith_nat_div [of addr 512] by simp
  then show ?thesis by simp
qed



section \<open>Reading and writing bytes\<close>

definition disk_byte :: "disks \<Rightarrow> int \<Rightarrow> nat \<Rightarrow> u8" where
  "disk_byte d port a = d port (of_nat (a div 512)) ! (a mod 512)"

definition disk_bytes :: "disks \<Rightarrow> int \<Rightarrow> nat \<Rightarrow> nat \<Rightarrow> u8 list" where
  "disk_bytes d port a n = map (disk_byte d port) [a..<a + n]"

lemma disk_bytes_sector:
  assumes "disk_ok d" "a mod 512 + n \<le> 512"
  shows "disk_bytes d port a n = take n (drop (a mod 512) (d port (of_nat (a div 512))))"
proof (rule nth_equalityI)
  show "length (disk_bytes d port a n) = length (take n (drop (a mod 512) (d port (of_nat (a div 512)))))"
    using assms by (simp add: disk_bytes_def disk_ok_def)
  fix i assume "i < length (disk_bytes d port a n)"
  then have i: "i < n" by (simp add: disk_bytes_def)
  have "a + i = 512 * (a div 512) + (a mod 512 + i)" by simp
  moreover have "a mod 512 + i < 512" using assms(2) i by simp
  ultimately have "(a + i) div 512 = a div 512" "(a + i) mod 512 = a mod 512 + i"
    by (metis div_mult_self4 div_less add_0_right zero_neq_numeral, metis mod_mult_self4 mod_less)
  then show "disk_bytes d port a n ! i = take n (drop (a mod 512) (d port (of_nat (a div 512)))) ! i"
    using i assms by (simp add: disk_bytes_def disk_byte_def disk_ok_def)
qed

lemma disk_bytes_append: "disk_bytes d port a (m + n) = disk_bytes d port a m @ disk_bytes d port (a + m) n"
  using upt_add_eq_append [of a "a + m" n] by (simp add: disk_bytes_def add.assoc)

text \<open>A request that fits in one sector, and one that crosses into the next.\<close>

lemma div_mod_split:
  fixes q r :: nat
  assumes "r < 512"
  shows "(512 * q + r) div 512 = q" "(512 * q + r) mod 512 = r"
  using assms by simp_all

lemma next_sector: "512 * q + r = a \<Longrightarrow> r + c = 512 \<Longrightarrow> 512 * (q + 1) + 0 = a + (c :: nat)"
  by simp

lemma request_cases:
  fixes a n :: nat
  assumes "0 < n" "n \<le> 256"
  obtains (one) "(a + n - 1) div 512 = a div 512" "(a + n - 1) mod 512 + 1 = a mod 512 + n" "a mod 512 + n \<le> 512"
  | (two) c where "(a + n - 1) div 512 = a div 512 + 1" "c = 512 - a mod 512" "0 < c" "c < n"
      "(a + n - 1) mod 512 + 1 = n - c" "(a + c) mod 512 = 0" "(a + c) div 512 = a div 512 + 1"
proof -
  define q r where "q = a div 512" and "r = a mod 512"
  have a: "a = 512 * q + r" and r: "r < 512" by (simp_all add: q_def r_def)
  show thesis
  proof (cases "r + n \<le> 512")
    case True
    have e: "a + n - 1 = 512 * q + (r + n - 1)" using assms(1) a by simp
    have "r + n - 1 < 512" using True assms(1) by simp
    note dm = div_mod_split [OF this, of q]
    then show thesis using one e True assms(1) by (simp add: q_def [symmetric] r_def [symmetric])
  next
    case False
    let ?c = "512 - r"
    have e: "a + n - 1 = 512 * (q + 1) + (r + n - 1 - 512)" using False a by simp
    have "r + n - 1 - 512 < 512" using r assms(2) by simp
    note dm = div_mod_split [OF this, of "q + 1"]
    have "a + ?c = 512 * (q + 1) + 0" using a r by simp
    then have c: "(a + ?c) mod 512 = 0" "(a + ?c) div 512 = q + 1" using div_mod_split [of 0 "q + 1"] by simp_all
    have d: "(a + n - 1) div 512 = q + 1" and md: "(a + n - 1) mod 512 + 1 = n - ?c"
      using dm False r unfolding e by simp_all
    have "?c < n" "0 < ?c" using False r by (simp_all add: less_diff_conv2)
    then show thesis
      using two [of ?c, folded q_def r_def, OF d refl _ _ md c] by blast
  qed
qed

text \<open>The state of the driver between requests.\<close>

definition ahci_ok :: "ahci \<Rightarrow> bool" where
  "ahci_ok s \<longleftrightarrow> length (byte_buffer s) = 256 \<and> length (sector_buf s) = 1024 \<and>
     length (drive_port s) = 32 \<and> length (drive_size_bytes s) = 32 \<and> 0 \<le> drive_count s \<and> drive_count s \<le> 32"


lemma set_buf_sector_simps [simp]:
  "byte_buffer (set_buf_sector i bs s) = byte_buffer s" "hba (set_buf_sector i bs s) = hba s"
  "drive_port (set_buf_sector i bs s) = drive_port s" "drive_count (set_buf_sector i bs s) = drive_count s"
  "drive_size_bytes (set_buf_sector i bs s) = drive_size_bytes s"
  "ahci_initialized (set_buf_sector i bs s) = ahci_initialized s"
  by (simp_all add: set_buf_sector_def)

lemma length_set_buf_sector:
  "length bs = 512 \<Longrightarrow> length (sector_buf s) = 1024 \<Longrightarrow> i < 2 \<Longrightarrow> length (sector_buf (set_buf_sector i bs s)) = 1024"
  by (simp add: set_buf_sector_def SECTOR_SIZE_def)

text \<open>What a request leaves alone.\<close>

definition same_table :: "ahci \<Rightarrow> ahci \<Rightarrow> bool" where
  "same_table s s' \<longleftrightarrow> ahci_initialized s' = ahci_initialized s \<and> drive_port s' = drive_port s \<and>
     drive_size_bytes s' = drive_size_bytes s \<and> drive_count s' = drive_count s"

text \<open>One iteration of the read loop: it appends its part of the sector to what was copied so far.\<close>

lemma read_step:
  assumes "sector_device d (hba s)" "disk_ok d" "ahci_ok s" "i < 2"
    and "unat addr div 512 + i < 2 ^ 48" "unat copied + m \<le> unat len" "unat len \<le> 256"
    and so: "unat (start_off addr i) = r" and eo: "unat (end_off addr len i) = r + m" and "r + m \<le> 512"
  shows "\<exists>s'. ahci_read_loop port addr len (i # rest) copied s = ahci_read_loop port addr len rest (copied + of_nat m) s' \<and>
    sector_device d (hba s') \<and> ahci_ok s' \<and> same_table s s' \<and>
    take (unat copied + m) (byte_buffer s') = take (unat copied) (byte_buffer s) @
      take m (drop r (d port (of_nat (unat addr div 512 + i))))"
proof -
  let ?lba = "of_nat (unat addr div 512 + i) :: u64"
  have lba: "addr div 512 + of_nat i = ?lba" by (rule lba_nat)
  have "unat ?lba < 2 ^ 48" using assms(5) by (simp add: unat_of_nat del: of_nat_add)
  then obtain dev where dev: "port_read_sectors port ?lba 1 (buf_sector i s) (hba s) = (0, d port ?lba, dev)" "sector_device d dev"
    using read_sector_served [OF assms(1)] by blast
  let ?sec = "d port ?lba"
  have "start_off addr i \<le> end_off addr len i" using so eo by (simp add: word_le_nat_alt)
  then have c: "unat (end_off addr len i - start_off addr i) = m" using so eo by (simp add: unat_sub)
  then have cm: "end_off addr len i - start_off addr i = of_nat m"
    by (metis of_nat_unat ucast_id)
  have cp: "unat (ucast copied :: u64) = unat copied"
    using assms(6,7) by (intro unat_ucast_small) simp
  then have "ucast copied \<le> len" using assms(6) by (simp add: word_le_nat_alt)
  then have "unat (len - ucast copied) = unat len - unat copied" by (simp add: unat_sub cp)
  moreover have "unat (ucast (end_off addr len i - start_off addr i) :: u64) = m"
    using c assms(6,7) unat_ucast_small [of "end_off addr len i - start_off addr i", where 'b = 64] by simp
  ultimately have nc: "\<not> ucast (end_off addr len i - start_off addr i) > len - ucast copied"
    using assms(6) by (simp add: word_less_nat_alt)
  let ?s = "(set_buf_sector i ?sec s)\<lparr>hba := dev, byte_buffer := store_at (byte_buffer s) (unat copied) (take m (drop r ?sec))\<rparr>"
  have "ahci_read_loop port addr len (i # rest) copied s = ahci_read_loop port addr len rest (copied + of_nat m) ?s"
    using dev c nc so by (simp add: Let_def lba cm)
  moreover have len: "length ?sec = 512" using assms(2) by (simp add: disk_ok_def)
  then have "ahci_ok ?s"
    using assms(3,4,6,7,10) length_set_buf_sector [OF len, of s i] by (simp add: ahci_ok_def store_at_def)
  moreover have "take (unat copied + m) (byte_buffer ?s) = take (unat copied) (byte_buffer s) @ take m (drop r ?sec)"
    using len assms(3,6,7,10) by (simp add: store_at_def ahci_ok_def)
  ultimately show ?thesis using dev(2) by (intro exI [of _ ?s]) (simp add: same_table_def)
qed

lemma ahci_read_bytes:
  assumes "sector_device d (hba s)" "disk_ok d" "ahci_ok s" "ahci_initialized s" "0 \<le> drive" "drive < drive_count s"
    and "0 < unat len" "unat len \<le> 256" "unat addr + unat len \<le> 2 ^ 56"
  shows "\<exists>s'. ahci_read drive addr len s = (True, s') \<and> sector_device d (hba s') \<and> ahci_ok s' \<and> same_table s s' \<and>
    take (unat len) (byte_buffer s') = disk_bytes d (drive_port s ! nat drive) (unat addr) (unat len)"
proof -
  let ?p = "drive_port s ! nat drive" and ?a = "unat addr" and ?n = "unat len"
  note geo = geometry [OF assms(7-9)]
  have lba: "?a div 512 + 1 < 2 ^ 48" using div_le_mono [of ?a "2 ^ 56" 512] assms(9) by simp
  have guard: "\<not> len \<le> 0" "\<not> len > 256" using assms(7,8) by (simp_all add: word_le_nat_alt word_less_nat_alt)
  have "\<exists>s'. ahci_read_loop ?p addr len [0..<unat (req_sectors addr len)] 0 s = (True, s') \<and>
      unat (req_sectors addr len) \<le> 2 \<and> sector_device d (hba s') \<and> ahci_ok s' \<and> same_table s s' \<and>
      take ?n (byte_buffer s') = disk_bytes d ?p ?a ?n"
  proof (rule request_cases [OF assms(7,8), of ?a])
    assume one: "(?a + ?n - 1) div 512 = ?a div 512" "(?a + ?n - 1) mod 512 + 1 = ?a mod 512 + ?n" "?a mod 512 + ?n \<le> 512"
    then have r1: "unat (req_sectors addr len) = 1" using geo(2) by simp
    then obtain s' where "ahci_read_loop ?p addr len [0] 0 s = ahci_read_loop ?p addr len [] (0 + of_nat ?n) s'"
      "sector_device d (hba s')" "ahci_ok s'" "same_table s s'"
      "take ?n (byte_buffer s') = take ?n (drop (?a mod 512) (d ?p (of_nat (?a div 512))))"
      using read_step [OF assms(1-3), of 0 addr 0 ?n len "?a mod 512" ?p "[]"] geo(3,4) [of 0] lba one assms(8) by auto
    then show ?thesis using r1 disk_bytes_sector [OF assms(2) one(3), of ?p] by auto
  next
    fix c
    assume two: "(?a + ?n - 1) div 512 = ?a div 512 + 1" "c = 512 - ?a mod 512" "0 < c" "c < ?n"
      "(?a + ?n - 1) mod 512 + 1 = ?n - c" "(?a + c) mod 512 = 0" "(?a + c) div 512 = ?a div 512 + 1"
    then have r2: "unat (req_sectors addr len) = 2" using geo(2) by simp
    have le: "?a mod 512 + c \<le> 512" using two(2) by simp
    have so0: "unat (start_off addr 0) = ?a mod 512" and eo0: "unat (end_off addr len 0) = ?a mod 512 + c"
      using geo(3,4) [of 0] two(2) r2 by simp_all
    have side0: "?a div 512 + 0 < 2 ^ 48" "unat (0 :: u32) + c \<le> ?n" using lba two(4) by simp_all
    obtain s1 where s1: "ahci_read_loop ?p addr len [0, 1] 0 s = ahci_read_loop ?p addr len [1] (0 + of_nat c) s1"
      "sector_device d (hba s1)" "ahci_ok s1" "same_table s s1"
      "take (unat (0 :: u32) + c) (byte_buffer s1) = take (unat (0 :: u32)) (byte_buffer s) @ take c (drop (?a mod 512) (d ?p (of_nat (?a div 512 + 0))))"
      using read_step [OF assms(1-3) _ side0 assms(8) so0 eo0 le, where port = ?p and rest = "[1]"] by auto
    have c: "unat (of_nat c :: u32) = c" using two(4) assms(8) by (simp add: unat_of_nat)
    have so1: "unat (start_off addr 1) = 0" and eo1: "unat (end_off addr len 1) = 0 + (?n - c)"
      using geo(3,4) [of 1] two(5) r2 by simp_all
    have side: "?a div 512 + 1 < 2 ^ 48" "unat (of_nat c :: u32) + (?n - c) \<le> ?n" "0 + (?n - c) \<le> 512"
      using lba c two(4) assms(8) by simp_all
    obtain s2 where s2: "ahci_read_loop ?p addr len [1] (0 + of_nat c) s1 = ahci_read_loop ?p addr len [] (of_nat c + of_nat (?n - c)) s2"
      "sector_device d (hba s2)" "ahci_ok s2" "same_table s1 s2"
      "take (c + (?n - c)) (byte_buffer s2) = take c (byte_buffer s1) @ take (?n - c) (drop 0 (d ?p (of_nat (?a div 512 + 1))))"
      using read_step [OF s1(2) assms(2) s1(3) _ side(1,2) assms(8) so1 eo1 side(3), where port = ?p and rest = "[]", unfolded c]
      by (auto simp del: ahci_read_loop.simps)
    have "disk_bytes d ?p ?a ?n = disk_bytes d ?p ?a c @ disk_bytes d ?p (?a + c) (?n - c)"
      using disk_bytes_append [of d ?p ?a c "?n - c"] two(4) by simp
    also have "\<dots> = take ?n (byte_buffer s2)"
      using disk_bytes_sector [OF assms(2) le, of ?p] disk_bytes_sector [OF assms(2), of "?a + c" "?n - c" ?p]
        two(4,6,7) s1(5) s2(5) assms(8) by simp
    finally have b: "take ?n (byte_buffer s2) = disk_bytes d ?p ?a ?n" by simp
    have "[0..<unat (req_sectors addr len)] = [0, 1]" using r2 by (simp add: upt_rec)
    then show ?thesis using s1(1,4) s2 r2 b by (auto simp: same_table_def)
  qed
  then show ?thesis
    using assms(4-6) guard by (auto simp: ahci_read_def word_less_nat_alt)
qed



text \<open>The disks after one sector is rewritten, byte by byte.\<close>

lemma unat_of_nat_u64: "i < 2 ^ 64 \<Longrightarrow> unat (of_nat i :: u64) = i"
  by (simp add: unat_of_nat)

lemma of_nat_u64_inj: "i < 2 ^ 64 \<Longrightarrow> j < 2 ^ 64 \<Longrightarrow> (of_nat i :: u64) = of_nat j \<longleftrightarrow> i = j"
  using unat_of_nat_u64 by metis

lemma sector_store_bytes:
  fixes port :: int
  assumes "disk_ok d" "r + length xs \<le> 512" "q < 2 ^ 64" "b < 2 ^ 64"
  defines "d' \<equiv> d(port := (d port)(of_nat q := store_at (d port (of_nat q)) r xs))"
  shows "disk_ok d'"
    and "disk_byte d' p b =
      (if p = port \<and> 512 * q + r \<le> b \<and> b < 512 * q + r + length xs then xs ! (b - (512 * q + r)) else disk_byte d p b)"
proof -
  have len: "length (d p l) = 512" for p l using assms(1) by (simp add: disk_ok_def)
  show "disk_ok d'" using len assms(2) by (auto simp: d'_def disk_ok_def store_at_def)
  have b: "b = 512 * (b div 512) + b mod 512" "b mod 512 < 512" by simp_all
  have "(of_nat (b div 512) :: u64) = of_nat q \<longleftrightarrow> b div 512 = q"
    using assms(3,4) by (intro of_nat_u64_inj) (auto intro: le_less_trans [OF div_le_dividend])
  moreover have "store_at (d port l) r xs ! k = (if r \<le> k \<and> k < r + length xs then xs ! (k - r) else d port l ! k)" if "k < 512" for k l
    using that len assms(2) by (auto simp: store_at_def nth_append)
  moreover have "512 * q + r \<le> b \<and> b < 512 * q + r + length xs \<longleftrightarrow> b div 512 = q \<and> r \<le> b mod 512 \<and> b mod 512 < r + length xs"
  proof
    assume h: "512 * q + r \<le> b \<and> b < 512 * q + r + length xs"
    then have "b - 512 * q < 512" "b = 512 * q + (b - 512 * q)" using assms(2) by linarith+
    then have "b div 512 = q" "b mod 512 = b - 512 * q" using div_mod_split by metis+
    then show "b div 512 = q \<and> r \<le> b mod 512 \<and> b mod 512 < r + length xs" using h by linarith
  next
    assume "b div 512 = q \<and> r \<le> b mod 512 \<and> b mod 512 < r + length xs"
    then show "512 * q + r \<le> b \<and> b < 512 * q + r + length xs" using b(1) by linarith
  qed
  moreover have "b div 512 = q \<Longrightarrow> b - (512 * q + r) = b mod 512 - r" using b by linarith
  ultimately show "disk_byte d' p b =
      (if p = port \<and> 512 * q + r \<le> b \<and> b < 512 * q + r + length xs then xs ! (b - (512 * q + r)) else disk_byte d p b)"
    using b(2) by (auto simp: d'_def disk_byte_def)
qed

lemma buf_set_buf_sector:
  "length bs = 512 \<Longrightarrow> length (sector_buf s) = 1024 \<Longrightarrow> i < 2 \<Longrightarrow> buf_sector i (set_buf_sector i bs s) = bs"
  by (auto simp: buf_sector_def set_buf_sector_def SECTOR_SIZE_def less_2_cases_iff)


lemma write_step:
  assumes "sector_device d (hba s)" "disk_ok d" "ahci_ok s" "i < 2"
    and "unat addr div 512 + i < 2 ^ 48" "m \<le> length src"
    and so: "unat (start_off addr i) = r" and eo: "unat (end_off addr len i) = r + m" and "r + m \<le> 512" "m < 512"
  defines "q \<equiv> of_nat (unat addr div 512 + i)"
  shows "\<exists>s'. ahci_write_loop port addr len (i # rest) src s = ahci_write_loop port addr len rest (drop m src) s' \<and>
    sector_device (d(port := (d port)(q := store_at (d port q) r (take m src)))) (hba s') \<and> ahci_ok s' \<and> same_table s s'"
proof -
  have q: "addr div 512 + of_nat i = q" unfolding q_def by (rule lba_nat)
  have "unat q < 2 ^ 48" using assms(5) by (simp add: q_def unat_of_nat del: of_nat_add)
  note srv = read_sector_served [OF assms(1) this, of port] write_sector_served [OF _ this, of d _ port]
  obtain dev where dev: "port_read_sectors port q 1 (buf_sector i s) (hba s) = (0, d port q, dev)" "sector_device d dev"
    using srv(1) by blast
  let ?sec = "d port q" and ?new = "store_at (d port q) r (take m src)"
  obtain dev2 where dev2: "port_write_sectors port q 1 ?new dev = (0, ?new, dev2)"
    "sector_device (d(port := (d port)(q := ?new))) dev2"
    using srv(2) [OF dev(2)] by blast
  have len: "length ?sec = 512" "length ?new = 512"
    using assms(2,6,9) by (simp_all add: disk_ok_def store_at_def)
  have "start_off addr i \<le> end_off addr len i" using so eo by (simp add: word_le_nat_alt)
  then have c: "unat (end_off addr len i - start_off addr i) = m" using so eo by (simp add: unat_sub)
  have part: "start_off addr i \<noteq> 0 \<or> end_off addr len i \<noteq> 512" using so eo assms(10) by auto
  let ?s1 = "(set_buf_sector i ?sec s)\<lparr>hba := dev\<rparr>"
  let ?s3 = "(set_buf_sector i ?new (set_buf_sector i ?new ?s1))\<lparr>hba := dev2\<rparr>"
  have "buf_sector i ?s1 = ?sec"
    using buf_set_buf_sector [OF len(1) _ assms(4), of s] assms(3) by (simp add: ahci_ok_def buf_sector_def)
  then have "ahci_write_loop port addr len (i # rest) src s = ahci_write_loop port addr len rest (drop m src) ?s3"
    using dev(1) dev2(1) c so part by (simp add: Let_def q)
  moreover have "ahci_ok ?s3"
    using assms(3,4) len length_set_buf_sector [OF _ _ assms(4)] by (simp add: ahci_ok_def set_buf_sector_def SECTOR_SIZE_def)
  ultimately show ?thesis using dev2(2) by (intro exI [of _ ?s3]) (simp add: same_table_def)
qed

lemma ahci_write_bytes:
  assumes "sector_device d (hba s)" "disk_ok d" "ahci_ok s" "ahci_initialized s" "0 \<le> drive" "drive < drive_count s"
    and "0 < unat len" "unat len \<le> 256" "unat addr + unat len \<le> 2 ^ 56" "length data = unat len"
  shows "\<exists>s' d'. ahci_write drive addr len (Some data) s = (0, s') \<and> sector_device d' (hba s') \<and> disk_ok d' \<and>
    ahci_ok s' \<and> same_table s s' \<and>
    (\<forall>p b. b < 2 ^ 64 \<longrightarrow> disk_byte d' p b =
      (if p = drive_port s ! nat drive \<and> unat addr \<le> b \<and> b < unat addr + unat len then data ! (b - unat addr)
       else disk_byte d p b))"
proof -
  let ?p = "drive_port s ! nat drive" and ?a = "unat addr" and ?n = "unat len"
  note geo = geometry [OF assms(7-9)]
  have lba: "?a div 512 + 1 < 2 ^ 48" using div_le_mono [of ?a "2 ^ 56" 512] assms(9) by simp
  have guard: "\<not> len \<le> 0" "\<not> len > 256" using assms(7,8) by (simp_all add: word_le_nat_alt word_less_nat_alt)
  have a: "512 * (?a div 512) + ?a mod 512 = ?a" by simp
  have "\<exists>s' d'. ahci_write_loop ?p addr len [0..<unat (req_sectors addr len)] data s = (0, s') \<and>
      unat (req_sectors addr len) \<le> 2 \<and> sector_device d' (hba s') \<and> disk_ok d' \<and> ahci_ok s' \<and> same_table s s' \<and>
      (\<forall>p b. b < 2 ^ 64 \<longrightarrow> disk_byte d' p b =
        (if p = ?p \<and> ?a \<le> b \<and> b < ?a + ?n then data ! (b - ?a) else disk_byte d p b))"
  proof (rule request_cases [OF assms(7,8), of ?a])
    assume one: "(?a + ?n - 1) div 512 = ?a div 512" "(?a + ?n - 1) mod 512 + 1 = ?a mod 512 + ?n" "?a mod 512 + ?n \<le> 512"
    then have r1: "unat (req_sectors addr len) = 1" using geo(2) by simp
    have oe: "unat (start_off addr 0) = ?a mod 512" "unat (end_off addr len 0) = ?a mod 512 + ?n"
      using geo(3,4) [of 0] r1 one by simp_all
    have side: "(0 :: nat) < 2" "?a div 512 + 0 < 2 ^ 48" "?n \<le> length data" "?n < 512"
      using lba assms(8,10) by simp_all
    note w = write_step [OF assms(1-3) side(1-3) oe one(3) side(4), of ?p "[]"]
    let ?q = "of_nat (?a div 512 + 0) :: u64"
    let ?d = "d(?p := (d ?p)(?q := store_at (d ?p ?q) (?a mod 512) (take ?n data)))"
    obtain s' where s': "ahci_write_loop ?p addr len [0] data s = (0, s')" "sector_device ?d (hba s')" "ahci_ok s'" "same_table s s'"
      using w by auto
    have len: "?a mod 512 + length (take ?n data) \<le> 512" "length (take ?n data) = ?n" using one(3) assms(10) by simp_all
    have q: "?a div 512 + 0 < 2 ^ 64" using lba by simp
    note sb = sector_store_bytes [OF assms(2) len(1) q, of _ ?p]
    have "disk_byte ?d p b = (if p = ?p \<and> ?a \<le> b \<and> b < ?a + ?n then data ! (b - ?a) else disk_byte d p b)" if "b < 2 ^ 64" for p b
      using sb(2) [OF that, of p] assms(10) len(2) a by simp
    then show ?thesis using s' r1 sb(1) [of 0] by auto
  next
    fix c
    assume two: "(?a + ?n - 1) div 512 = ?a div 512 + 1" "c = 512 - ?a mod 512" "0 < c" "c < ?n"
      "(?a + ?n - 1) mod 512 + 1 = ?n - c" "(?a + c) mod 512 = 0" "(?a + c) div 512 = ?a div 512 + 1"
    then have r2: "unat (req_sectors addr len) = 2" using geo(2) by simp
    let ?q0 = "of_nat (?a div 512 + 0) :: u64" and ?q1 = "of_nat (?a div 512 + 1) :: u64"
    let ?d1 = "d(?p := (d ?p)(?q0 := store_at (d ?p ?q0) (?a mod 512) (take c data)))"
    let ?d2 = "?d1(?p := (?d1 ?p)(?q1 := store_at (?d1 ?p ?q1) 0 (take (?n - c) (drop c data))))"
    have oe0: "unat (start_off addr 0) = ?a mod 512" "unat (end_off addr len 0) = ?a mod 512 + c"
      and oe1: "unat (start_off addr 1) = 0" "unat (end_off addr len 1) = 0 + (?n - c)"
      using geo(3,4) [of 0] geo(3,4) [of 1] two(2,5) r2 by simp_all
    have side: "(0 :: nat) < 2" "?a div 512 + 0 < 2 ^ 48" "c \<le> length data" "?a mod 512 + c \<le> 512" "c < 512"
      "(1 :: nat) < 2" "?n - c \<le> length (drop c data)" "0 + (?n - c) \<le> 512" "?n - c < 512"
      using lba two(2,4) assms(8,10) by simp_all
    have len: "?a mod 512 + length (take c data) \<le> 512" "0 + length (take (?n - c) (drop c data)) \<le> 512"
      and ln: "length (take c data) = c" "length (take (?n - c) (drop c data)) = ?n - c"
      using side assms(10) two(4) by simp_all
    have q: "?a div 512 + 0 < 2 ^ 64" "?a div 512 + 1 < 2 ^ 64" using lba by simp_all
    note sb1 = sector_store_bytes [OF assms(2) len(1) q(1), of _ ?p]
    obtain s1 where s1: "ahci_write_loop ?p addr len [0, 1] data s = ahci_write_loop ?p addr len [1] (drop c data) s1"
      "sector_device ?d1 (hba s1)" "ahci_ok s1" "same_table s s1"
      using write_step [OF assms(1-3) side(1-3) oe0 side(4,5), of ?p "[1]"] by (auto simp del: ahci_write_loop.simps)
    have d1: "disk_ok ?d1" using sb1(1) [of 0] by simp
    obtain s2 where s2: "ahci_write_loop ?p addr len [1] (drop c data) s1 = (0, s2)"
      "sector_device ?d2 (hba s2)" "ahci_ok s2" "same_table s1 s2"
      using write_step [OF s1(2) d1 s1(3) side(6) lba side(7) oe1 side(8,9), of ?p "[]"]
      by (auto simp del: ahci_write_loop.simps(2))
    note sb2 = sector_store_bytes [OF d1 len(2) q(2), of _ ?p]
    have "?a mod 512 + c = 512" using two(2,3) by simp
    then have ac: "512 * (?a div 512 + 1) + 0 = ?a + c" using next_sector [OF a] by blast
    have "disk_byte ?d2 p b = (if p = ?p \<and> ?a \<le> b \<and> b < ?a + ?n then data ! (b - ?a) else disk_byte d p b)" if "b < 2 ^ 64" for p b
    proof -
      have e2: "disk_byte ?d2 p b = (if p = ?p \<and> ?a + c \<le> b \<and> b < ?a + c + (?n - c)
          then take (?n - c) (drop c data) ! (b - (?a + c)) else disk_byte ?d1 p b)"
        using sb2(2) [OF that, of p] unfolding ac ln by simp
      have e1: "disk_byte ?d1 p b = (if p = ?p \<and> ?a \<le> b \<and> b < ?a + c then take c data ! (b - ?a) else disk_byte d p b)"
        using sb1(2) [OF that, of p] unfolding add_0_right a ln by simp
      consider "b < ?a" | "?a \<le> b" "b < ?a + c" | "?a + c \<le> b" "b < ?a + ?n" | "?a + ?n \<le> b" by linarith
      then show ?thesis using e1 e2 two(4) assms(10) by cases auto
    qed
    moreover have "[0..<unat (req_sectors addr len)] = [0, 1]" using r2 by (simp add: upt_rec)
    ultimately show ?thesis
      using s1(1,4) s2 r2 sb2(1) [of 0]
      by (intro exI [of _ s2] exI [of _ ?d2]) (simp add: same_table_def del: ahci_write_loop.simps)
  qed
  then obtain s' d' where w: "ahci_write_loop ?p addr len [0..<unat (req_sectors addr len)] data s = (0, s')"
    "unat (req_sectors addr len) \<le> 2"
    and rest: "sector_device d' (hba s') \<and> disk_ok d' \<and> ahci_ok s' \<and> same_table s s' \<and>
      (\<forall>p b. b < 2 ^ 64 \<longrightarrow> disk_byte d' p b =
        (if p = ?p \<and> ?a \<le> b \<and> b < ?a + ?n then data ! (b - ?a) else disk_byte d p b))"
    by blast
  have "ahci_write drive addr len (Some data) s = (0, s')"
    using assms(4-6) guard w by (simp add: ahci_write_def word_less_nat_alt)
  then show ?thesis using rest by blast
qed


text \<open>No request over 256 bytes: whatever the device, \<open>ahci_read\<close> and \<open>ahci_write\<close> refuse a length of 0 or
  above 256 bytes, an unknown drive, and every request before initialisation, and do nothing then.\<close>

theorem ahci_rejects:
  assumes "\<not> ahci_initialized s \<or> drive < 0 \<or> drive_count s \<le> drive \<or> len = 0 \<or> 256 < unat len"
  shows "ahci_read drive addr len s = (False, s) \<and> ahci_write drive addr len data s = (-1, s)"
proof -
  have "unat len > 256 \<Longrightarrow> len > 256" by (simp add: word_less_nat_alt)
  then show ?thesis using assms by (auto simp: ahci_read_def ahci_write_def)
qed

text \<open>A drive with all bytes zero, on port 0.\<close>

definition demo_ahci :: ahci where
  "demo_ahci = \<lparr>ahci_initialized = True, drive_port = replicate 32 0, drive_size_bytes = replicate 32 0,
     drive_count = 1, byte_buffer = replicate 256 0, sector_buf = replicate 1024 0, ahci_hba_base = 0xFEBF1000,
     hba = ideal_device (\<lambda>_ _. replicate 512 7)\<rparr>"

lemma demo_ahci_ok: "ahci_ok demo_ahci" "ahci_initialized demo_ahci" "drive_count demo_ahci = 1"
  "disk_ok (\<lambda>_ _. replicate 512 7)" "sector_device (\<lambda>_ _. replicate 512 7) (hba demo_ahci)"
  using ideal_sector_device by (simp_all add: demo_ahci_def ahci_ok_def disk_ok_def)



theorem ahci_rejects_witness:
  "ahci_read 0 0 536 demo_ahci = (False, demo_ahci) \<and> ahci_write 0 0 536 (Some []) demo_ahci = (-1, demo_ahci)"
  using ahci_rejects [of demo_ahci 0 536 0 "Some []"] by simp



section \<open>The drive table\<close>

definition drives :: "ahci \<Rightarrow> int list" where
  "drives s = take (nat (drive_count s)) (drive_port s)"

definition table_ok :: "ahci \<Rightarrow> bool" where
  "table_ok s \<longleftrightarrow> ahci_ok s \<and> distinct (drives s)"

lemma swap_remove:
  assumes "distinct (take (Suc n) xs)" "i < Suc n" "n < length xs"
  shows "distinct (take n (xs[i := xs ! n]))" "set (take n (xs[i := xs ! n])) = set (take (Suc n) xs) - {xs ! i}"
proof -
  have tk: "take (Suc n) xs = take n xs @ [xs ! n]" using assms(3) by (simp add: take_Suc_conv_app_nth)
  have "distinct (take n (xs[i := xs ! n])) \<and> set (take n (xs[i := xs ! n])) = set (take (Suc n) xs) - {xs ! i}"
  proof (cases "i = n")
    case True
    then show ?thesis using assms(1) by (simp add: tk)
  next
    case False
    then have i: "i < n" "i < length (take n xs)" using assms by simp_all
    have "set ((take n xs)[i := xs ! n]) = insert (xs ! n) (set (take n xs) - {xs ! i})"
      using assms(1) tk i by (simp add: set_update_distinct)
    moreover have "xs ! n \<noteq> xs ! i"
      using assms(1) i(2) nth_mem [OF i(2)] by (auto simp: tk)
    ultimately show ?thesis
      using assms(1) i by (auto simp: tk take_update_swap intro: distinct_list_update)
  qed
  then show "distinct (take n (xs[i := xs ! n]))" "set (take n (xs[i := xs ! n])) = set (take (Suc n) xs) - {xs ! i}"
    by blast+
qed

lemma remove_loop_first:
  "\<exists>i\<in>set is. drive_port s ! i = port \<Longrightarrow>
   \<exists>i\<in>set is. drive_port s ! i = port \<and> remove_loop is port s =
     s\<lparr>drive_port := (drive_port s)[i := drive_port s ! nat (drive_count s - 1)],
       drive_size_bytes := (drive_size_bytes s)[i := drive_size_bytes s ! nat (drive_count s - 1)],
       drive_count := drive_count s - 1\<rparr>"
  by (induction "is") (auto simp: Let_def)

lemma remove_drive_spec:
  assumes "table_ok s" "port \<in> set (drives s)"
  shows "table_ok (remove_drive_from_table port s)" "set (drives (remove_drive_from_table port s)) = set (drives s) - {port}"
proof -
  let ?s = "remove_drive_from_table port s"
  have ok: "ahci_ok s" "distinct (drives s)" using assms(1) by (simp_all add: table_ok_def)
  obtain n where n: "nat (drive_count s) = Suc n" "n < length (drive_port s)" "nat (drive_count s - 1) = n"
    using assms(2) ok(1) by (cases "nat (drive_count s)") (auto simp: drives_def ahci_ok_def)
  have "\<exists>i\<in>set [0..<nat (drive_count s)]. drive_port s ! i = port"
    using assms(2) by (auto simp: drives_def in_set_conv_nth)
  from remove_loop_first [OF this, folded remove_drive_from_table_def, unfolded n(1,3)]
  obtain i where i: "i \<in> set [0..<Suc n]" "drive_port s ! i = port"
    "?s = s\<lparr>drive_port := (drive_port s)[i := drive_port s ! n],
       drive_size_bytes := (drive_size_bytes s)[i := drive_size_bytes s ! n], drive_count := drive_count s - 1\<rparr>"
    unfolding remove_drive_from_table_def n(1) by blast
  have "i < Suc n" using i(1) by auto
  have d: "drives ?s = take n ((drive_port s)[i := drive_port s ! n])" using i(3) n by (simp add: drives_def)
  have ds: "drives s = take (Suc n) (drive_port s)" by (simp add: drives_def n)
  note sr = swap_remove [OF ok(2) [unfolded ds] \<open>i < Suc n\<close> n(2)]
  show "set (drives ?s) = set (drives s) - {port}" using sr(2) i(2) by (simp only: d ds)
  have "distinct (drives ?s)" using sr(1) by (simp only: d)
  then show "table_ok ?s" using ok i(3) n(1) by (simp add: table_ok_def ahci_ok_def)
qed

lemma identify_same: "identify_device port s = (r, s') \<Longrightarrow> s' = s\<lparr>hba := hba s'\<rparr>"
  by (auto simp: identify_device_def Let_def split: prod.splits if_splits)

lemma add_drive_spec:
  assumes "table_ok s" "port \<notin> set (drives s)"
  shows "table_ok (snd (add_drive_to_table port sz s))"
    "set (drives (snd (add_drive_to_table port sz s))) = (if drive_count s < 32 then insert port (set (drives s)) else set (drives s))"
proof -
  have n: "0 \<le> drive_count s" "drive_count s \<le> 32" "length (drive_port s) = 32"
    using assms(1) by (simp_all add: table_ok_def ahci_ok_def)
  have d: "drives (snd (add_drive_to_table port sz s)) = drives s @ [port]" if "drive_count s < 32"
    using that n by (simp add: drives_def add_drive_to_table_def MAX_DRIVES_def nat_add_distrib take_Suc_conv_app_nth nat_less_iff)
  show "set (drives (snd (add_drive_to_table port sz s))) = (if drive_count s < 32 then insert port (set (drives s)) else set (drives s))"
    using d by (auto simp: add_drive_to_table_def MAX_DRIVES_def)
  show "table_ok (snd (add_drive_to_table port sz s))"
    using assms d by (cases "drive_count s < 32") (auto simp: table_ok_def ahci_ok_def add_drive_to_table_def MAX_DRIVES_def)
qed



end
