(* ===== verification/Partition.thy ===== *)
theory Partition
  imports Ahci
begin

text \<open>
  MBR partitions, \<^verbatim>\<open>drivers/src/drive_partition.c\<close>: the partition tables of all drives, parsed from
  the boot sector and the chain of extended boot records, and byte access within a partition. The
  state holds the driver of theory \<open>Ahci\<close>, the list of valid entries per drive (its length is the
  \<^verbatim>\<open>count\<close> field), and the spin lock. None is an operation that never returns: a lock that is already
  held on this single processor, or a chain of extended boot records that does not end.
\<close>

section \<open>State and parsing\<close>

record partition_entry =
  start_lba :: u64
  sector_count :: u64
  part_type :: u8

record disk_state =
  drv :: ahci
  drive_parts :: "partition_entry list list"
  partition_lock :: int

definition MAX_PARTS_PER_DRIVE :: nat where "MAX_PARTS_PER_DRIVE = 32"
definition MBR_SIGNATURE :: u16 where "MBR_SIGNATURE = 0xAA55"

definition lock_acquire :: "disk_state \<Rightarrow> disk_state option" where
  "lock_acquire s = (if partition_lock s \<noteq> 0 then None else Some (s\<lparr>partition_lock := 1\<rparr>))"

definition lock_release :: "disk_state \<Rightarrow> disk_state" where
  "lock_release s = s\<lparr>partition_lock := 0\<rparr>"

text \<open>\<^verbatim>\<open>uint32_t addr = lba * SECTOR_SIZE\<close>: the byte address has only 32 bits.\<close>

definition read_sector :: "int \<Rightarrow> u64 \<Rightarrow> ahci \<Rightarrow> u8 list option \<times> ahci" where
  "read_sector drive lba s =
     (let addr = ucast (lba * of_nat SECTOR_SIZE) :: u32;
          (ok1, s1) = ahci_read drive (ucast addr) 256 s
      in if \<not> ok1 then (None, s1)
         else
           let buf = take 256 (byte_buffer s1);
               (ok2, s2) = ahci_read drive (ucast (addr + 256)) 256 s1
           in if \<not> ok2 then (None, s2) else (Some (buf @ take 256 (byte_buffer s2)), s2))"

definition le16 :: "u8 list \<Rightarrow> nat \<Rightarrow> u16" where
  "le16 bs i = ucast (bs ! i) OR push_bit 8 (ucast (bs ! (i + 1)))"

definition le32 :: "u8 list \<Rightarrow> nat \<Rightarrow> u32" where
  "le32 bs i = ucast (bs ! i) OR push_bit 8 (ucast (bs ! (i + 1))) OR push_bit 16 (ucast (bs ! (i + 2))) OR
     push_bit 24 (ucast (bs ! (i + 3)))"

definition parse_partition_entry :: "u8 list \<Rightarrow> nat \<Rightarrow> partition_entry" where
  "parse_partition_entry sector off =
     \<lparr>start_lba = ucast (le32 sector (off + 8)), sector_count = ucast (le32 sector (off + 12)),
      part_type = sector ! (off + 4)\<rparr>"

text \<open>Append an entry while fewer than 32 are stored.\<close>

definition add_part :: "partition_entry \<Rightarrow> partition_entry list \<Rightarrow> partition_entry list" where
  "add_part pe dp = (if length dp < MAX_PARTS_PER_DRIVE then dp @ [pe] else dp)"

partial_function (option) parse_ebr :: "int \<Rightarrow> u64 \<Rightarrow> partition_entry list \<Rightarrow> ahci \<Rightarrow> (int \<times> partition_entry list \<times> ahci) option" where
  "parse_ebr drive current_lba dp s =
     (if current_lba = 0 then Some (0, dp, s)
      else case read_sector drive current_lba s of
        (None, s') \<Rightarrow> Some (-1, dp, s')
      | (Some sector, s') \<Rightarrow>
          (if le16 sector 510 \<noteq> MBR_SIGNATURE then Some (0, dp, s')
           else
             parse_ebr drive (start_lba (parse_partition_entry sector (446 + 16)))
               (if sector_count (parse_partition_entry sector 446) > 0
                then add_part (parse_partition_entry sector 446) dp else dp) s'))"

definition is_extended :: "u8 \<Rightarrow> bool" where
  "is_extended t = (t = 0x05 \<or> t = 0x0F \<or> t = 0x85)"

fun parse_primary :: "int \<Rightarrow> u8 list \<Rightarrow> nat list \<Rightarrow> partition_entry list \<Rightarrow> ahci \<Rightarrow> (partition_entry list \<times> ahci) option" where
  "parse_primary drive mbr [] dp s = Some (dp, s)"
| "parse_primary drive mbr (i # is) dp s =
     (let pe = parse_partition_entry mbr (446 + i * 16)
      in if sector_count pe = 0 then parse_primary drive mbr is dp s
         else if is_extended (part_type pe) then
           (case parse_ebr drive (start_lba pe) dp s of
              None \<Rightarrow> None
            | Some (_, dp', s') \<Rightarrow> parse_primary drive mbr is dp' s')
         else parse_primary drive mbr is (add_part pe dp) s)"

definition parse_mbr :: "int \<Rightarrow> disk_state \<Rightarrow> disk_state option" where
  "parse_mbr drive s =
     (case read_sector drive 0 (drv s) of
        (None, a) \<Rightarrow> Some (s\<lparr>drv := a, drive_parts := (drive_parts s)[nat drive := []]\<rparr>)
      | (Some mbr, a) \<Rightarrow>
          (if le16 mbr 510 \<noteq> MBR_SIGNATURE
           then Some (s\<lparr>drv := a, drive_parts := (drive_parts s)[nat drive := []]\<rparr>)
           else map_option (\<lambda>(dp, a'). s\<lparr>drv := a', drive_parts := (drive_parts s)[nat drive := dp]\<rparr>)
                  (parse_primary drive mbr [0, 1, 2, 3] [] a)))"

fun parse_all :: "int list \<Rightarrow> disk_state \<Rightarrow> disk_state option" where
  "parse_all [] s = Some s"
| "parse_all (i # is) s = (case parse_mbr i s of None \<Rightarrow> None | Some s' \<Rightarrow> parse_all is s')"

definition update_partition_tables :: "u32 \<Rightarrow> (int \<Rightarrow> u32) \<Rightarrow> disk_state \<Rightarrow> disk_state option" where
  "update_partition_tables ports_impl ssts s =
     (case lock_acquire s of None \<Rightarrow> None
      | Some s1 \<Rightarrow>
          (let s2 = s1\<lparr>drv := ahci_table_update ports_impl ssts (drv s1)\<rparr>
           in map_option lock_release (parse_all [0..drive_count (drv s2) - 1] s2)))"

definition partition_init :: "u32 \<Rightarrow> (int \<Rightarrow> u32) \<Rightarrow> disk_state \<Rightarrow> disk_state option" where
  "partition_init ports_impl ssts s = update_partition_tables ports_impl ssts s"


section \<open>Access\<close>

definition valid_part :: "int \<Rightarrow> int \<Rightarrow> disk_state \<Rightarrow> bool" where
  "valid_part drive part s \<longleftrightarrow>
     \<not> (drive < 0 \<or> drive \<ge> drive_count (drv s) \<or> part < 0 \<or> part \<ge> int (length (drive_parts s ! nat drive)))"

definition part_entry :: "int \<Rightarrow> int \<Rightarrow> disk_state \<Rightarrow> partition_entry" where
  "part_entry drive part s = drive_parts s ! nat drive ! nat part"

text \<open>The common head of \<^verbatim>\<open>partition_read\<close> and \<^verbatim>\<open>partition_write\<close>: validation under the lock and the
  absolute byte address; Inl for a rejected request.\<close>

definition part_address :: "int \<Rightarrow> int \<Rightarrow> u64 \<Rightarrow> int \<Rightarrow> disk_state \<Rightarrow> (unit + u64) \<times> disk_state" where
  "part_address drive part offset len s =
     (if \<not> valid_part drive part s then (Inl (), lock_release s)
      else
        let pe = part_entry drive part s;
            part_start_byte = start_lba pe * of_nat SECTOR_SIZE
        in if offset + of_int len > sector_count pe * of_nat SECTOR_SIZE then (Inl (), lock_release s)
           else (Inr (part_start_byte + offset), lock_release s))"

definition partition_read :: "int \<Rightarrow> int \<Rightarrow> u64 \<Rightarrow> int \<Rightarrow> disk_state \<Rightarrow> (int \<times> u8 list \<times> disk_state) option" where
  "partition_read drive part offset len s =
     (case lock_acquire s of None \<Rightarrow> None
      | Some s1 \<Rightarrow>
          (case part_address drive part offset len s1 of
             (Inl _, s2) \<Rightarrow> Some (-1, [], s2)
           | (Inr abs_addr, s2) \<Rightarrow>
               (let (ok, a) = ahci_read drive abs_addr (of_int len) (drv s2);
                    s3 = s2\<lparr>drv := a\<rparr>
                in if \<not> ok then Some (-1, [], s3)
                   else Some (0, take (nat len) (byte_buffer a), s3))))"

definition partition_write :: "int \<Rightarrow> int \<Rightarrow> u64 \<Rightarrow> int \<Rightarrow> u8 list option \<Rightarrow> disk_state \<Rightarrow> (int \<times> disk_state) option" where
  "partition_write drive part offset len buffer s =
     (case lock_acquire s of None \<Rightarrow> None
      | Some s1 \<Rightarrow>
          (case part_address drive part offset len s1 of
             (Inl _, s2) \<Rightarrow> Some (-1, s2)
           | (Inr abs_addr, s2) \<Rightarrow>
               (let (r, a) = ahci_write drive abs_addr (of_int len) buffer (drv s2)
                in Some (r, s2\<lparr>drv := a\<rparr>))))"

definition get_partition_count :: "int \<Rightarrow> disk_state \<Rightarrow> (int \<times> disk_state) option" where
  "get_partition_count drive s =
     map_option (\<lambda>s1.
       (if drive \<ge> 0 \<and> drive < drive_count (drv s1) then int (length (drive_parts s1 ! nat drive)) else 0,
        lock_release s1)) (lock_acquire s)"

definition partition_get_sector_count :: "int \<Rightarrow> int \<Rightarrow> disk_state \<Rightarrow> u64" where
  "partition_get_sector_count drive part s =
     (if \<not> valid_part drive part s then 0 else sector_count (part_entry drive part s))"



section \<open>Partitions are windows on the disk\<close>

definition disk_ready :: "disks \<Rightarrow> disk_state \<Rightarrow> bool" where
  "disk_ready d s \<longleftrightarrow> partition_lock s = 0 \<and> ahci_initialized (drv s) \<and> ahci_ok (drv s) \<and> disk_ok d \<and>
     sector_device d (hba (drv s))"

text \<open>A request inside a partition that ends below \<open>2 ^ 56\<close> bytes.\<close>

definition part_request :: "int \<Rightarrow> int \<Rightarrow> u64 \<Rightarrow> int \<Rightarrow> disk_state \<Rightarrow> bool" where
  "part_request drive part offset len s \<longleftrightarrow> valid_part drive part s \<and> 0 < len \<and> len \<le> 256 \<and>
     unat offset + nat len \<le> unat (sector_count (part_entry drive part s)) * 512 \<and>
     (unat (start_lba (part_entry drive part s)) + unat (sector_count (part_entry drive part s))) * 512 \<le> 2 ^ 56"

definition part_base :: "int \<Rightarrow> int \<Rightarrow> disk_state \<Rightarrow> nat" where
  "part_base drive part s = unat (start_lba (part_entry drive part s)) * 512"

definition part_port :: "int \<Rightarrow> disk_state \<Rightarrow> int" where
  "part_port drive s = drive_port (drv s) ! nat drive"

lemma unat_len: "0 < len \<Longrightarrow> len \<le> 256 \<Longrightarrow> unat (of_int len :: u64) = nat len"
proof -
  assume l: "0 < len" "len \<le> 256"
  then have "(of_int len :: u64) = of_nat (nat len)" by simp
  moreover have "unat (of_nat (nat len) :: u64) = nat len" using l by (intro unat_of_nat_u64) simp
  ultimately show ?thesis by simp
qed

lemma unat_sectors: "unat (x :: u64) * 512 \<le> 2 ^ 56 \<Longrightarrow> unat (x * of_nat SECTOR_SIZE) = unat x * 512"
  by (simp add: SECTOR_SIZE_def unat_word_ariths)

lemma part_address_inside:
  assumes "part_request drive part offset len s"
  shows "\<exists>addr. part_address drive part offset len s = (Inr addr, lock_release s) \<and>
    unat addr = part_base drive part s + unat offset \<and> unat addr + nat len \<le> 2 ^ 56"
proof -
  let ?pe = "part_entry drive part s"
  have v: "valid_part drive part s" and l: "0 < len" "len \<le> 256"
    and b: "unat offset + nat len \<le> unat (sector_count ?pe) * 512"
    and e: "(unat (start_lba ?pe) + unat (sector_count ?pe)) * 512 \<le> 2 ^ 56"
    using assms by (simp_all add: part_request_def)
  have st: "unat (start_lba ?pe * of_nat SECTOR_SIZE) = unat (start_lba ?pe) * 512"
    and ct: "unat (sector_count ?pe * of_nat SECTOR_SIZE) = unat (sector_count ?pe) * 512"
    using e by (auto intro: unat_sectors)
  have "unat (offset + of_int len) = unat offset + nat len"
    using unat_len [OF l] b e by (simp add: unat_word_ariths)
  then have "\<not> offset + of_int len > sector_count ?pe * of_nat SECTOR_SIZE"
    using b ct by (simp add: word_less_nat_alt)
  moreover have "unat (start_lba ?pe * of_nat SECTOR_SIZE + offset) = unat (start_lba ?pe) * 512 + unat offset"
    using st b e by (simp add: unat_word_ariths)
  ultimately show ?thesis using v b e by (simp add: part_address_def Let_def part_base_def)
qed

lemma same_part:
  "drive_parts s' = drive_parts s \<Longrightarrow> same_table (drv s) (drv s') \<Longrightarrow>
   valid_part drive part s' = valid_part drive part s \<and> part_entry drive part s' = part_entry drive part s \<and>
   part_base drive part s' = part_base drive part s \<and> part_port drive s' = part_port drive s"
  by (simp add: valid_part_def part_entry_def part_base_def part_port_def same_table_def)

lemma partition_read_bytes:
  assumes "disk_ready d s" "part_request drive part offset len s"
  shows "\<exists>s'. partition_read drive part offset len s =
      Some (0, disk_bytes d (part_port drive s) (part_base drive part s + unat offset) (nat len), s') \<and>
    disk_ready d s' \<and> drive_parts s' = drive_parts s \<and> same_table (drv s) (drv s')"
proof -
  let ?s1 = "s\<lparr>partition_lock := 1\<rparr>"
  have r: "part_request drive part offset len ?s1" "part_base drive part ?s1 = part_base drive part s"
    using assms(2) by (simp_all add: part_request_def valid_part_def part_entry_def part_base_def)
  have l: "0 < len" "len \<le> 256" and v: "0 \<le> drive" "drive < drive_count (drv s)"
    using assms(2) by (auto simp: part_request_def valid_part_def)
  note ul = unat_len [OF l]
  obtain addr where a: "part_address drive part offset len ?s1 = (Inr addr, lock_release ?s1)"
    "unat addr = part_base drive part s + unat offset" "unat addr + nat len \<le> 2 ^ 56"
    using part_address_inside [OF r(1)] r(2) by auto
  have "lock_release ?s1 = s" using assms(1) by (simp add: disk_ready_def lock_release_def)
  note a = a(1) [unfolded this] a(2,3)
  have rd: "sector_device d (hba (drv s))" "disk_ok d" "ahci_ok (drv s)" "ahci_initialized (drv s)" "partition_lock s = 0"
    using assms(1) by (simp_all add: disk_ready_def)
  have len: "0 < unat (of_int len :: u64)" "unat (of_int len :: u64) \<le> 256" "unat addr + unat (of_int len :: u64) \<le> 2 ^ 56"
    using ul l a(3) by simp_all
  obtain ah where "ahci_read drive addr (of_int len) (drv s) = (True, ah)" "sector_device d (hba ah)" "ahci_ok ah"
    "same_table (drv s) ah" "take (nat len) (byte_buffer ah) = disk_bytes d (drive_port (drv s) ! nat drive) (unat addr) (nat len)"
    using ahci_read_bytes [OF rd(1-4) v len] ul by auto
  then show ?thesis
    using a rd by (simp add: partition_read_def lock_acquire_def part_port_def disk_ready_def same_table_def)
qed

lemma partition_write_bytes:
  assumes "disk_ready d s" "part_request drive part offset len s" "length data = nat len"
  shows "\<exists>s' d'. partition_write drive part offset len (Some data) s = Some (0, s') \<and> disk_ready d' s' \<and>
    drive_parts s' = drive_parts s \<and> same_table (drv s) (drv s') \<and>
    (\<forall>p b. b < 2 ^ 64 \<longrightarrow> disk_byte d' p b =
      (if p = part_port drive s \<and> part_base drive part s + unat offset \<le> b \<and> b < part_base drive part s + unat offset + nat len
       then data ! (b - (part_base drive part s + unat offset)) else disk_byte d p b))"
proof -
  let ?s1 = "s\<lparr>partition_lock := 1\<rparr>" and ?a = "part_base drive part s + unat offset"
  have r: "part_request drive part offset len ?s1" "part_base drive part ?s1 = part_base drive part s"
    using assms(2) by (simp_all add: part_request_def valid_part_def part_entry_def part_base_def)
  have l: "0 < len" "len \<le> 256" and v: "0 \<le> drive" "drive < drive_count (drv s)"
    using assms(2) by (auto simp: part_request_def valid_part_def)
  note ul = unat_len [OF l]
  obtain addr where a: "part_address drive part offset len ?s1 = (Inr addr, lock_release ?s1)"
    "unat addr = ?a" "unat addr + nat len \<le> 2 ^ 56"
    using part_address_inside [OF r(1)] r(2) by auto
  have "lock_release ?s1 = s" using assms(1) by (simp add: disk_ready_def lock_release_def)
  note a = a(1) [unfolded this] a(2,3)
  have rd: "sector_device d (hba (drv s))" "disk_ok d" "ahci_ok (drv s)" "ahci_initialized (drv s)" "partition_lock s = 0"
    using assms(1) by (simp_all add: disk_ready_def)
  have len: "0 < unat (of_int len :: u64)" "unat (of_int len :: u64) \<le> 256" "unat addr + unat (of_int len :: u64) \<le> 2 ^ 56"
    "length data = unat (of_int len :: u64)"
    using ul l a(3) assms(3) by simp_all
  obtain ah d' where w: "ahci_write drive addr (of_int len) (Some data) (drv s) = (0, ah)" "sector_device d' (hba ah)" "disk_ok d'"
    "ahci_ok ah" "same_table (drv s) ah"
    and b: "\<forall>p b. b < 2 ^ 64 \<longrightarrow> disk_byte d' p b =
      (if p = drive_port (drv s) ! nat drive \<and> unat addr \<le> b \<and> b < unat addr + unat (of_int len :: u64) then data ! (b - unat addr)
       else disk_byte d p b)"
    using ahci_write_bytes [OF rd(1-4) v len] by blast
  have "partition_write drive part offset len (Some data) s = Some (0, s\<lparr>drv := ah\<rparr>)"
    using a rd w(1) by (simp add: partition_write_def lock_acquire_def)
  moreover have "disk_ready d' (s\<lparr>drv := ah\<rparr>)" using w rd by (simp add: disk_ready_def same_table_def)
  ultimately show ?thesis
    using b w(5) unfolding ul a(2) part_port_def by (intro exI [of _ "s\<lparr>drv := ah\<rparr>"] exI [of _ d']) simp
qed


lemma part_request_cong:
  "drive_parts s' = drive_parts s \<Longrightarrow> same_table (drv s) (drv s') \<Longrightarrow>
   part_request drive part offset len s' = part_request drive part offset len s"
  using same_part [of s' s drive part] by (simp add: part_request_def)


lemma partition_refuses:
  assumes "partition_lock s = 0"
    and "\<not> valid_part drive part s \<or>
      offset + of_int len > sector_count (part_entry drive part s) * 512 \<or> 256 < len \<and> len < 2 ^ 31"
  shows "partition_read drive part offset len s = Some (-1, [], s) \<and>
    partition_write drive part offset len data s = Some (-1, s)"
proof -
  have lk: "lock_acquire s = Some (s\<lparr>partition_lock := 1\<rparr>)" "lock_release (s\<lparr>partition_lock := 1\<rparr>) = s"
    using assms(1) by (simp_all add: lock_acquire_def lock_release_def)
  have ve: "valid_part drive part (s\<lparr>partition_lock := 1\<rparr>) = valid_part drive part s"
    "part_entry drive part (s\<lparr>partition_lock := 1\<rparr>) = part_entry drive part s"
    by (simp_all add: valid_part_def part_entry_def)
  have big: "ahci_read drive a (of_int len) t = (False, t)" "ahci_write drive a (of_int len) data t = (-1, t)"
    if "256 < len" "len < 2 ^ 31" for a t
  proof -
    have "(of_int len :: u64) = of_nat (nat len)" using that by simp
    then have "unat (of_int len :: u64) = nat len" using that unat_of_nat_u64 [of "nat len"] by (simp add: nat_less_iff)
    then have "(of_int len :: u64) > 256" using that by (simp add: word_less_nat_alt nat_less_iff zless_nat_eq_int_zless)
    then show "ahci_read drive a (of_int len) t = (False, t)" "ahci_write drive a (of_int len) data t = (-1, t)"
      by (simp_all add: ahci_read_def ahci_write_def)
  qed
  consider "\<not> valid_part drive part s \<or> offset + of_int len > sector_count (part_entry drive part s) * 512"
    | "256 < len" "len < 2 ^ 31" "valid_part drive part s" "\<not> offset + of_int len > sector_count (part_entry drive part s) * 512"
    using assms(2) by blast
  then show ?thesis
    by cases (auto simp: partition_read_def partition_write_def lk part_address_def ve big Let_def SECTOR_SIZE_def)
qed

text \<open>What a partition refuses: a request on an unknown drive or partition, one that ends beyond the
  partition, and one over 256 bytes fail with -1, whatever the device does, and change nothing.\<close>

theorem partition_rejects:
  assumes "partition_lock s = 0"
    and "\<not> valid_part drive part s \<or>
      offset + of_int len > sector_count (part_entry drive part s) * 512 \<or> 256 < len \<and> len < 2 ^ 31"
  shows "partition_read drive part offset len s = Some (-1, [], s) \<and>
    partition_write drive part offset len data s = Some (-1, s)"
  using assms by (rule partition_refuses)

text \<open>The bounds check wraps: on a valid partition, the offset \<open>2 ^ 64 - 1\<close> with length 2 passes the check,
  because the sum wraps to 1, and the request goes to the byte before the partition.\<close>

theorem partition_bounds_wrap:
  assumes "valid_part drive part s" "sector_count (part_entry drive part s) * 512 \<ge> 1"
  shows "part_address drive part (-1) 2 s = (Inr (start_lba (part_entry drive part s) * 512 - 1), lock_release s)"
  using assms by (auto simp: part_address_def SECTOR_SIZE_def Let_def)

text \<open>The lock: every access to the partition tables returns with the lock released when it was free, and
  none returns when it is held.\<close>

theorem partition_lock_discipline:
  "(case partition_read drive part offset len s of None \<Rightarrow> partition_lock s \<noteq> 0
    | Some (_, _, s') \<Rightarrow> partition_lock s = 0 \<and> partition_lock s' = 0) \<and>
   (case partition_write drive part offset len data s of None \<Rightarrow> partition_lock s \<noteq> 0
    | Some (_, s') \<Rightarrow> partition_lock s = 0 \<and> partition_lock s' = 0) \<and>
   (case get_partition_count drive s of None \<Rightarrow> partition_lock s \<noteq> 0
    | Some (_, s') \<Rightarrow> partition_lock s = 0 \<and> partition_lock s' = 0)"
  by (auto simp: partition_read_def partition_write_def get_partition_count_def lock_acquire_def lock_release_def
      part_address_def Let_def split: prod.splits)


text \<open>A drive with one partition of 8 sectors from sector 1 on.\<close>

definition demo_disk :: disk_state where
  "demo_disk = \<lparr>drv = demo_ahci, drive_parts = [\<lparr>start_lba = 1, sector_count = 8, part_type = 0x83\<rparr>] # replicate 31 [],
     partition_lock = 0\<rparr>"

lemma demo_disk_ready: "disk_ready (\<lambda>_ _. replicate 512 7) demo_disk"
  using demo_ahci_ok by (simp add: disk_ready_def demo_disk_def)

lemma demo_part: "valid_part 0 0 demo_disk" "part_entry 0 0 demo_disk = \<lparr>start_lba = 1, sector_count = 8, part_type = 0x83\<rparr>"
  using demo_ahci_ok(3) by (simp_all add: valid_part_def part_entry_def demo_disk_def)


theorem partition_rejects_witness:
  "partition_read 0 0 4095 2 demo_disk = Some (-1, [], demo_disk) \<and>
   partition_write 0 0 0 536 (Some []) demo_disk = Some (-1, demo_disk)"
  using partition_rejects [of demo_disk 0 0 4095 2 None] partition_rejects [of demo_disk 0 0 0 536 "Some []"] demo_part
  by (simp add: demo_disk_def)

theorem partition_bounds_wrap_witness:
  "part_address 0 0 (-1) 2 demo_disk = (Inr 511, lock_release demo_disk)"
  using partition_bounds_wrap [OF demo_part(1)] demo_part(2) by simp


section \<open>Parsing\<close>

text \<open>Sector addresses wrap: the byte address of a sector has 32 bits, so every sector from \<open>2 ^ 23\<close> (4 GB)
  on is read as the sector \<open>2 ^ 23\<close> below it.\<close>

theorem read_sector_wraps: "read_sector drive (lba + 2 ^ 23) s = read_sector drive lba s"
proof -
  have "(ucast ((lba + 2 ^ 23) * 512 :: u64) :: u32) = ucast (lba * 512)"
  proof (rule unsigned_word_eqI [where ?'a = nat])
    have "unat (ucast ((lba + 2 ^ 23) * 512 :: u64) :: u32) = ((unat lba + 2 ^ 23) * 512) mod 2 ^ 64 mod 2 ^ 32"
      by (simp only: unsigned_ucast_eq take_bit_eq_mod unat_word_ariths) (simp add: mod_simps)
    also have "\<dots> = (unat lba * 512 + 2 ^ 32) mod 2 ^ 32" by (simp add: mod_mod_cancel algebra_simps)
    also have "\<dots> = (unat lba * 512) mod 2 ^ 64 mod 2 ^ 32" by (simp add: mod_mod_cancel)
    also have "\<dots> = unat (ucast (lba * 512 :: u64) :: u32)"
      by (simp only: unsigned_ucast_eq take_bit_eq_mod unat_word_ariths) simp
    finally show "unat (ucast ((lba + 2 ^ 23) * 512 :: u64) :: u32) = unat (ucast (lba * 512 :: u64) :: u32)" .
  qed
  then show ?thesis by (simp add: read_sector_def SECTOR_SIZE_def)
qed

lemma sector_served:
  assumes "sector_device d (hba a)" "disk_ok d" "ahci_ok a" "ahci_initialized a" "0 \<le> drive" "drive < drive_count a"
    and "unat lba < 2 ^ 23"
  shows "\<exists>a'. read_sector drive lba a = (Some (d (drive_port a ! nat drive) lba), a') \<and> sector_device d (hba a') \<and>
    ahci_ok a' \<and> same_table a a'"
proof -
  let ?addr = "ucast (lba * of_nat SECTOR_SIZE) :: u32" and ?p = "drive_port a ! nat drive" and ?b = "unat lba * 512"
  have "unat (lba * of_nat SECTOR_SIZE) = ?b" using assms(7) by (intro unat_sectors) simp
  then have ad: "unat ?addr = ?b" using assms(7) by (simp add: unat_ucast_small)
  then have a1: "unat (ucast ?addr :: u64) = ?b" "unat (ucast (?addr + 256) :: u64) = ?b + 256"
    using assms(7) unat_ucast_small [of ?addr, where 'b = 64] unat_ucast_small [of "?addr + 256", where 'b = 64]
    by (simp_all add: unat_word_ariths)
  have len: "0 < unat (256 :: u64)" "unat (256 :: u64) \<le> 256" by simp_all
  have b1: "unat (ucast ?addr :: u64) + unat (256 :: u64) \<le> 2 ^ 56"
    and b2: "unat (ucast (?addr + 256) :: u64) + unat (256 :: u64) \<le> 2 ^ 56"
    unfolding a1 using assms(7) by simp_all
  obtain s1 where s1: "ahci_read drive (ucast ?addr) 256 a = (True, s1)" "sector_device d (hba s1)" "ahci_ok s1" "same_table a s1"
    "take (unat (256 :: u64)) (byte_buffer s1) = disk_bytes d ?p (unat (ucast ?addr :: u64)) (unat (256 :: u64))"
    using ahci_read_bytes [OF assms(1-6) len b1] by blast
  have v: "ahci_initialized s1" "drive < drive_count s1" "drive_port s1 = drive_port a"
    using s1(4) assms(4,6) by (simp_all add: same_table_def)
  obtain s2 where s2: "ahci_read drive (ucast (?addr + 256)) 256 s1 = (True, s2)" "sector_device d (hba s2)" "ahci_ok s2" "same_table s1 s2"
    "take (unat (256 :: u64)) (byte_buffer s2) = disk_bytes d ?p (unat (ucast (?addr + 256) :: u64)) (unat (256 :: u64))"
    using ahci_read_bytes [OF s1(2) assms(2) s1(3) v(1) assms(5) v(2) len b2] v(3) by auto
  have u: "unat (256 :: u64) = 256" by simp
  have "disk_bytes d ?p ?b 256 @ disk_bytes d ?p (?b + 256) 256 = disk_bytes d ?p ?b (256 + 256)"
    by (rule disk_bytes_append [symmetric])
  also have "\<dots> = take 512 (d ?p (of_nat (unat lba)))"
    using disk_bytes_sector [OF assms(2), of ?b 512 ?p] by simp
  also have "\<dots> = d ?p lba" using assms(2) by (simp add: disk_ok_def)
  finally have "disk_bytes d ?p ?b 256 @ disk_bytes d ?p (?b + 256) 256 = d ?p lba" .
  then have "read_sector drive lba a = (Some (d ?p lba), s2)"
    using s1(1,5) s2(1,5) unfolding a1 u read_sector_def Let_def by simp
  then show ?thesis using s2 s1(4) by (auto simp: same_table_def)
qed


text \<open>Without extended entries, the non-empty entries are taken over in order.\<close>

abbreviation (input) entry_at :: "u8 list \<Rightarrow> nat \<Rightarrow> partition_entry" where
  "entry_at mbr i \<equiv> parse_partition_entry mbr (446 + i * 16)"

lemma parse_primary_plain:
  assumes "\<forall>i\<in>set is. \<not> is_extended (part_type (entry_at mbr i))" "length dp + length is \<le> 32"
  shows "parse_primary drive mbr is dp s = Some (dp @ filter (\<lambda>pe. sector_count pe \<noteq> 0) (map (entry_at mbr) is), s)"
  using assms by (induction "is" arbitrary: dp) (auto simp: Let_def add_part_def MAX_PARTS_PER_DRIVE_def)




text \<open>A boot sector with one Linux partition of 8 sectors at sector 1, and an extended boot record at
  sector 5 that names itself as its successor.\<close>

definition demo_mbr :: "u8 list" where
  "demo_mbr = replicate 450 0 @ [0x83, 0, 0, 0, 1, 0, 0, 0, 8, 0, 0, 0] @ replicate 48 0 @ [0x55, 0xAA]"

definition demo_ebr :: "u8 list" where
  "demo_ebr = replicate 470 0 @ [5, 0, 0, 0] @ replicate 36 0 @ [0x55, 0xAA]"

lemma demo_ideal_ready:
  assumes "\<And>lba. length (f lba) = 512"
  shows "disk_ready (\<lambda>_. f) (demo_disk\<lparr>drv := demo_ahci\<lparr>hba := ideal_device (\<lambda>_. f)\<rparr>\<rparr>)"
  using ideal_sector_device [of "\<lambda>_. f"] assms demo_ahci_ok
  by (simp add: disk_ready_def demo_disk_def disk_ok_def ahci_ok_def)

lemma nth_mbr: "i < 450 \<Longrightarrow> demo_mbr ! i = 0" "462 \<le> i \<Longrightarrow> i < 510 \<Longrightarrow> demo_mbr ! i = 0"
  by (simp_all add: demo_mbr_def nth_append nth_Cons')



end
