(* ===== verification/Fs_State.thy ===== *)
theory Fs_State
  imports Env_Commands Printf Partition "HOL-Library.Monad_Syntax"
begin

text \<open>
  The state that the RAM file system (\<^verbatim>\<open>kernel/src/ramfs.c\<close>), the disk file system
  (\<^verbatim>\<open>kernel/src/dfs.c\<close>) and the shell (\<^verbatim>\<open>kernel/src/Little_Linux.c\<close>) share, and the part of \<^verbatim>\<open>dfs.c\<close> that
  the RAM file system calls back: reading a folder's entries and a file's data from a mounted partition.

  Folder structures live in a store that maps their addresses to records; freeing one removes it, so
  that an access through a null or dangling pointer is None. Blocks with file data are kept the same
  way. A mount point pointer is the index of its slot in \<^verbatim>\<open>mount_table\<close>. Every operation maps the state
  to its return value and the new state, or to None when the C code does not return: access through an
  invalid pointer, a copy that overruns its array, or a call that loops or halts.
\<close>

section \<open>State\<close>

record foder =
  fd_name :: string
  fd_type :: int
  foder_map :: foder_map
  file_map :: file_map
  fd_mount :: "nat option"
  fd_parent :: u32
  fd_drive_addr :: int
  is_mount_root :: bool

record mount_point =
  mp_path :: string
  partition_drive :: int
  partition_index :: int
  root_dir :: u32

text \<open>The functions that are registered as commands. The last two fields before the disk are the static
  locals of \<^verbatim>\<open>dfs_alloc_file_blocks\<close>.\<close>

datatype api = Fs_mkdir | Fs_cd | Fs_rmdir | Fs_touch | Fs_write | Fs_cat | Fs_ls | Fs_pwd | Fs_rm | Fs_backspace
  | Fs_lsblk | Fs_mount | Fs_umount | Fs_mkfs | Os_help

record fs =
  hp :: heap
  dirs :: "u32 \<Rightarrow> foder option"
  fdata :: "u32 \<Rightarrow> u8 list option"
  current_dir :: u32
  current_path :: string
  env_map :: env
  command_map :: "api commands"
  out :: string
  mount_table :: "mount_point list"
  mount_count :: int
  last_byte_off :: u32
  byte_val :: u8
  disk :: disk_state

text \<open>The address of the static object \<^verbatim>\<open>root\<close>: an address in the kernel image, below the heap.\<close>

definition ROOT :: u32 where "ROOT = 0x100000"

definition MAX_MOUNTS :: int where "MAX_MOUNTS = 8"

text \<open>The size of \<^verbatim>\<open>struct ramfs_foder\<close> on the target.\<close>

definition sizeof_foder :: u32 where "sizeof_foder = 288"

definition folder :: "fs \<Rightarrow> u32 \<Rightarrow> foder option" where
  "folder s p = (if p = 0 then None else dirs s p)"

definition set_folder :: "u32 \<Rightarrow> foder \<Rightarrow> fs \<Rightarrow> fs" where
  "set_folder p d s = s\<lparr>dirs := (dirs s)(p \<mapsto> d)\<rparr>"

definition free_folder :: "u32 \<Rightarrow> fs \<Rightarrow> fs" where
  "free_folder p s = s\<lparr>hp := free p (hp s), dirs := (dirs s)(p := None)\<rparr>"

definition free_data :: "u32 \<Rightarrow> fs \<Rightarrow> fs" where
  "free_data p s = (if p = 0 then s else s\<lparr>hp := free p (hp s), fdata := (fdata s)(p := None)\<rparr>)"

text \<open>A zeroed folder structure with initialised tables.\<close>

definition new_foder :: "string \<Rightarrow> int \<Rightarrow> int \<Rightarrow> nat option \<Rightarrow> u32 \<Rightarrow> foder" where
  "new_foder name type addr mnt par =
     \<lparr>fd_name = name, fd_type = type, foder_map = ramfs_hashmap_init, file_map = ramfs_file_hashmap_init,
      fd_mount = mnt, fd_parent = par, fd_drive_addr = addr, is_mount_root = False\<rparr>"

text \<open>\<^verbatim>\<open>printf\<close> onto the console.\<close>

definition say :: "string \<Rightarrow> arg list \<Rightarrow> fs \<Rightarrow> fs option" where
  "say format args s = map_option (\<lambda>text. s\<lparr>out := out s @ text\<rparr>) (printf format args)"

text \<open>\<^verbatim>\<open>strcpy\<close> into an array of \<open>n\<close> bytes.\<close>

definition strcpy_into :: "nat \<Rightarrow> string \<Rightarrow> string option" where
  "strcpy_into n s = (if length s < n then Some s else None)"


section \<open>Folders on disk\<close>

definition DFS_MAX_SUB_ENTRIES :: nat where "DFS_MAX_SUB_ENTRIES = 128"

text \<open>\<^verbatim>\<open>sizeof(dfs_disk_folder)\<close> and the offsets of its two arrays.\<close>

definition sizeof_disk_folder :: nat where
  "sizeof_disk_folder = 140 + DFS_MAX_SUB_ENTRIES * 132 + DFS_MAX_SUB_ENTRIES * 140"

definition sub_off :: "nat \<Rightarrow> nat" where "sub_off i = 140 + 132 * i"
definition file_off :: "nat \<Rightarrow> nat" where "file_off i = 140 + DFS_MAX_SUB_ENTRIES * 132 + 140 * i"

definition le64 :: "u8 list \<Rightarrow> nat \<Rightarrow> u64" where
  "le64 bs i = ucast (le32 bs i) OR push_bit 32 (ucast (le32 bs (i + 4)))"

text \<open>\<^verbatim>\<open>strcpy\<close> from a position of the structure into a name array of 128 bytes.\<close>

definition name_at :: "u8 list \<Rightarrow> nat \<Rightarrow> string option" where
  "name_at bs off =
     (let cs = takeWhile (\<lambda>b. b \<noteq> 0) (drop off bs)
      in if off + length cs < length bs then strcpy_into 128 (map (\<lambda>b. char_of (unat b)) cs) else None)"

definition dfs_read_partition :: "int \<Rightarrow> int \<Rightarrow> u32 \<Rightarrow> nat \<Rightarrow> fs \<Rightarrow> (int \<times> u8 list \<times> fs) option" where
  "dfs_read_partition drive part offset sz s =
     map_option (\<lambda>(r, bs, ds). (r, bs, s\<lparr>disk := ds\<rparr>)) (partition_read drive part (ucast offset) (int sz) (disk s))"

text \<open>One entry of the subfolder array of \<open>dfs_load_folder_children\<close>; Inl is an early return.\<close>

definition load_sub :: "u32 \<Rightarrow> nat \<Rightarrow> u8 list \<Rightarrow> nat \<Rightarrow> fs \<Rightarrow> (int option \<times> fs) option" where
  "load_sub dir mp bs i s =
     (if i \<ge> DFS_MAX_SUB_ENTRIES then None
      else do {
        sub_name \<leftarrow> name_at bs (sub_off i);
        d \<leftarrow> folder s dir;
        (if ramfs_hashmap_find (foder_map d) sub_name \<noteq> None then Some (None, s)
         else do {
           (sub, h1) \<leftarrow> malloc sizeof_foder (hp s);
           (if sub = 0 then Some (Some (- 5), s\<lparr>hp := h1\<rparr>)
            else do {
              let addr = sint (le32 bs (sub_off i + 128));
              let s1 = set_folder sub (new_foder sub_name RAMFS_FOLDER_TYPE_DISK_CLEAN addr (Some mp) dir) (s\<lparr>hp := h1\<rparr>);
              (r, m, h2) \<leftarrow> ramfs_hashmap_insert (foder_map d) sub_name
                 \<lparr>di_name = sub_name, di_type = RAMFS_FOLDER_TYPE_DISK_CLEAN, di_ptr = sub, di_drive_addr = addr\<rparr> h1;
              Some (None, set_folder dir (d\<lparr>foder_map := m\<rparr>) (s1\<lparr>hp := h2\<rparr>))
            })
         })
      })"

definition load_file :: "u32 \<Rightarrow> u8 list \<Rightarrow> nat \<Rightarrow> fs \<Rightarrow> (int option \<times> fs) option" where
  "load_file dir bs i s =
     (if i \<ge> DFS_MAX_SUB_ENTRIES then None
      else do {
        file_name \<leftarrow> name_at bs (file_off i);
        d \<leftarrow> folder s dir;
        (if ramfs_file_hashmap_find (file_map d) file_name \<noteq> None then Some (None, s)
         else do {
           (r, m, h1) \<leftarrow> ramfs_file_hashmap_insert (file_map d) file_name
              \<lparr>fi_name = file_name, fi_type = 0, fi_length = sint (le64 bs (file_off i + 128)), fi_ptr = 0,
               fi_drive_addr = sint (le32 bs (file_off i + 136))\<rparr> (hp s);
           Some (None, set_folder dir (d\<lparr>file_map := m\<rparr>) (s\<lparr>hp := h1\<rparr>))
         })
      })"

text \<open>A loop whose body may return early from the function.\<close>

fun each :: "('i \<Rightarrow> 's \<Rightarrow> (int option \<times> 's) option) \<Rightarrow> 'i list \<Rightarrow> 's \<Rightarrow> (int option \<times> 's) option" where
  "each f [] s = Some (None, s)"
| "each f (i # is) s =
     (case f i s of None \<Rightarrow> None
      | Some (Some r, s') \<Rightarrow> Some (Some r, s')
      | Some (None, s') \<Rightarrow> each f is s')"

definition dfs_load_folder_children :: "u32 \<Rightarrow> fs \<Rightarrow> (int \<times> fs) option" where
  "dfs_load_folder_children dir s =
     (if dir = 0 then Some (- 1, s)
      else do {
        d \<leftarrow> folder s dir;
        (if fd_type d \<noteq> RAMFS_FOLDER_TYPE_DISK_CLEAN then Some (- 1, s)
         else if hm_count (foder_map d) \<noteq> 0 \<or> hm_count (file_map d) \<noteq> 0 then Some (0, s)
         else case fd_mount d of
           None \<Rightarrow> Some (- 2, s)
         | Some mp \<Rightarrow> do {
             (r, bs, s1) \<leftarrow> dfs_read_partition (partition_drive (mount_table s ! mp)) (partition_index (mount_table s ! mp))
                (of_int (fd_drive_addr d)) sizeof_disk_folder s;
             (if r \<noteq> 0 then Some (- 3, s1)
              else if le32 bs 128 = 0 then Some (- 4, s1)
              else do {
                (e1, s2) \<leftarrow> each (load_sub dir mp bs) [0..<unat (le32 bs 132)] s1;
                (case e1 of Some r1 \<Rightarrow> Some (r1, s2)
                 | None \<Rightarrow> do {
                     (_, s3) \<leftarrow> each (load_file dir bs) [0..<unat (le32 bs 136)] s2;
                     Some (0, s3)
                   })
              })
           })
      })"

text \<open>\<^verbatim>\<open>dfs_load_file_data\<close> on the entry \<open>fi\<close>: the result, the entry afterwards and the state. \<open>malloc\<close> takes the
  low 32 bits of the 64-bit length, \<open>partition_read\<close> its \<^verbatim>\<open>int\<close> value.\<close>

definition dfs_load_file_data :: "file_info \<Rightarrow> mount_point \<Rightarrow> fs \<Rightarrow> (int \<times> file_info \<times> fs) option" where
  "dfs_load_file_data fi mp s =
     (if fi_ptr fi \<noteq> 0 \<or> fi_length fi = 0 then Some (0, fi, s)
      else do {
        (data, h1) \<leftarrow> malloc (of_int (fi_length fi)) (hp s);
        (if data = 0 then Some (- 2, fi, s\<lparr>hp := h1\<rparr>)
         else do {
           (r, bs, ds) \<leftarrow> partition_read (partition_drive mp) (partition_index mp) (of_int (fi_drive_addr fi))
              (sint (of_int (fi_length fi) :: u32)) (disk s);
           (if r \<noteq> 0 then Some (- 3, fi, s\<lparr>hp := free data h1, disk := ds\<rparr>)
            else Some (0, fi\<lparr>fi_ptr := data\<rparr>, s\<lparr>hp := h1, fdata := (fdata s)(data \<mapsto> bs), disk := ds\<rparr>))
         })
      })"

end
