(* ===== verification/Ramfs.thy ===== *)
theory Ramfs
  imports Fs_State
begin

text \<open>
  The RAM file system, \<^verbatim>\<open>kernel/src/ramfs.c\<close>: path resolution, the file operations and \<^verbatim>\<open>fs_init\<close>. A pointer
  argument that may be null is an option; a folder pointer is an address with 0 for null. The result of
  an operation is its C return value and the new state.
\<close>

section \<open>Paths\<close>

text \<open>\<^verbatim>\<open>build_absolute_path\<close> into the array \<^verbatim>\<open>current_path\<close> of 512 bytes.\<close>

partial_function (option) build_absolute_path :: "u32 \<Rightarrow> fs \<Rightarrow> string option" where
  "build_absolute_path dir s = do {
     d \<leftarrow> folder s dir;
     (if fd_parent d \<noteq> 0 \<and> dir \<noteq> ROOT
      then do {
        acc \<leftarrow> build_absolute_path (fd_parent d) s;
        strcpy_into 512 ((if last acc \<noteq> CHR ''/'' then acc @ ''/'' else acc) @ fd_name d)
      }
      else Some ''/'')
   }"

definition lazy_load_directory :: "u32 \<Rightarrow> fs \<Rightarrow> fs option" where
  "lazy_load_directory dir s =
     (if dir = 0 then Some s
      else do {
        d \<leftarrow> folder s dir;
        (if fd_type d = RAMFS_FOLDER_TYPE_DISK_CLEAN \<and> hm_count (foder_map d) = 0 \<and> hm_count (file_map d) = 0
         then map_option snd (dfs_load_folder_children dir s)
         else Some s)
      })"

text \<open>One component of a path: Inl is a \<^verbatim>\<open>return\<close> from the function, Inr the folder to continue with. The
  folder that a lookup yields is accessed at once (\<^verbatim>\<open>cur->type\<close>), so the code under \<^verbatim>\<open>if (!info->ptr)\<close>, which
  would load it, cannot run.\<close>

definition path_step :: "fs \<Rightarrow> string \<Rightarrow> u32 \<Rightarrow> (u32 + u32) option" where
  "path_step s part cur =
     (if part = [] \<or> part = ''.'' then Some (Inr cur)
      else if part = ''..'' then do {
        d \<leftarrow> folder s cur;
        (if fd_parent d \<noteq> 0 then Some (Inr (fd_parent d)) else Some (Inl cur))
      }
      else do {
        d \<leftarrow> folder s cur;
        (case ramfs_hashmap_find (foder_map d) part of
           None \<Rightarrow> Some (Inl 0)
         | Some info \<Rightarrow> do { _ \<leftarrow> folder s (di_ptr info); Some (Inr (di_ptr info)) })
      })"

lemma tail_after_slash: "x \<in> set buf \<Longrightarrow> length (dropWhile P buf) - Suc 0 < length buf"
  using length_dropWhile_le [of P buf] length_pos_if_in_set [of x buf] by linarith

function path_walk :: "fs \<Rightarrow> string \<Rightarrow> u32 \<Rightarrow> u32 option" where
  "path_walk s buf cur =
     (let part = takeWhile (\<lambda>c. c \<noteq> CHR ''/'') buf;
          next_slash = dropWhile (\<lambda>c. c \<noteq> CHR ''/'') buf
      in case path_step s part cur of
           None \<Rightarrow> None
         | Some (Inl r) \<Rightarrow> Some r
         | Some (Inr cur') \<Rightarrow> (if next_slash = [] then Some cur' else path_walk s (tl next_slash) cur'))"
  by pat_completeness auto
termination
  by (relation "measure (\<lambda>(s, buf, cur). length buf)")
    (auto intro: tail_after_slash)

declare path_walk.simps [simp del]

definition get_dir_by_path :: "u32 \<Rightarrow> string option \<Rightarrow> fs \<Rightarrow> u32 option" where
  "get_dir_by_path base path s =
     (case path of None \<Rightarrow> Some 0
      | Some p \<Rightarrow>
          (if p = [] then Some 0
           else do {
             buf \<leftarrow> strcpy_into 512 p;
             (if hd buf = CHR ''/'' then path_walk s (tl buf) ROOT else path_walk s buf base)
           }))"

definition ramfs_get_dir_by_abs_path :: "string option \<Rightarrow> fs \<Rightarrow> u32 option" where
  "ramfs_get_dir_by_abs_path path s = get_dir_by_path ROOT path s"

text \<open>The folder an operation without a path of its own works in: \<^verbatim>\<open>from\<close> or the current one.\<close>

definition base_dir :: "string option \<Rightarrow> fs \<Rightarrow> u32 option" where
  "base_dir from s = (case from of None \<Rightarrow> Some (current_dir s) | Some f \<Rightarrow> get_dir_by_path (current_dir s) from s)"

text \<open>The common head of \<^verbatim>\<open>fs_rm\<close>, \<^verbatim>\<open>fs_touch\<close> and \<^verbatim>\<open>fs_backspace\<close>: cut a path at its last slash and find
  the folder; Inl is an error code, Inr the folder and the file name.\<close>

definition split_last :: "string \<Rightarrow> string \<times> string" where
  "split_last name =
     (let r = takeWhile (\<lambda>c. c \<noteq> CHR ''/'') (rev name)
      in (take (length name - length r - 1) name, rev r))"

definition resolve_parent :: "string \<Rightarrow> string option \<Rightarrow> fs \<Rightarrow> (int + u32 \<times> string) option" where
  "resolve_parent name from s = do {
     path_copy \<leftarrow> strcpy_into 512 name;
     (if CHR ''/'' \<notin> set name then do {
        parent \<leftarrow> base_dir from s;
        Some (if from \<noteq> None \<and> parent = 0 then Inl (- 2) else Inr (parent, name))
      }
      else
        let (dir, file_name) = split_last name
        in if file_name = [] then Some (Inl (- 1))
           else if dir \<noteq> [] \<and> hd dir = CHR ''/'' then do {
             parent \<leftarrow> get_dir_by_path ROOT (Some dir) s;
             Some (if parent = 0 then Inl (- 2) else Inr (parent, file_name))
           }
           else do {
             base \<leftarrow> base_dir from s;
             (if from \<noteq> None \<and> base = 0 then Some (Inl (- 2))
              else do {
                parent \<leftarrow> get_dir_by_path base (Some dir) s;
                Some (if parent = 0 then Inl (- 2) else Inr (parent, file_name))
              })
           })
   }"


section \<open>Operations\<close>

text \<open>\<^verbatim>\<open>if (parent->type == DISK_CLEAN) parent->type = DIRTY\<close>\<close>

definition mark_dirty :: "foder \<Rightarrow> foder" where
  "mark_dirty d = (if fd_type d = RAMFS_FOLDER_TYPE_DISK_CLEAN then d\<lparr>fd_type := RAMFS_FOLDER_TYPE_DIRTY\<rparr> else d)"

definition fs_mkdir :: "string option \<Rightarrow> string option \<Rightarrow> fs \<Rightarrow> (int \<times> fs) option" where
  "fs_mkdir name from s =
     (case name of None \<Rightarrow> Some (- 1, s)
      | Some nm \<Rightarrow>
          (if length nm = 0 \<or> length nm \<ge> 128 then Some (- 1, s)
           else do {
             parent \<leftarrow> base_dir from s;
             (if from \<noteq> None \<and> parent = 0 then Some (- 2, s)
              else do {
                s1 \<leftarrow> lazy_load_directory parent s;
                d \<leftarrow> folder s1 parent;
                (if ramfs_hashmap_find (foder_map d) nm \<noteq> None then Some (- 3, s1)
                 else if ramfs_file_hashmap_find (file_map d) nm \<noteq> None then Some (- 4, s1)
                 else do {
                   (new_dir, h1) \<leftarrow> malloc sizeof_foder (hp s1);
                   (if new_dir = 0 then Some (- 5, s1\<lparr>hp := h1\<rparr>)
                    else do {
                      let type = (if fd_mount d = None then RAMFS_FOLDER_TYPE_MEM else RAMFS_FOLDER_TYPE_NEW);
                      let s2 = set_folder new_dir (new_foder nm type 0 (fd_mount d) parent) (s1\<lparr>hp := h1\<rparr>);
                      d2 \<leftarrow> folder s2 parent;
                      (r, m, h2) \<leftarrow> ramfs_hashmap_insert (foder_map d2) nm
                        \<lparr>di_name = nm, di_type = type, di_ptr = new_dir, di_drive_addr = 0\<rparr> (hp s2);
                      (if r = 0 then Some (- 5, free_folder new_dir (s2\<lparr>hp := h2\<rparr>))
                       else Some (0, set_folder parent (mark_dirty (d2\<lparr>foder_map := m\<rparr>)) (s2\<lparr>hp := h2\<rparr>)))
                    })
                 })
              })
           }))"

definition fs_cd :: "string option \<Rightarrow> fs \<Rightarrow> (int \<times> fs) option" where
  "fs_cd path s =
     (case path of None \<Rightarrow> Some (- 1, s)
      | Some p \<Rightarrow> do {
          target \<leftarrow> (if p = ''/'' then Some ROOT
             else if p \<noteq> [] \<and> hd p = CHR ''/'' then get_dir_by_path ROOT path s
             else get_dir_by_path (current_dir s) path s);
          (if target = 0 then Some (- 2, s)
           else do {
             abs \<leftarrow> build_absolute_path target s;
             let s1 = s\<lparr>current_path := abs, current_dir := target\<rparr>;
             (env, h) \<leftarrow> env_set ''pwd'' (current_path s1) (env_map s1) (hp s1);
             Some (0, s1\<lparr>env_map := env, hp := h\<rparr>)
           })
        })"

definition fs_rm :: "string option \<Rightarrow> string option \<Rightarrow> fs \<Rightarrow> (int \<times> fs) option" where
  "fs_rm name from s =
     (case name of None \<Rightarrow> Some (- 1, s)
      | Some nm \<Rightarrow>
          (if length nm = 0 then Some (- 1, s)
           else do {
             r \<leftarrow> resolve_parent nm from s;
             (case r of Inl err \<Rightarrow> Some (err, s)
              | Inr (parent, file_name) \<Rightarrow> do {
                  s1 \<leftarrow> lazy_load_directory parent s;
                  d \<leftarrow> folder s1 parent;
                  (case ramfs_file_hashmap_find (file_map d) file_name of
                     None \<Rightarrow> Some (- 3, s1)
                   | Some info \<Rightarrow>
                       let s2 = free_data (fi_ptr info) s1;
                           (ok, m, h) = ramfs_file_hashmap_delete (file_map d) file_name (hp s2)
                       in if ok = 0 then Some (- 4, s2)
                          else Some (0, set_folder parent (mark_dirty (d\<lparr>file_map := m\<rparr>)) (s2\<lparr>hp := h\<rparr>)))
                })
           }))"

definition fs_rmdir :: "string option \<Rightarrow> string option \<Rightarrow> fs \<Rightarrow> (int \<times> fs) option" where
  "fs_rmdir name from s =
     (case name of None \<Rightarrow> Some (- 1, s)
      | Some nm \<Rightarrow> do {
          parent \<leftarrow> base_dir from s;
          (if from \<noteq> None \<and> parent = 0 then Some (- 2, s)
           else do {
             s1 \<leftarrow> lazy_load_directory parent s;
             d \<leftarrow> folder s1 parent;
             (case ramfs_hashmap_find (foder_map d) nm of
                None \<Rightarrow> Some (- 3, s1)
              | Some info \<Rightarrow> do {
                  t \<leftarrow> folder s1 (di_ptr info);
                  (if hm_count (foder_map t) \<noteq> 0 \<or> hm_count (file_map t) \<noteq> 0 then Some (- 4, s1)
                   else do {
                     let (ok, m, h1) = ramfs_hashmap_delete (foder_map d) nm (hp s1);
                     let s2 = set_folder parent (d\<lparr>foder_map := m\<rparr>) (s1\<lparr>hp := h1\<rparr>);
                     let (fm, h2) = ramfs_hashmap_destroy (foder_map t) (hp s2);
                     let (lm, h3) = ramfs_file_hashmap_destroy (file_map t) h2;
                     let s3 = free_folder (di_ptr info) (s2\<lparr>hp := h3\<rparr>);
                     d3 \<leftarrow> folder s3 parent;
                     Some (0, set_folder parent (mark_dirty d3) s3)
                   })
                })
           })
        })"

definition fs_touch :: "string option \<Rightarrow> string option \<Rightarrow> fs \<Rightarrow> (int \<times> fs) option" where
  "fs_touch name from s =
     (case name of None \<Rightarrow> Some (- 1, s)
      | Some nm \<Rightarrow>
          (if length nm = 0 \<or> length nm \<ge> 128 then Some (- 1, s)
           else do {
             r \<leftarrow> resolve_parent nm from s;
             (case r of Inl err \<Rightarrow> Some (err, s)
              | Inr (parent, file_name) \<Rightarrow> do {
                  s1 \<leftarrow> lazy_load_directory parent s;
                  d \<leftarrow> folder s1 parent;
                  (if ramfs_hashmap_find (foder_map d) file_name \<noteq> None then Some (- 3, s1)
                   else if ramfs_file_hashmap_find (file_map d) file_name \<noteq> None then Some (- 4, s1)
                   else do {
                     (ok, m, h) \<leftarrow> ramfs_file_hashmap_insert (file_map d) file_name
                       \<lparr>fi_name = file_name, fi_type = (if fd_mount d = None then RAMFS_TYPE_MEM else RAMFS_TYPE_NEW),
                        fi_length = 0, fi_ptr = 0, fi_drive_addr = 0\<rparr> (hp s1);
                     (if ok = 0 then Some (- 5, s1\<lparr>hp := h\<rparr>)
                      else Some (0, set_folder parent (mark_dirty (d\<lparr>file_map := m\<rparr>)) (s1\<lparr>hp := h\<rparr>)))
                   })
                })
           }))"

text \<open>The type that \<^verbatim>\<open>fs_write\<close> leaves: the assignment under \<^verbatim>\<open>if (parent->mount==NULL)\<close> is overwritten by the
  statement that follows it.\<close>

definition written_type :: "foder \<Rightarrow> file_info \<Rightarrow> int" where
  "written_type d info =
     (let t1 = (if fd_mount d = None then RAMFS_TYPE_MEM else fi_type info)
      in if fi_drive_addr info = 0 then RAMFS_TYPE_NEW else RAMFS_TYPE_DIRTY)"

text \<open>\<open>data\<close> is the array the pointer refers to; at least \<open>len\<close> bytes of it are read.\<close>

definition fs_write :: "string option \<Rightarrow> u8 list option \<Rightarrow> u32 \<Rightarrow> string option \<Rightarrow> fs \<Rightarrow> (int \<times> fs) option" where
  "fs_write name data len from s =
     (case (name, data) of
        (Some nm, Some bytes) \<Rightarrow> do {
          parent \<leftarrow> base_dir from s;
          (if from \<noteq> None \<and> parent = 0 then Some (- 2, s)
           else do {
             s1 \<leftarrow> lazy_load_directory parent s;
             d \<leftarrow> folder s1 parent;
             (case ramfs_file_hashmap_find (file_map d) nm of
                None \<Rightarrow> Some (- 3, s1)
              | Some info \<Rightarrow> do {
                  let s2 = free_data (fi_ptr info) s1;
                  (new_ptr, h) \<leftarrow> malloc len (hp s2);
                  (if new_ptr = 0 \<and> len > 0 then Some (- 4, s2\<lparr>hp := h\<rparr>)
                   else if length bytes < unat len then None
                   else do {
                     let s3 = (if len > 0 then s2\<lparr>hp := h, fdata := (fdata s2)(new_ptr \<mapsto> take (unat len) bytes)\<rparr> else s2\<lparr>hp := h\<rparr>);
                     let d' = d\<lparr>file_map := hm_modify file_streq (file_map d) nm
                       (\<lambda>i. i\<lparr>fi_ptr := new_ptr, fi_length := uint len, fi_type := written_type d info\<rparr>)\<rparr>;
                     Some (0, set_folder parent (mark_dirty d') s3)
                   })
                })
           })
        }
      | _ \<Rightarrow> Some (- 1, s))"

text \<open>Printing the bytes of a file one by one with \<^verbatim>\<open>printf("%c", p[i])\<close>.\<close>

fun print_bytes :: "u8 list \<Rightarrow> fs \<Rightarrow> fs option" where
  "print_bytes [] s = Some s"
| "print_bytes (b # bs) s = do { s1 \<leftarrow> say ''%c'' [ArgI (ucast b)] s; print_bytes bs s1 }"

text \<open>Load the data of an entry when its folder is mounted, and store the entry back.\<close>

definition load_entry :: "u32 \<Rightarrow> foder \<Rightarrow> string \<Rightarrow> file_info \<Rightarrow> fs \<Rightarrow> (int \<times> file_info \<times> foder \<times> fs) option" where
  "load_entry parent d nm info s =
     (case fd_mount d of None \<Rightarrow> Some (0, info, d, s)
      | Some mp \<Rightarrow> do {
          (r, info', s1) \<leftarrow> dfs_load_file_data info (mount_table s ! mp) s;
          let d' = d\<lparr>file_map := hm_modify file_streq (file_map d) nm (\<lambda>_. info')\<rparr>;
          Some (r, info', d', set_folder parent d' s1)
        })"

definition fs_cat :: "string option \<Rightarrow> string option \<Rightarrow> fs \<Rightarrow> (int \<times> fs) option" where
  "fs_cat name from s =
     (case name of None \<Rightarrow> Some (- 1, s)
      | Some nm \<Rightarrow> do {
          parent \<leftarrow> base_dir from s;
          (if from \<noteq> None \<and> parent = 0 then Some (- 2, s)
           else do {
             s1 \<leftarrow> lazy_load_directory parent s;
             d \<leftarrow> folder s1 parent;
             (case ramfs_file_hashmap_find (file_map d) nm of
                None \<Rightarrow> Some (- 3, s1)
              | Some info0 \<Rightarrow> do {
                  (r, info, d2, s2) \<leftarrow> load_entry parent d nm info0 s1;
                  (if r \<noteq> 0 then Some (- 4, s2)
                   else if fi_ptr info = 0 \<or> fi_length info = 0 then Some (0, s2)
                   else do {
                     bytes \<leftarrow> fdata s2 (fi_ptr info);
                     (if length bytes < nat (fi_length info) then None
                      else do { s3 \<leftarrow> print_bytes (take (nat (fi_length info)) bytes) s2; Some (0, s3) })
                   })
                })
           })
        })"

fun say_all :: "(string \<times> arg list) list \<Rightarrow> fs \<Rightarrow> fs option" where
  "say_all [] s = Some s"
| "say_all ((format, args) # rest) s = do { s1 \<leftarrow> say format args s; say_all rest s1 }"

definition fs_ls :: "fs \<Rightarrow> (int \<times> fs) option" where
  "fs_ls s = do {
     d \<leftarrow> folder s (current_dir s);
     s1 \<leftarrow> say_all ((''Directories:\<newline>'', []) #
        map (\<lambda>n. (''  %s/\<newline>'', [ArgS (nd_key n)])) (concat (buckets (foder_map d)))) s;
     s2 \<leftarrow> say_all ((''Files:\<newline>'', []) #
        map (\<lambda>n. (''  %s (%lld bytes)\<newline>'',
          [ArgS (nd_key n), ArgI (of_int (fi_length (nd_value n))), ArgI (of_int (fi_length (nd_value n) div 2 ^ 32))]))
          (concat (buckets (file_map d)))) s1;
     Some (0, s2)
   }"

definition fs_backspace :: "string option \<Rightarrow> int \<Rightarrow> string option \<Rightarrow> fs \<Rightarrow> (int \<times> fs) option" where
  "fs_backspace name count from s =
     (case name of None \<Rightarrow> Some (- 1, s)
      | Some nm \<Rightarrow>
          (if count < 0 then Some (- 1, s)
           else if count = 0 then Some (0, s)
           else do {
             r \<leftarrow> resolve_parent nm from s;
             (case r of Inl err \<Rightarrow> Some (err, s)
              | Inr (parent, file_name) \<Rightarrow> do {
                  s1 \<leftarrow> lazy_load_directory parent s;
                  d0 \<leftarrow> folder s1 parent;
                  (case ramfs_file_hashmap_find (file_map d0) file_name of
                     None \<Rightarrow> Some (- 3, s1)
                   | Some info0 \<Rightarrow> do {
                       (r, info, d, s2) \<leftarrow> load_entry parent d0 file_name info0 s1;
                       (if r \<noteq> 0 then Some (- 4, s2)
                        else if fi_length info = 0 then Some (- 5, s2)
                        else do {
                          let n = (if count > fi_length info then sint (of_int (fi_length info) :: u32) else count);
                          let new_len = (of_int (fi_length info - n) :: u32);
                          let type = (if fi_drive_addr info = 0 then RAMFS_TYPE_NEW else RAMFS_TYPE_DIRTY);
                          (if new_len = 0 then
                             let d' = d\<lparr>file_map := hm_modify file_streq (file_map d) file_name
                               (\<lambda>_. info\<lparr>fi_ptr := 0, fi_length := 0, fi_type := type\<rparr>)\<rparr>
                             in Some (0, set_folder parent (mark_dirty d') (free_data (fi_ptr info) s2))
                           else do {
                             (new_ptr, h) \<leftarrow> malloc new_len (hp s2);
                             (if new_ptr = 0 then Some (- 6, s2\<lparr>hp := h\<rparr>)
                              else do {
                                bytes \<leftarrow> fdata s2 (fi_ptr info);
                                (if length bytes < unat new_len then None
                                 else
                                   let s3 = s2\<lparr>hp := h, fdata := (fdata s2)(new_ptr \<mapsto> take (unat new_len) bytes)\<rparr>;
                                       d' = d\<lparr>file_map := hm_modify file_streq (file_map d) file_name
                                         (\<lambda>_. info\<lparr>fi_ptr := new_ptr, fi_length := uint new_len, fi_type := type\<rparr>)\<rparr>
                                   in Some (0, set_folder parent (mark_dirty d') (free_data (fi_ptr info) s3)))
                              })
                           })
                        })
                     })
                })
           }))"

end
