(* ===== verification/Ramfs_Api.thy ===== *)
theory Ramfs_Api
  imports Ramfs
begin

text \<open>
  The commands of the RAM file system: the \<^verbatim>\<open>_api\<close> functions of \<^verbatim>\<open>kernel/src/ramfs.c\<close>, which parse their
  arguments, call the operation and print a message, and \<^verbatim>\<open>fs_init\<close>. \<^verbatim>\<open>argv\<close> is a list of strings, \<^verbatim>\<open>argc\<close>
  its length.
\<close>

text \<open>Print a message and return a value.\<close>

definition say_ret :: "string \<Rightarrow> arg list \<Rightarrow> int \<Rightarrow> fs \<Rightarrow> (int \<times> fs) option" where
  "say_ret format args r s = do { s1 \<leftarrow> say format args s; Some (r, s1) }"

section \<open>mkdir\<close>

text \<open>The option loop: an early return, or the two options and the directory operand.\<close>

fun mkdir_options :: "string list \<Rightarrow> bool \<Rightarrow> bool \<Rightarrow> fs \<Rightarrow> ((int \<times> fs) + (bool \<times> bool \<times> string option)) option" where
  "mkdir_options [] opt_p opt_v s = Some (Inr (opt_p, opt_v, None))"
| "mkdir_options (a # rest) opt_p opt_v s =
     (if a \<noteq> [] \<and> hd a = CHR ''-'' then
        (if a = ''--help'' then do {
           s1 \<leftarrow> say_all [(''Usage: mkdir [OPTION]... DIRECTORY...\<newline>'', []), (''Create DIRECTORY(ies).\<newline>'', []),
             (''  -p      create parent directories as needed\<newline>'', []),
             (''  -v      print a message for each created directory\<newline>'', []),
             (''  --version  output version information\<newline>'', [])] s;
           Some (Inl (0, s1))
         }
         else if a = ''--version'' then do { s1 \<leftarrow> say ''ramfs mkdir version 1.0.0\<newline>'' [] s; Some (Inl (0, s1)) }
         else if length a > 1 \<and> a ! 1 = CHR ''p'' then mkdir_options rest True opt_v s
         else if length a > 1 \<and> a ! 1 = CHR ''v'' then mkdir_options rest opt_p True s
         else do { s1 \<leftarrow> say ''mkdir: invalid option %s\<newline>'' [ArgS a] s; Some (Inl (- 1, s1)) })
      else Some (Inr (opt_p, opt_v, Some a)))"

text \<open>One component of \<^verbatim>\<open>mkdir -p\<close>: Inl is a return value, Inr the folder to continue in.\<close>

definition mkdir_p_step :: "bool \<Rightarrow> string \<Rightarrow> u32 \<Rightarrow> fs \<Rightarrow> ((int + u32) \<times> fs) option" where
  "mkdir_p_step opt_v token cur_dir s =
     (if token \<noteq> [] \<and> token \<noteq> ''.'' then do {
        d \<leftarrow> folder s cur_dir;
        (case ramfs_hashmap_find (foder_map d) token of
           Some info \<Rightarrow> Some (Inr (di_ptr info), s)
         | None \<Rightarrow> do {
             let old_dir = current_dir s;
             (ret, s1) \<leftarrow> fs_mkdir (Some token) None (s\<lparr>current_dir := cur_dir\<rparr>);
             let s2 = s1\<lparr>current_dir := old_dir\<rparr>;
             (if ret \<noteq> 0 then do { s3 \<leftarrow> say ''mkdir: failed to create '%s'\<newline>'' [ArgS token] s2; Some (Inl (- 1), s3) }
              else do {
                s3 \<leftarrow> (if opt_v then say ''mkdir: created directory '%s'\<newline>'' [ArgS token] s2 else Some s2);
                d' \<leftarrow> folder s3 cur_dir;
                (case ramfs_hashmap_find (foder_map d') token of
                   None \<Rightarrow> Some (Inl (- 1), s3)
                 | Some info \<Rightarrow> Some (Inr (di_ptr info), s3))
              })
           })
      }
      else Some (Inr cur_dir, s))"

function mkdir_p_loop :: "bool \<Rightarrow> string \<Rightarrow> u32 \<Rightarrow> fs \<Rightarrow> (int \<times> fs) option" where
  "mkdir_p_loop opt_v token cur_dir s =
     (if token = [] then Some (0, s)
      else case mkdir_p_step opt_v (takeWhile (\<lambda>c. c \<noteq> CHR ''/'') token) cur_dir s of
        None \<Rightarrow> None
      | Some (Inl r, s1) \<Rightarrow> Some (r, s1)
      | Some (Inr cur', s1) \<Rightarrow>
          (let slash = dropWhile (\<lambda>c. c \<noteq> CHR ''/'') token
           in if slash = [] then Some (0, s1) else mkdir_p_loop opt_v (tl slash) cur' s1))"
  by pat_completeness auto
termination
  by (relation "measure (\<lambda>(v, token, cur, s). length token)") (auto intro: tail_after_slash)

declare mkdir_p_loop.simps [simp del]

definition fs_mkdir_api :: "string list \<Rightarrow> fs \<Rightarrow> (int \<times> fs) option" where
  "fs_mkdir_api argv s =
     (if length argv = 1 then do {
        s1 \<leftarrow> say ''mkdir: missing operand\<newline>'' [] s;
        say_ret ''Try 'mkdir --help' for more information.\<newline>'' [] (- 1) s1
      }
      else do {
        opts \<leftarrow> mkdir_options (tl argv) False False s;
        (case opts of
           Inl r \<Rightarrow> Some r
         | Inr (_, _, None) \<Rightarrow> say_ret ''mkdir: missing directory operand\<newline>'' [] (- 1) s
         | Inr (opt_p, opt_v, Some dirname) \<Rightarrow>
             (if opt_p then do {
                path_copy \<leftarrow> strcpy_into 512 dirname;
                (if dirname \<noteq> [] \<and> hd dirname = CHR ''/'' then mkdir_p_loop opt_v (tl path_copy) ROOT s
                 else mkdir_p_loop opt_v path_copy (current_dir s) s)
              }
              else do {
                (ret, s1) \<leftarrow> fs_mkdir (Some dirname) None s;
                (if ret = - 1 then say_ret ''mkdir: invalid name\<newline>'' [] 0 s1
                 else if ret = - 2 then say_ret ''mkdir: cannot create directory '%s': No such file or directory\<newline>'' [ArgS dirname] 0 s1
                 else if ret = - 3 \<or> ret = - 4 then say_ret ''mkdir: cannot create directory '%s': File exists\<newline>'' [ArgS dirname] 0 s1
                 else if ret = - 5 then say_ret ''mkdir: memory allocation failed\<newline>'' [] 0 s1
                 else if opt_v then say_ret ''mkdir: created directory '%s'\<newline>'' [ArgS dirname] 0 s1
                 else Some (0, s1))
              }))
      })"

section \<open>The other commands\<close>

definition fs_cd_api :: "string list \<Rightarrow> fs \<Rightarrow> (int \<times> fs) option" where
  "fs_cd_api argv s =
     (if length argv = 1 then say_ret ''cd: missing operand\<newline>'' [] (- 1) s
      else if length argv > 2 then say_ret ''cd: too many arguments\<newline>'' [] (- 1) s
      else if argv ! 1 = ''--help'' then do {
        s1 \<leftarrow> say ''cd [DIRECTORY]\<newline>'' [] s;
        say_ret ''Change the current directory to DIRECTORY.\<newline>'' [] 0 s1
      }
      else if argv ! 1 = ''--version'' then say_ret ''ramfs cd version 1.0.0\<newline>'' [] 0 s
      else do {
        (ret, s1) \<leftarrow> fs_cd (Some (argv ! 1)) s;
        (if ret = - 1 then say_ret ''cd: invalid argument\<newline>'' [] 0 s1
         else if ret = - 2 then say_ret ''cd: no such directory: %s\<newline>'' [ArgS (argv ! 1)] 0 s1
         else Some (0, s1))
      })"

definition fs_rm_api :: "string list \<Rightarrow> fs \<Rightarrow> (int \<times> fs) option" where
  "fs_rm_api argv s =
     (if length argv \<noteq> 2 then say_ret ''rm: missing file operand\<newline>'' [] (- 1) s
      else if argv ! 1 = ''--help'' then say_ret ''rm FILE\<newline>Remove a file.\<newline>'' [] 0 s
      else if argv ! 1 = ''--version'' then say_ret ''ramfs rm version 1.0.0\<newline>'' [] 0 s
      else do {
        (ret, s1) \<leftarrow> fs_rm (Some (argv ! 1)) None s;
        (if ret = - 1 then say_ret ''rm: invalid file name\<newline>'' [] 0 s1
         else if ret = - 2 then say_ret ''rm: parent directory not found\<newline>'' [] 0 s1
         else if ret = - 3 then say_ret ''rm: file not found\<newline>'' [] 0 s1
         else if ret = - 4 then say_ret ''rm: deletion failed\<newline>'' [] 0 s1
         else Some (0, s1))
      })"

definition fs_rmdir_api :: "string list \<Rightarrow> fs \<Rightarrow> (int \<times> fs) option" where
  "fs_rmdir_api argv s =
     (if length argv \<noteq> 2 then say_ret ''rmdir: missing operand\<newline>'' [] (- 1) s
      else if argv ! 1 = ''--help'' then do {
        s1 \<leftarrow> say ''rmdir DIRECTORY\<newline>'' [] s;
        say_ret ''Remove empty directory.\<newline>'' [] 0 s1
      }
      else if argv ! 1 = ''--version'' then say_ret ''ramfs rmdir version 1.0.0\<newline>'' [] 0 s
      else do {
        (ret, s1) \<leftarrow> fs_rmdir (Some (argv ! 1)) None s;
        (if ret = - 1 then say_ret ''rmdir: invalid name\<newline>'' [] 0 s1
         else if ret = - 2 then say_ret ''rmdir: failed to locate parent\<newline>'' [] 0 s1
         else if ret = - 3 then say_ret ''rmdir: '%s' is not a directory\<newline>'' [ArgS (argv ! 1)] 0 s1
         else if ret = - 4 then say_ret ''rmdir: directory not empty\<newline>'' [] 0 s1
         else Some (0, s1))
      })"

definition fs_touch_api :: "string list \<Rightarrow> fs \<Rightarrow> (int \<times> fs) option" where
  "fs_touch_api argv s =
     (if length argv \<noteq> 2 then say_ret ''touch: missing file operand\<newline>'' [] (- 1) s
      else if argv ! 1 = ''--help'' then say_ret ''touch FILE\<newline>Create an empty file.\<newline>'' [] 0 s
      else if argv ! 1 = ''--version'' then say_ret ''ramfs touch 1.0.0\<newline>'' [] 0 s
      else do {
        (ret, s1) \<leftarrow> fs_touch (Some (argv ! 1)) None s;
        (if ret = - 1 then say_ret ''touch: invalid file name\<newline>'' [] 0 s1
         else if ret = - 2 then say_ret ''touch: parent directory not found\<newline>'' [] 0 s1
         else if ret = - 3 \<or> ret = - 4 then say_ret ''touch: file already exists\<newline>'' [] 0 s1
         else if ret = - 5 then say_ret ''touch: memory error\<newline>'' [] 0 s1
         else Some (0, s1))
      })"

definition bytes_of :: "string \<Rightarrow> u8 list" where
  "bytes_of str = map of_char str"

definition fs_write_api :: "string list \<Rightarrow> fs \<Rightarrow> (int \<times> fs) option" where
  "fs_write_api argv s =
     (if length argv \<noteq> 3
      then say_ret (''write: usage write FILE '' @ [CHR 0x22] @ ''content'' @ [CHR 0x22] @ ''\<newline>'') [] (- 1) s
      else do {
        (ret, s1) \<leftarrow> fs_write (Some (argv ! 1)) (Some (bytes_of (argv ! 2))) (of_nat (length (argv ! 2))) None s;
        (if ret = - 1 then say_ret ''write: invalid arguments\<newline>'' [] 0 s1
         else if ret = - 2 then say_ret ''write: parent not found\<newline>'' [] 0 s1
         else if ret = - 3 then say_ret ''write: file not found\<newline>'' [] 0 s1
         else if ret = - 4 then say_ret ''write: out of memory\<newline>'' [] 0 s1
         else Some (0, s1))
      })"

definition fs_cat_api :: "string list \<Rightarrow> fs \<Rightarrow> (int \<times> fs) option" where
  "fs_cat_api argv s =
     (if length argv \<noteq> 2 then say_ret ''cat: missing file operand\<newline>'' [] (- 1) s
      else do {
        (ret, s1) \<leftarrow> fs_cat (Some (argv ! 1)) None s;
        (if ret = - 1 then say_ret ''cat: invalid arguments\<newline>'' [] 0 s1
         else if ret = - 2 then say_ret ''cat: cannot open parent\<newline>'' [] 0 s1
         else if ret = - 3 then say_ret ''cat: file not found\<newline>'' [] 0 s1
         else Some (0, s1))
      })"

definition fs_ls_api :: "string list \<Rightarrow> fs \<Rightarrow> (int \<times> fs) option" where
  "fs_ls_api argv s =
     (if length argv > 1 \<and> (argv ! 1 = ''--help'' \<or> argv ! 1 = ''-h'')
      then say_ret ''ls: list directory contents\<newline>'' [] 0 s
      else fs_ls s)"

definition fs_pwd_api :: "string list \<Rightarrow> fs \<Rightarrow> (int \<times> fs) option" where
  "fs_pwd_api argv s = say_ret ''%s\<newline>'' [ArgS (current_path s)] 0 s"

definition fs_backspace_api :: "string list \<Rightarrow> fs \<Rightarrow> (int \<times> fs) option" where
  "fs_backspace_api argv s =
     (if length argv < 2 \<or> length argv > 3 then say_ret ''backspace: usage backspace FILE [COUNT]\<newline>'' [] (- 1) s
      else if argv ! 1 = ''--help'' then do {
        s1 \<leftarrow> say ''backspace FILE [COUNT]\<newline>'' [] s;
        say_ret ''Remove COUNT characters from the end of FILE (default 1).\<newline>'' [] 0 s1
      }
      else do {
        cnt \<leftarrow> (if length argv = 3 then map_option sint (atoi (string_mem (argv ! 2)) 0 10) else Some 1);
        (if length argv = 3 \<and> cnt < 0 then say_ret ''backspace: count must be non-negative\<newline>'' [] (- 1) s
         else do {
           (ret, s1) \<leftarrow> fs_backspace (Some (argv ! 1)) cnt None s;
           (if ret = - 1 then say_ret ''backspace: invalid file name\<newline>'' [] 0 s1
            else if ret = - 2 then say_ret ''backspace: parent directory not found\<newline>'' [] 0 s1
            else if ret = - 3 then say_ret ''backspace: file not found\<newline>'' [] 0 s1
            else if ret = - 4 then say_ret ''backspace: failed to load file data\<newline>'' [] 0 s1
            else if ret = - 5 then say_ret ''backspace: file is empty\<newline>'' [] 0 s1
            else if ret = - 6 then say_ret ''backspace: out of memory\<newline>'' [] 0 s1
            else Some (0, s1))
         })
      })"


section \<open>Initialisation\<close>

definition reg :: "string \<Rightarrow> string \<Rightarrow> api \<Rightarrow> fs \<Rightarrow> fs option" where
  "reg name desc func s = do {
     (cm, h) \<leftarrow> register_command name desc func (command_map s) (hp s);
     Some (s\<lparr>command_map := cm, hp := h\<rparr>)
   }"

fun reg_all :: "(string \<times> string \<times> api) list \<Rightarrow> fs \<Rightarrow> fs option" where
  "reg_all [] s = Some s"
| "reg_all ((name, desc, func) # cs) s = do { s1 \<leftarrow> reg name desc func s; reg_all cs s1 }"

definition set_env :: "string \<Rightarrow> string \<Rightarrow> fs \<Rightarrow> fs option" where
  "set_env name val s = do {
     (env, h) \<leftarrow> env_set name val (env_map s) (hp s);
     Some (s\<lparr>env_map := env, hp := h\<rparr>)
   }"

definition fs_commands :: "(string \<times> string \<times> api) list" where
  "fs_commands = [(''mkdir'', ''Create a directory'', Fs_mkdir), (''cd'', ''Change directory'', Fs_cd),
     (''rmdir'', ''Remove empty directory'', Fs_rmdir), (''touch'', ''Create an empty file'', Fs_touch),
     (''write'', ''Write content to a file'', Fs_write), (''cat'', ''Print file content'', Fs_cat),
     (''ls'', ''List directory contents'', Fs_ls), (''pwd'', ''Print working directory'', Fs_pwd),
     (''rm'', ''Remove a file'', Fs_rm), (''backspace'', ''Remove characters from end of file'', Fs_backspace)]"

text \<open>The fields of \<^verbatim>\<open>root\<close> that \<^verbatim>\<open>fs_init\<close> does not set keep their values; statically they are zero.\<close>

definition fs_init :: "fs \<Rightarrow> (int \<times> fs) option" where
  "fs_init s = do {
     r \<leftarrow> dirs s ROOT;
     let s1 = (set_folder ROOT (r\<lparr>fd_name := ''/'', fd_type := 0, foder_map := ramfs_hashmap_init,
       file_map := ramfs_file_hashmap_init\<rparr>) s)\<lparr>current_dir := ROOT\<rparr>;
     s2 \<leftarrow> (case env_get (env_map s1) ''pwd'' of
        Some pwd \<Rightarrow> do { p \<leftarrow> strcpy_into 512 pwd; Some (s1\<lparr>current_path := p\<rparr>) }
      | None \<Rightarrow> set_env ''pwd'' ''/'' (s1\<lparr>current_path := ''/''\<rparr>));
     s3 \<leftarrow> reg_all fs_commands s2;
     Some (0, s3)
   }"

text \<open>The statics before any initialisation, with a heap and the disk subsystem.\<close>

definition fs0 :: "heap \<Rightarrow> disk_state \<Rightarrow> fs" where
  "fs0 h ds = \<lparr>hp = h, dirs = Map.empty(ROOT \<mapsto> new_foder [] 0 0 None 0), fdata = Map.empty, current_dir = 0,
     current_path = [], env_map = None, command_map = None, out = [],
     mount_table = replicate 8 \<lparr>mp_path = [], partition_drive = 0, partition_index = 0, root_dir = 0\<rparr>,
     mount_count = 0, last_byte_off = 0, byte_val = 0, disk = ds\<rparr>"

end
