(* ===== verification/Ramfs_Tree.thy ===== *)
theory Ramfs_Tree
  imports Ramfs_Api
begin

text \<open>
  The folder tree of the RAM file system: what makes the store of folder structures a tree with the
  object \<^verbatim>\<open>root\<close> at its root, and that creating an empty folder, removing an empty folder and changing a
  file table keep it one. \<open>dir_at\<close> follows a list of names through the folder tables; in a tree every
  folder has exactly one such path.
\<close>

type_synonym store = "u32 \<Rightarrow> foder option"

definition folder_ok :: "string set \<Rightarrow> foder \<Rightarrow> bool" where
  "folder_ok K d \<longleftrightarrow> hm_ok UNIV (foder_map d) \<and> hm_ok K (file_map d) \<and> fd_mount d = None \<and> fd_type d = 0"

text \<open>An entry of a folder's table leads to a folder that names the folder as its parent; every folder but
  the root has such an entry; and no folder is its own ancestor.\<close>

definition entry_ok :: "store \<Rightarrow> u32 \<Rightarrow> string \<Rightarrow> u32 \<Rightarrow> bool" where
  "entry_ok ds p n q \<longleftrightarrow> q \<noteq> ROOT \<and> (\<exists>t. ds q = Some t \<and> fd_parent t = p \<and> fd_name t = n)"

definition filed :: "store \<Rightarrow> u32 \<Rightarrow> string \<Rightarrow> u32 \<Rightarrow> bool" where
  "filed ds p n q \<longleftrightarrow> (\<exists>d i. ds p = Some d \<and> hm_map (foder_map d) n = Some i \<and> di_ptr i = q)"

definition ranked :: "store \<Rightarrow> bool" where
  "ranked ds \<longleftrightarrow> (\<exists>rk :: u32 \<Rightarrow> nat. \<forall>q t. ds q = Some t \<longrightarrow> q \<noteq> ROOT \<longrightarrow> rk (fd_parent t) < rk q)"

definition tree_ok :: "string set \<Rightarrow> store \<Rightarrow> bool" where
  "tree_ok K ds \<longleftrightarrow> ds 0 = None \<and> (\<exists>r. ds ROOT = Some r \<and> fd_parent r = 0) \<and>
     (\<forall>p d. ds p = Some d \<longrightarrow> folder_ok K d) \<and>
     (\<forall>p n q. filed ds p n q \<longrightarrow> entry_ok ds p n q) \<and>
     (\<forall>q t. ds q = Some t \<longrightarrow> q \<noteq> ROOT \<longrightarrow> filed ds (fd_parent t) (fd_name t) q) \<and>
     ranked ds"

lemma tree_okD:
  assumes "tree_ok K ds"
  shows "ds 0 = None" "\<exists>r. ds ROOT = Some r \<and> fd_parent r = 0" "ds p = Some d \<Longrightarrow> folder_ok K d"
    "filed ds p n q \<Longrightarrow> entry_ok ds p n q" "ds q = Some t \<Longrightarrow> q \<noteq> ROOT \<Longrightarrow> filed ds (fd_parent t) (fd_name t) q"
    "ranked ds"
  using assms by (auto simp: tree_ok_def)

lemma tree_okI:
  assumes "ds 0 = None" "\<exists>r. ds ROOT = Some r \<and> fd_parent r = 0" "\<And>p d. ds p = Some d \<Longrightarrow> folder_ok K d"
    "\<And>p n q. filed ds p n q \<Longrightarrow> entry_ok ds p n q"
    "\<And>q t. ds q = Some t \<Longrightarrow> q \<noteq> ROOT \<Longrightarrow> filed ds (fd_parent t) (fd_name t) q" "ranked ds"
  shows "tree_ok K ds"
  using assms by (simp add: tree_ok_def)

lemma ROOT_nonzero [simp]: "ROOT \<noteq> 0" "0 \<noteq> ROOT"
  by (simp_all add: ROOT_def)

section \<open>Updates\<close>

lemma filed_add:
  assumes "ds p = Some d" "hm_map (foder_map d) n = None" "ds q = None"
    and "hm_map m = (hm_map (foder_map d))(n \<mapsto> i)" "di_ptr i = q" "hm_map (foder_map c) = Map.empty"
  shows "filed (ds(q \<mapsto> c, p \<mapsto> d\<lparr>foder_map := m\<rparr>)) p' n' q' \<longleftrightarrow> (filed ds p' n' q' \<or> p' = p \<and> n' = n \<and> q' = q)"
  using assms by (auto simp: filed_def)

lemma filed_files: "ds p = Some d \<Longrightarrow> filed (ds(p \<mapsto> d\<lparr>file_map := m\<rparr>)) = filed ds"
  by (auto simp: filed_def fun_eq_iff)

lemma filed_remove:
  assumes "ds p = Some d" "ds q = Some c" "p \<noteq> q" "hm_map (foder_map c) = Map.empty"
    and "hm_map m = (hm_map (foder_map d))(n := None)"
  shows "filed (ds(p \<mapsto> d\<lparr>foder_map := m\<rparr>, q := None)) p' n' q' \<longleftrightarrow> filed ds p' n' q' \<and> \<not> (p' = p \<and> n' = n)"
  using assms by (auto simp: filed_def)

lemma new_foder_simps [simp]:
  "hm_map (foder_map (new_foder n ty a mnt p)) = Map.empty" "hm_map (file_map (new_foder n ty a mnt p)) = Map.empty"
  "fd_parent (new_foder n ty a mnt p) = p" "fd_name (new_foder n ty a mnt p) = n" "folder_ok K (new_foder n 0 a None p)"
  by (simp_all add: new_foder_def ramfs_hashmap_init_def ramfs_file_hashmap_init_def folder_ok_def)

lemma tree_add:
  assumes t: "tree_ok K ds" "ds p = Some d" "hm_map (foder_map d) n = None"
    and q: "ds q = None" "q \<noteq> 0" "q \<noteq> ROOT"
    and m: "hm_ok UNIV m" "hm_map m = (hm_map (foder_map d))(n \<mapsto> i)" "di_ptr i = q"
    and c: "c = new_foder n 0 0 None p"
  shows "tree_ok K (ds(q \<mapsto> c, p \<mapsto> d\<lparr>foder_map := m\<rparr>))"
proof -
  let ?ds = "ds(q \<mapsto> c, p \<mapsto> d\<lparr>foder_map := m\<rparr>)"
  note D = tree_okD [OF t(1)]
  have pq: "p \<noteq> q" "p \<noteq> 0" using t(2) q(1) D(1) by auto
  have qm: "hm_map (foder_map c) = Map.empty" "fd_parent c = p" "fd_name c = n" "folder_ok K c"
    by (simp_all add: c)
  note f = filed_add [OF t(2,3) q(1) m(2,3) qm(1)]
  have nq: "\<not> filed ds p' n' q" for p' n'
    using D(4) [of p' n' q] q(1) by (auto simp: entry_ok_def)
  have e: "entry_ok ds p' n' q' \<Longrightarrow> entry_ok ?ds p' n' q'" for p' n' q'
    using t(2) q(1) by (auto simp: entry_ok_def)
  have "\<exists>r. ?ds ROOT = Some r \<and> fd_parent r = 0" using D(2) t(2) q(3) by auto
  moreover have "entry_ok ?ds p n q" using q(3) pq qm by (simp add: entry_ok_def)
  then have "filed ?ds p' n' q' \<Longrightarrow> entry_ok ?ds p' n' q'" for p' n' q' using f e D(4) by blast
  moreover have "?ds q' = Some t \<Longrightarrow> q' \<noteq> ROOT \<Longrightarrow> filed ?ds (fd_parent t) (fd_name t) q'" for q' t
    using f D(5) t(2) qm pq by (auto split: if_splits)
  moreover have "ranked ?ds"
  proof -
    obtain rk :: "u32 \<Rightarrow> nat" where rk: "\<forall>q t. ds q = Some t \<longrightarrow> q \<noteq> ROOT \<longrightarrow> rk (fd_parent t) < rk q"
      using D(6) by (auto simp: ranked_def)
    have "fd_parent t \<noteq> q" if "ds q' = Some t" "q' \<noteq> ROOT" for q' t
      using D(5) [OF that] q(1) by (auto simp: filed_def)
    then show ?thesis
      unfolding ranked_def using rk t(2) qm pq q
      by (intro exI [of _ "rk(q := Suc (rk p))"]) auto
  qed
  moreover have "?ds p' = Some d' \<Longrightarrow> folder_ok K d'" for p' d'
    using D(3) t(2) qm(4) m(1) by (auto simp: folder_ok_def split: if_splits)
  moreover have "?ds 0 = None" using D(1) q(2) pq by simp
  ultimately show ?thesis by (intro tree_okI)
qed

lemma tree_files:
  assumes t: "tree_ok K ds" "ds p = Some d" and m: "hm_ok K m"
  shows "tree_ok K (ds(p \<mapsto> d\<lparr>file_map := m\<rparr>))"
proof -
  let ?ds = "ds(p \<mapsto> d\<lparr>file_map := m\<rparr>)"
  note D = tree_okD [OF t(1)]
  note f = filed_files [where ds = ds and p = p and m = m, OF t(2)]
  have e: "entry_ok ds p' n' q' \<Longrightarrow> entry_ok ?ds p' n' q'" for p' n' q'
    using t(2) by (auto simp: entry_ok_def)
  have "\<exists>r. ?ds ROOT = Some r \<and> fd_parent r = 0" using D(2) t(2) by auto
  moreover have "?ds q' = Some t \<Longrightarrow> q' \<noteq> ROOT \<Longrightarrow> filed ds (fd_parent t) (fd_name t) q'" for q' t
    using D(5) t(2) by (auto split: if_splits)
  moreover obtain rk :: "u32 \<Rightarrow> nat" where rk: "\<forall>q t. ds q = Some t \<longrightarrow> q \<noteq> ROOT \<longrightarrow> rk (fd_parent t) < rk q"
    using D(6) by (auto simp: ranked_def)
  then have "ranked ?ds" unfolding ranked_def using t(2) by (intro exI [of _ rk]) auto
  moreover have "?ds p' = Some d' \<Longrightarrow> folder_ok K d'" for p' d'
    using D(3) t(2) m by (auto simp: folder_ok_def split: if_splits)
  moreover have "?ds 0 = None" using D(1) t(2) by auto
  moreover have "filed ?ds p' n' q' \<Longrightarrow> entry_ok ?ds p' n' q'" for p' n' q' using e D(4) by (simp only: f)
  ultimately show ?thesis by (intro tree_okI) (simp_all only: f)
qed

lemma tree_remove:
  assumes t: "tree_ok K ds" "ds p = Some d" "hm_map (foder_map d) n = Some i" "ds (di_ptr i) = Some c"
    and c: "hm_map (foder_map c) = Map.empty"
    and m: "hm_ok UNIV m" "hm_map m = (hm_map (foder_map d))(n := None)"
  shows "p \<noteq> di_ptr i" "di_ptr i \<noteq> ROOT" "tree_ok K (ds(p \<mapsto> d\<lparr>foder_map := m\<rparr>, di_ptr i := None))"
proof -
  let ?q = "di_ptr i" let ?ds = "ds(p \<mapsto> d\<lparr>foder_map := m\<rparr>, ?q := None)"
  note D = tree_okD [OF t(1)]
  have pq: "filed ds p n ?q" using t by (auto simp: filed_def)
  show q: "?q \<noteq> ROOT" using D(4) [OF pq] by (simp add: entry_ok_def)
  have cp: "fd_parent c = p" "fd_name c = n" using D(4) [OF pq] t(4) by (auto simp: entry_ok_def)
  obtain rk :: "u32 \<Rightarrow> nat" where rk: "\<forall>q t. ds q = Some t \<longrightarrow> q \<noteq> ROOT \<longrightarrow> rk (fd_parent t) < rk q"
    using D(6) by (auto simp: ranked_def)
  have "rk p < rk ?q" using rk q t(4) cp by blast
  then show ne: "p \<noteq> ?q" by auto
  note f = filed_remove [OF t(2,4) ne c m(2)]
  have only: "filed ds p' n' ?q \<Longrightarrow> p' = p \<and> n' = n" for p' n'
    using D(4) [of p' n' ?q] t(4) cp by (auto simp: entry_ok_def)
  have e: "entry_ok ds p' n' q' \<Longrightarrow> q' \<noteq> ?q \<Longrightarrow> entry_ok ?ds p' n' q'" for p' n' q'
    using t(2) by (auto simp: entry_ok_def)
  have "\<exists>r. ?ds ROOT = Some r \<and> fd_parent r = 0" using D(2) t(2) q by auto
  moreover have "filed ?ds p' n' q' \<Longrightarrow> entry_ok ?ds p' n' q'" for p' n' q' using f e D(4) only by metis
  moreover have "?ds q' = Some t \<Longrightarrow> q' \<noteq> ROOT \<Longrightarrow> filed ?ds (fd_parent t) (fd_name t) q'" for q' t
  proof -
    assume a: "?ds q' = Some t" "q' \<noteq> ROOT"
    then have "filed ds (fd_parent t) (fd_name t) q'" "q' \<noteq> ?q" using D(5) t(2) by (auto split: if_splits)
    moreover have "\<not> (fd_parent t = p \<and> fd_name t = n)" using calculation pq by (auto simp: filed_def)
    ultimately show ?thesis using f by blast
  qed
  moreover have "ranked ?ds" unfolding ranked_def using rk t(2) by (intro exI [of _ rk]) auto
  moreover have "?ds p' = Some d' \<Longrightarrow> folder_ok K d'" for p' d'
    using D(3) t(2) m(1) by (auto simp: folder_ok_def split: if_splits)
  moreover have "?ds 0 = None" using D(1) t(2) by auto
  ultimately show "tree_ok K ?ds" by (intro tree_okI)
qed


section \<open>Paths\<close>

fun dir_at :: "store \<Rightarrow> u32 \<Rightarrow> string list \<Rightarrow> u32 option" where
  "dir_at ds p [] = (if ds p = None then None else Some p)"
| "dir_at ds p (n # ns) =
     (case ds p of None \<Rightarrow> None
      | Some d \<Rightarrow> (case hm_map (foder_map d) n of None \<Rightarrow> None | Some i \<Rightarrow> dir_at ds (di_ptr i) ns))"

lemma dir_at_append:
  "dir_at ds p (xs @ ys) = (case dir_at ds p xs of None \<Rightarrow> None | Some q \<Rightarrow> dir_at ds q ys)"
proof (induction xs arbitrary: p)
  case Nil
  then show ?case by (cases ys) auto
qed (auto split: option.splits)

lemma dir_at_dom: "dir_at ds p xs = Some q \<Longrightarrow> ds q \<noteq> None"
  by (induction xs arbitrary: p) (auto split: option.splits if_splits)

lemma dir_at_snoc:
  assumes "tree_ok K ds"
  shows "dir_at ds p (xs @ [n]) = Some q \<longleftrightarrow> (\<exists>r. dir_at ds p xs = Some r \<and> filed ds r n q)"
proof -
  have "dir_at ds r [n] = Some q \<longleftrightarrow> filed ds r n q" for r
  proof
    assume f: "filed ds r n q"
    have "ds q \<noteq> None" using tree_okD(4) [OF assms f] by (auto simp: entry_ok_def)
    then show "dir_at ds r [n] = Some q" using f by (auto simp: filed_def)
  qed (auto simp: filed_def split: option.splits if_splits)
  then show ?thesis by (auto simp: dir_at_append split: option.splits)
qed

lemma tree_induct [consumes 2, case_names root child]:
  assumes "tree_ok K ds" "ds p = Some d"
    and "P ROOT" "\<And>p n q. filed ds p n q \<Longrightarrow> P p \<Longrightarrow> P q"
  shows "P p"
proof -
  obtain rk :: "u32 \<Rightarrow> nat" where rk: "\<forall>q t. ds q = Some t \<longrightarrow> q \<noteq> ROOT \<longrightarrow> rk (fd_parent t) < rk q"
    using tree_okD(6) [OF assms(1)] by (auto simp: ranked_def)
  show ?thesis using assms(2)
  proof (induction "rk p" arbitrary: p d rule: less_induct)
    case less
    show ?case
    proof (cases "p = ROOT")
      case False
      then have f: "filed ds (fd_parent d) (fd_name d) p" using tree_okD(5) [OF assms(1) less.prems] by simp
      then obtain t where "ds (fd_parent d) = Some t" by (auto simp: filed_def)
      then have "P (fd_parent d)" using less.hyps rk less.prems False by blast
      then show ?thesis using assms(4) f by blast
    qed (simp add: assms(3))
  qed
qed

lemma path_exists:
  assumes "tree_ok K ds" "ds p = Some d"
  shows "\<exists>c. dir_at ds ROOT c = Some p"
  using assms
proof (induction rule: tree_induct)
  case root
  then show ?case using tree_okD(2) [OF assms(1)] by (intro exI [of _ "[]"]) auto
next
  case (child p n q)
  then show ?case using dir_at_snoc [OF assms(1)] by blast
qed

lemma path_unique:
  assumes "tree_ok K ds" "dir_at ds ROOT xs = Some p" "dir_at ds ROOT ys = Some p"
  shows "xs = ys"
  using assms(2,3)
proof (induction xs arbitrary: p ys rule: rev_induct)
  case Nil
  show ?case
  proof (cases ys rule: rev_cases)
    case (snoc ys' n)
    then show ?thesis
      using Nil tree_okD(4) [OF assms(1), of _ n ROOT] by (auto simp: dir_at_snoc [OF assms(1)] entry_ok_def split: if_splits)
  qed simp
next
  case (snoc n xs)
  then obtain r where r: "dir_at ds ROOT xs = Some r" "filed ds r n p" by (auto simp: dir_at_snoc [OF assms(1)])
  have e: "entry_ok ds r n p" using tree_okD(4) [OF assms(1) r(2)] .
  show ?case
  proof (cases ys rule: rev_cases)
    case Nil
    then show ?thesis using snoc.prems(2) e by (auto simp: entry_ok_def split: if_splits)
  next
    case (snoc ys' m)
    then obtain r' where "dir_at ds ROOT ys' = Some r'" "filed ds r' m p"
      using \<open>dir_at ds ROOT ys = Some p\<close> by (auto simp: dir_at_snoc [OF assms(1)])
    moreover from this(2) have "r' = r" "m = n" using tree_okD(4) [OF assms(1), of r' m p] e by (auto simp: entry_ok_def)
    ultimately show ?thesis using snoc snoc.IH r by blast
  qed
qed

lemma dir_at_files: "ds p = Some d \<Longrightarrow> dir_at (ds(p \<mapsto> d\<lparr>file_map := m\<rparr>)) r xs = dir_at ds r xs"
  by (induction xs arbitrary: r) (auto split: option.splits)

lemma dir_at_add:
  assumes t: "tree_ok K ds" "ds p = Some d" "hm_map (foder_map d) n = None"
    and q: "ds q = None" "q \<noteq> 0" "q \<noteq> ROOT"
    and m: "hm_ok UNIV m" "hm_map m = (hm_map (foder_map d))(n \<mapsto> i)" "di_ptr i = q"
    and c: "dir_at ds ROOT c = Some p"
  shows "dir_at (ds(q \<mapsto> new_foder n 0 0 None p, p \<mapsto> d\<lparr>foder_map := m\<rparr>)) ROOT xs =
    (if xs = c @ [n] then Some q else dir_at ds ROOT xs)"
proof -
  let ?c = "new_foder n 0 0 None p" let ?ds = "ds(q \<mapsto> ?c, p \<mapsto> d\<lparr>foder_map := m\<rparr>)"
  have t': "tree_ok K ?ds" using tree_add [OF t q m] by simp
  note f = filed_add [OF t(2,3) q(1) m(2,3), of ?c, simplified]
  have no: "\<not> filed ds p n r" "\<not> filed ds q x r" for x r using t(2,3) q(1) by (auto simp: filed_def)
  have root: "ds ROOT \<noteq> None" and pq: "p \<noteq> q" using tree_okD(2) [OF t(1)] t(2) q(1) by auto
  have "dir_at ?ds ROOT xs = Some r \<longleftrightarrow> (if xs = c @ [n] then r = q else dir_at ds ROOT xs = Some r)" for r
  proof (induction xs arbitrary: r rule: rev_induct)
    case Nil
    then show ?case using root q(3) by auto
  next
    case (snoc x xs)
    have u: "dir_at ds ROOT xs = Some p \<longleftrightarrow> xs = c" using path_unique [OF t(1) _ c] c by blast
    have cn: "dir_at ds ROOT (c @ [n]) = None" using no(1) c dir_at_snoc [OF t(1), of ROOT c n] by (metis not_None_eq option.inject)
    have new: "dir_at ?ds ROOT (xs @ [x]) = Some r \<longleftrightarrow>
        (\<exists>r'. (if xs = c @ [n] then r' = q else dir_at ds ROOT xs = Some r') \<and> (filed ds r' x r \<or> r' = p \<and> x = n \<and> r = q))"
      by (simp only: dir_at_snoc [OF t'] snoc.IH f)
    have old: "dir_at ds ROOT (xs @ [x]) = Some r \<longleftrightarrow> (\<exists>r'. dir_at ds ROOT xs = Some r' \<and> filed ds r' x r)"
      by (rule dir_at_snoc [OF t(1)])
    consider "xs = c @ [n]" | "xs = c" | "xs \<noteq> c" "xs \<noteq> c @ [n]" by blast
    then show ?case
    proof cases
      case 1
      then show ?thesis using new old no cn pq by auto
    next
      case 2
      then show ?thesis using new old no c by auto
    next
      case 3
      then show ?thesis using new old u by auto
    qed
  qed
  then show ?thesis by (intro option_eqI) auto
qed

lemma dir_at_remove:
  assumes t: "tree_ok K ds" "ds p = Some d" "hm_map (foder_map d) n = Some i" "ds (di_ptr i) = Some b"
    and b: "hm_map (foder_map b) = Map.empty"
    and m: "hm_ok UNIV m" "hm_map m = (hm_map (foder_map d))(n := None)"
    and c: "dir_at ds ROOT c = Some p"
  shows "dir_at (ds(p \<mapsto> d\<lparr>foder_map := m\<rparr>, di_ptr i := None)) ROOT xs =
    (if xs = c @ [n] then None else dir_at ds ROOT xs)"
proof -
  let ?q = "di_ptr i" let ?ds = "ds(p \<mapsto> d\<lparr>foder_map := m\<rparr>, ?q := None)"
  note r = tree_remove [OF t b m]
  note f = filed_remove [OF t(2,4) r(1) b m(2)]
  have no: "\<not> filed ds ?q x r" for x r using t(4) b by (auto simp: filed_def)
  have pn: "filed ds p n r \<longleftrightarrow> r = ?q" for r using t(2,3) by (auto simp: filed_def)
  have root: "ds ROOT \<noteq> None" using tree_okD(2) [OF t(1)] by auto
  have "dir_at ?ds ROOT xs = Some r \<longleftrightarrow> (if xs = c @ [n] then False else dir_at ds ROOT xs = Some r)" for r
  proof (induction xs arbitrary: r rule: rev_induct)
    case Nil
    then show ?case using root r(2) by auto
  next
    case (snoc x xs)
    have u: "dir_at ds ROOT xs = Some p \<longleftrightarrow> xs = c" using path_unique [OF t(1) _ c] c by blast
    have "dir_at ds ROOT (c @ [n]) = Some r' \<longleftrightarrow> r' = ?q" for r' using pn c by (auto simp: dir_at_snoc [OF t(1)])
    then show ?case
      using no u c
      by (auto simp: dir_at_snoc [OF r(3)] dir_at_snoc [OF t(1)] snoc.IH f)
  qed
  then show ?thesis by (intro option_eqI) auto
qed

end
