(* ===== verification/Ramfs_Path.thy ===== *)
theory Ramfs_Path
  imports Ramfs_Tree
begin

text \<open>
  Path names. \<open>split_path\<close> cuts a string at its slashes, \<open>resolve\<close> is path resolution on lists of names:
  empty components and \<open>.\<close> are skipped, \<open>..\<close> goes up, and at the root \<open>..\<close> ends the resolution whatever
  follows. On a folder tree \<^verbatim>\<open>_get_dir_by_path\<close> always returns and computes exactly this, and
  \<^verbatim>\<open>build_absolute_path\<close> prints the path of a folder, so that changing to the printed path leads back.
\<close>

fun split_path :: "string \<Rightarrow> string list" where
  "split_path [] = [[]]"
| "split_path (c # cs) = (if c = CHR ''/'' then [] # split_path cs else (c # hd (split_path cs)) # tl (split_path cs))"

fun resolve :: "(string list \<Rightarrow> bool) \<Rightarrow> string list \<Rightarrow> string list \<Rightarrow> string list option" where
  "resolve D cur [] = Some cur"
| "resolve D cur (x # xs) =
     (if x = [] \<or> x = ''.'' then resolve D cur xs
      else if x = ''..'' then (if cur = [] then Some [] else resolve D (butlast cur) xs)
      else if D (cur @ [x]) then resolve D (cur @ [x]) xs else None)"

definition path_text :: "string list \<Rightarrow> string" where
  "path_text c = (if c = [] then ''/'' else concat (map ((#) (CHR ''/'')) c))"

definition plain_name :: "string \<Rightarrow> bool" where
  "plain_name n \<longleftrightarrow> n \<noteq> [] \<and> n \<noteq> ''.'' \<and> n \<noteq> ''..'' \<and> CHR ''/'' \<notin> set n"

section \<open>Splitting and printing\<close>

lemma split_path_nonempty [simp]: "split_path b \<noteq> []"
  by (cases b) auto

lemma split_path_unfold:
  "split_path b = takeWhile (\<lambda>c. c \<noteq> CHR ''/'') b #
     (let r = dropWhile (\<lambda>c. c \<noteq> CHR ''/'') b in if r = [] then [] else split_path (tl r))"
  by (induction b) (auto simp: Let_def)

lemma split_path_slash_free: "n \<in> set (split_path b) \<Longrightarrow> CHR ''/'' \<notin> set n"
proof (induction b arbitrary: n)
  case (Cons c cs)
  then show ?case using list.set_sel [of "split_path cs"] by (auto split: if_splits)
qed simp

lemma split_path_plain:
  "CHR ''/'' \<notin> set n \<Longrightarrow> split_path (n @ r) = (n @ hd (split_path r)) # tl (split_path r)"
  by (induction n) auto

lemma split_path_names:
  assumes "\<forall>n\<in>set c. CHR ''/'' \<notin> set n"
  shows "split_path (concat (map ((#) (CHR ''/'')) c)) = [] # c"
  using assms
proof (induction c)
  case (Cons n c)
  then show ?case by (simp add: split_path_plain)
qed simp

lemma split_path_text:
  assumes "\<forall>n\<in>set c. CHR ''/'' \<notin> set n" "c \<noteq> []"
  shows "split_path (tl (path_text c)) = c"
proof -
  obtain n c' where c: "c = n # c'" using assms(2) by (cases c) auto
  have "split_path (path_text c) = [] # split_path (tl (path_text c))" by (simp add: c path_text_def)
  then show ?thesis using split_path_names [OF assms(1)] assms(2) by (simp add: path_text_def)
qed

lemma path_text_snoc:
  "path_text (c @ [n]) = (if c = [] then ''/'' @ n else path_text c @ ''/'' @ n)"
  by (simp add: path_text_def)

lemma path_text_last:
  assumes "c \<noteq> []" "\<forall>n\<in>set c. plain_name n"
  shows "last (path_text c) \<noteq> CHR ''/''"
proof -
  obtain n c' where c: "c = c' @ [n]" using assms(1) by (cases c rule: rev_cases) auto
  then have "n \<noteq> []" "CHR ''/'' \<notin> set n" using assms(2) by (auto simp: plain_name_def)
  moreover from this have "last n \<noteq> CHR ''/''" by (metis last_in_set)
  ultimately show ?thesis by (simp add: c path_text_snoc)
qed

lemma path_text_hd [simp]: "path_text c \<noteq> []" "hd (path_text c) = CHR ''/''"
  by (cases c; simp add: path_text_def)+

section \<open>The printed path\<close>

lemma folder_eq: "dirs s 0 = None \<Longrightarrow> folder s p = dirs s p"
  by (simp add: folder_def)

lemma build_absolute_path_spec:
  assumes t: "tree_ok K (dirs s)" and c: "dir_at (dirs s) ROOT c = Some p" "\<forall>n\<in>set c. plain_name n"
  shows "build_absolute_path p s = strcpy_into 512 (path_text c)"
  using c
proof (induction c arbitrary: p rule: rev_induct)
  case Nil
  then obtain r where "p = ROOT" "dirs s ROOT = Some r" using tree_okD(2) [OF t] by auto
  then show ?case
    by (simp add: build_absolute_path.simps [of ROOT s] folder_eq [OF tree_okD(1) [OF t]] path_text_def strcpy_into_def)
next
  case (snoc n c)
  then obtain q where q: "dir_at (dirs s) ROOT c = Some q" "filed (dirs s) q n p" by (auto simp: dir_at_snoc [OF t])
  obtain d where d: "p \<noteq> ROOT" "dirs s p = Some d" "fd_parent d = q" "fd_name d = n"
    using tree_okD(4) [OF t q(2)] by (auto simp: entry_ok_def)
  have "q \<noteq> 0" using dir_at_dom [OF q(1)] tree_okD(1) [OF t] by auto
  moreover have "build_absolute_path q s = strcpy_into 512 (path_text c)" using snoc q(1) by simp
  moreover have "(if last (path_text c) \<noteq> CHR ''/'' then path_text c @ ''/'' else path_text c) @ n = path_text (c @ [n])"
    using path_text_last [of c] snoc.prems(2) by (auto simp: path_text_snoc) (auto simp: path_text_def)
  ultimately have "build_absolute_path p s =
      (if length (path_text c) < 512 then strcpy_into 512 (path_text (c @ [n])) else None)"
    using d by (simp add: build_absolute_path.simps [of p s] folder_eq [OF tree_okD(1) [OF t]] strcpy_into_def [of 512 "path_text c"])
  moreover have "length (path_text c) \<le> length (path_text (c @ [n]))" by (simp add: path_text_snoc) (simp add: path_text_def)
  ultimately show ?case by (simp add: strcpy_into_def)
qed

section \<open>Resolution\<close>

definition is_dir :: "fs \<Rightarrow> string list \<Rightarrow> bool" where
  "is_dir s c \<longleftrightarrow> dir_at (dirs s) ROOT c \<noteq> None"

lemma resolve_plain:
  assumes "resolve D cur xs = Some c" "\<forall>n\<in>set cur. plain_name n" "\<forall>x\<in>set xs. CHR ''/'' \<notin> set x"
  shows "\<forall>n\<in>set c. plain_name n"
  using assms
proof (induction D cur xs rule: resolve.induct)
  case (2 D cur x xs)
  consider "x = [] \<or> x = ''.''" | "x = ''..''" "cur = []" | "x = ''..''" "cur \<noteq> []" | "plain_name x" "D (cur @ [x])"
    using 2(4,6) by (fastforce simp: plain_name_def split: if_splits)
  then show ?case
  proof cases
    case 3
    moreover have "\<forall>n\<in>set (butlast cur). plain_name n" using 2(5) by (auto dest: in_set_butlastD)
    ultimately show ?thesis using 2(2) 2(4,6) by simp
  next
    case 4
    then have "\<not> (x = [] \<or> x = ''.'')" "x \<noteq> ''..''" by (auto simp: plain_name_def)
    then show ?thesis using 2(3) 2(4,5,6) 4 by simp
  next
    case 1
    then show ?thesis using 2(1) 2(4,5,6) by simp
  next
    case 2
    then show ?thesis using \<open>resolve D cur (x # xs) = Some c\<close> by auto
  qed
qed simp

lemma resolve_names:
  "\<forall>n\<in>set xs. plain_name n \<Longrightarrow>
   resolve D cur xs = (if \<forall>i<length xs. D (cur @ take (Suc i) xs) then Some (cur @ xs) else None)"
proof (induction xs arbitrary: cur)
  case (Cons x xs)
  have "(\<forall>i<length (x # xs). D (cur @ take (Suc i) (x # xs))) \<longleftrightarrow>
      D (cur @ [x]) \<and> (\<forall>i<length xs. D ((cur @ [x]) @ take (Suc i) xs))"
    by (simp add: All_less_Suc2)
  moreover have "resolve D cur (x # xs) = (if D (cur @ [x]) then resolve D (cur @ [x]) xs else None)"
    using Cons.prems by (simp add: plain_name_def)
  ultimately show ?case using Cons by simp
qed simp

lemma path_step_spec:
  assumes t: "tree_ok K (dirs s)" and c: "dir_at (dirs s) ROOT c = Some p"
  shows "path_step s x p = Some (
     if x = [] \<or> x = ''.'' then Inr p
     else if x = ''..'' then (if c = [] then Inl p else Inr (the (dir_at (dirs s) ROOT (butlast c))))
     else if is_dir s (c @ [x]) then Inr (the (dir_at (dirs s) ROOT (c @ [x]))) else Inl 0)"
proof -
  note f = folder_eq [OF tree_okD(1) [OF t]]
  obtain d where d: "dirs s p = Some d" using dir_at_dom [OF c] by auto
  have ok: "hm_ok UNIV (foder_map d)" using tree_okD(3) [OF t d] by (simp add: folder_ok_def)
  have p0: "p \<noteq> 0" using d tree_okD(1) [OF t] by auto
  have up: "fd_parent d = (if c = [] then 0 else the (dir_at (dirs s) ROOT (butlast c))) \<and> (c \<noteq> [] \<longrightarrow> fd_parent d \<noteq> 0)"
  proof (cases c rule: rev_cases)
    case Nil
    then show ?thesis using c d tree_okD(2) [OF t] by (auto split: if_splits)
  next
    case (snoc c' n)
    then obtain q where q: "dir_at (dirs s) ROOT c' = Some q" "filed (dirs s) q n p" using c by (auto simp: dir_at_snoc [OF t])
    then have "fd_parent d = q" using tree_okD(4) [OF t q(2)] d by (auto simp: entry_ok_def)
    moreover have "q \<noteq> 0" using dir_at_dom [OF q(1)] tree_okD(1) [OF t] by auto
    ultimately show ?thesis using snoc q(1) by simp
  qed
  have down: "dir_at (dirs s) ROOT (c @ [x]) = map_option di_ptr (hm_map (foder_map d) x)"
    using d by (intro option_eqI) (auto simp: dir_at_snoc [OF t] c filed_def)
  have "\<exists>b. dirs s (di_ptr i) = Some b" if "hm_map (foder_map d) x = Some i" for i
    using dir_at_dom [of "dirs s" ROOT "c @ [x]"] down that by auto
  then show ?thesis
    using up down d ok by (auto simp: path_step_def f foder_find_map is_dir_def split: option.splits)
qed

lemma path_walk_spec:
  assumes t: "tree_ok K (dirs s)" and c: "dir_at (dirs s) ROOT c = Some p"
  shows "path_walk s buf p = Some (case resolve (is_dir s) c (split_path buf) of
     None \<Rightarrow> 0 | Some c' \<Rightarrow> the (dir_at (dirs s) ROOT c'))"
    and "resolve (is_dir s) c (split_path buf) = Some c' \<Longrightarrow> is_dir s c'"
proof -
  have "path_walk s buf p = Some (case resolve (is_dir s) c (split_path buf) of
     None \<Rightarrow> 0 | Some c' \<Rightarrow> the (dir_at (dirs s) ROOT c')) \<and>
    (\<forall>c'. resolve (is_dir s) c (split_path buf) = Some c' \<longrightarrow> is_dir s c')"
    using c
  proof (induction buf arbitrary: c p rule: length_induct)
    case (1 buf)
    let ?x = "takeWhile (\<lambda>c. c \<noteq> CHR ''/'') buf" and ?r = "dropWhile (\<lambda>c. c \<noteq> CHR ''/'') buf"
    note st = path_step_spec [OF t 1(2), of ?x]
    have up: "dir_at (dirs s) ROOT (butlast c) = Some (the (dir_at (dirs s) ROOT (butlast c)))" if "c \<noteq> []"
      using that 1(2) by (cases c rule: rev_cases) (auto simp: dir_at_append split: option.splits)
    have next_ok: ?case if s1: "path_step s ?x p = Some (Inr q)" and q: "dir_at (dirs s) ROOT b = Some q"
      and "resolve (is_dir s) c (split_path buf) =
        resolve (is_dir s) b (if ?r = [] then [] else split_path (tl ?r))" for q b
    proof (cases "?r = []")
      case True
      moreover have "is_dir s b" using q by (simp add: is_dir_def)
      ultimately show ?thesis using that by (simp add: path_walk.simps [of s buf] Let_def)
    next
      case False
      then have "length (tl ?r) < length buf" using length_dropWhile_le [of "\<lambda>c. c \<noteq> CHR ''/''" buf]
        by (metis length_tl diff_less less_le_trans length_greater_0_conv zero_less_one)
      then have ih: "path_walk s (tl ?r) q = Some (case resolve (is_dir s) b (split_path (tl ?r)) of
          None \<Rightarrow> 0 | Some c' \<Rightarrow> the (dir_at (dirs s) ROOT c')) \<and>
        (\<forall>c'. resolve (is_dir s) b (split_path (tl ?r)) = Some c' \<longrightarrow> is_dir s c')" using 1(1) q by blast
      have "path_walk s buf p = path_walk s (tl ?r) q" using s1 False by (auto simp: path_walk.simps [of s buf] Let_def)
      moreover have "resolve (is_dir s) c (split_path buf) = resolve (is_dir s) b (split_path (tl ?r))"
        using that(3) by (simp only: False if_False)
      ultimately show ?thesis using ih by simp
    qed
    note un = split_path_unfold [of buf] Let_def
    consider "?x = [] \<or> ?x = ''.''" | "?x = ''..''" "c = []" | "?x = ''..''" "c \<noteq> []"
      | "\<not> (?x = [] \<or> ?x = ''.'')" "?x \<noteq> ''..''" by blast
    then show ?case
    proof cases
      case 1
      then show ?thesis using st \<open>dir_at _ _ c = Some p\<close> by (intro next_ok [of p c]) (auto simp: un)
    next
      case 2
      then show ?thesis using st \<open>dir_at _ _ c = Some p\<close> by (auto simp: path_walk.simps [of s buf] un is_dir_def split: if_splits)
    next
      case 3
      then show ?thesis using st up by (intro next_ok [of "the (dir_at (dirs s) ROOT (butlast c))" "butlast c"]) (auto simp: un)
    next
      case 4
      show ?thesis
      proof (cases "is_dir s (c @ [?x])")
        case True
        then show ?thesis using st 4 by (intro next_ok [of "the (dir_at (dirs s) ROOT (c @ [?x]))" "c @ [?x]"]) (auto simp: un is_dir_def)
      next
        case False
        then show ?thesis using st 4 by (auto simp: path_walk.simps [of s buf] un)
      qed
    qed
  qed
  then show "path_walk s buf p = Some (case resolve (is_dir s) c (split_path buf) of
     None \<Rightarrow> 0 | Some c' \<Rightarrow> the (dir_at (dirs s) ROOT c'))"
    "resolve (is_dir s) c (split_path buf) = Some c' \<Longrightarrow> is_dir s c'" by blast+
qed

text \<open>A path name as the commands take it, relative to the folder with path \<open>cwd\<close>.\<close>

definition apath :: "(string list \<Rightarrow> bool) \<Rightarrow> string list \<Rightarrow> string \<Rightarrow> string list option" where
  "apath D cwd p = (if p = [] then None else resolve D (if hd p = CHR ''/'' then [] else cwd) (split_path p))"

lemma get_dir_spec:
  assumes t: "tree_ok K (dirs s)" and c: "dir_at (dirs s) ROOT c = Some b" and p: "length p < 512"
  shows "get_dir_by_path b (Some p) s = Some (case apath (is_dir s) c p of
      None \<Rightarrow> 0 | Some c' \<Rightarrow> the (dir_at (dirs s) ROOT c'))"
    and "apath (is_dir s) c p = Some c' \<Longrightarrow> is_dir s c'"
    and "apath (is_dir s) c p = Some c' \<Longrightarrow> \<forall>n\<in>set c. plain_name n \<Longrightarrow> \<forall>n\<in>set c'. plain_name n"
proof -
  have root: "dir_at (dirs s) ROOT [] = Some ROOT" using tree_okD(2) [OF t] by auto
  have sp: "p \<noteq> [] \<Longrightarrow> hd p = CHR ''/'' \<Longrightarrow> split_path p = [] # split_path (tl p)" by (cases p) auto
  show "get_dir_by_path b (Some p) s = Some (case apath (is_dir s) c p of
      None \<Rightarrow> 0 | Some c' \<Rightarrow> the (dir_at (dirs s) ROOT c'))"
    using path_walk_spec(1) [OF t root, of "tl p"] path_walk_spec(1) [OF t c, of p] sp p
    by (simp add: get_dir_by_path_def apath_def strcpy_into_def)
  show "apath (is_dir s) c p = Some c' \<Longrightarrow> is_dir s c'"
    using path_walk_spec(2) [OF t root, of p] path_walk_spec(2) [OF t c, of p]
    by (auto simp: apath_def split: if_splits)
  show "apath (is_dir s) c p = Some c' \<Longrightarrow> \<forall>n\<in>set c. plain_name n \<Longrightarrow> \<forall>n\<in>set c'. plain_name n"
    using resolve_plain [of "is_dir s" _ "split_path p" c'] split_path_slash_free
    by (auto simp: apath_def split: if_splits)
qed

lemma dir_at_nonzero: "tree_ok K ds \<Longrightarrow> dir_at ds p c = Some q \<Longrightarrow> q \<noteq> 0"
  using dir_at_dom tree_okD(1) by metis

text \<open>Resolving the printed path of a folder leads to the folder.\<close>

lemma apath_path_text:
  assumes "tree_ok K (dirs s)" "is_dir s c" "\<forall>n\<in>set c. plain_name n"
  shows "apath (is_dir s) cwd (path_text c) = Some c"
proof (cases "c = []")
  case True
  then show ?thesis by (simp add: apath_def path_text_def)
next
  case False
  have sf: "\<forall>n\<in>set c. CHR ''/'' \<notin> set n" using assms(3) by (simp add: plain_name_def)
  have "is_dir s (take i c)" for i
    using assms(2) dir_at_append [of "dirs s" ROOT "take i c" "drop i c"] by (auto simp: is_dir_def split: option.splits)
  then have "resolve (is_dir s) [] c = Some c" by (simp add: resolve_names [OF assms(3)])
  then show ?thesis using split_path_names [OF sf] False by (simp add: apath_def) (simp add: path_text_def)
qed

end
