(* ===== verification/Ramfs_Inv.thy ===== *)
theory Ramfs_Inv
  imports Ramfs_Path
begin

text \<open>
  The invariant of the RAM file system. The folder structures form a tree; every heap block the file
  system uses has exactly one owner (a folder structure, a node of a folder's table, the data of a file,
  the tables of the environment and of the commands); every file's length is the length of the data
  block its entry points to; and the current path names the current folder. \<open>K\<close> bounds the names of the
  files: with \<open>UNIV\<close> the invariant speaks of the structure alone, with a set of names that the file
  table tells apart the operations are those of a map.

  \<open>view\<close> is the abstract file system: the folders by path, each with its files as a map from names to
  contents.
\<close>

section \<open>Ownership\<close>

datatype owner = ODir | ONode u32 | OFile u32 | OData u32 string | OEnv | OCmd

type_synonym ownership = "u32 \<rightharpoonup> owner"

definition folder_owned :: "ownership \<Rightarrow> u32 \<Rightarrow> foder \<Rightarrow> bool" where
  "folder_owned own p d \<longleftrightarrow> (p \<noteq> ROOT \<longrightarrow> own p = Some ODir) \<and>
     (\<forall>a\<in>set (hm_nodes (foder_map d)). own a = Some (ONode p)) \<and>
     (\<forall>a\<in>set (hm_nodes (file_map d)). own a = Some (OFile p)) \<and>
     (\<forall>k i. hm_map (file_map d) k = Some i \<longrightarrow> fi_ptr i \<noteq> 0 \<longrightarrow> own (fi_ptr i) = Some (OData p k))"

definition owned :: "ownership \<Rightarrow> fs \<Rightarrow> bool" where
  "owned own s \<longleftrightarrow> (\<forall>p d. dirs s p = Some d \<longrightarrow> folder_owned own p d) \<and>
     (\<forall>a\<in>ut_owns (env_map s). own a = Some OEnv) \<and> (\<forall>a\<in>ut_owns (command_map s). own a = Some OCmd)"

section \<open>Files\<close>

definition content :: "(u32 \<Rightarrow> u8 list option) \<Rightarrow> file_info \<Rightarrow> u8 list" where
  "content fd i = (if fi_ptr i = 0 then [] else the (fd (fi_ptr i)))"

definition file_ok :: "(u32 \<Rightarrow> u8 list option) \<Rightarrow> file_info \<Rightarrow> bool" where
  "file_ok fd i \<longleftrightarrow> fi_drive_addr i = 0 \<and> fi_length i = int (length (content fd i)) \<and> length (content fd i) \<le> 2 ^ 24 \<and>
     (fi_ptr i \<noteq> 0 \<longrightarrow> fd (fi_ptr i) \<noteq> None \<and> content fd i \<noteq> [])"

definition files_ok :: "fs \<Rightarrow> bool" where
  "files_ok s \<longleftrightarrow> (\<forall>p d k i. dirs s p = Some d \<longrightarrow> hm_map (file_map d) k = Some i \<longrightarrow> file_ok (fdata s) i)"

definition contents :: "(u32 \<Rightarrow> u8 list option) \<Rightarrow> file_map \<Rightarrow> string \<rightharpoonup> u8 list" where
  "contents fd m k = map_option (content fd) (hm_map m k)"

definition view :: "fs \<Rightarrow> string list \<rightharpoonup> (string \<rightharpoonup> u8 list)" where
  "view s c = map_option (\<lambda>p. contents (fdata s) (file_map (the (dirs s p)))) (dir_at (dirs s) ROOT c)"

section \<open>The invariant\<close>

definition cwd_at :: "fs \<Rightarrow> string list \<Rightarrow> bool" where
  "cwd_at s c \<longleftrightarrow> dir_at (dirs s) ROOT c = Some (current_dir s) \<and> (\<forall>n\<in>set c. plain_name n) \<and>
     current_path s = path_text c \<and> length (path_text c) < 512"

definition env_ok :: "fs \<Rightarrow> bool" where
  "env_ok s \<longleftrightarrow> ut_dict {''pwd''} (env_map s) \<and> env_get (env_map s) ''pwd'' = Some (take 255 (current_path s))"

text \<open>\<open>core_ok\<close> is the part that does not depend on the current folder.\<close>

definition core_ok :: "u32 \<Rightarrow> string set \<Rightarrow> fs \<Rightarrow> bool" where
  "core_ok e K s \<longleftrightarrow> ROOT < e \<and> tree_ok K (dirs s) \<and> files_ok s \<and> (\<exists>own. heap_ok e (hp s) (dom own) \<and> owned own s)"

definition fs_ok :: "u32 \<Rightarrow> string set \<Rightarrow> fs \<Rightarrow> bool" where
  "fs_ok e K s \<longleftrightarrow> core_ok e K s \<and> (\<exists>c. cwd_at s c) \<and> env_ok s \<and> mount_count s = 0"

lemma core_okI:
  assumes "ROOT < e" "tree_ok K (dirs s)" "files_ok s" "heap_ok e (hp s) (dom own)" "owned own s"
  shows "core_ok e K s"
  using assms by (auto simp: core_ok_def)

lemma core_okD:
  assumes "core_ok e K s"
  shows "ROOT < e" "tree_ok K (dirs s)" "files_ok s" "\<exists>own. heap_ok e (hp s) (dom own) \<and> owned own s"
  using assms by (simp_all add: core_ok_def)

lemma fs_okD:
  assumes "fs_ok e K s"
  shows "core_ok e K s" "env_ok s" "mount_count s = 0" "\<exists>c. cwd_at s c"
  using assms by (simp_all add: fs_ok_def)

text \<open>The fields that decide the invariant and the view.\<close>

lemma fs_ok_cong:
  assumes "hp s' = hp s" "dirs s' = dirs s" "fdata s' = fdata s" "env_map s' = env_map s" "command_map s' = command_map s"
  shows "core_ok e K s' = core_ok e K s" "view s' = view s"
    "current_dir s' = current_dir s \<Longrightarrow> current_path s' = current_path s \<Longrightarrow> cwd_at s' = cwd_at s"
    "current_dir s' = current_dir s \<Longrightarrow> current_path s' = current_path s \<Longrightarrow> mount_count s' = mount_count s \<Longrightarrow>
      fs_ok e K s' = fs_ok e K s"
  using assms by (simp_all add: core_ok_def fs_ok_def files_ok_def owned_def cwd_at_def [abs_def] env_ok_def view_def [abs_def])

lemma core_ok_heap:
  assumes "core_ok e K s" "owned own s" "heap_ok e h (dom own)"
  shows "core_ok e K (s\<lparr>hp := h\<rparr>)"
  using assms by (auto simp: core_ok_def files_ok_def owned_def)

lemma view_hp [simp]: "view (s\<lparr>hp := h\<rparr>) = view s" "cwd_at (s\<lparr>hp := h\<rparr>) c = cwd_at s c"
  by (simp_all add: view_def cwd_at_def fun_eq_iff)

lemma cwd_unique: "tree_ok K (dirs s) \<Longrightarrow> cwd_at s c \<Longrightarrow> cwd_at s c' \<Longrightarrow> c = c'"
  using path_unique by (auto simp: cwd_at_def)

text \<open>Heap blocks lie above the kernel image, so none of them is the object \<^verbatim>\<open>root\<close>.\<close>

lemma heap_ok_above:
  assumes "heap_ok e h P" "p \<in> P"
  shows "e < p"
proof -
  obtain fs where "blocks_ok e (heap_brk h) (blk_size h) (set fs \<union> (\<lambda>p. p - 8) ` P)"
    using assms(1) by (auto simp: heap_ok_def heap_inv_def)
  then have b: "unat e \<le> unat (p - 8)" "unat (p - 8) + 8 + unat (blk_size h (p - 8)) \<le> unat (heap_brk h)"
    using assms(2) by (auto dest: blocks_okD(1,2))
  have "unat ((p - 8) + 8) = unat (p - 8) + 8"
    using b(2) unat_le_max [of "heap_brk h"] by (subst unat_add_lem [THEN iffD1]) simp_all
  then show ?thesis using b(1) by (simp add: word_less_nat_alt)
qed

section \<open>Ownership under updates\<close>

lemma owned_le:
  assumes "owned own s" "own \<subseteq>\<^sub>m own'"
  shows "owned own' s"
proof -
  have le: "own a = Some x \<Longrightarrow> own' a = Some x" for a x using assms(2) by (simp add: map_le_def) (metis domI)
  show ?thesis using assms(1) by (auto simp: owned_def folder_owned_def intro: le)
qed

lemma fresh_le: "a \<notin> dom own \<Longrightarrow> own \<subseteq>\<^sub>m own(a \<mapsto> x)"
  by (simp add: map_le_def)

lemma owned_files:
  assumes "owned own s" "dirs s p = Some d"
    and keep: "\<And>a x. own a = Some x \<Longrightarrow> x \<noteq> OFile p \<Longrightarrow> (\<forall>k. x \<noteq> OData p k) \<Longrightarrow> own' a = Some x"
    and "\<And>a. a \<in> set (hm_nodes m) \<Longrightarrow> own' a = Some (OFile p)"
    and "\<And>k i. hm_map m k = Some i \<Longrightarrow> fi_ptr i \<noteq> 0 \<Longrightarrow> own' (fi_ptr i) = Some (OData p k)"
  shows "owned own' (set_folder p (d\<lparr>file_map := m\<rparr>) s)"
proof -
  have k: "own a = Some x \<Longrightarrow> x \<in> {ODir, OEnv, OCmd} \<Longrightarrow> own' a = Some x" for a x using keep by auto
  have n: "own a = Some (ONode q) \<Longrightarrow> own' a = Some (ONode q)" for a q using keep by auto
  have f: "q \<noteq> p \<Longrightarrow> own a = Some (OFile q) \<Longrightarrow> own' a = Some (OFile q)" for a q using keep by auto
  have dt: "q \<noteq> p \<Longrightarrow> own a = Some (OData q j) \<Longrightarrow> own' a = Some (OData q j)" for a q j using keep by auto
  have "folder_owned own' q d'" if "dirs s q = Some d'" "q \<noteq> p" for q d'
    using assms(1) that k n f dt by (auto simp: owned_def folder_owned_def)
  moreover have "folder_owned own' p (d\<lparr>file_map := m\<rparr>)"
    using assms(1,2,4,5) k n by (auto simp: owned_def folder_owned_def)
  ultimately show ?thesis using assms(1) k by (auto simp: owned_def set_folder_def)
qed

lemma ownedD:
  assumes "owned own s" "dirs s p = Some d"
  shows "p \<noteq> ROOT \<Longrightarrow> own p = Some ODir" "a \<in> set (hm_nodes (foder_map d)) \<Longrightarrow> own a = Some (ONode p)"
    "a \<in> set (hm_nodes (file_map d)) \<Longrightarrow> own a = Some (OFile p)"
    "hm_map (file_map d) k = Some i \<Longrightarrow> fi_ptr i \<noteq> 0 \<Longrightarrow> own (fi_ptr i) = Some (OData p k)"
  using assms unfolding owned_def folder_owned_def by blast+

lemma owned_distinct:
  assumes "owned own s" "dirs s p = Some d" "hm_map (file_map d) k = Some i" "fi_ptr i \<noteq> 0"
    and "dirs s p' = Some d'" "hm_map (file_map d') k' = Some i'" "fi_ptr i' = fi_ptr i"
  shows "p' = p \<and> k' = k"
proof -
  have "own (fi_ptr i) = Some (OData p k)" "own (fi_ptr i') = Some (OData p' k')"
    using ownedD(4) [OF assms(1,2,3,4)] ownedD(4) [OF assms(1,5,6)] assms(4,7) by simp_all
  then show ?thesis using assms(7) by simp
qed

section \<open>The view under updates\<close>

lemma view_files:
  assumes t: "tree_ok K (dirs s)" "dirs s p = Some d" "dir_at (dirs s) ROOT c = Some p"
    and fd: "\<And>q b k i. dirs s q = Some b \<Longrightarrow> q \<noteq> p \<Longrightarrow> hm_map (file_map b) k = Some i \<Longrightarrow> content fd i = content (fdata s) i"
  shows "view (set_folder p (d\<lparr>file_map := m\<rparr>) (s\<lparr>fdata := fd\<rparr>)) = (view s)(c \<mapsto> contents fd m)"
proof
  fix xs
  let ?s = "set_folder p (d\<lparr>file_map := m\<rparr>) (s\<lparr>fdata := fd\<rparr>)"
  have da: "dir_at (dirs ?s) ROOT xs = dir_at (dirs s) ROOT xs" using t(2) by (simp add: set_folder_def dir_at_files)
  show "view ?s xs = ((view s)(c \<mapsto> contents fd m)) xs"
  proof (cases "dir_at (dirs s) ROOT xs")
    case None
    then show ?thesis using da t(3) by (auto simp: view_def)
  next
    case (Some q)
    show ?thesis
    proof (cases "q = p")
      case True
      then show ?thesis using Some da path_unique [OF t(1) _ t(3)] by (auto simp: view_def set_folder_def)
    next
      case False
      obtain b where b: "dirs s q = Some b" using dir_at_dom [OF Some] by auto
      have "contents fd (file_map b) = contents (fdata s) (file_map b)"
        using fd [OF b False] by (auto simp: contents_def fun_eq_iff split: option.splits intro!: option.map_cong)
      then show ?thesis using Some da b False t(3) by (auto simp: view_def set_folder_def)
    qed
  qed
qed

end
