(* ===== verification/Ramfs_Ops.thy ===== *)
theory Ramfs_Ops
  imports Ramfs_Inv
begin

text \<open>
  The operations of the RAM file system keep the invariant, and what they do to the view.
\<close>

section \<open>Folders in memory\<close>

lemma folder_here: "tree_ok K (dirs s) \<Longrightarrow> dirs s p = Some d \<Longrightarrow> folder s p = Some d"
  by (simp add: folder_eq tree_okD)

lemma lazy_noop: "tree_ok K (dirs s) \<Longrightarrow> dirs s p = Some d \<Longrightarrow> lazy_load_directory p s = Some s"
  using tree_okD(3) by (auto simp: lazy_load_directory_def folder_here folder_ok_def)

lemma mark_dirty_MEM: "folder_ok K d \<Longrightarrow> mark_dirty d = d"
  by (simp add: mark_dirty_def folder_ok_def)

lemma load_entry_MEM: "folder_ok K d \<Longrightarrow> load_entry p d nm i s = Some (0, i, d, s)"
  by (simp add: load_entry_def folder_ok_def)

lemma file_find_key:
  "folder_ok K d \<Longrightarrow> ramfs_file_hashmap_find (file_map d) n = hm_map (file_map d) (hm_key file_streq (file_map d) n)"
  using ff.aliased(2) [of K "file_map d", OF _ refl] by (simp add: folder_ok_def file_defs)

lemma set_folder_simps [simp]:
  "dirs (set_folder p d s) = (dirs s)(p \<mapsto> d)" "hp (set_folder p d s) = hp s" "fdata (set_folder p d s) = fdata s"
  "env_map (set_folder p d s) = env_map s" "command_map (set_folder p d s) = command_map s"
  by (simp_all add: set_folder_def)

section \<open>mkdir\<close>

lemma view_add:
  assumes "tree_ok K (dirs s)" "dirs s p = Some d" "dir_at (dirs s) ROOT c = Some p" "dirs s q = None" "q \<noteq> ROOT"
    and "dirs s' = (dirs s)(q \<mapsto> new_foder n 0 0 None p, p \<mapsto> d\<lparr>foder_map := m\<rparr>)" "fdata s' = fdata s"
    and da: "\<And>xs. dir_at (dirs s') ROOT xs = (if xs = c @ [n] then Some q else dir_at (dirs s) ROOT xs)"
  shows "view s' = (view s)(c @ [n] \<mapsto> Map.empty)"
proof
  fix xs
  have pq: "p \<noteq> q" using assms(2,4) by auto
  have "contents fd (file_map (new_foder n 0 0 None p)) = Map.empty" for fd by (simp add: contents_def fun_eq_iff)
  moreover have "r \<noteq> q" if "dir_at (dirs s) ROOT xs = Some r" for r using dir_at_dom [OF that] assms(4) by auto
  moreover have "view s' xs = map_option (\<lambda>p. contents (fdata s) (file_map (the (dirs s' p))))
      (if xs = c @ [n] then Some q else dir_at (dirs s) ROOT xs)"
    by (simp add: view_def da assms(7))
  ultimately show "view s' xs = ((view s)(c @ [n] \<mapsto> Map.empty)) xs"
    using assms(2,6) pq by (cases "dir_at (dirs s) ROOT xs") (auto simp: view_def)
qed

lemma mkdir_core:
  assumes ok: "core_ok e K s" and c: "dir_at (dirs s) ROOT c = Some p" and d: "dirs s p = Some d"
    and n: "n \<noteq> []" "length n < 128" and b: "base_dir from s = Some p"
    and new: "hm_map (foder_map d) n = None" "ramfs_file_hashmap_find (file_map d) n = None"
  shows "(\<exists>h. fs_mkdir (Some n) from s = Some (- 5, s\<lparr>hp := h\<rparr>) \<and> core_ok e K (s\<lparr>hp := h\<rparr>)) \<or>
    (\<exists>h ds q. fs_mkdir (Some n) from s = Some (0, s\<lparr>hp := h, dirs := ds\<rparr>) \<and> core_ok e K (s\<lparr>hp := h, dirs := ds\<rparr>) \<and>
      view (s\<lparr>hp := h, dirs := ds\<rparr>) = (view s)(c @ [n] \<mapsto> Map.empty) \<and>
      (\<forall>xs. dir_at ds ROOT xs = (if xs = c @ [n] then Some q else dir_at (dirs s) ROOT xs)) \<and> q \<noteq> 0)"
proof -
  note C = core_okD [OF ok]
  obtain own where own: "heap_ok e (hp s) (dom own)" "owned own s" using C(4) by blast
  have fok: "folder_ok K d" using tree_okD(3) [OF C(2) d] .
  then have mok: "hm_ok UNIV (foder_map d)" "fd_mount d = None" by (simp_all add: folder_ok_def)
  have p0: "p \<noteq> 0" using dir_at_nonzero [OF C(2) c] .
  note S = folder_here [OF C(2) d] lazy_noop [OF C(2) d]
  have head: "fs_mkdir (Some n) from s = do {
       (new_dir, h1) \<leftarrow> malloc sizeof_foder (hp s);
       (if new_dir = 0 then Some (- 5, s\<lparr>hp := h1\<rparr>)
        else do {
          let s2 = set_folder new_dir (new_foder n 0 0 None p) (s\<lparr>hp := h1\<rparr>);
          d2 \<leftarrow> folder s2 p;
          (r, m, h2) \<leftarrow> ramfs_hashmap_insert (foder_map d2) n \<lparr>di_name = n, di_type = 0, di_ptr = new_dir, di_drive_addr = 0\<rparr> (hp s2);
          (if r = 0 then Some (- 5, free_folder new_dir (s2\<lparr>hp := h2\<rparr>))
           else Some (0, set_folder p (mark_dirty (d2\<lparr>foder_map := m\<rparr>)) (s2\<lparr>hp := h2\<rparr>)))
        })}"
    using n new b p0 mok S by (simp add: fs_mkdir_def foder_find_map Let_def cong: if_cong)
  show ?thesis
  proof (rule km.alloc_cases [OF own(1), of sizeof_foder])
    fix h1 assume "malloc sizeof_foder (hp s) = Some (0, h1)" "heap_ok e h1 (dom own)"
    then show ?thesis using head core_ok_heap [OF ok own(2)] by auto
  next
    fix q h1 assume q: "malloc sizeof_foder (hp s) = Some (q, h1)" "q \<noteq> 0" "q \<notin> dom own" "heap_ok e h1 (insert q (dom own))"
    have qR: "q \<noteq> ROOT" using heap_ok_above [OF q(4), of q] C(1) by auto
    have dq: "dirs s q = None" using ownedD(1) [OF own(2)] qR q(3) by (metis domI not_None_eq)
    then have pq: "p \<noteq> q" using d by auto
    let ?i = "\<lparr>di_name = n, di_type = 0, di_ptr = q, di_drive_addr = 0\<rparr>" and ?t = "new_foder n 0 0 None p"
    have i: "?i\<lparr>di_name := key_copy n\<rparr> = ?i" using n(2) by simp
    have t: "tbl_ok e UNIV (foder_map d) h1 (insert q (dom own))"
      using mok(1) q(4) ownedD(2) [OF own(2) d] by (auto simp: tbl_ok_def)
    have head2: "fs_mkdir (Some n) from s = do {
          (r, m, h2) \<leftarrow> ramfs_hashmap_insert (foder_map d) n ?i h1;
          (if r = 0 then Some (- 5, s\<lparr>hp := free q h2\<rparr>)
           else Some (0, s\<lparr>hp := h2, dirs := (dirs s)(q \<mapsto> ?t, p \<mapsto> d\<lparr>foder_map := m\<rparr>)\<rparr>)) }"
    proof -
      have f: "folder (set_folder q ?t (s\<lparr>hp := h1\<rparr>)) p = Some d" using d p0 pq by (simp add: folder_def)
      have m: "mark_dirty (d\<lparr>foder_map := m\<rparr>) = d\<lparr>foder_map := m\<rparr>" for m using fok by (simp add: mark_dirty_def folder_ok_def)
      show ?thesis unfolding head q(1) using f m dq q(2)
        by (simp add: set_folder_def free_folder_def fun_upd_idem Let_def cong: if_cong)
    qed
    have n127: "length n \<le> 127" using n(2) by simp
    from fo.insert_absent [OF foder_separates t UNIV_I n127 new(1), of ?i]
    show ?thesis
    proof (elim disjE exE conjE)
      fix h2 assume f: "hm_insert ramfs_streq hash_node_size (foder_map d) n ?i h1 = Some (0, foder_map d, h2)"
        "tbl_ok e UNIV (foder_map d) h2 (insert q (dom own))"
      have "heap_ok e (free q h2) (dom own)" using f(2) q(3) km.dealloc_ok [of e h2 "insert q (dom own)" q] by (simp add: tbl_ok_def)
      then show ?thesis using head2 f(1) i core_ok_heap [OF ok own(2)] by (auto simp: ramfs_hashmap_insert_def)
    next
      fix a m h2 assume f: "hm_insert ramfs_streq hash_node_size (foder_map d) n ?i h1 = Some (1, m, h2)"
        "hm_map m = (hm_map (foder_map d))(n \<mapsto> ?i)" "a \<notin> insert q (dom own)"
        "set (hm_nodes m) = insert a (set (hm_nodes (foder_map d)))" "tbl_ok e UNIV m h2 (insert a (insert q (dom own)))"
      let ?ds = "(dirs s)(q \<mapsto> ?t, p \<mapsto> d\<lparr>foder_map := m\<rparr>)" let ?s = "s\<lparr>hp := h2, dirs := ?ds\<rparr>"
      let ?own = "own(q \<mapsto> ODir, a \<mapsto> ONode p)"
      have mk: "hm_ok UNIV m" "heap_ok e h2 (dom ?own)" using f(5) by (simp_all add: tbl_ok_def)
      note da = dir_at_add [OF C(2) d new(1) dq q(2) qR mk(1) f(2) _ c, simplified]
      have "tree_ok K ?ds" using tree_add [OF C(2) d new(1) dq q(2) qR mk(1) f(2)] by simp
      moreover have "files_ok ?s"
        unfolding files_ok_def using C(3) d by (simp add: files_ok_def)
      moreover have "owned ?own ?s"
      proof -
        have "own \<subseteq>\<^sub>m ?own" using fresh_le [OF q(3), of ODir] fresh_le [of a "own(q \<mapsto> ODir)" "ONode p"] f(3) map_le_trans by fastforce
        then have o': "owned ?own s" by (rule owned_le [OF own(2)])
        then have "folder_owned ?own r b" if "dirs s r = Some b" for r b using that by (simp add: owned_def)
        moreover have "folder_owned ?own p (d\<lparr>foder_map := m\<rparr>)"
          using ownedD [OF o' d] f(4) by (auto simp: folder_owned_def)
        moreover have "folder_owned ?own q ?t"
          using f(3) by (auto simp: folder_owned_def new_foder_def ramfs_hashmap_init_def ramfs_file_hashmap_init_def)
        ultimately show ?thesis using o' unfolding owned_def by auto
      qed
      ultimately have "core_ok e K ?s" using C(1) mk(2) by (intro core_okI [of _ _ _ ?own]) simp_all
      moreover have "view ?s = (view s)(c @ [n] \<mapsto> Map.empty)"
        using da by (intro view_add [OF C(2) d c dq qR, of _ n m]) simp_all
      moreover have "fs_mkdir (Some n) from s = Some (0, ?s)" using head2 f(1) i by (simp add: ramfs_hashmap_insert_def)
      ultimately show ?thesis
        using da q(2) by (intro disjI2 exI [of _ h2] exI [of _ ?ds] exI [of _ q] conjI allI) simp_all
    qed
  qed
qed


section \<open>Changes of a file table\<close>

text \<open>What an operation on the files of one folder has to show: the new table is well formed, its nodes and
  data blocks are its own, the data of its files is there, and nothing of the other folders changed.\<close>

lemma files_update:
  assumes ok: "core_ok e K s" and c: "dir_at (dirs s) ROOT c = Some p" and d: "dirs s p = Some d" and own: "owned own s"
    and m: "hm_ok K m" and h: "heap_ok e h (dom own')"
    and keep: "\<And>a x. own a = Some x \<Longrightarrow> x \<noteq> OFile p \<Longrightarrow> (\<forall>k. x \<noteq> OData p k) \<Longrightarrow> own' a = Some x \<and> fd a = fdata s a"
    and nodes: "\<And>a. a \<in> set (hm_nodes m) \<Longrightarrow> own' a = Some (OFile p)"
    and data: "\<And>k i. hm_map m k = Some i \<Longrightarrow> fi_ptr i \<noteq> 0 \<Longrightarrow> own' (fi_ptr i) = Some (OData p k)"
    and fd: "\<And>k i. hm_map m k = Some i \<Longrightarrow> file_ok fd i"
    and s': "s' = s\<lparr>hp := h, fdata := fd, dirs := (dirs s)(p \<mapsto> d\<lparr>file_map := m\<rparr>)\<rparr>"
  shows "core_ok e K s' \<and> view s' = (view s)(c \<mapsto> contents fd m) \<and> (\<forall>xs. dir_at (dirs s') ROOT xs = dir_at (dirs s) ROOT xs)"
proof (intro conjI allI)
  note C = core_okD [OF ok]
  have same: "content fd i = content (fdata s) i \<and> file_ok fd i" if "dirs s q = Some b" "q \<noteq> p" "hm_map (file_map b) k = Some i" for q b k i
  proof -
    have "file_ok (fdata s) i" using C(3) that by (auto simp: files_ok_def)
    moreover have "fi_ptr i \<noteq> 0 \<Longrightarrow> fd (fi_ptr i) = fdata s (fi_ptr i)"
      using ownedD(4) [OF own that(1,3)] keep [of "fi_ptr i"] that(2) by simp
    ultimately show ?thesis by (auto simp: content_def file_ok_def)
  qed
  show "dir_at (dirs s') ROOT xs = dir_at (dirs s) ROOT xs" for xs using d by (simp add: s' dir_at_files)
  have "view s' = view (set_folder p (d\<lparr>file_map := m\<rparr>) (s\<lparr>fdata := fd\<rparr>))"
    by (simp add: s' view_def [abs_def])
  also have "\<dots> = (view s)(c \<mapsto> contents fd m)" using same by (intro view_files [OF C(2) d c]) blast
  finally show "view s' = (view s)(c \<mapsto> contents fd m)" .
  have "owned own' (set_folder p (d\<lparr>file_map := m\<rparr>) s)" using keep nodes data by (intro owned_files [OF own d]) blast+
  then have "owned own' s'" by (simp add: s' owned_def)
  moreover have "tree_ok K (dirs s')" using tree_files [OF C(2) d m] by (simp add: s')
  moreover have "files_ok s'" unfolding files_ok_def
  proof (intro allI impI)
    fix q b k i assume "dirs s' q = Some b" "hm_map (file_map b) k = Some i"
    then show "file_ok (fdata s') i" using fd same by (cases "q = p") (auto simp: s')
  qed
  ultimately show "core_ok e K s'" using C(1) h by (intro core_okI [of _ _ _ own']) (simp_all add: s')
qed

section \<open>touch\<close>

lemma touch_core:
  assumes ok: "core_ok e K s" and c: "dir_at (dirs s) ROOT c = Some p" and d: "dirs s p = Some d"
    and n: "length n < 128" "n \<in> K" and new: "ramfs_file_hashmap_find (file_map d) n = None"
    and i: "fi_ptr i = 0" "fi_length i = 0" "fi_drive_addr i = 0" "fi_name i = n"
  shows "(\<exists>h. ramfs_file_hashmap_insert (file_map d) n i (hp s) = Some (0, file_map d, h) \<and> core_ok e K (s\<lparr>hp := h\<rparr>)) \<or>
    (\<exists>m h. ramfs_file_hashmap_insert (file_map d) n i (hp s) = Some (1, m, h) \<and>
      (let s' = s\<lparr>hp := h, dirs := (dirs s)(p \<mapsto> d\<lparr>file_map := m\<rparr>)\<rparr> in
       core_ok e K s' \<and> view s' = (view s)(c \<mapsto> (the (view s c))(n \<mapsto> [])) \<and>
       (\<forall>xs. dir_at (dirs s') ROOT xs = dir_at (dirs s) ROOT xs)))"
proof -
  note C = core_okD [OF ok]
  obtain own where own: "heap_ok e (hp s) (dom own)" "owned own s" using C(4) by blast
  have fok: "hm_ok K (file_map d)" using tree_okD(3) [OF C(2) d] by (simp add: folder_ok_def)
  have "i\<lparr>fi_name := n\<rparr> = i" using i(4) by (cases i) simp
  then have al: "hm_map (file_map d) n = None"
    "ramfs_file_hashmap_insert (file_map d) n i h = hm_insert (=) file_node_size (file_map d) n i h" for h
    using ff.aliased(2,6) [OF fok refl, of n] new n(1) by (simp_all add: file_defs)
  have t: "tbl_ok e K (file_map d) (hp s) (dom own)" using fok own(1) ownedD(3) [OF own(2) d] by (auto simp: tbl_ok_def)
  have n127: "length n \<le> 127" using n(1) by simp
  from he.insert_absent [OF separates_eq t n(2) n127 al(1), of file_node_size i]
  show ?thesis
  proof (elim disjE exE conjE)
    fix h assume "hm_insert (=) file_node_size (file_map d) n i (hp s) = Some (0, file_map d, h)" "tbl_ok e K (file_map d) h (dom own)"
    then show ?thesis using al(2) core_ok_heap [OF ok own(2)] by (auto simp: tbl_ok_def)
  next
    fix a m h assume f: "hm_insert (=) file_node_size (file_map d) n i (hp s) = Some (1, m, h)"
      "hm_map m = (hm_map (file_map d))(n \<mapsto> i)" "a \<notin> dom own" "set (hm_nodes m) = insert a (set (hm_nodes (file_map d)))"
      "tbl_ok e K m h (insert a (dom own))"
    let ?s = "s\<lparr>hp := h, dirs := (dirs s)(p \<mapsto> d\<lparr>file_map := m\<rparr>)\<rparr>" and ?own = "own(a \<mapsto> OFile p)"
    have m: "hm_ok K m" "heap_ok e h (dom ?own)" using f(5) by (simp_all add: tbl_ok_def)
    have le: "own b = Some x \<Longrightarrow> ?own b = Some x" for b x using f(3) by auto
    have ex: "file_ok (fdata s) j" if "hm_map (file_map d) k = Some j" for j k using C(3) d that by (auto simp: files_ok_def)
    have fi: "file_ok (fdata s) i" using i by (simp add: file_ok_def content_def)
    have "own b = Some x \<Longrightarrow> x \<noteq> OFile p \<Longrightarrow> (\<forall>k. x \<noteq> OData p k) \<Longrightarrow> ?own b = Some x \<and> fdata s b = fdata s b" for b x
      using le by blast
    moreover have "b \<in> set (hm_nodes m) \<Longrightarrow> ?own b = Some (OFile p)" for b
      using f(4) le [of b] ownedD(3) [OF own(2) d, of b] by auto
    moreover have "?own (fi_ptr j) = Some (OData p k)" if "hm_map m k = Some j" "fi_ptr j \<noteq> 0" for k j
      using that f(2) i(1) le [of "fi_ptr j"] ownedD(4) [OF own(2) d, of k j] by (auto split: if_splits)
    moreover have "hm_map m k = Some j \<Longrightarrow> file_ok (fdata s) j" for k j using f(2) ex fi by (auto split: if_splits)
    moreover have "?s = s\<lparr>hp := h, fdata := fdata s, dirs := (dirs s)(p \<mapsto> d\<lparr>file_map := m\<rparr>)\<rparr>" by simp
    ultimately have "core_ok e K ?s \<and> view ?s = (view s)(c \<mapsto> contents (fdata s) m) \<and>
        (\<forall>xs. dir_at (dirs ?s) ROOT xs = dir_at (dirs s) ROOT xs)"
      by (rule files_update [OF ok c d own(2) m])
    moreover have "contents (fdata s) m = (the (view s c))(n \<mapsto> [])"
      using c d i(1) f(2) by (auto simp: view_def contents_def content_def fun_eq_iff)
    ultimately show ?thesis using f(1) al(2) by (intro disjI2) (auto simp: Let_def)
  qed
qed


section \<open>Data blocks\<close>

lemma hm_map_key: "hm_ok K m \<Longrightarrow> hm_map m k = Some v \<Longrightarrow> k \<in> K \<and> length k \<le> 127"
  using chain_find_key [of k "buckets m ! hash_key k"] hm_ok_node [of K m _ k] by (auto simp: hm_map_def)

lemma free_data_heap:
  assumes "heap_ok e (hp s) (dom own)" "a \<noteq> 0 \<Longrightarrow> a \<in> dom own"
  shows "heap_ok e (hp (free_data a s)) (dom (own(a := None)))"
    "b \<noteq> a \<Longrightarrow> fdata (free_data a s) b = fdata s b" "dirs (free_data a s) = dirs s"
    "free_data a s = s\<lparr>hp := hp (free_data a s), fdata := fdata (free_data a s)\<rparr>"
proof -
  have "0 \<notin> dom own" using km.live_nonnull [OF assms(1)] .
  then have "dom (own(0 := None)) = dom own" by auto
  moreover have "a \<noteq> 0 \<Longrightarrow> heap_ok e (free a (hp s)) (dom (own(a := None)))"
    using km.dealloc_ok [OF assms] by simp
  ultimately show "heap_ok e (hp (free_data a s)) (dom (own(a := None)))" using assms(1) by (auto simp: free_data_def)
qed (simp_all add: free_data_def)

text \<open>The entry \<open>k\<close> gets new data: its old block is released, the new one, if any, was not in use.\<close>

lemma replace_core:
  assumes ok: "core_ok e K s" and c: "dir_at (dirs s) ROOT c = Some p" and d: "dirs s p = Some d" and own: "owned own s" and hs: "heap_ok e (hp s) (dom own)"
    and k: "hm_map (file_map d) k = Some i"
    and h: "heap_ok e h (dom own')"
    and own': "own' = (if fi_ptr i' = 0 then own(fi_ptr i := None) else own(fi_ptr i := None, fi_ptr i' \<mapsto> OData p k))"
    and fresh: "fi_ptr i' \<noteq> 0 \<Longrightarrow> fi_ptr i' \<notin> dom (own(fi_ptr i := None))"
    and fd: "\<And>a. a \<in> dom (own(fi_ptr i := None)) \<Longrightarrow> fd a = fdata s a" "file_ok fd i'"
    and s': "s' = s\<lparr>hp := h, fdata := fd, dirs := (dirs s)(p \<mapsto> d\<lparr>file_map := hm_modify (=) (file_map d) k (\<lambda>_. i')\<rparr>)\<rparr>"
  shows "core_ok e K s' \<and> view s' = (view s)(c \<mapsto> (the (view s c))(k \<mapsto> content fd i')) \<and>
    (\<forall>xs. dir_at (dirs s') ROOT xs = dir_at (dirs s) ROOT xs)"
proof -
  note C = core_okD [OF ok]
  let ?m = "hm_modify (=) (file_map d) k (\<lambda>_. i')" and ?rest = "own(fi_ptr i := None)"
  have fok: "hm_ok K (file_map d)" using tree_okD(3) [OF C(2) d] by (simp add: folder_ok_def)
  have h0: "own 0 = None" using km.live_nonnull [OF hs] by auto
  have "k \<in> K" using hm_map_key [OF fok k] by simp
  note M = he.modify_spec [OF separates_eq fok \<open>k \<in> K\<close>, of "\<lambda>_. i'"]
  have km: "hm_map ?m = (hm_map (file_map d))(k \<mapsto> i')" using M(1) k by simp
  have lab: "fi_ptr i \<noteq> 0 \<Longrightarrow> own (fi_ptr i) = Some (OData p k)" using ownedD(4) [OF own d k] .
  have old: "own' a = Some x" if "own a = Some x" "x \<noteq> OData p k" for a x
  proof -
    have "a \<noteq> fi_ptr i" using that lab h0 by (cases "fi_ptr i = 0") auto
    then have "?rest a = Some x" using that by simp
    moreover from this have "fi_ptr i' \<noteq> 0 \<Longrightarrow> a \<noteq> fi_ptr i'" using fresh by (metis domI)
    ultimately show ?thesis by (simp add: own')
  qed
  have fd': "fd a = fdata s a" if "own a = Some x" "x \<noteq> OData p k" for a x
    using fd(1) [of a] that lab h0 by (cases "a = fi_ptr i"; cases "fi_ptr i = 0") auto
  have "own a = Some x \<Longrightarrow> x \<noteq> OFile p \<Longrightarrow> (\<forall>k. x \<noteq> OData p k) \<Longrightarrow> own' a = Some x \<and> fd a = fdata s a" for a x
    using old fd' by blast
  moreover have "a \<in> set (hm_nodes ?m) \<Longrightarrow> own' a = Some (OFile p)" for a using M(3) ownedD(3) [OF own d] old by simp
  moreover have "own' (fi_ptr j) = Some (OData p k')" if "hm_map ?m k' = Some j" "fi_ptr j \<noteq> 0" for k' j
    using that km old ownedD(4) [OF own d, of k' j] by (cases "k' = k") (auto simp: own')
  moreover have "file_ok fd j" if "hm_map ?m k' = Some j" for k' j
  proof (cases "k' = k")
    case False
    then have j: "hm_map (file_map d) k' = Some j" using that km by simp
    then have "file_ok (fdata s) j" using C(3) d by (auto simp: files_ok_def)
    moreover have "fi_ptr j \<noteq> 0 \<Longrightarrow> fd (fi_ptr j) = fdata s (fi_ptr j)" using ownedD(4) [OF own d j] fd' False by simp
    ultimately show ?thesis by (auto simp: file_ok_def content_def)
  qed (use that km fd(2) in simp)
  ultimately have "core_ok e K s' \<and> view s' = (view s)(c \<mapsto> contents fd ?m) \<and> (\<forall>xs. dir_at (dirs s') ROOT xs = dir_at (dirs s) ROOT xs)"
    using s' by (rule files_update [OF ok c d own M(2) h])
  moreover have "contents fd ?m = (the (view s c))(k \<mapsto> content fd i')"
  proof
    fix k'
    have "content fd j = content (fdata s) j" if "hm_map (file_map d) k' = Some j" "k' \<noteq> k" for j
      using that ownedD(4) [OF own d that(1)] fd' by (auto simp: content_def)
    then show "contents fd ?m k' = ((the (view s c))(k \<mapsto> content fd i')) k'"
      using c d km by (cases "hm_map (file_map d) k'") (auto simp: view_def contents_def)
  qed
  ultimately show ?thesis by simp
qed


section \<open>rm\<close>

lemma rm_core:
  assumes ok: "core_ok e K s" and c: "dir_at (dirs s) ROOT c = Some p" and d: "dirs s p = Some d"
    and k: "k = hm_key file_streq (file_map d) n" "hm_map (file_map d) k = Some i"
  shows "\<exists>m h. let s2 = free_data (fi_ptr i) s; s' = s2\<lparr>hp := h, dirs := (dirs s)(p \<mapsto> d\<lparr>file_map := m\<rparr>)\<rparr> in
    ramfs_file_hashmap_delete (file_map d) n (hp s2) = (1, m, h) \<and> core_ok e K s' \<and>
    view s' = (view s)(c \<mapsto> (the (view s c))(k := None)) \<and> (\<forall>xs. dir_at (dirs s') ROOT xs = dir_at (dirs s) ROOT xs)"
proof -
  note C = core_okD [OF ok]
  obtain own where own: "heap_ok e (hp s) (dom own)" "owned own s" using C(4) by blast
  have fok: "hm_ok K (file_map d)" using tree_okD(3) [OF C(2) d] by (simp add: folder_ok_def)
  have kK: "k \<in> K" using hm_map_key [OF fok k(2)] by simp
  let ?s2 = "free_data (fi_ptr i) s" and ?rest = "own(fi_ptr i := None)"
  have lab: "fi_ptr i \<noteq> 0 \<Longrightarrow> own (fi_ptr i) = Some (OData p k)" using ownedD(4) [OF own(2) d k(2)] .
  have h0: "own 0 = None" using km.live_nonnull [OF own(1)] by auto
  have ne: "a \<noteq> fi_ptr i" if "own a = Some x" "x \<noteq> OData p k" for a x
    using that lab h0 by (cases "fi_ptr i = 0") auto
  have "fi_ptr i \<noteq> 0 \<Longrightarrow> fi_ptr i \<in> dom own" using lab by (simp add: domI)
  note F = free_data_heap [OF own(1) this]
  have nodes0: "own a = Some (OFile p) \<and> a \<noteq> fi_ptr i" if "a \<in> set (hm_nodes (file_map d))" for a
    using ownedD(3) [OF own(2) d that] ne by auto
  have t: "tbl_ok e K (file_map d) (hp ?s2) (dom ?rest)" using fok F(1) nodes0 by (auto simp: tbl_ok_def)
  obtain r m h P where del: "hm_delete (=) (file_map d) k (hp ?s2) = (r, m, h)" "tbl_ok e K m h P"
    "hm_map m = (hm_map (file_map d))(k := None)" "r = (if hm_map (file_map d) k = None then 0 else 1)"
    "P \<subseteq> dom ?rest" "P - set (hm_nodes m) = dom ?rest - set (hm_nodes (file_map d))"
    using he.delete_spec [OF separates_eq t kK] by blast
  let ?own = "?rest |` P"
  have dm: "hm_ok K m" "dom ?own = P" "heap_ok e h P" "set (hm_nodes m) \<subseteq> P" using del(2,5) by (auto simp: tbl_ok_def)
  have old: "?own a = Some x" if "own a = Some x" "x \<noteq> OFile p" "x \<noteq> OData p k" for a x
  proof -
    have "a \<notin> set (hm_nodes (file_map d))" "a \<noteq> fi_ptr i" using nodes0 [of a] ne that by auto
    then have "a \<in> dom ?rest - set (hm_nodes (file_map d))" using that by auto
    then have "a \<in> P" unfolding del(6) [symmetric] by simp
    then show ?thesis using that \<open>a \<noteq> fi_ptr i\<close> by simp
  qed
  let ?s = "?s2\<lparr>hp := h, dirs := (dirs s)(p \<mapsto> d\<lparr>file_map := m\<rparr>)\<rparr>"
  have s': "?s = s\<lparr>hp := h, fdata := fdata ?s2, dirs := (dirs s)(p \<mapsto> d\<lparr>file_map := m\<rparr>)\<rparr>"
    by (simp add: free_data_def)
  have "own a = Some x \<Longrightarrow> x \<noteq> OFile p \<Longrightarrow> (\<forall>k. x \<noteq> OData p k) \<Longrightarrow> ?own a = Some x \<and> fdata ?s2 a = fdata s a" for a x
    using old ne F(2) by blast
  moreover have "?own a = Some (OFile p)" if "a \<in> set (hm_nodes m)" for a
  proof -
    have "a \<in> P" "a \<in> set (hm_nodes (file_map d))" using that dm(4) del(5,6) by auto
    then show ?thesis using nodes0 [of a] by simp
  qed
  moreover have oth: "hm_map (file_map d) k' = Some j" "k' \<noteq> k" if "hm_map m k' = Some j" for k' j
    using that del(3) by (auto split: if_splits)
  then have "?own (fi_ptr j) = Some (OData p k')" if "hm_map m k' = Some j" "fi_ptr j \<noteq> 0" for k' j
    using that old ownedD(4) [OF own(2) d] by simp
  moreover have same: "content (fdata ?s2) j = content (fdata s) j \<and> file_ok (fdata ?s2) j" if "hm_map m k' = Some j" for k' j
  proof -
    have j: "hm_map (file_map d) k' = Some j" "k' \<noteq> k" using oth that by blast+
    then have "file_ok (fdata s) j" using C(3) d by (auto simp: files_ok_def)
    moreover have "fi_ptr j \<noteq> 0 \<Longrightarrow> fdata ?s2 (fi_ptr j) = fdata s (fi_ptr j)" using ownedD(4) [OF own(2) d j(1)] ne F(2) j(2) by simp
    ultimately show ?thesis by (auto simp: file_ok_def content_def)
  qed
  then have "hm_map m k' = Some j \<Longrightarrow> file_ok (fdata ?s2) j" for k' j by blast
  ultimately have "core_ok e K ?s \<and> view ?s = (view s)(c \<mapsto> contents (fdata ?s2) m) \<and>
      (\<forall>xs. dir_at (dirs ?s) ROOT xs = dir_at (dirs s) ROOT xs)"
    using dm s' by (intro files_update [OF ok c d own(2), of m h ?own]) simp_all
  moreover have "contents (fdata ?s2) m = (the (view s c))(k := None)"
  proof
    fix k'
    show "contents (fdata ?s2) m k' = ((the (view s c))(k := None)) k'"
      using same [of k'] c d del(3) by (cases "hm_map (file_map d) k'") (auto simp: view_def contents_def)
  qed
  moreover have "ramfs_file_hashmap_delete (file_map d) n (hp ?s2) = (1, m, h)"
    using ff.aliased(3) [OF fok k(1)] del(1,4) k(2) by (simp add: file_defs)
  ultimately show ?thesis by (intro exI [of _ m] exI [of _ h]) (simp add: Let_def)
qed


section \<open>write\<close>

lemma write_core:
  assumes ok: "core_ok e K s" and c: "dir_at (dirs s) ROOT c = Some p" and d: "dirs s p = Some d"
    and k: "k = hm_key file_streq (file_map d) n" "hm_map (file_map d) k = Some i"
    and b: "base_dir from s = Some p" and len: "unat len \<le> length bytes" "unat len \<le> 2 ^ 32 - 8"
  shows "(\<exists>s'. fs_write (Some n) (Some bytes) len from s = Some (- 4, s')) \<or>
    (\<exists>h fd ds. let s' = s\<lparr>hp := h, fdata := fd, dirs := ds\<rparr> in
      fs_write (Some n) (Some bytes) len from s = Some (0, s') \<and> core_ok e K s' \<and>
      view s' = (view s)(c \<mapsto> (the (view s c))(k \<mapsto> take (unat len) bytes)) \<and>
      (\<forall>xs. dir_at ds ROOT xs = dir_at (dirs s) ROOT xs))"
proof -
  note C = core_okD [OF ok]
  obtain own where own: "heap_ok e (hp s) (dom own)" "owned own s" using C(4) by blast
  have fok: "folder_ok K d" using tree_okD(3) [OF C(2) d] .
  then have mok: "hm_ok K (file_map d)" by (simp add: folder_ok_def)
  have p0: "p \<noteq> 0" using dir_at_nonzero [OF C(2) c] .
  have i: "file_ok (fdata s) i" using C(3) d k(2) by (auto simp: files_ok_def)
  let ?s2 = "free_data (fi_ptr i) s" and ?rest = "own(fi_ptr i := None)"
  have "fi_ptr i \<noteq> 0 \<Longrightarrow> fi_ptr i \<in> dom own" using ownedD(4) [OF own(2) d k(2)] by (simp add: domI)
  note F = free_data_heap [OF own(1) this]
  obtain q h where q: "malloc len (hp ?s2) = Some (q, h)" using km.alloc_total [OF F(1)] by blast
  let ?i = "i\<lparr>fi_ptr := q, fi_length := uint len, fi_type := written_type d i\<rparr>"
  let ?fd = "if len > 0 then (fdata ?s2)(q \<mapsto> take (unat len) bytes) else fdata ?s2"
  let ?m = "hm_modify (=) (file_map d) k (\<lambda>_. ?i)"
  let ?s = "s\<lparr>hp := h, fdata := ?fd, dirs := (dirs s)(p \<mapsto> d\<lparr>file_map := ?m\<rparr>)\<rparr>"
  have mod: "hm_modify file_streq (file_map d) n (\<lambda>i. i\<lparr>fi_ptr := q, fi_length := uint len, fi_type := w\<rparr>) =
      hm_modify (=) (file_map d) k (\<lambda>_. i\<lparr>fi_ptr := q, fi_length := uint len, fi_type := w\<rparr>)" for w
    using ff.aliased(4) [OF mok k(1)] k(2) by (auto simp: hm_modify_def hm_map_def Let_def)
  have head: "fs_write (Some n) (Some bytes) len from s =
      (if q = 0 \<and> len > 0 then Some (- 4, ?s2\<lparr>hp := h\<rparr>) else Some (0, ?s))"
  proof -
    have "mark_dirty (d\<lparr>file_map := m\<rparr>) = d\<lparr>file_map := m\<rparr>" for m using fok by (simp add: mark_dirty_def folder_ok_def)
    moreover have "?s2\<lparr>hp := h, fdata := fd, dirs := ds\<rparr> = s\<lparr>hp := h, fdata := fd, dirs := ds\<rparr>"
      "?s2\<lparr>hp := h, dirs := ds\<rparr> = s\<lparr>hp := h, fdata := fdata ?s2, dirs := ds\<rparr>" for fd ds by (simp_all add: free_data_def)
    ultimately show ?thesis
      using b p0 k(2) q len(1) folder_here [OF C(2) d] lazy_noop [OF C(2) d] F(3)
      by (simp add: fs_write_def file_find_key [OF fok] k(1) [symmetric] mod set_folder_def Let_def)
  qed
  show ?thesis
  proof (cases "q = 0 \<and> len > 0")
    case True
    then show ?thesis using head by auto
  next
    case False
    have q0: "len = 0 \<Longrightarrow> q = 0" using q by (simp add: malloc.simps [of 0])
    have fresh: "q \<noteq> 0 \<Longrightarrow> q \<notin> dom ?rest \<and> heap_ok e h (insert q (dom ?rest))" using km.alloc_fresh [OF F(1) q] by simp
    have h: "heap_ok e h (dom (if fi_ptr ?i = 0 then ?rest else ?rest(fi_ptr ?i \<mapsto> OData p k)))"
      using fresh km.alloc_null [OF F(1)] q by (cases "q = 0") simp_all
    have fd: "?fd a = fdata s a" if "a \<in> dom ?rest" for a
    proof -
      have "a \<noteq> fi_ptr i" "q \<noteq> 0 \<Longrightarrow> a \<noteq> q" using that fresh by auto
      then show ?thesis using F(2) False by (cases "q = 0") auto
    qed
    have ct: "content ?fd ?i = take (unat len) bytes" using False q0 by (cases "q = 0") (auto simp: content_def word_gt_0)
    have "unat len \<le> 2 ^ 24 - 8" if "q \<noteq> 0" using malloc_at_most_pool [OF F(1) q that len(2)] .
    moreover have z: "q = 0 \<longleftrightarrow> len = 0" using False q0 by (auto simp: word_gt_0)
    ultimately have sz: "length (take (unat len) bytes) = unat len" "unat len \<le> 2 ^ 24" using len(1) by (cases "q = 0"; simp)+
    have "q \<noteq> 0 \<Longrightarrow> ?fd q \<noteq> None \<and> take (unat len) bytes \<noteq> []" using z sz(1) by (auto simp: word_gt_0 unat_eq_0)
    moreover have "fi_drive_addr ?i = 0" "fi_length ?i = int (unat len)" "fi_ptr ?i = q" using i by (simp_all add: file_ok_def)
    ultimately have "file_ok ?fd ?i" unfolding file_ok_def ct using sz by simp
    then have "core_ok e K ?s \<and> view ?s = (view s)(c \<mapsto> (the (view s c))(k \<mapsto> content ?fd ?i)) \<and>
        (\<forall>xs. dir_at (dirs ?s) ROOT xs = dir_at (dirs s) ROOT xs)"
      using fresh fd by (intro replace_core [OF ok c d own(2) own(1) k(2) h]) simp_all
    then show ?thesis
      using head False ct
      by (intro disjI2 exI [of _ h] exI [of _ ?fd] exI [of _ "(dirs s)(p \<mapsto> d\<lparr>file_map := ?m\<rparr>)"]) simp
  qed
qed


section \<open>backspace\<close>

lemma backspace_length:
  assumes "0 < count" "0 \<le> L" "L \<le> 2 ^ 24"
  shows "unat (of_int (L - (if count > L then sint (of_int L :: u32) else count)) :: u32) = nat L - nat count"
proof -
  have "sint (of_int L :: u32) = L" using assms by (simp add: signed_of_int signed_take_bit_int_eq_self)
  then have "L - (if count > L then sint (of_int L :: u32) else count) = int (nat L - nat count)" using assms by auto
  moreover have "unat (of_int (int j) :: u32) = j" if "j \<le> 2 ^ 24" for j using that by (simp add: unat_of_nat)
  ultimately show ?thesis using assms by simp
qed

lemma backspace_core:
  assumes ok: "core_ok e K s" and c: "dir_at (dirs s) ROOT c = Some p" and d: "dirs s p = Some d"
    and k: "k = hm_key file_streq (file_map d) n" "hm_map (file_map d) k = Some i"
    and r: "resolve_parent nm from s = Some (Inr (p, n))" and cnt: "0 < count" and ne: "content (fdata s) i \<noteq> []"
  shows "(\<exists>h. fs_backspace (Some nm) count from s = Some (- 6, s\<lparr>hp := h\<rparr>) \<and> core_ok e K (s\<lparr>hp := h\<rparr>)) \<or>
    (\<exists>h fd ds. let s' = s\<lparr>hp := h, fdata := fd, dirs := ds\<rparr>; L = length (content (fdata s) i) in
      fs_backspace (Some nm) count from s = Some (0, s') \<and> core_ok e K s' \<and>
      view s' = (view s)(c \<mapsto> (the (view s c))(k \<mapsto> take (L - nat count) (content (fdata s) i))) \<and>
      (\<forall>xs. dir_at ds ROOT xs = dir_at (dirs s) ROOT xs))"
proof -
  note C = core_okD [OF ok]
  obtain own where own: "heap_ok e (hp s) (dom own)" "owned own s" using C(4) by blast
  have fok: "folder_ok K d" using tree_okD(3) [OF C(2) d] .
  then have mok: "hm_ok K (file_map d)" by (simp add: folder_ok_def)
  have i: "file_ok (fdata s) i" using C(3) d k(2) by (auto simp: files_ok_def)
  let ?bs = "content (fdata s) i" let ?L = "length ?bs" let ?rest = "own(fi_ptr i := None)"
  have i': "fi_length i = int ?L" "fi_drive_addr i = 0" "?L \<le> 2 ^ 24" using i by (simp_all add: file_ok_def)
  have ip: "fi_ptr i \<noteq> 0" using ne by (auto simp: content_def)
  then have bs: "fdata s (fi_ptr i) = Some ?bs" using i by (auto simp: content_def file_ok_def)
  have lab: "fi_ptr i \<in> dom own" using ownedD(4) [OF own(2) d k(2)] ip by (simp add: domI)
  define nl where "nl = (of_int (fi_length i - (if count > fi_length i then sint (of_int (fi_length i) :: u32) else count)) :: u32)"
  have nl: "unat nl = ?L - nat count" unfolding nl_def i'(1) using backspace_length [OF cnt, of "int ?L"] i'(3) by simp
  let ?e = "\<lambda>q l. i\<lparr>fi_ptr := q, fi_length := l, fi_type := RAMFS_TYPE_NEW\<rparr>"
  let ?ds = "\<lambda>q l. (dirs s)(p \<mapsto> d\<lparr>file_map := hm_modify (=) (file_map d) k (\<lambda>_. ?e q l)\<rparr>)"
  let ?free = "free_data (fi_ptr i)"
  have head: "fs_backspace (Some nm) count from s =
     (if nl = 0 then Some (0, s\<lparr>hp := hp (?free s), fdata := fdata (?free s), dirs := ?ds 0 0\<rparr>)
      else do {
        (q, h) \<leftarrow> malloc nl (hp s);
        (if q = 0 then Some (- 6, s\<lparr>hp := h\<rparr>)
         else let s3 = s\<lparr>hp := h, fdata := (fdata s)(q \<mapsto> take (unat nl) ?bs)\<rparr>
              in Some (0, s\<lparr>hp := hp (?free s3), fdata := fdata (?free s3), dirs := ?ds q (uint nl)\<rparr>))
      })"
  proof -
    have "mark_dirty (d\<lparr>file_map := m\<rparr>) = d\<lparr>file_map := m\<rparr>" for m using fok by (simp add: mark_dirty_def folder_ok_def)
    moreover have "hm_modify file_streq (file_map d) n f = hm_modify (=) (file_map d) k f" for f
      using ff.aliased(4) [OF mok k(1)] .
    moreover have "\<not> count < 0" "count \<noteq> 0" "fi_length i \<noteq> 0" "\<not> ?L < unat nl" using cnt ne i'(1) nl by auto
    ultimately show ?thesis
      using r k(2) i'(2) bs ip folder_here [OF C(2) d] lazy_noop [OF C(2) d]
      by (simp add: fs_backspace_def file_find_key [OF fok] k(1) [symmetric] load_entry_MEM [OF fok] nl_def [symmetric]
          set_folder_def free_data_def Let_def cong: if_cong split del: if_split del: of_int_diff)
  qed
  show ?thesis
  proof (cases "nl = 0")
    case True
    note F = free_data_heap [OF own(1) lab]
    let ?s = "s\<lparr>hp := hp (?free s), fdata := fdata (?free s), dirs := ?ds 0 0\<rparr>"
    have "file_ok (fdata (?free s)) (?e 0 0)" using i'(2) by (simp add: file_ok_def content_def)
    then have "core_ok e K ?s \<and> view ?s = (view s)(c \<mapsto> (the (view s c))(k \<mapsto> content (fdata (?free s)) (?e 0 0))) \<and>
        (\<forall>xs. dir_at (dirs ?s) ROOT xs = dir_at (dirs s) ROOT xs)"
      using F by (intro replace_core [OF ok c d own(2) own(1) k(2), where own' = ?rest]) auto
    moreover have "content (fdata (?free s)) (?e 0 0) = take (?L - nat count) ?bs" using True nl by (simp add: content_def)
    ultimately show ?thesis
      using head True by (intro disjI2 exI [of _ "hp (?free s)"] exI [of _ "fdata (?free s)"] exI [of _ "?ds 0 0"]) simp
  next
    case False
    show ?thesis
    proof (rule km.alloc_cases [OF own(1), of nl])
      fix h assume "malloc nl (hp s) = Some (0, h)" "heap_ok e h (dom own)"
      then show ?thesis using head False core_ok_heap [OF ok own(2)] by auto
    next
      fix q h assume q: "malloc nl (hp s) = Some (q, h)" "q \<noteq> 0" "q \<notin> dom own" "heap_ok e h (insert q (dom own))"
      let ?s3 = "s\<lparr>hp := h, fdata := (fdata s)(q \<mapsto> take (unat nl) ?bs)\<rparr>" and ?i = "?e q (uint nl)"
      let ?own = "own(q \<mapsto> OData p k)"
      have qi: "q \<noteq> fi_ptr i" using q(3) lab by auto
      have "heap_ok e (hp ?s3) (dom ?own)" "fi_ptr i \<in> dom ?own" using q(4) lab by simp_all
      note F = free_data_heap [OF this]
      let ?fd = "fdata (?free ?s3)" and ?h = "hp (?free ?s3)"
      have h: "heap_ok e ?h (dom (?rest(q \<mapsto> OData p k)))" using F(1) qi by (simp add: fun_upd_twist)
      have fdq: "?fd q = Some (take (unat nl) ?bs)" using F(2) [OF qi] by simp
      have fd: "?fd a = fdata s a" if "a \<in> dom ?rest" for a
      proof -
        have "a \<noteq> q" "a \<noteq> fi_ptr i" using that q(3) by auto
        then show ?thesis using F(2) by simp
      qed
      have lt: "length (take (unat nl) ?bs) = unat nl" using nl by simp
      have ct: "content ?fd ?i = take (unat nl) ?bs" using fdq q(2) by (simp add: content_def)
      let ?s = "s\<lparr>hp := ?h, fdata := ?fd, dirs := ?ds q (uint nl)\<rparr>"
      have "file_ok ?fd ?i"
        unfolding file_ok_def ct using i'(2,3) lt fdq q(2) False nl by (auto simp: unat_eq_0 uint_nat)
      then have "core_ok e K ?s \<and> view ?s = (view s)(c \<mapsto> (the (view s c))(k \<mapsto> content ?fd ?i)) \<and>
          (\<forall>xs. dir_at (dirs ?s) ROOT xs = dir_at (dirs s) ROOT xs)"
        using h fd q by (intro replace_core [OF ok c d own(2) own(1) k(2), where own' = "?rest(q \<mapsto> OData p k)"]) auto
      then show ?thesis
        using head False ct nl q(1,2) by (intro disjI2 exI [of _ ?h] exI [of _ ?fd] exI [of _ "?ds q (uint nl)"]) (simp add: Let_def)
    qed
  qed
qed


section \<open>rmdir\<close>

lemma hm_count_zero:
  assumes "hm_ok K m" "hm_count m = 0"
  shows "hm_nodes m = []" "hm_map m = Map.empty" "hm_destroy m h = (hm_init, h)"
proof -
  have "concat (buckets m) = []" using assms by (simp add: hm_ok_def)
  then show "hm_nodes m = []" by (simp add: hm_nodes_def)
  then show "hm_destroy m h = (hm_init, h)" by (simp add: hm_destroy_def hm_init_def)
  show "hm_map m = Map.empty" using assms hm_count_card [OF assms(1)] dom_hm_map [OF assms(1)]
    by (simp add: \<open>concat (buckets m) = []\<close> hm_keys_def)
qed

lemma view_remove:
  assumes "dirs s p = Some d" "dirs s q = Some t" "p \<noteq> q" "tree_ok K (dirs s)" "dir_at (dirs s) ROOT (c @ [n]) = Some q"
    and "dirs s' = (dirs s)(p \<mapsto> d\<lparr>foder_map := m\<rparr>, q := None)" "fdata s' = fdata s"
    and da: "\<And>xs. dir_at (dirs s') ROOT xs = (if xs = c @ [n] then None else dir_at (dirs s) ROOT xs)"
  shows "view s' = (view s)(c @ [n] := None)"
proof
  fix xs
  have "xs \<noteq> c @ [n] \<Longrightarrow> dir_at (dirs s) ROOT xs = Some r \<Longrightarrow> r \<noteq> q" for r
    using path_unique [OF assms(4) _ assms(5)] by blast
  moreover have "view s' xs = map_option (\<lambda>p. contents (fdata s) (file_map (the (dirs s' p))))
      (if xs = c @ [n] then None else dir_at (dirs s) ROOT xs)"
    by (simp add: view_def da assms(7))
  ultimately show "view s' xs = ((view s)(c @ [n] := None)) xs"
    using assms(1,6) by (cases "dir_at (dirs s) ROOT xs") (auto simp: view_def)
qed

lemma owned_remove:
  assumes own: "owned own s" and d: "dirs s p = Some d" "p \<noteq> q" and q: "dirs s q = Some t" "q \<noteq> ROOT"
    and P: "P \<subseteq> dom own" "P - set (hm_nodes m) = dom own - set (hm_nodes (foder_map d))" "set (hm_nodes m) \<subseteq> P"
    and ds: "dirs s' = (dirs s)(p \<mapsto> d\<lparr>foder_map := m\<rparr>, q := None)" "env_map s' = env_map s" "command_map s' = command_map s"
  shows "owned (own |` (P - {q})) s'"
proof -
  let ?own = "own |` (P - {q})"
  have keep: "?own a = Some x" if "own a = Some x" "x \<noteq> ONode p" "a \<noteq> q" for a x
  proof -
    have "a \<notin> set (hm_nodes (foder_map d))" using ownedD(2) [OF own d(1), of a] that by auto
    then have "a \<in> P" using P(2) that(1) by blast
    then show ?thesis using that by simp
  qed
  have nq: "a \<noteq> q" if "own a = Some x" "x \<noteq> ODir" for a x using ownedD(1) [OF own q] that by auto
  have other: "folder_owned ?own r b" if r: "dirs s r = Some b" "r \<noteq> q" "r \<noteq> p" for r b
    using ownedD [OF own r(1)] keep nq r(2,3) unfolding folder_owned_def by simp
  have "?own a = Some (ONode p)" if "a \<in> set (hm_nodes m)" for a
  proof -
    have "a \<in> P" "a \<in> set (hm_nodes (foder_map d))" using that P by auto
    then show ?thesis using ownedD(2) [OF own d(1), of a] nq [of a] by simp
  qed
  then have "folder_owned ?own p (d\<lparr>foder_map := m\<rparr>)"
    using ownedD [OF own d(1)] keep nq d(2) unfolding folder_owned_def by simp
  moreover have "\<forall>a\<in>ut_owns (env_map s). ?own a = Some OEnv" "\<forall>a\<in>ut_owns (command_map s). ?own a = Some OCmd"
    using own keep nq unfolding owned_def by simp_all
  ultimately show ?thesis unfolding owned_def ds using other by auto
qed

lemma rmdir_core:
  assumes ok: "core_ok e K s" and c: "dir_at (dirs s) ROOT c = Some p" and d: "dirs s p = Some d"
    and b: "base_dir from s = Some p"
    and n: "hm_map (foder_map d) n = Some i" "dirs s (di_ptr i) = Some t" "hm_count (foder_map t) = 0" "hm_count (file_map t) = 0"
  shows "\<exists>h ds. let s' = s\<lparr>hp := h, dirs := ds\<rparr> in fs_rmdir (Some n) from s = Some (0, s') \<and> core_ok e K s' \<and>
    view s' = (view s)(c @ [n] := None) \<and> (\<forall>xs. dir_at ds ROOT xs = (if xs = c @ [n] then None else dir_at (dirs s) ROOT xs))"
proof -
  note C = core_okD [OF ok]
  obtain own where own: "heap_ok e (hp s) (dom own)" "owned own s" using C(4) by blast
  let ?q = "di_ptr i"
  have fok: "folder_ok K d" "folder_ok K t" using tree_okD(3) [OF C(2)] d n(2) by blast+
  then have mok: "hm_ok UNIV (foder_map d)" "hm_ok UNIV (foder_map t)" "hm_ok K (file_map t)" by (simp_all add: folder_ok_def)
  have p0: "p \<noteq> 0" using dir_at_nonzero [OF C(2) c] .
  note Z = hm_count_zero [OF mok(2) n(3)] hm_count_zero [OF mok(3) n(4)]
  have tb: "tbl_ok e UNIV (foder_map d) (hp s) (dom own)" using mok(1) own(1) ownedD(2) [OF own(2) d] by (auto simp: tbl_ok_def)
  obtain m h P where del: "hm_delete ramfs_streq (foder_map d) n (hp s) = (1, m, h)" "tbl_ok e UNIV m h P"
    "hm_map m = (hm_map (foder_map d))(n := None)" "P \<subseteq> dom own" "P - set (hm_nodes m) = dom own - set (hm_nodes (foder_map d))"
    using fo.delete_spec [OF foder_separates tb UNIV_I, of n] n(1) by auto
  have dm: "hm_ok UNIV m" "heap_ok e h P" "set (hm_nodes m) \<subseteq> P" using del(2) by (simp_all add: tbl_ok_def)
  note R = tree_remove [OF C(2) d n(1,2) Z(2) dm(1) del(3)]
  note da = dir_at_remove [OF C(2) d n(1,2) Z(2) dm(1) del(3) c]
  let ?ds = "(dirs s)(p \<mapsto> d\<lparr>foder_map := m\<rparr>, ?q := None)" let ?s = "s\<lparr>hp := free ?q h, dirs := ?ds\<rparr>"
  have head: "fs_rmdir (Some n) from s = Some (0, ?s)"
  proof -
    have q0: "?q \<noteq> 0" using n(2) tree_okD(1) [OF C(2)] by auto
    have "mark_dirty (d\<lparr>foder_map := m\<rparr>) = d\<lparr>foder_map := m\<rparr>" for m using fok by (simp add: mark_dirty_def folder_ok_def)
    moreover have "(dirs s)(p \<mapsto> x, ?q := None, p \<mapsto> x) = (dirs s)(p \<mapsto> x, ?q := None)" for x using R(1) by (auto simp: fun_eq_iff)
    ultimately show ?thesis
      using b p0 n mok(1) del(1) Z(3,6) R(1) q0 folder_here [OF C(2) d] folder_here [OF C(2) n(2)] lazy_noop [OF C(2) d]
      by (simp add: fs_rmdir_def foder_find_map foder_defs file_defs fo.find_map [OF foder_separates] set_folder_def free_folder_def folder_def Let_def)
  qed
  have own': "owned (own |` (P - {?q})) ?s"
    by (rule owned_remove [OF own(2) d R(1) n(2) R(2) del(4,5) dm(3)]) simp_all
  have "own ?q = Some ODir" using ownedD(1) [OF own(2) n(2) R(2)] .
  then have qP: "?q \<in> P" using ownedD(2) [OF own(2) d, of ?q] del(5) by auto
  have "dom (own |` (P - {?q})) = P - {?q}" using del(4) by auto
  then have "heap_ok e (free ?q h) (dom (own |` (P - {?q})))" using km.dealloc_ok [OF dm(2) qP] by simp
  moreover have "files_ok ?s" using C(3) d by (simp add: files_ok_def)
  ultimately have "core_ok e K ?s" using C(1) R(3) own' by (intro core_okI [of _ _ _ "own |` (P - {?q})"]) simp_all
  moreover have "dir_at (dirs s) ROOT (c @ [n]) = Some ?q" using c d n by (simp add: dir_at_append)
  then have "view ?s = (view s)(c @ [n] := None)"
    using da by (intro view_remove [OF d n(2) R(1) C(2)]) simp_all
  ultimately show ?thesis using head da by (intro exI [of _ "free ?q h"] exI [of _ ?ds]) (simp add: Let_def)
qed

end
