(* ===== verification/Ramfs_Spec.thy ===== *)
theory Ramfs_Spec
  imports Ramfs_Ops
begin

text \<open>
  The abstract file system and the refinement. Its state is the tree of folders by path, each with its
  files as a map from names to contents; an operation on it yields the return code and the new tree. Every
  operation of \<^verbatim>\<open>kernel/src/ramfs.c\<close> returns on a state with the invariant, keeps the invariant and the
  current folder, and does what the abstract operation does, or reports that memory ran out. The
  abstract operations take the file name \<open>k\<close> under which the table files a name; on names that the
  table tells apart it is the name itself.
\<close>

type_synonym afs = "string list \<rightharpoonup> (string \<rightharpoonup> u8 list)"

section \<open>The abstract operations\<close>

definition a_mkdir :: "string list \<Rightarrow> string \<Rightarrow> string \<Rightarrow> afs \<Rightarrow> int \<times> afs" where
  "a_mkdir c n k V =
     (if n = [] \<or> length n \<ge> 128 then (- 1, V)
      else if V (c @ [n]) \<noteq> None then (- 3, V)
      else if the (V c) k \<noteq> None then (- 4, V)
      else (0, V(c @ [n] \<mapsto> Map.empty)))"

definition a_rmdir :: "string list \<Rightarrow> string \<Rightarrow> afs \<Rightarrow> int \<times> afs" where
  "a_rmdir c n V =
     (if V (c @ [n]) = None then (- 3, V)
      else if (\<exists>x. V (c @ [n, x]) \<noteq> None) \<or> the (V (c @ [n])) \<noteq> Map.empty then (- 4, V)
      else (0, V(c @ [n] := None)))"

definition a_create :: "string list \<Rightarrow> string \<Rightarrow> string \<Rightarrow> afs \<Rightarrow> int \<times> afs" where
  "a_create c n k V =
     (if V (c @ [n]) \<noteq> None then (- 3, V)
      else if the (V c) k \<noteq> None then (- 4, V)
      else (0, V(c \<mapsto> (the (V c))(n \<mapsto> []))))"

definition a_remove :: "string list \<Rightarrow> string \<Rightarrow> afs \<Rightarrow> int \<times> afs" where
  "a_remove c k V = (if the (V c) k = None then (- 3, V) else (0, V(c \<mapsto> (the (V c))(k := None))))"

definition a_write :: "string list \<Rightarrow> string \<Rightarrow> u8 list \<Rightarrow> afs \<Rightarrow> int \<times> afs" where
  "a_write c k bs V = (if the (V c) k = None then (- 3, V) else (0, V(c \<mapsto> (the (V c))(k \<mapsto> bs))))"

definition a_backspace :: "string list \<Rightarrow> string \<Rightarrow> nat \<Rightarrow> afs \<Rightarrow> int \<times> afs" where
  "a_backspace c k count V =
     (case the (V c) k of
        None \<Rightarrow> (- 3, V)
      | Some bs \<Rightarrow> (if bs = [] then (- 5, V) else (0, V(c \<mapsto> (the (V c))(k \<mapsto> take (length bs - count) bs)))))"

text \<open>The folder and the file name that a path name of \<^verbatim>\<open>touch\<close>, \<^verbatim>\<open>rm\<close> and \<^verbatim>\<open>backspace\<close> means, or the error code. The
  part before the last slash must not be empty, so \<^verbatim>\<open>/x\<close> is refused.\<close>

definition a_parent :: "afs \<Rightarrow> string list \<Rightarrow> string \<Rightarrow> int + string list \<times> string" where
  "a_parent V c nm =
     (if CHR ''/'' \<notin> set nm then Inr (c, nm)
      else let (dir, f) = split_last nm
           in if f = [] then Inl (- 1)
              else case apath (\<lambda>x. V x \<noteq> None) c dir of None \<Rightarrow> Inl (- 2) | Some c' \<Rightarrow> Inr (c', f))"

definition a_touch :: "(string list \<Rightarrow> string \<Rightarrow> string) \<Rightarrow> string list \<Rightarrow> string \<Rightarrow> afs \<Rightarrow> int \<times> afs" where
  "a_touch key c nm V =
     (if nm = [] \<or> length nm \<ge> 128 then (- 1, V)
      else case a_parent V c nm of Inl err \<Rightarrow> (err, V) | Inr (c', f) \<Rightarrow> a_create c' f (key c' f) V)"

definition a_rm :: "(string list \<Rightarrow> string \<Rightarrow> string) \<Rightarrow> string list \<Rightarrow> string \<Rightarrow> afs \<Rightarrow> int \<times> afs" where
  "a_rm key c nm V =
     (if nm = [] then (- 1, V)
      else case a_parent V c nm of Inl err \<Rightarrow> (err, V) | Inr (c', f) \<Rightarrow> a_remove c' (key c' f) V)"

definition a_shorten :: "(string list \<Rightarrow> string \<Rightarrow> string) \<Rightarrow> string list \<Rightarrow> string \<Rightarrow> int \<Rightarrow> afs \<Rightarrow> int \<times> afs" where
  "a_shorten key c nm count V =
     (if count < 0 then (- 1, V)
      else if count = 0 then (0, V)
      else case a_parent V c nm of Inl err \<Rightarrow> (err, V) | Inr (c', f) \<Rightarrow> a_backspace c' (key c' f) (nat count) V)"

section \<open>Reading the view\<close>

definition fname :: "fs \<Rightarrow> string list \<Rightarrow> string \<Rightarrow> string" where
  "fname s c n = hm_key file_streq (file_map (the (dirs s (the (dir_at (dirs s) ROOT c))))) n"

lemma view_at: "dir_at (dirs s) ROOT c = Some p \<Longrightarrow> dirs s p = Some d \<Longrightarrow> view s c = Some (contents (fdata s) (file_map d))"
  by (simp add: view_def)

lemma view_is_dir: "view s c \<noteq> None \<longleftrightarrow> is_dir s c"
  by (auto simp: view_def is_dir_def)

lemma view_dir: "(\<lambda>x. \<exists>y. view s x = Some y) = is_dir s" "(\<lambda>x. view s x \<noteq> None) = is_dir s"
  using view_is_dir [of s] by auto

lemma view_child:
  assumes "tree_ok K (dirs s)" "dir_at (dirs s) ROOT c = Some p" "dirs s p = Some d"
  shows "view s (c @ [n]) = None \<longleftrightarrow> hm_map (foder_map d) n = None"
    "hm_map (foder_map d) n = Some i \<Longrightarrow> dir_at (dirs s) ROOT (c @ [n]) = Some (di_ptr i) \<and> (\<exists>t. dirs s (di_ptr i) = Some t)"
proof -
  have da: "dir_at (dirs s) ROOT (c @ [n]) = map_option di_ptr (hm_map (foder_map d) n)"
    using assms(2,3) by (intro option_eqI) (auto simp: dir_at_snoc [OF assms(1)] filed_def)
  then show "view s (c @ [n]) = None \<longleftrightarrow> hm_map (foder_map d) n = None" by (simp add: view_def)
  show "hm_map (foder_map d) n = Some i \<Longrightarrow> dir_at (dirs s) ROOT (c @ [n]) = Some (di_ptr i) \<and> (\<exists>t. dirs s (di_ptr i) = Some t)"
    using da dir_at_dom [of "dirs s" ROOT "c @ [n]"] by auto
qed

lemma view_empty:
  assumes "tree_ok K (dirs s)" "dir_at (dirs s) ROOT c = Some p" "dirs s p = Some d"
  shows "hm_count (foder_map d) = 0 \<longleftrightarrow> (\<forall>x. view s (c @ [x]) = None)"
    "hm_count (file_map d) = 0 \<longleftrightarrow> the (view s c) = Map.empty"
proof -
  have ok: "hm_ok UNIV (foder_map d)" "hm_ok K (file_map d)" using tree_okD(3) [OF assms(1,3)] by (simp_all add: folder_ok_def)
  have z: "hm_count m = 0 \<longleftrightarrow> hm_map m = Map.empty" if "hm_ok K' m" for K' and m :: "'v hmap"
    using hm_count_zero(2) [OF that] hm_count_card [OF that] by auto
  show "hm_count (foder_map d) = 0 \<longleftrightarrow> (\<forall>x. view s (c @ [x]) = None)"
    using z [OF ok(1)] view_child(1) [OF assms] by (simp add: fun_eq_iff)
  show "hm_count (file_map d) = 0 \<longleftrightarrow> the (view s c) = Map.empty"
    using z [OF ok(2)] view_at [OF assms(2,3)] by (simp add: fun_eq_iff contents_def)
qed

lemma fname_id:
  assumes "tree_ok K (dirs s)" "dir_at (dirs s) ROOT c = Some p" "dirs s p = Some d" "separates file_streq K" "n \<in> K"
  shows "fname s c n = n"
  using tree_okD(3) [OF assms(1,3)] ff.hm_key_id [of K "file_map d", OF assms(4) _ assms(5)] assms(2,3) by (simp add: fname_def folder_ok_def)

text \<open>What is left to show of an operation that keeps the environment and the current folder.\<close>

lemma fs_ok_frame:
  assumes "fs_ok e K s" "cwd_at s c" "core_ok e K s'" "dir_at (dirs s') ROOT c = dir_at (dirs s) ROOT c"
    and "current_dir s' = current_dir s" "current_path s' = current_path s" "env_map s' = env_map s" "mount_count s' = mount_count s"
  shows "fs_ok e K s'" "cwd_at s' c"
proof -
  show "cwd_at s' c" using assms by (simp add: cwd_at_def)
  then show "fs_ok e K s'" using assms by (auto simp: fs_ok_def env_ok_def)
qed

lemma cwd_dir:
  assumes "fs_ok e K s" "cwd_at s c"
  obtains d where "core_ok e K s" "tree_ok K (dirs s)" "dir_at (dirs s) ROOT c = Some (current_dir s)" "dirs s (current_dir s) = Some d"
proof -
  have "core_ok e K s" "dir_at (dirs s) ROOT c = Some (current_dir s)" using assms by (simp_all add: fs_ok_def cwd_at_def)
  moreover from this obtain d where "dirs s (current_dir s) = Some d" using dir_at_dom by fastforce
  ultimately show thesis using that core_okD(2) by blast
qed

section \<open>Refinement\<close>

definition simulates :: "u32 \<Rightarrow> string set \<Rightarrow> string list \<Rightarrow> fs \<Rightarrow> (int \<times> fs) option \<Rightarrow> int \<times> afs \<Rightarrow> int option \<Rightarrow> bool" where
  "simulates e K c s res spec oom \<longleftrightarrow> (\<exists>r s'. res = Some (r, s') \<and> fs_ok e K s' \<and> cwd_at s' c \<and> out s' = out s \<and>
     ((r, view s') = spec \<or> oom = Some r \<and> view s' = view s \<and> fst spec = 0))"

lemma simulatesI:
  assumes "fs_ok e K s" "cwd_at s c" "res = Some (r, s')" "core_ok e K s'" "dir_at (dirs s') ROOT c = dir_at (dirs s) ROOT c"
    and "current_dir s' = current_dir s" "current_path s' = current_path s" "env_map s' = env_map s" "mount_count s' = mount_count s"
    and "out s' = out s" "(r, view s') = spec \<or> oom = Some r \<and> view s' = view s \<and> fst spec = 0"
  shows "simulates e K c s res spec oom"
  using fs_ok_frame [OF assms(1,2,4-9)] assms(3,10,11) by (auto simp: simulates_def)

lemma simulates_same:
  assumes "fs_ok e K s" "cwd_at s c" "res = Some (r, s)" "(r, view s) = spec"
  shows "simulates e K c s res spec oom"
  using assms by (auto simp: simulates_def)

lemma mkdir_sim:
  assumes ok: "fs_ok e K s" and cwd: "cwd_at s c"
  shows "simulates e K c s (fs_mkdir (Some n) None s) (a_mkdir c n (fname s c n) (view s)) (Some (- 5))"
proof -
  obtain d where C: "core_ok e K s" "tree_ok K (dirs s)" "dir_at (dirs s) ROOT c = Some (current_dir s)" "dirs s (current_dir s) = Some d"
    using cwd_dir [OF ok cwd] by blast
  have fok: "folder_ok K d" "hm_ok UNIV (foder_map d)" using tree_okD(3) [OF C(2,4)] by (simp_all add: folder_ok_def)
  have b: "base_dir None s = Some (current_dir s)" by (simp add: base_dir_def)
  note S = folder_here [OF C(2,4)] lazy_noop [OF C(2,4)] dir_at_nonzero [OF C(2,3)]
  have find: "ramfs_file_hashmap_find (file_map d) n = None \<longleftrightarrow> the (view s c) (fname s c n) = None"
    using file_find_key [OF fok(1), of n] view_at [OF C(3,4)] C(3,4) by (simp add: fname_def contents_def)
  note ch = view_child [OF C(2-4), of n]
  consider "n = [] \<or> length n \<ge> 128" | "n \<noteq> []" "length n < 128" "hm_map (foder_map d) n \<noteq> None"
    | "n \<noteq> []" "length n < 128" "hm_map (foder_map d) n = None" "ramfs_file_hashmap_find (file_map d) n \<noteq> None"
    | "n \<noteq> []" "length n < 128" "hm_map (foder_map d) n = None" "ramfs_file_hashmap_find (file_map d) n = None" by linarith
  then show ?thesis
  proof cases
    case 1
    then show ?thesis by (intro simulates_same [OF ok cwd, of _ "- 1"]) (auto simp: fs_mkdir_def a_mkdir_def)
  next
    case 2
    then show ?thesis using S b fok(2) ch
      by (intro simulates_same [OF ok cwd, of _ "- 3"]) (auto simp: fs_mkdir_def a_mkdir_def foder_find_map)
  next
    case 3
    then show ?thesis using S b fok(2) ch find
      by (intro simulates_same [OF ok cwd, of _ "- 4"]) (auto simp: fs_mkdir_def a_mkdir_def foder_find_map)
  next
    case 4
    then have sp: "a_mkdir c n (fname s c n) (view s) = (0, (view s)(c @ [n] \<mapsto> Map.empty))" using ch find by (simp add: a_mkdir_def)
    from mkdir_core [OF C(1,3,4) 4(1,2) b 4(3,4)] show ?thesis
    proof (elim disjE exE conjE)
      fix h assume f: "fs_mkdir (Some n) None s = Some (- 5, s\<lparr>hp := h\<rparr>)" "core_ok e K (s\<lparr>hp := h\<rparr>)"
      show ?thesis using f sp by (intro simulatesI [OF ok cwd f(1)]) simp_all
    next
      fix h ds q assume f: "fs_mkdir (Some n) None s = Some (0, s\<lparr>hp := h, dirs := ds\<rparr>)" "core_ok e K (s\<lparr>hp := h, dirs := ds\<rparr>)"
        "view (s\<lparr>hp := h, dirs := ds\<rparr>) = (view s)(c @ [n] \<mapsto> Map.empty)"
        "\<forall>xs. dir_at ds ROOT xs = (if xs = c @ [n] then Some q else dir_at (dirs s) ROOT xs)"
      show ?thesis using f sp by (intro simulatesI [OF ok cwd f(1)]) simp_all
    qed
  qed
qed

lemma rmdir_sim:
  assumes ok: "fs_ok e K s" and cwd: "cwd_at s c"
  shows "simulates e K c s (fs_rmdir (Some n) None s) (a_rmdir c n (view s)) None"
proof -
  obtain d where C: "core_ok e K s" "tree_ok K (dirs s)" "dir_at (dirs s) ROOT c = Some (current_dir s)" "dirs s (current_dir s) = Some d"
    using cwd_dir [OF ok cwd] by blast
  have fok: "hm_ok UNIV (foder_map d)" using tree_okD(3) [OF C(2,4)] by (simp add: folder_ok_def)
  have b: "base_dir None s = Some (current_dir s)" by (simp add: base_dir_def)
  note S = folder_here [OF C(2,4)] lazy_noop [OF C(2,4)] dir_at_nonzero [OF C(2,3)] foder_find_map [OF fok]
  note ch = view_child [OF C(2-4), of n]
  show ?thesis
  proof (cases "hm_map (foder_map d) n")
    case None
    then show ?thesis using S b ch
      by (intro simulates_same [OF ok cwd, of _ "- 3"]) (auto simp: fs_rmdir_def a_rmdir_def)
  next
    case (Some i)
    then obtain t where t: "dir_at (dirs s) ROOT (c @ [n]) = Some (di_ptr i)" "dirs s (di_ptr i) = Some t" using ch(2) by blast
    note em = view_empty [OF C(2) t]
    show ?thesis
    proof (cases "hm_count (foder_map t) = 0 \<and> hm_count (file_map t) = 0")
      case True
      then have "a_rmdir c n (view s) = (0, (view s)(c @ [n] := None))" using em ch(1) Some by (simp add: a_rmdir_def)
      moreover obtain h ds where f: "fs_rmdir (Some n) None s = Some (0, s\<lparr>hp := h, dirs := ds\<rparr>)" "core_ok e K (s\<lparr>hp := h, dirs := ds\<rparr>)"
        "view (s\<lparr>hp := h, dirs := ds\<rparr>) = (view s)(c @ [n] := None)"
        "\<forall>xs. dir_at ds ROOT xs = (if xs = c @ [n] then None else dir_at (dirs s) ROOT xs)"
        using rmdir_core [OF C(1,3,4) b Some t(2)] True by (auto simp: Let_def)
      ultimately show ?thesis using f by (intro simulatesI [OF ok cwd f(1)]) simp_all
    next
      case False
      then have "a_rmdir c n (view s) = (- 4, view s)" using em ch(1) Some by (auto simp: a_rmdir_def)
      then show ?thesis using False S b Some folder_here [OF C(2) t(2)]
        by (intro simulates_same [OF ok cwd, of _ "- 4"]) (auto simp: fs_rmdir_def)
    qed
  qed
qed

text \<open>Path names with a file part.\<close>

lemma resolve_parent_sim:
  assumes ok: "fs_ok e K s" and cwd: "cwd_at s c" and len: "length nm < 512"
  shows "resolve_parent nm None s = Some (case a_parent (view s) c nm of
      Inl err \<Rightarrow> Inl err | Inr (c', f) \<Rightarrow> Inr (the (dir_at (dirs s) ROOT c'), f))"
    and "a_parent (view s) c nm = Inr (c', f) \<Longrightarrow> is_dir s c'"
    and "a_parent (view s) c nm = Inr (c', f) \<Longrightarrow> length f \<le> length nm"
proof -
  have C: "tree_ok K (dirs s)" "dir_at (dirs s) ROOT c = Some (current_dir s)"
    using core_okD(2) [OF fs_okD(1) [OF ok]] cwd by (simp_all add: cwd_at_def)
  have root: "dir_at (dirs s) ROOT [] = Some ROOT" using tree_okD(2) [OF C(1)] by auto
  obtain dir fn where sl: "split_last nm = (dir, fn)" by fastforce
  have l: "length dir < 512" "length fn \<le> length nm"
    using sl len length_takeWhile_le [of "\<lambda>c. c \<noteq> CHR ''/''" "rev nm"] by (auto simp: split_last_def Let_def)
  have nz: "the (dir_at (dirs s) ROOT c') \<noteq> 0" if "apath (is_dir s) c dir = Some c'" for c'
    using get_dir_spec(2) [OF C l(1) that] dir_at_nonzero [OF C(1)] by (auto simp: is_dir_def)
  have ab: "hd dir = CHR ''/'' \<Longrightarrow> apath (is_dir s) [] dir = apath (is_dir s) c dir" by (simp add: apath_def)
  show "resolve_parent nm None s = Some (case a_parent (view s) c nm of
      Inl err \<Rightarrow> Inl err | Inr (c', f) \<Rightarrow> Inr (the (dir_at (dirs s) ROOT c'), f))"
  proof (cases "CHR ''/'' \<in> set nm \<and> fn \<noteq> []")
    case False
    then show ?thesis using len sl C(2) by (auto simp: resolve_parent_def a_parent_def strcpy_into_def base_dir_def)
  next
    case True
    have "resolve_parent nm None s = do {
        parent \<leftarrow> get_dir_by_path (if dir \<noteq> [] \<and> hd dir = CHR ''/'' then ROOT else current_dir s) (Some dir) s;
        Some (if parent = 0 then Inl (- 2) else Inr (parent, fn)) }"
      using True len sl by (simp add: resolve_parent_def strcpy_into_def base_dir_def)
    also have "get_dir_by_path (if dir \<noteq> [] \<and> hd dir = CHR ''/'' then ROOT else current_dir s) (Some dir) s =
        Some (case apath (is_dir s) c dir of None \<Rightarrow> 0 | Some c' \<Rightarrow> the (dir_at (dirs s) ROOT c'))"
      using get_dir_spec(1) [OF C l(1)] get_dir_spec(1) [OF C(1) root l(1)] ab by simp
    finally show ?thesis using True sl nz by (cases "apath (is_dir s) c dir") (simp_all add: a_parent_def view_dir)
  qed
  show "a_parent (view s) c nm = Inr (c', f) \<Longrightarrow> is_dir s c'"
    using sl C(2) get_dir_spec(2) [OF C l(1)] by (auto simp: a_parent_def is_dir_def view_dir split: if_splits option.splits)
  show "a_parent (view s) c nm = Inr (c', f) \<Longrightarrow> length f \<le> length nm"
    using sl l(2) by (auto simp: a_parent_def view_dir split: if_splits option.splits)
qed

lemma a_parent_name: "a_parent V c nm = Inr (c', f) \<Longrightarrow> f = snd (split_last nm)"
proof -
  have "snd (split_last nm) = nm" if "CHR ''/'' \<notin> set nm"
  proof -
    have "takeWhile (\<lambda>c. c \<noteq> CHR ''/'') (rev nm) = rev nm" using that by (auto simp: takeWhile_eq_all_conv)
    then show ?thesis by (simp only: split_last_def Let_def snd_conv rev_rev_ident)
  qed
  then show "a_parent V c nm = Inr (c', f) \<Longrightarrow> f = snd (split_last nm)"
    by (auto simp: a_parent_def split: if_splits option.splits prod.splits)
qed

text \<open>The facts about the folder \<open>p\<close>, at path \<open>c'\<close>, and the file name \<open>f\<close> that the path name \<open>nm\<close> means.\<close>

definition file_site :: "u32 \<Rightarrow> string set \<Rightarrow> fs \<Rightarrow> string \<Rightarrow> string list \<Rightarrow> string \<Rightarrow> u32 \<Rightarrow> foder \<Rightarrow> bool" where
  "file_site e K s nm c' f p d \<longleftrightarrow> resolve_parent nm None s = Some (Inr (p, f)) \<and>
     core_ok e K s \<and>
     tree_ok K (dirs s) \<and>
     dir_at (dirs s) ROOT c' = Some p \<and>
     dirs s p = Some d \<and>
     folder_ok K d \<and>
     folder s p = Some d \<and>
     lazy_load_directory p s = Some s \<and>
     p \<noteq> 0 \<and>
     f = snd (split_last nm) \<and>
     length f \<le> length nm \<and>
     fname s c' f = hm_key file_streq (file_map d) f \<and>
     view s c' = Some (contents (fdata s) (file_map d)) \<and>
     ramfs_file_hashmap_find (file_map d) f = hm_map (file_map d) (fname s c' f)"

lemma file_siteD:
  assumes "file_site e K s nm c' f p d"
  shows "resolve_parent nm None s = Some (Inr (p, f))"
    "core_ok e K s"
    "tree_ok K (dirs s)"
    "dir_at (dirs s) ROOT c' = Some p"
    "dirs s p = Some d"
    "folder_ok K d"
    "folder s p = Some d"
    "lazy_load_directory p s = Some s"
    "p \<noteq> 0"
    "f = snd (split_last nm)"
    "length f \<le> length nm"
    "fname s c' f = hm_key file_streq (file_map d) f"
    "view s c' = Some (contents (fdata s) (file_map d))"
    "ramfs_file_hashmap_find (file_map d) f = hm_map (file_map d) (fname s c' f)"
  using assms unfolding file_site_def by blast+

text \<open>The common start of the three operations that take a path name with a file part.\<close>

lemma parent_cases:
  assumes ok: "fs_ok e K s" and cwd: "cwd_at s c" and len: "length nm < 512"
  obtains err where "a_parent (view s) c nm = Inl err" "resolve_parent nm None s = Some (Inl err)"
  | c' f p d where "a_parent (view s) c nm = Inr (c', f)" "file_site e K s nm c' f p d"
proof (cases "a_parent (view s) c nm")
  case (Inl err)
  then show thesis using resolve_parent_sim(1) [OF ok cwd len] that(1) by simp
next
  case (Inr x)
  obtain c' f where a: "a_parent (view s) c nm = Inr (c', f)" using Inr by (cases x) simp
  have C: "core_ok e K s" "tree_ok K (dirs s)" using fs_okD(1) [OF ok] core_okD(2) by blast+
  obtain p where p: "dir_at (dirs s) ROOT c' = Some p" using resolve_parent_sim(2) [OF ok cwd len a] by (auto simp: is_dir_def)
  then obtain d where d: "dirs s p = Some d" using dir_at_dom by fastforce
  have fok: "folder_ok K d" using tree_okD(3) [OF C(2) d] .
  have fn: "fname s c' f = hm_key file_streq (file_map d) f" using p d by (simp add: fname_def)
  have rp: "resolve_parent nm None s = Some (Inr (p, f))" using resolve_parent_sim(1) [OF ok cwd len] a p by simp
  have fd: "ramfs_file_hashmap_find (file_map d) f = hm_map (file_map d) (fname s c' f)"
    using file_find_key [OF fok, of f] fn by simp
  have "file_site e K s nm c' f p d" unfolding file_site_def
    using rp C p d fok folder_here [OF C(2) d] lazy_noop [OF C(2) d] dir_at_nonzero [OF C(2) p]
      a_parent_name [OF a] resolve_parent_sim(3) [OF ok cwd len a] fn view_at [OF p d] fd by blast
  then show thesis using that(2) a by blast
qed

lemma touch_sim:
  assumes ok: "fs_ok e K s" and cwd: "cwd_at s c" and K: "snd (split_last nm) \<in> K"
  shows "simulates e K c s (fs_touch (Some nm) None s) (a_touch (fname s) c nm (view s)) (Some (- 5))"
proof (cases "nm = [] \<or> length nm \<ge> 128")
  case True
  then show ?thesis by (intro simulates_same [OF ok cwd, of _ "- 1"]) (auto simp: fs_touch_def a_touch_def)
next
  case False
  then have len: "nm \<noteq> []" "length nm < 128" "length nm < 512" by auto
  show ?thesis
  proof (rule parent_cases [OF ok cwd len(3)])
    fix err assume "a_parent (view s) c nm = Inl err" "resolve_parent nm None s = Some (Inl err)"
    then show ?thesis using len by (intro simulates_same [OF ok cwd, of _ err]) (simp_all add: fs_touch_def a_touch_def)
  next
    fix c' f p d assume ap: "a_parent (view s) c nm = Inr (c', f)" and site: "file_site e K s nm c' f p d"
    note a = ap file_siteD [OF site]
    have mok: "hm_ok UNIV (foder_map d)" "fd_mount d = None" "mark_dirty (d\<lparr>file_map := m\<rparr>) = d\<lparr>file_map := m\<rparr>" for m
      using a(7) by (simp_all add: folder_ok_def mark_dirty_def)
    note ch = view_child(1) [OF a(4-6), of f]
    have sp: "a_touch (fname s) c nm (view s) =
        (if hm_map (foder_map d) f \<noteq> None then (- 3, view s) else if hm_map (file_map d) (fname s c' f) \<noteq> None then (- 4, view s)
         else (0, (view s)(c' \<mapsto> (the (view s c'))(f \<mapsto> []))))"
      using a(1,14) len ch by (auto simp: a_touch_def a_create_def contents_def)
    let ?i = "\<lparr>fi_name = f, fi_type = RAMFS_TYPE_MEM, fi_length = 0, fi_ptr = 0, fi_drive_addr = 0\<rparr>"
    have head: "fs_touch (Some nm) None s =
        (if hm_map (foder_map d) f \<noteq> None then Some (- 3, s) else if hm_map (file_map d) (fname s c' f) \<noteq> None then Some (- 4, s)
         else do {
           (okc, m, h) \<leftarrow> ramfs_file_hashmap_insert (file_map d) f ?i (hp s);
           (if okc = 0 then Some (- 5, s\<lparr>hp := h\<rparr>) else Some (0, s\<lparr>hp := h, dirs := (dirs s)(p \<mapsto> d\<lparr>file_map := m\<rparr>)\<rparr>)) })"
      using a(2,8,9,15) len mok by (simp add: fs_touch_def foder_find_map set_folder_def cong: if_cong)
    consider "hm_map (foder_map d) f \<noteq> None" | "hm_map (foder_map d) f = None" "hm_map (file_map d) (fname s c' f) \<noteq> None"
      | "hm_map (foder_map d) f = None" "ramfs_file_hashmap_find (file_map d) f = None" using a(15) by fastforce
    then show ?thesis
    proof cases
      case 1
      then show ?thesis using sp head by (intro simulates_same [OF ok cwd, of _ "- 3"]) auto
    next
      case 2
      then show ?thesis using sp head by (intro simulates_same [OF ok cwd, of _ "- 4"]) auto
    next
      case 3
      have f: "length f < 128" "f \<in> K" using a(11,12) K len by auto
      have i: "fi_ptr ?i = 0" "fi_length ?i = 0" "fi_drive_addr ?i = 0" "fi_name ?i = f" by simp_all
      from touch_core [OF a(3,5,6) f 3(2) i] show ?thesis
      proof (elim disjE exE conjE)
        fix h assume "ramfs_file_hashmap_insert (file_map d) f ?i (hp s) = Some (0, file_map d, h)" "core_ok e K (s\<lparr>hp := h\<rparr>)"
        then show ?thesis using sp head 3 a(15) by (intro simulatesI [OF ok cwd, of _ "- 5" "s\<lparr>hp := h\<rparr>"]) simp_all
      next
        fix m h assume t: "ramfs_file_hashmap_insert (file_map d) f ?i (hp s) = Some (1, m, h)"
          "let s' = s\<lparr>hp := h, dirs := (dirs s)(p \<mapsto> d\<lparr>file_map := m\<rparr>)\<rparr> in core_ok e K s' \<and>
             view s' = (view s)(c' \<mapsto> (the (view s c'))(f \<mapsto> [])) \<and> (\<forall>xs. dir_at (dirs s') ROOT xs = dir_at (dirs s) ROOT xs)"
        show ?thesis using sp head 3 a(15) t
          by (intro simulatesI [OF ok cwd, of _ 0 "s\<lparr>hp := h, dirs := (dirs s)(p \<mapsto> d\<lparr>file_map := m\<rparr>)\<rparr>"]) (simp_all add: Let_def)
      qed
    qed
  qed
qed

lemma rm_sim:
  assumes ok: "fs_ok e K s" and cwd: "cwd_at s c" and len: "length nm < 512"
  shows "simulates e K c s (fs_rm (Some nm) None s) (a_rm (fname s) c nm (view s)) None"
proof (cases "nm = []")
  case True
  then show ?thesis by (intro simulates_same [OF ok cwd, of _ "- 1"]) (auto simp: fs_rm_def a_rm_def)
next
  case ne: False
  show ?thesis
  proof (rule parent_cases [OF ok cwd len])
    fix err assume "a_parent (view s) c nm = Inl err" "resolve_parent nm None s = Some (Inl err)"
    then show ?thesis using ne by (intro simulates_same [OF ok cwd, of _ err]) (simp_all add: fs_rm_def a_rm_def)
  next
    fix c' f p d assume ap: "a_parent (view s) c nm = Inr (c', f)" and site: "file_site e K s nm c' f p d"
    note a = ap file_siteD [OF site]
    have sp: "a_rm (fname s) c nm (view s) = (if hm_map (file_map d) (fname s c' f) = None then (- 3, view s)
        else (0, (view s)(c' \<mapsto> (the (view s c'))(fname s c' f := None))))"
      using a(1,14) ne by (simp add: a_rm_def a_remove_def contents_def)
    show ?thesis
    proof (cases "hm_map (file_map d) (fname s c' f)")
      case None
      then show ?thesis using sp a(2,8,9,15) ne by (intro simulates_same [OF ok cwd, of _ "- 3"]) (simp_all add: fs_rm_def)
    next
      case (Some i)
      obtain m h where r: "let s2 = free_data (fi_ptr i) s; s' = s2\<lparr>hp := h, dirs := (dirs s)(p \<mapsto> d\<lparr>file_map := m\<rparr>)\<rparr> in
          ramfs_file_hashmap_delete (file_map d) f (hp s2) = (1, m, h) \<and> core_ok e K s' \<and>
          view s' = (view s)(c' \<mapsto> (the (view s c'))(fname s c' f := None)) \<and> (\<forall>xs. dir_at (dirs s') ROOT xs = dir_at (dirs s) ROOT xs)"
        using rm_core [OF a(3,5,6,13) Some] by blast
      let ?s = "(free_data (fi_ptr i) s)\<lparr>hp := h, dirs := (dirs s)(p \<mapsto> d\<lparr>file_map := m\<rparr>)\<rparr>"
      have "mark_dirty (d\<lparr>file_map := m\<rparr>) = d\<lparr>file_map := m\<rparr>" using a(7) by (simp add: folder_ok_def mark_dirty_def)
      moreover have "dirs (free_data (fi_ptr i) s) = dirs s" by (simp add: free_data_def)
      ultimately have "fs_rm (Some nm) None s = Some (0, ?s)"
        using a(2,8,9,15) ne Some r by (simp add: fs_rm_def Let_def set_folder_def)
      from simulatesI [OF ok cwd this] show ?thesis using sp Some r by (simp add: Let_def free_data_def)
    qed
  qed
qed

lemma backspace_sim:
  assumes ok: "fs_ok e K s" and cwd: "cwd_at s c" and len: "length nm < 512"
  shows "simulates e K c s (fs_backspace (Some nm) count None s) (a_shorten (fname s) c nm count (view s)) (Some (- 6))"
proof (cases "count \<le> 0")
  case True
  then show ?thesis
    by (cases "count = 0") (auto simp: fs_backspace_def a_shorten_def intro!: simulates_same [OF ok cwd])
next
  case pos: False
  show ?thesis
  proof (rule parent_cases [OF ok cwd len])
    fix err assume "a_parent (view s) c nm = Inl err" "resolve_parent nm None s = Some (Inl err)"
    then show ?thesis using pos by (intro simulates_same [OF ok cwd, of _ err]) (simp_all add: fs_backspace_def a_shorten_def)
  next
    fix c' f p d assume ap: "a_parent (view s) c nm = Inr (c', f)" and site: "file_site e K s nm c' f p d"
    note a = ap file_siteD [OF site]
    show ?thesis
    proof (cases "hm_map (file_map d) (fname s c' f)")
      case None
      then show ?thesis using a(1,2,8,9,14,15) pos
        by (intro simulates_same [OF ok cwd, of _ "- 3"]) (simp_all add: fs_backspace_def a_shorten_def a_backspace_def contents_def)
    next
      case (Some i)
      have fi: "file_ok (fdata s) i" using core_okD(3) [OF a(3)] a(6) Some by (auto simp: files_ok_def)
      have cv: "the (view s c') (fname s c' f) = Some (content (fdata s) i)" using a(14) Some by (simp add: contents_def)
      show ?thesis
      proof (cases "content (fdata s) i = []")
        case True
        then show ?thesis using a(1,2,8,9,15) pos Some fi cv
          by (intro simulates_same [OF ok cwd, of _ "- 5"])
            (simp_all add: fs_backspace_def a_shorten_def a_backspace_def load_entry_MEM [OF a(7)] file_ok_def)
      next
        case False
        then have sp: "a_shorten (fname s) c nm count (view s) = (0, (view s)(c' \<mapsto> (the (view s c'))
            (fname s c' f \<mapsto> take (length (content (fdata s) i) - nat count) (content (fdata s) i))))"
          using a(1) pos cv by (simp add: a_shorten_def a_backspace_def)
        have "0 < count" using pos by simp
        from backspace_core [OF a(3,5,6,13) Some a(2) this False] show ?thesis
        proof (elim disjE exE conjE)
          fix h assume b: "fs_backspace (Some nm) count None s = Some (- 6, s\<lparr>hp := h\<rparr>)" "core_ok e K (s\<lparr>hp := h\<rparr>)"
          show ?thesis using sp b by (intro simulatesI [OF ok cwd b(1)]) simp_all
        next
          fix h fd ds assume b: "let s' = s\<lparr>hp := h, fdata := fd, dirs := ds\<rparr>; L = length (content (fdata s) i) in
            fs_backspace (Some nm) count None s = Some (0, s') \<and> core_ok e K s' \<and>
            view s' = (view s)(c' \<mapsto> (the (view s c'))(fname s c' f \<mapsto> take (L - nat count) (content (fdata s) i))) \<and>
            (\<forall>xs. dir_at ds ROOT xs = dir_at (dirs s) ROOT xs)"
          then have "fs_backspace (Some nm) count None s = Some (0, s\<lparr>hp := h, fdata := fd, dirs := ds\<rparr>)" by (simp add: Let_def)
          from simulatesI [OF ok cwd this] show ?thesis using sp b by (simp add: Let_def)
        qed
      qed
    qed
  qed
qed

lemma write_sim:
  assumes ok: "fs_ok e K s" and cwd: "cwd_at s c" and len: "unat len \<le> length bytes" "unat len \<le> 2 ^ 32 - 8"
  shows "simulates e K c s (fs_write (Some n) (Some bytes) len None s) (a_write c (fname s c n) (take (unat len) bytes) (view s)) None \<or>
    the (view s c) (fname s c n) \<noteq> None \<and> (\<exists>s'. fs_write (Some n) (Some bytes) len None s = Some (- 4, s'))"
proof -
  obtain d where C: "core_ok e K s" "tree_ok K (dirs s)" "dir_at (dirs s) ROOT c = Some (current_dir s)" "dirs s (current_dir s) = Some d"
    using cwd_dir [OF ok cwd] by blast
  have fok: "folder_ok K d" using tree_okD(3) [OF C(2,4)] .
  have b: "base_dir None s = Some (current_dir s)" by (simp add: base_dir_def)
  have fn: "fname s c n = hm_key file_streq (file_map d) n" using C(3,4) by (simp add: fname_def)
  note find = file_find_key [OF fok, of n, folded fn] and va = view_at [OF C(3,4)]
  show ?thesis
  proof (cases "hm_map (file_map d) (fname s c n)")
    case None
    have "simulates e K c s (fs_write (Some n) (Some bytes) len None s) (a_write c (fname s c n) (take (unat len) bytes) (view s)) None"
      using None find va b folder_here [OF C(2,4)] lazy_noop [OF C(2,4)]
      by (intro simulates_same [OF ok cwd, of _ "- 3"]) (simp_all add: fs_write_def a_write_def contents_def)
    then show ?thesis ..
  next
    case (Some i)
    then have sp: "the (view s c) (fname s c n) \<noteq> None"
      "a_write c (fname s c n) (take (unat len) bytes) (view s) = (0, (view s)(c \<mapsto> (the (view s c))(fname s c n \<mapsto> take (unat len) bytes)))"
      using va by (simp_all add: a_write_def contents_def)
    from write_core [OF C(1,3,4) fn Some b len] show ?thesis
    proof (elim disjE exE)
      fix s' assume "fs_write (Some n) (Some bytes) len None s = Some (- 4, s')"
      then show ?thesis using sp(1) by blast
    next
      fix h fd ds assume w: "let s' = s\<lparr>hp := h, fdata := fd, dirs := ds\<rparr> in
        fs_write (Some n) (Some bytes) len None s = Some (0, s') \<and> core_ok e K s' \<and>
        view s' = (view s)(c \<mapsto> (the (view s c))(fname s c n \<mapsto> take (unat len) bytes)) \<and>
        (\<forall>xs. dir_at ds ROOT xs = dir_at (dirs s) ROOT xs)"
      then have "fs_write (Some n) (Some bytes) len None s = Some (0, s\<lparr>hp := h, fdata := fd, dirs := ds\<rparr>)" by (simp add: Let_def)
      from simulatesI [OF ok cwd this] show ?thesis using sp w by (simp add: Let_def)
    qed
  qed
qed


section \<open>cat and cd\<close>

definition bytes_text :: "u8 list \<Rightarrow> string" where
  "bytes_text bs = map (\<lambda>b. char_of (unat b)) (filter (\<lambda>b. b \<noteq> 0) bs)"

lemma print_bytes_spec: "print_bytes bs s = Some (s\<lparr>out := out s @ bytes_text bs\<rparr>)"
proof (induction bs arbitrary: s)
  case (Cons b bs)
  have "ucast (ucast b :: u32) = b" by transfer simp
  then have "say ''%c'' [ArgI (ucast b)] s = Some (s\<lparr>out := out s @ bytes_text [b]\<rparr>)"
    by (simp add: say_def printf_c [of "[]", simplified] bytes_text_def)
  then show ?case using Cons by (simp add: bytes_text_def)
qed (simp add: bytes_text_def)

lemma cat_spec:
  assumes ok: "fs_ok e K s" and cwd: "cwd_at s c"
  shows "fs_cat (Some n) None s = (case the (view s c) (fname s c n) of
      None \<Rightarrow> Some (- 3, s) | Some bs \<Rightarrow> Some (0, s\<lparr>out := out s @ bytes_text bs\<rparr>))"
proof -
  obtain d where C: "core_ok e K s" "tree_ok K (dirs s)" "dir_at (dirs s) ROOT c = Some (current_dir s)" "dirs s (current_dir s) = Some d"
    using cwd_dir [OF ok cwd] by blast
  have fok: "folder_ok K d" using tree_okD(3) [OF C(2,4)] .
  have b: "base_dir None s = Some (current_dir s)" by (simp add: base_dir_def)
  have fn: "fname s c n = hm_key file_streq (file_map d) n" using C(3,4) by (simp add: fname_def)
  note find = file_find_key [OF fok, of n, folded fn] and va = view_at [OF C(3,4)]
  note S = find b folder_here [OF C(2,4)] lazy_noop [OF C(2,4)] load_entry_MEM [OF fok]
  show ?thesis
  proof (cases "hm_map (file_map d) (fname s c n)")
    case None
    then show ?thesis using S va by (simp add: fs_cat_def contents_def)
  next
    case (Some i)
    then have fi: "file_ok (fdata s) i" using core_okD(3) [OF C(1)] C(4) by (auto simp: files_ok_def)
    have v: "the (view s c) (fname s c n) = Some (content (fdata s) i)" using va Some by (simp add: contents_def)
    show ?thesis
    proof (cases "fi_ptr i = 0")
      case True
      then have "content (fdata s) i = []" by (simp add: content_def)
      then show ?thesis using S Some True v by (simp add: fs_cat_def bytes_text_def)
    next
      case False
      then obtain bs where bs: "fdata s (fi_ptr i) = Some bs" "content (fdata s) i = bs" "fi_length i = int (length bs)" "bs \<noteq> []"
        using fi by (auto simp: file_ok_def content_def)
      then show ?thesis using S Some False v by (simp add: fs_cat_def print_bytes_spec)
    qed
  qed
qed

lemma cd_spec:
  assumes ok: "fs_ok e K s" and cwd: "cwd_at s c" and len: "length p < 512"
  shows "case apath (\<lambda>x. view s x \<noteq> None) c p of
      None \<Rightarrow> fs_cd (Some p) s = Some (- 2, s)
    | Some c' \<Rightarrow>
        (if length (path_text c') < 512
         then \<exists>s'. fs_cd (Some p) s = Some (0, s') \<and> fs_ok e K s' \<and> cwd_at s' c' \<and> view s' = view s \<and> out s' = out s
         else fs_cd (Some p) s = None)"
proof -
  have C: "core_ok e K s" "tree_ok K (dirs s)" "dir_at (dirs s) ROOT c = Some (current_dir s)" "\<forall>n\<in>set c. plain_name n"
    using fs_okD(1) [OF ok] core_okD(2) cwd by (auto simp: cwd_at_def)
  have root: "dir_at (dirs s) ROOT [] = Some ROOT" using tree_okD(2) [OF C(2)] by auto
  have ab: "hd p = CHR ''/'' \<Longrightarrow> apath (is_dir s) [] p = apath (is_dir s) c p" by (simp add: apath_def)
  define target where "target = (case apath (is_dir s) c p of None \<Rightarrow> 0 | Some c' \<Rightarrow> the (dir_at (dirs s) ROOT c'))"
  have "apath (is_dir s) c ''/'' = Some []" by (simp add: apath_def)
  then have slash: "p = ''/'' \<Longrightarrow> target = ROOT" using root by (simp add: target_def del: dir_at.simps)
  have head: "fs_cd (Some p) s = (if target = 0 then Some (- 2, s) else do {
       abs \<leftarrow> build_absolute_path target s;
       let s1 = s\<lparr>current_path := abs, current_dir := target\<rparr>;
       (env, h) \<leftarrow> env_set ''pwd'' (current_path s1) (env_map s1) (hp s1);
       Some (0, s1\<lparr>env_map := env, hp := h\<rparr>) })"
    using slash get_dir_spec(1) [OF C(2,3) len] get_dir_spec(1) [OF C(2) root len] ab
    by (cases "p = ''/''") (auto simp: fs_cd_def target_def [symmetric])
  show ?thesis
  proof (cases "apath (is_dir s) c p")
    case None
    then show ?thesis using head by (simp add: view_dir target_def)
  next
    case (Some c')
    obtain q where q: "dir_at (dirs s) ROOT c' = Some q" using get_dir_spec(2) [OF C(2,3) len Some] by (auto simp: is_dir_def)
    have pl: "\<forall>n\<in>set c'. plain_name n" using get_dir_spec(3) [OF C(2,3) len Some C(4)] .
    have t: "target = q" "q \<noteq> 0" using Some q dir_at_nonzero [OF C(2) q] by (simp_all add: target_def)
    note ba = build_absolute_path_spec [OF C(2) q pl]
    show ?thesis
    proof (cases "length (path_text c') < 512")
      case False
      then show ?thesis using Some head t ba by (simp add: view_dir strcpy_into_def)
    next
      case True
      have E: "ut_dict {''pwd''} (env_map s)" "env_get (env_map s) ''pwd'' \<noteq> None" using fs_okD(2) [OF ok] by (simp_all add: env_ok_def)
      obtain env where env: "env_set ''pwd'' (path_text c') (env_map s) (hp s) = Some (env, hp s)" "ut_dict {''pwd''} env"
        "ut_owns env = ut_owns (env_map s)" "env_get env ''pwd'' = Some (take 255 (path_text c'))"
        using env_set_present [OF E(1) _ E(2), of "path_text c'" "hp s"] by auto
      let ?s = "s\<lparr>current_path := path_text c', current_dir := q, env_map := env\<rparr>"
      have "fs_cd (Some p) s = Some (0, ?s)" using head t ba True env(1) by (simp add: strcpy_into_def)
      moreover have "cwd_at ?s c'" using q pl True by (simp add: cwd_at_def)
      moreover have "core_ok e K ?s" using C(1) env(3) by (simp add: core_ok_def files_ok_def owned_def)
      moreover have "env_ok ?s" using env(2,4) by (simp add: env_ok_def)
      moreover have "view ?s = view s" by (simp add: view_def [abs_def])
      ultimately show ?thesis using Some True fs_okD(3) [OF ok] by (auto simp: view_dir fs_ok_def)
    qed
  qed
qed

end
