(* ===== verification/Dfs.thy ===== *)
theory Dfs
  imports Ramfs
begin

text \<open>
  The disk file system, \<^verbatim>\<open>kernel/src/dfs.c\<close>, apart from the two load functions of theory \<open>Fs_State\<close>:
  superblock and folder slots, the block bitmap, synchronisation, mounting, unmounting, preloading and
  formatting. Structures travel to and from the partition as the byte lists of their C layout. The three
  functions that recurse over the folder tree take a bound on the depth of the recursion; None covers
  running out of it, which for a tree no deeper than the bound does not happen.
\<close>

section \<open>Layout\<close>

definition DFS_MAGIC :: u32 where "DFS_MAGIC = 0x44465300"
definition DFS_BLOCK_SIZE :: nat where "DFS_BLOCK_SIZE = 1024"
definition DFS_MAX_FOLDERS :: nat where "DFS_MAX_FOLDERS = 4096"

record superblock =
  sb_magic :: u32
  total_folders :: u32
  cur_folders :: u32
  root_pointer :: u32
  bitmap_start :: u32
  data_start :: u32
  block_count :: u32

text \<open>Seven words and 508 reserved bytes.\<close>

definition sizeof_superblock :: nat where "sizeof_superblock = 7 * 4 + 508"

definition enc32 :: "u32 \<Rightarrow> u8 list" where
  "enc32 w = [ucast w, ucast (drop_bit 8 w), ucast (drop_bit 16 w), ucast (drop_bit 24 w)]"

definition enc64 :: "u64 \<Rightarrow> u8 list" where
  "enc64 w = enc32 (ucast w) @ enc32 (ucast (drop_bit 32 w))"

definition enc_superblock :: "superblock \<Rightarrow> u8 list" where
  "enc_superblock sb = enc32 (sb_magic sb) @ enc32 (total_folders sb) @ enc32 (cur_folders sb) @ enc32 (root_pointer sb) @
     enc32 (bitmap_start sb) @ enc32 (data_start sb) @ enc32 (block_count sb) @ replicate 508 0"

definition dec_superblock :: "u8 list \<Rightarrow> superblock" where
  "dec_superblock bs = \<lparr>sb_magic = le32 bs 0, total_folders = le32 bs 4, cur_folders = le32 bs 8, root_pointer = le32 bs 12,
     bitmap_start = le32 bs 16, data_start = le32 bs 20, block_count = le32 bs 24\<rparr>"

text \<open>\<^verbatim>\<open>strcpy\<close> into a zeroed name array.\<close>

definition enc_name :: "string \<Rightarrow> u8 list option" where
  "enc_name nm = map_option (\<lambda>n. map of_char n @ replicate (128 - length n) 0) (strcpy_into 128 nm)"

fun enc_subs :: "foder_info hnode list \<Rightarrow> u8 list option" where
  "enc_subs [] = Some []"
| "enc_subs (n # ns) = do {
     nm \<leftarrow> enc_name (di_name (nd_value n));
     rest \<leftarrow> enc_subs ns;
     Some (nm @ enc32 (of_int (di_drive_addr (nd_value n))) @ rest)
   }"

fun enc_files :: "file_info hnode list \<Rightarrow> u8 list option" where
  "enc_files [] = Some []"
| "enc_files (n # ns) = do {
     nm \<leftarrow> enc_name (fi_name (nd_value n));
     rest \<leftarrow> enc_files ns;
     Some (nm @ enc64 (of_int (fi_length (nd_value n))) @ enc32 (of_int (fi_drive_addr (nd_value n))) @ rest)
   }"

text \<open>The image of a folder: at most 128 entries of each kind, in bucket order, the rest zero.\<close>

definition enc_disk_folder :: "foder \<Rightarrow> u8 list option" where
  "enc_disk_folder d = do {
     let subs = take DFS_MAX_SUB_ENTRIES (concat (buckets (foder_map d)));
     let files = take DFS_MAX_SUB_ENTRIES (concat (buckets (file_map d)));
     nm \<leftarrow> enc_name (fd_name d);
     sb \<leftarrow> enc_subs subs;
     fb \<leftarrow> enc_files files;
     Some (nm @ enc32 1 @ enc32 (of_nat (length subs)) @ enc32 (of_nat (length files)) @
       sb @ replicate (132 * (DFS_MAX_SUB_ENTRIES - length subs)) 0 @
       fb @ replicate (140 * (DFS_MAX_SUB_ENTRIES - length files)) 0)
   }"

section \<open>Partition access\<close>

definition dfs_write_partition :: "int \<Rightarrow> int \<Rightarrow> u32 \<Rightarrow> u8 list \<Rightarrow> nat \<Rightarrow> fs \<Rightarrow> (int \<times> fs) option" where
  "dfs_write_partition drive part offset buf sz s =
     map_option (\<lambda>(r, ds). (r, s\<lparr>disk := ds\<rparr>)) (partition_write drive part (ucast offset) (int sz) (Some buf) (disk s))"

definition dfs_get_partition_size :: "int \<Rightarrow> int \<Rightarrow> fs \<Rightarrow> u64" where
  "dfs_get_partition_size drive part s = partition_get_sector_count drive part (disk s) * 512"

definition dfs_read_superblock :: "mount_point \<Rightarrow> fs \<Rightarrow> (int \<times> superblock \<times> fs) option" where
  "dfs_read_superblock mp s = do {
     (r, bs, s1) \<leftarrow> dfs_read_partition (partition_drive mp) (partition_index mp) 0 sizeof_superblock s;
     Some (r, dec_superblock bs, s1)
   }"

definition read_bitmap_byte :: "mount_point \<Rightarrow> u32 \<Rightarrow> fs \<Rightarrow> (int \<times> u8 \<times> fs) option" where
  "read_bitmap_byte mp off s = do {
     (r, bs, s1) \<leftarrow> dfs_read_partition (partition_drive mp) (partition_index mp) off 1 s;
     Some (r, (if r = 0 then bs ! 0 else 0), s1)
   }"

definition write_bitmap_byte :: "mount_point \<Rightarrow> u32 \<Rightarrow> u8 \<Rightarrow> fs \<Rightarrow> (int \<times> fs) option" where
  "write_bitmap_byte mp off b s = dfs_write_partition (partition_drive mp) (partition_index mp) off [b] 1 s"

section \<open>Folder structures\<close>

text \<open>One entry of \<open>dfs_load_folder_from_disk\<close>: unlike \<open>load_sub\<close> it sets neither mount point nor parent.\<close>

definition load_sub_plain :: "u32 \<Rightarrow> u8 list \<Rightarrow> nat \<Rightarrow> fs \<Rightarrow> (int option \<times> fs) option" where
  "load_sub_plain mem_folder bs i s =
     (if i \<ge> DFS_MAX_SUB_ENTRIES then None
      else do {
        nm \<leftarrow> name_at bs (sub_off i);
        let addr = sint (le32 bs (sub_off i + 128));
        (sub, h1) \<leftarrow> malloc sizeof_foder (hp s);
        (if sub = 0 then Some (Some (- 3), s\<lparr>hp := h1\<rparr>)
         else do {
           let s1 = set_folder sub (new_foder nm RAMFS_FOLDER_TYPE_DISK_CLEAN addr None 0) (s\<lparr>hp := h1\<rparr>);
           d \<leftarrow> folder s1 mem_folder;
           (r, m, h2) \<leftarrow> ramfs_hashmap_insert (foder_map d) nm
             \<lparr>di_name = nm, di_type = RAMFS_FOLDER_TYPE_DISK_CLEAN, di_ptr = sub, di_drive_addr = addr\<rparr> h1;
           Some (None, set_folder mem_folder (d\<lparr>foder_map := m\<rparr>) (s1\<lparr>hp := h2\<rparr>))
         })
      })"

definition load_file_plain :: "u32 \<Rightarrow> u8 list \<Rightarrow> nat \<Rightarrow> fs \<Rightarrow> (int option \<times> fs) option" where
  "load_file_plain mem_folder bs i s =
     (if i \<ge> DFS_MAX_SUB_ENTRIES then None
      else do {
        nm \<leftarrow> name_at bs (file_off i);
        d \<leftarrow> folder s mem_folder;
        (r, m, h1) \<leftarrow> ramfs_file_hashmap_insert (file_map d) nm
          \<lparr>fi_name = nm, fi_type = 0, fi_length = sint (le64 bs (file_off i + 128)), fi_ptr = 0,
           fi_drive_addr = sint (le32 bs (file_off i + 136))\<rparr> (hp s);
        Some (None, set_folder mem_folder (d\<lparr>file_map := m\<rparr>) (s\<lparr>hp := h1\<rparr>))
      })"

definition dfs_load_folder_from_disk :: "u32 \<Rightarrow> int \<Rightarrow> int \<Rightarrow> u32 \<Rightarrow> fs \<Rightarrow> (int \<times> fs) option" where
  "dfs_load_folder_from_disk mem_folder drive part disk_offset s = do {
     (r, bs, s1) \<leftarrow> dfs_read_partition drive part disk_offset sizeof_disk_folder s;
     (if r \<noteq> 0 then Some (- 1, s1)
      else if le32 bs 128 = 0 then Some (- 2, s1)
      else do {
        nm \<leftarrow> name_at bs 0;
        d \<leftarrow> folder s1 mem_folder;
        let s2 = set_folder mem_folder (d\<lparr>fd_name := nm, fd_type := RAMFS_FOLDER_TYPE_DISK_CLEAN,
          fd_drive_addr := uint disk_offset, is_mount_root := False, foder_map := ramfs_hashmap_init,
          file_map := ramfs_file_hashmap_init\<rparr>) s1;
        (e1, s3) \<leftarrow> each (load_sub_plain mem_folder bs) [0..<unat (le32 bs 132)] s2;
        (case e1 of Some r1 \<Rightarrow> Some (r1, s3)
         | None \<Rightarrow> do {
             (_, s4) \<leftarrow> each (load_file_plain mem_folder bs) [0..<unat (le32 bs 136)] s3;
             Some (0, s4)
           })
      })
   }"

definition dfs_save_folder_to_disk :: "foder \<Rightarrow> int \<Rightarrow> int \<Rightarrow> fs \<Rightarrow> (int \<times> fs) option" where
  "dfs_save_folder_to_disk d drive part s = do {
     img \<leftarrow> enc_disk_folder d;
     dfs_write_partition drive part (of_int (fd_drive_addr d)) img sizeof_disk_folder s
   }"

text \<open>The scan for a free folder slot, in 32-bit arithmetic: near the end of the address range the sum of the
  loop condition wraps, and then the loop need not end.\<close>

partial_function (option) slot_scan :: "mount_point \<Rightarrow> u32 \<Rightarrow> u32 \<Rightarrow> fs \<Rightarrow> (u32 \<times> fs) option" where
  "slot_scan mp offset folder_end s =
     (if offset + of_nat sizeof_disk_folder \<le> folder_end then do {
        (r, bs, s1) \<leftarrow> dfs_read_partition (partition_drive mp) (partition_index mp) offset sizeof_disk_folder s;
        (if r = 0 \<and> le32 bs 128 = 0 then Some (offset, s1)
         else slot_scan mp (offset + of_nat sizeof_disk_folder) folder_end s1)
      }
      else Some (0, s))"

definition dfs_alloc_folder_slot :: "mount_point \<Rightarrow> fs \<Rightarrow> (u32 \<times> fs) option" where
  "dfs_alloc_folder_slot mp s = do {
     (r, sb, s1) \<leftarrow> dfs_read_superblock mp s;
     (if r \<noteq> 0 then Some (0, s1) else slot_scan mp (root_pointer sb) (bitmap_start sb) s1)
   }"


section \<open>The block bitmap\<close>

text \<open>The scan for consecutive free blocks. The byte last read is cached in two static variables, which keep
  their values between calls. Inl is a failed read, Inr the start block and the length of the run.\<close>

fun block_scan :: "mount_point \<Rightarrow> u32 \<Rightarrow> nat \<Rightarrow> nat list \<Rightarrow> nat \<Rightarrow> nat \<Rightarrow> fs \<Rightarrow> ((unit + nat \<times> nat) \<times> fs) option" where
  "block_scan mp base needed [] start consecutive s = Some (Inr (start, consecutive), s)"
| "block_scan mp base needed (i # is) start consecutive s =
     (let byte_off = base + of_nat (i div 8)
      in do {
        (r, s1) \<leftarrow> (if byte_off \<noteq> last_byte_off s then do {
            (r, b, s0) \<leftarrow> read_bitmap_byte mp byte_off s;
            Some (r, if r \<noteq> 0 then s0 else s0\<lparr>byte_val := b, last_byte_off := byte_off\<rparr>)
          } else Some (0, s));
        (if r \<noteq> 0 then Some (Inl (), s1)
         else if \<not> bit (byte_val s1) (i mod 8) then
           (let start' = (if consecutive = 0 then i else start)
            in if consecutive + 1 = needed then Some (Inr (start', consecutive + 1), s1)
               else block_scan mp base needed is start' (consecutive + 1) s1)
         else block_scan mp base needed is start 0 s1)
      })"

text \<open>Set (or clear) the bits of a list of blocks on disk; the first failure stops the marking, whereas
  the clearing goes on.\<close>

fun mark_blocks :: "mount_point \<Rightarrow> u32 \<Rightarrow> nat list \<Rightarrow> fs \<Rightarrow> (bool \<times> fs) option" where
  "mark_blocks mp base [] s = Some (True, s)"
| "mark_blocks mp base (b # blocks) s = do {
     (r, v, s1) \<leftarrow> read_bitmap_byte mp (base + of_nat (b div 8)) s;
     (if r \<noteq> 0 then Some (False, s1)
      else do {
        (w, s2) \<leftarrow> write_bitmap_byte mp (base + of_nat (b div 8)) (set_bit (b mod 8) v) s1;
        (if w \<noteq> 0 then Some (False, s2) else mark_blocks mp base blocks s2)
      })
   }"

fun clear_blocks :: "mount_point \<Rightarrow> u32 \<Rightarrow> nat list \<Rightarrow> fs \<Rightarrow> fs option" where
  "clear_blocks mp base [] s = Some s"
| "clear_blocks mp base (b # blocks) s = do {
     (r, v, s1) \<leftarrow> read_bitmap_byte mp (base + of_nat (b div 8)) s;
     (if r \<noteq> 0 then clear_blocks mp base blocks s1
      else do {
        (_, s2) \<leftarrow> write_bitmap_byte mp (base + of_nat (b div 8)) (unset_bit (b mod 8) v) s1;
        clear_blocks mp base blocks s2
      })
   }"

definition blocks_for :: "u64 \<Rightarrow> nat" where
  "blocks_for sz = unat ((sz + 1023) div 1024)"

definition dfs_alloc_file_blocks :: "mount_point \<Rightarrow> u64 \<Rightarrow> fs \<Rightarrow> (u32 \<times> fs) option" where
  "dfs_alloc_file_blocks mp sz s = do {
     (r, sb, s1) \<leftarrow> dfs_read_superblock mp s;
     (if r \<noteq> 0 then Some (0, s1)
      else if blocks_for sz = 0 \<or> blocks_for sz > unat (block_count sb) then Some (0, s1)
      else do {
        (res, s2) \<leftarrow> block_scan mp (bitmap_start sb) (blocks_for sz) [0..<unat (block_count sb)] 0 0 s1;
        (case res of Inl _ \<Rightarrow> Some (0, s2)
         | Inr (start, consecutive) \<Rightarrow>
             (if consecutive < blocks_for sz then Some (0, s2)
              else do {
                (ok, s3) \<leftarrow> mark_blocks mp (bitmap_start sb) [start..<start + blocks_for sz] s2;
                Some (if ok then data_start sb + of_nat (start * DFS_BLOCK_SIZE) else 0, s3)
              }))
      })
   }"

definition dfs_free_file_blocks :: "mount_point \<Rightarrow> u32 \<Rightarrow> u64 \<Rightarrow> fs \<Rightarrow> fs option" where
  "dfs_free_file_blocks mp start_addr sz s = do {
     (r, sb, s1) \<leftarrow> dfs_read_superblock mp s;
     (if r \<noteq> 0 then Some s1
      else if start_addr < data_start sb then Some s1
      else
        let block_idx = unat ((start_addr - data_start sb) div 1024)
        in clear_blocks mp (bitmap_start sb)
             (takeWhile (\<lambda>b. b < unat (block_count sb)) [block_idx..<block_idx + blocks_for sz]) s1)
   }"


section \<open>Synchronisation\<close>

text \<open>The source compares the type of a file with \<^verbatim>\<open>RAMFS_FOLDER_TYPE_DISK_CLEAN\<close>, which has the value of
  \<^verbatim>\<open>RAMFS_TYPE_NEW\<close>. The buffer of the write is null when the file has no data block.\<close>

definition dfs_sync_file :: "file_info \<Rightarrow> mount_point \<Rightarrow> fs \<Rightarrow> (int \<times> file_info \<times> fs) option" where
  "dfs_sync_file fi mp s =
     (if fi_length fi = 0 \<or> fi_type fi = RAMFS_FOLDER_TYPE_DISK_CLEAN then Some (0, fi, s)
      else do {
        let rewrite = (fi_type fi = RAMFS_TYPE_DIRTY \<and> fi_drive_addr fi \<noteq> 0);
        s1 \<leftarrow> (if rewrite then dfs_free_file_blocks mp (of_int (fi_drive_addr fi)) (of_int (fi_length fi)) s else Some s);
        let addr0 = (if rewrite then 0 else of_int (fi_drive_addr fi) :: u32);
        (addr, s2) \<leftarrow> (if addr0 = 0 then dfs_alloc_file_blocks mp (of_int (fi_length fi)) s1 else Some (addr0, s1));
        (if addr = 0 then Some (- 2, fi, s2)
         else do {
           let fi1 = (if addr0 = 0 then fi\<lparr>fi_drive_addr := sint addr\<rparr> else fi);
           (w, ds) \<leftarrow> partition_write (partition_drive mp) (partition_index mp) (ucast addr)
             (sint (of_int (fi_length fi) :: u32)) (if fi_ptr fi = 0 then None else fdata s2 (fi_ptr fi)) (disk s2);
           let s3 = s2\<lparr>disk := ds\<rparr>;
           (if w \<noteq> 0 then Some (- 3, fi1, s3) else Some (0, fi1\<lparr>fi_type := RAMFS_FOLDER_TYPE_DISK_CLEAN\<rparr>, s3))
         })
      })"

text \<open>A store into the value of the node at an address.\<close>

definition node_store :: "u32 \<Rightarrow> 'v \<Rightarrow> 'v hmap \<Rightarrow> 'v hmap" where
  "node_store a v m = m\<lparr>buckets := map (map (\<lambda>n. if nd_addr n = a then n\<lparr>nd_value := v\<rparr> else n)) (buckets m)\<rparr>"

definition sync_node :: "u32 \<Rightarrow> mount_point \<Rightarrow> file_info hnode \<Rightarrow> fs \<Rightarrow> (int option \<times> fs) option" where
  "sync_node p mp n s =
     (if fi_type (nd_value n) = RAMFS_TYPE_NEW \<or> fi_type (nd_value n) = RAMFS_TYPE_DIRTY then do {
        (_, fi, s1) \<leftarrow> dfs_sync_file (nd_value n) mp s;
        d \<leftarrow> folder s1 p;
        Some (None, set_folder p (d\<lparr>file_map := node_store (nd_addr n) fi (file_map d)\<rparr>) s1)
      }
      else Some (None, s))"

definition find_sync_mount :: "u32 \<Rightarrow> foder \<Rightarrow> fs \<Rightarrow> mount_point option" where
  "find_sync_mount p d s =
     List.find (\<lambda>mp. root_dir mp = p \<or> is_mount_root d) (take (nat (mount_count s)) (mount_table s))"

primrec dfs_sync_folder :: "nat \<Rightarrow> u32 \<Rightarrow> fs \<Rightarrow> (int \<times> fs) option" where
  "dfs_sync_folder 0 = (\<lambda>p s. None)"
| "dfs_sync_folder (Suc depth) = (\<lambda>p s.
     if p = 0 then Some (0, s)
     else do {
       d \<leftarrow> folder s p;
       (if fd_type d = RAMFS_FOLDER_TYPE_MEM then Some (0, s)
        else case find_sync_mount p d s of
          None \<Rightarrow> Some (- 1, s)
        | Some mp \<Rightarrow>
            (if fd_type d = RAMFS_FOLDER_TYPE_DIRTY \<or> fd_type d = RAMFS_FOLDER_TYPE_NEW then do {
               (slot, s1) \<leftarrow> (if fd_type d = RAMFS_FOLDER_TYPE_NEW \<and> fd_drive_addr d = 0
                  then dfs_alloc_folder_slot mp s else Some (1, s));
               (if slot = 0 then Some (- 2, s1)
                else do {
                  let s2 = (if fd_type d = RAMFS_FOLDER_TYPE_NEW \<and> fd_drive_addr d = 0
                    then set_folder p (d\<lparr>fd_drive_addr := uint slot\<rparr>) s1 else s1);
                  (_, s3) \<leftarrow> each (\<lambda>n s. do {
                      sub \<leftarrow> folder s (di_ptr (nd_value n));
                      (if fd_type sub = RAMFS_FOLDER_TYPE_NEW \<or> fd_type sub = RAMFS_FOLDER_TYPE_DIRTY then do {
                         (_, s') \<leftarrow> dfs_sync_folder depth (di_ptr (nd_value n)) s;
                         Some (None, s')
                       } else Some (None, s))
                    }) (concat (buckets (foder_map d))) s2;
                  (_, s4) \<leftarrow> each (sync_node p mp) (concat (buckets (file_map d))) s3;
                  d4 \<leftarrow> folder s4 p;
                  (w, s5) \<leftarrow> dfs_save_folder_to_disk d4 (partition_drive mp) (partition_index mp) s4;
                  Some (0, if w = 0 then set_folder p (d4\<lparr>fd_type := RAMFS_FOLDER_TYPE_DISK_CLEAN\<rparr>) s5 else s5)
                })
             }
             else Some (0, s)))
     })"

definition dfs_sync_all :: "nat \<Rightarrow> fs \<Rightarrow> fs option" where
  "dfs_sync_all depth s = map_option snd
     (each (\<lambda>i s. do { (_, s') \<leftarrow> dfs_sync_folder depth (root_dir (mount_table s ! i)) s; Some (None, s') })
       [0..<nat (mount_count s)] s)"


section \<open>Mounting\<close>

definition is_directory_empty :: "foder \<Rightarrow> bool" where
  "is_directory_empty d = (hm_count (foder_map d) = 0 \<and> hm_count (file_map d) = 0)"

text \<open>The part of a path after its last slash.\<close>

definition last_name :: "string \<Rightarrow> string" where
  "last_name path = rev (takeWhile (\<lambda>c. c \<noteq> CHR ''/'') (rev path))"

definition dfs_mount :: "string \<Rightarrow> int \<Rightarrow> int \<Rightarrow> fs \<Rightarrow> (int \<times> fs) option" where
  "dfs_mount mountpoint drive part s = do {
     mount_parent \<leftarrow> ramfs_get_dir_by_abs_path (Some mountpoint) s;
     (if mount_parent = 0 then Some (- 1, s)
      else do {
        mpd \<leftarrow> folder s mount_parent;
        (if \<not> is_directory_empty mpd then Some (- 2, s)
         else do {
           (r, bs, s1) \<leftarrow> dfs_read_partition drive part 0 sizeof_superblock s;
           let sb = dec_superblock bs;
           (if r \<noteq> 0 then Some (- 3, s1)
            else if sb_magic sb \<noteq> DFS_MAGIC then Some (- 4, s1)
            else do {
              (rd, h1) \<leftarrow> malloc sizeof_foder (hp s1);
              (if rd = 0 then Some (- 5, s1\<lparr>hp := h1\<rparr>)
               else do {
                 (l, s2) \<leftarrow> dfs_load_folder_from_disk rd drive part (root_pointer sb)
                   (set_folder rd (new_foder [] 0 0 None 0) (s1\<lparr>hp := h1\<rparr>));
                 (if l \<noteq> 0 then Some (- 6, free_folder rd s2)
                  else do {
                    d \<leftarrow> folder s2 rd;
                    let s3 = set_folder rd (d\<lparr>is_mount_root := True, fd_mount := Some (nat (mount_count s2))\<rparr>) s2;
                    nm \<leftarrow> strcpy_into 128 (last_name mountpoint);
                    mpd3 \<leftarrow> folder s3 mount_parent;
                    (ok, m, h2) \<leftarrow> ramfs_hashmap_insert (foder_map mpd3) nm
                      \<lparr>di_name = nm, di_type = RAMFS_FOLDER_TYPE_DISK_CLEAN, di_ptr = rd,
                       di_drive_addr = sint (root_pointer sb)\<rparr> (hp s3);
                    (if ok = 0 then Some (- 7, free_folder rd (s3\<lparr>hp := h2\<rparr>))
                     else do {
                       path \<leftarrow> strcpy_into 256 mountpoint;
                       (if mount_count s3 \<ge> MAX_MOUNTS then None
                        else Some (0, (set_folder mount_parent (mpd3\<lparr>foder_map := m\<rparr>) (s3\<lparr>hp := h2\<rparr>))
                          \<lparr>mount_table := (mount_table s3)[nat (mount_count s3) :=
                              \<lparr>mp_path = path, partition_drive = drive, partition_index = part, root_dir = rd\<rparr>],
                           mount_count := mount_count s3 + 1\<rparr>))
                     })
                  })
               })
            })
         })
      })
   }"

primrec dfs_free_folder_tree :: "nat \<Rightarrow> u32 \<Rightarrow> fs \<Rightarrow> fs option" where
  "dfs_free_folder_tree 0 = (\<lambda>p s. None)"
| "dfs_free_folder_tree (Suc depth) = (\<lambda>p s.
     if p = 0 then Some s
     else do {
       d \<leftarrow> folder s p;
       (_, s1) \<leftarrow> each (\<lambda>n s. do { s' \<leftarrow> dfs_free_folder_tree depth (di_ptr (nd_value n)) s; Some (None, s') })
         (concat (buckets (foder_map d))) s;
       let s2 = fold (\<lambda>n. free_data (fi_ptr (nd_value n))) (concat (buckets (file_map d))) s1;
       let (m1, h1) = ramfs_hashmap_destroy (foder_map d) (hp s2);
       let (m2, h2) = ramfs_file_hashmap_destroy (file_map d) h1;
       Some (free_folder p (s2\<lparr>hp := h2\<rparr>))
     })"

definition find_mount :: "string \<Rightarrow> fs \<Rightarrow> nat option" where
  "find_mount mountpoint s = List.find (\<lambda>i. mp_path (mount_table s ! i) = mountpoint) [0..<nat (mount_count s)]"

text \<open>The parent path and the name that \<^verbatim>\<open>dfs_umount\<close> computes: where the only slash is the first character,
  \<^verbatim>\<open>strcpy(parent_path, "/")\<close> has overwritten the name with the terminator.\<close>

definition umount_target :: "string \<Rightarrow> string \<times> string" where
  "umount_target path =
     (let i = length path - length (last_name path) - 1
      in if CHR ''/'' \<in> set path \<and> i \<noteq> 0 then (take i path, last_name path) else (''/'', []))"

definition dfs_umount :: "nat \<Rightarrow> string \<Rightarrow> fs \<Rightarrow> (int \<times> fs) option" where
  "dfs_umount depth mountpoint s =
     (case find_mount mountpoint s of
        None \<Rightarrow> Some (- 1, s)
      | Some idx \<Rightarrow> do {
          let mp = mount_table s ! idx;
          (_, s1) \<leftarrow> dfs_sync_folder depth (root_dir mp) s;
          let (parent_path, name) = umount_target (mp_path mp);
          parent_dir \<leftarrow> ramfs_get_dir_by_abs_path (Some parent_path) s1;
          s2 \<leftarrow> (if parent_dir \<noteq> 0 then do {
              d \<leftarrow> folder s1 parent_dir;
              let (r, m, h) = ramfs_hashmap_delete (foder_map d) name (hp s1);
              Some (set_folder parent_dir (d\<lparr>foder_map := m\<rparr>) (s1\<lparr>hp := h\<rparr>))
            } else Some s1);
          s3 \<leftarrow> dfs_free_folder_tree depth (root_dir mp) s2;
          let n = nat (mount_count s3);
          let tbl = mount_table s3;
          Some (0, s3\<lparr>mount_table := take idx tbl @ take (n - idx - 1) (drop (idx + 1) tbl) @ drop (n - 1) tbl,
                      mount_count := mount_count s3 - 1\<rparr>)
        })"


section \<open>Preloading and formatting\<close>

text \<open>The data of one file, for \<^verbatim>\<open>dfs_load_folder_recursive\<close>.\<close>

definition preload_node :: "u32 \<Rightarrow> int \<Rightarrow> int \<Rightarrow> file_info hnode \<Rightarrow> fs \<Rightarrow> (int option \<times> fs) option" where
  "preload_node p drive part n s =
     (let fi = nd_value n
      in if fi_ptr fi = 0 \<and> fi_length fi > 0 then do {
           (data, h1) \<leftarrow> malloc (of_int (fi_length fi)) (hp s);
           (if data = 0 then Some (None, s\<lparr>hp := h1\<rparr>)
            else do {
              (r, bs, ds) \<leftarrow> partition_read drive part (ucast (of_int (fi_drive_addr fi) :: u32))
                (sint (of_int (fi_length fi) :: u32)) (disk s);
              (if r \<noteq> 0 then Some (None, s\<lparr>hp := free data h1, disk := ds\<rparr>)
               else do {
                 d \<leftarrow> folder s p;
                 Some (None, set_folder p (d\<lparr>file_map := node_store (nd_addr n) (fi\<lparr>fi_ptr := data\<rparr>) (file_map d)\<rparr>)
                   (s\<lparr>hp := h1, disk := ds, fdata := (fdata s)(data \<mapsto> bs)\<rparr>))
               })
            })
         }
         else Some (None, s))"

primrec dfs_load_folder_recursive :: "nat \<Rightarrow> int \<Rightarrow> int \<Rightarrow> u32 \<Rightarrow> fs \<Rightarrow> (int \<times> fs) option" where
  "dfs_load_folder_recursive 0 drive part = (\<lambda>p s. None)"
| "dfs_load_folder_recursive (Suc depth) drive part = (\<lambda>p s.
     if p = 0 then Some (0, s)
     else do {
       d \<leftarrow> folder s p;
       (_, s1) \<leftarrow> each (preload_node p drive part) (concat (buckets (file_map d))) s;
       (_, s2) \<leftarrow> each (\<lambda>n s. do {
           (_, s') \<leftarrow> dfs_load_folder_recursive depth drive part (di_ptr (nd_value n)) s;
           Some (None, s')
         }) (concat (buckets (foder_map d))) s1;
       Some (0, s2)
     })"

definition dfs_load :: "nat \<Rightarrow> string \<Rightarrow> string \<Rightarrow> fs \<Rightarrow> (int \<times> fs) option" where
  "dfs_load depth mountpoint relative_path s =
     (case find_mount mountpoint s of
        None \<Rightarrow> Some (- 1, s)
      | Some idx \<Rightarrow> do {
          full_abs \<leftarrow> strcpy_into 512 (mountpoint @ (if mountpoint \<noteq> ''/'' then ''/'' else []) @ relative_path);
          target \<leftarrow> ramfs_get_dir_by_abs_path (Some full_abs) s;
          (if target = 0 then Some (- 2, s)
           else dfs_load_folder_recursive depth (partition_drive (mount_table s ! idx)) (partition_index (mount_table s ! idx)) target s)
        })"

definition format_superblock :: "u32 \<Rightarrow> superblock" where
  "format_superblock blocks =
     (let root = of_nat sizeof_superblock;
          bitmap = root + of_nat (DFS_MAX_FOLDERS * sizeof_disk_folder);
          dstart = ((bitmap + (blocks + 7) div 8) + 511) AND NOT 511
      in \<lparr>sb_magic = DFS_MAGIC, total_folders = of_nat DFS_MAX_FOLDERS, cur_folders = 1, root_pointer = root,
          bitmap_start = bitmap, data_start = dstart, block_count = blocks - dstart div 1024\<rparr>)"

definition root_image :: "u8 list" where
  "root_image = map of_char ''/'' @ replicate 127 0 @ enc32 1 @ replicate (sizeof_disk_folder - 132) 0"

definition dfs_format :: "int \<Rightarrow> int \<Rightarrow> fs \<Rightarrow> (int \<times> fs) option" where
  "dfs_format drive part s =
     (let blocks = ucast (dfs_get_partition_size drive part s div 1024) :: u32
      in if blocks < 1024 then Some (- 1, s)
         else do {
           let sb = format_superblock blocks;
           (w1, s1) \<leftarrow> dfs_write_partition drive part 0 (enc_superblock sb) sizeof_superblock s;
           (if w1 \<noteq> 0 then Some (- 2, s1)
            else do {
              (w2, s2) \<leftarrow> dfs_write_partition drive part (root_pointer sb) root_image sizeof_disk_folder s1;
              (if w2 \<noteq> 0 then Some (- 3, s2)
               else do {
                 let bitmap_bytes = (blocks + 7) div 8;
                 (zero, h1) \<leftarrow> malloc bitmap_bytes (hp s2);
                 (if zero = 0 then Some (0, s2\<lparr>hp := h1\<rparr>)
                  else do {
                    (_, s3) \<leftarrow> dfs_write_partition drive part (bitmap_start sb) (replicate (unat bitmap_bytes) 0)
                      (unat bitmap_bytes) (s2\<lparr>hp := h1\<rparr>);
                    Some (0, s3\<lparr>hp := free zero (hp s3)\<rparr>)
                  })
               })
            })
         })"

text \<open>The longest mount path that the comparison accepts as a prefix; the last test is the kernel's
  \<open>memcmp\<close>.\<close>

definition mount_prefix :: "string \<Rightarrow> string \<Rightarrow> bool" where
  "mount_prefix abs_path mp \<longleftrightarrow>
     length abs_path \<ge> length mp \<and>
     (length mp = 1 \<or> length abs_path = length mp \<or> abs_path ! length mp = CHR ''/'') \<and>
     chars_memcmp (take (length mp) abs_path) mp = 0"

definition dfs_find_mount_point :: "string \<Rightarrow> fs \<Rightarrow> nat option" where
  "dfs_find_mount_point abs_path s =
     fst (fold (\<lambda>i (best, best_len).
        let mp = mp_path (mount_table s ! i)
        in if mount_prefix abs_path mp \<and> length mp > best_len then (Some i, length mp) else (best, best_len))
       [0..<nat (mount_count s)] (None, 0))"

end
