(* ===== verification/Shell.thy ===== *)
theory Shell
  imports Ramfs_Api Dfs
begin

text \<open>
  The disk commands (\<^verbatim>\<open>kernel/src/dfs_api.c\<close>) and the shell (\<^verbatim>\<open>kernel/src/Little_Linux.c\<close>): the line editor, command
  lookup, splitting of the arguments, expansion of variables, and the dispatch to the registered
  functions. The line buffer is the array of 512 characters of \<^verbatim>\<open>my_own_os_main\<close>; the arguments are
  positions in it, because the expansion of a variable writes into the buffer and over the arguments that
  follow. The bound on the depth of a folder tree that \<^verbatim>\<open>umount\<close> needs is the argument \<open>depth\<close>.
\<close>

section \<open>Disk commands\<close>

definition dev_name :: "int \<Rightarrow> string" where
  "dev_name d = ''sd'' @ [char_of (unat (of_int (97 + d) :: u8))]"

definition part_lines :: "int \<Rightarrow> nat list \<Rightarrow> fs \<Rightarrow> (string \<times> arg list) list" where
  "part_lines d ps s = map (\<lambda>p.
     let size_mb = partition_get_sector_count d (int p) (disk s) * 512 div (1024 * 1024)
     in (''  `- %s%d %6lluM part\<newline>'', [ArgS (dev_name d), ArgI (of_nat p + 1), ArgI (ucast size_mb), ArgI (ucast (drop_bit 32 size_mb))])) ps"

definition lsblk_drive :: "nat \<Rightarrow> fs \<Rightarrow> (int option \<times> fs) option" where
  "lsblk_drive d s = do {
     let sz = drive_size_bytes (drv (disk s)) ! d div (1024 * 1024);
     s1 \<leftarrow> say ''%-10s %6lluM disk\<newline>'' [ArgS (dev_name (int d)), ArgI (ucast sz), ArgI (ucast (drop_bit 32 sz))] s;
     (cnt, ds) \<leftarrow> get_partition_count (int d) (disk s1);
     let s2 = s1\<lparr>disk := ds\<rparr>;
     s3 \<leftarrow> say_all (part_lines (int d) [0..<nat cnt] s2) s2;
     Some (None, s3)
   }"

definition fs_lsblk_api :: "string list \<Rightarrow> fs \<Rightarrow> (int \<times> fs) option" where
  "fs_lsblk_api argv s =
     (if length argv > 1 \<and> (argv ! 1 = ''--help'' \<or> argv ! 1 = ''-h'')
      then say_ret ''lsblk: list block devices (drives and partitions)\<newline>'' [] 0 s
      else do {
        s1 \<leftarrow> say ''NAME         SIZE TYPE MOUNTPOINT\<newline>'' [] s;
        (_, s2) \<leftarrow> each lsblk_drive [0..<nat (drive_count (drv (disk s1)))] s1;
        Some (0, s2)
      })"

text \<open>The character of a C string at a position, NUL at its end.\<close>

definition char_at :: "string \<Rightarrow> nat \<Rightarrow> int" where
  "char_at str i = (if i < length str then char_int (str ! i) else 0)"

text \<open>\<open>parse_device\<close>: the drive and partition, or None for -1.\<close>

definition parse_device :: "string \<Rightarrow> fs \<Rightarrow> ((int \<times> int) option \<times> fs) option" where
  "parse_device dev s =
     (if char_at dev 0 \<noteq> 115 \<or> char_at dev 1 \<noteq> 100 then Some (None, s)
      else
        let drive_idx = char_at dev 2 - 97
        in if drive_idx < 0 \<or> drive_idx \<ge> drive_count (drv (disk s)) then Some (None, s)
           else if drop 3 dev = [] then Some (None, s)
           else do {
             v \<leftarrow> atoi (string_mem (drop 3 dev)) 0 10;
             let part_idx = sint (v - 1);
             (if part_idx < 0 then Some (None, s)
              else do {
                (cnt, ds) \<leftarrow> get_partition_count drive_idx (disk s);
                Some (if part_idx \<ge> cnt then None else Some (drive_idx, part_idx), s\<lparr>disk := ds\<rparr>)
              })
           })"

definition fs_mount_api :: "string list \<Rightarrow> fs \<Rightarrow> (int \<times> fs) option" where
  "fs_mount_api argv s =
     (if length argv \<noteq> 3 then do {
        s1 \<leftarrow> say ''mount: usage mount DEVICE MOUNTPOINT\<newline>'' [] s;
        say_ret ''Example: mount sda1 /mnt\<newline>'' [] (- 1) s1
      }
      else if argv ! 1 = ''--help'' then say_ret ''mount DEVICE MOUNTPOINT - mount a DFS partition\<newline>'' [] 0 s
      else do {
        (dev, s1) \<leftarrow> parse_device (argv ! 1) s;
        (case dev of
           None \<Rightarrow> say_ret ''mount: invalid device name. Use sda1, sda2, etc.\<newline>'' [] (- 1) s1
         | Some (drive, part) \<Rightarrow> do {
             (ret, s2) \<leftarrow> dfs_mount (argv ! 2) drive part s1;
             s3 \<leftarrow> (if ret = - 1 then say ''mount: mount point does not exist or is not a directory\<newline>'' [] s2
               else if ret = - 2 then say ''mount: mount point is not empty\<newline>'' [] s2
               else if ret = - 3 then say ''mount: failed to read superblock\<newline>'' [] s2
               else if ret = - 4 then say ''mount: not a DFS filesystem (bad magic)\<newline>'' [] s2
               else if ret = - 5 \<or> ret = - 7 then say ''mount: memory allocation failed\<newline>'' [] s2
               else if ret = - 6 then say ''mount: failed to load root directory from disk\<newline>'' [] s2
               else say ''mounted %s on %s\<newline>'' [ArgS (argv ! 1), ArgS (argv ! 2)] s2);
             Some (if ret = 0 then 0 else - 1, s3)
           })
      })"

definition fs_umount_api :: "nat \<Rightarrow> string list \<Rightarrow> fs \<Rightarrow> (int \<times> fs) option" where
  "fs_umount_api depth argv s =
     (if length argv \<noteq> 2 then say_ret ''umount: usage umount MOUNTPOINT\<newline>'' [] (- 1) s
      else if argv ! 1 = ''--help'' then say_ret ''umount MOUNTPOINT - unmount a DFS partition\<newline>'' [] 0 s
      else do {
        (ret, s1) \<leftarrow> dfs_umount depth (argv ! 1) s;
        s2 \<leftarrow> (if ret = - 1 then say ''umount: no filesystem mounted on %s\<newline>'' [ArgS (argv ! 1)] s1
           else say ''unmounted %s\<newline>'' [ArgS (argv ! 1)] s1);
        Some (if ret = 0 then 0 else - 1, s2)
      })"

definition fs_mkfs_api :: "string list \<Rightarrow> fs \<Rightarrow> (int \<times> fs) option" where
  "fs_mkfs_api argv s =
     (if length argv \<noteq> 2 then say_ret ''mkfs.dfs: usage mkfs.dfs DEVICE\<newline>'' [] (- 1) s
      else if argv ! 1 = ''--help'' then say_ret ''mkfs.dfs DEVICE - format a partition with DFS\<newline>'' [] 0 s
      else do {
        (dev, s1) \<leftarrow> parse_device (argv ! 1) s;
        (case dev of
           None \<Rightarrow> say_ret ''mkfs.dfs: invalid device name\<newline>'' [] (- 1) s1
         | Some (drive, part) \<Rightarrow> do {
             (ret, s2) \<leftarrow> dfs_format drive part s1;
             s3 \<leftarrow> (if ret = - 1 then say ''mkfs.dfs: partition too small\<newline>'' [] s2
               else if ret = - 2 then say ''mkfs.dfs: failed to write superblock\<newline>'' [] s2
               else if ret = - 3 then say ''mkfs.dfs: failed to write root directory\<newline>'' [] s2
               else say ''mkfs.dfs: formatted %s as DFS\<newline>'' [ArgS (argv ! 1)] s2);
             Some (if ret = 0 then 0 else - 1, s3)
           })
      })"

definition dfs_commands :: "(string \<times> string \<times> api) list" where
  "dfs_commands = [(''lsblk'', ''List block devices'', Fs_lsblk), (''mount'', ''Mount a DFS partition'', Fs_mount),
     (''umount'', ''Unmount a DFS partition'', Fs_umount), (''mkfs.dfs'', ''Format a partition with DFS'', Fs_mkfs)]"

definition dfs_init :: "fs \<Rightarrow> fs option" where
  "dfs_init s = reg_all dfs_commands s"


section \<open>Dispatch\<close>

definition help_callback :: "string \<Rightarrow> string \<Rightarrow> fs \<Rightarrow> fs option" where
  "help_callback name desc s = do {
     s1 \<leftarrow> say ''  %s'' [ArgS name] s;
     s2 \<leftarrow> (if desc \<noteq> [] then say '' - %s'' [ArgS desc] s1 else Some s1);
     say ''\<newline>'' [] s2
   }"

definition my_os_command_help :: "string list \<Rightarrow> fs \<Rightarrow> (int \<times> fs) option" where
  "my_os_command_help argv s = do {
     s1 \<leftarrow> say ''Welcome to Little Linux\<newline>Available commands:\<newline>'' [] s;
     s2 \<leftarrow> foreach_command help_callback (command_map s1) s1;
     Some (0, s2)
   }"

fun run_api :: "nat \<Rightarrow> api \<Rightarrow> string list \<Rightarrow> fs \<Rightarrow> (int \<times> fs) option" where
  "run_api depth Fs_mkdir = fs_mkdir_api"
| "run_api depth Fs_cd = fs_cd_api"
| "run_api depth Fs_rmdir = fs_rmdir_api"
| "run_api depth Fs_touch = fs_touch_api"
| "run_api depth Fs_write = fs_write_api"
| "run_api depth Fs_cat = fs_cat_api"
| "run_api depth Fs_ls = fs_ls_api"
| "run_api depth Fs_pwd = fs_pwd_api"
| "run_api depth Fs_rm = fs_rm_api"
| "run_api depth Fs_backspace = fs_backspace_api"
| "run_api depth Fs_lsblk = fs_lsblk_api"
| "run_api depth Fs_mount = fs_mount_api"
| "run_api depth Fs_umount = fs_umount_api depth"
| "run_api depth Fs_mkfs = fs_mkfs_api"
| "run_api depth Os_help = my_os_command_help"


section \<open>Command lines\<close>

abbreviation (input) NUL :: char where "NUL \<equiv> CHR 0x00"

definition MAX_ARGS :: nat where "MAX_ARGS = 64"

text \<open>The C string at a position of a buffer.\<close>

definition str_at :: "char list \<Rightarrow> nat \<Rightarrow> string" where
  "str_at buf p = takeWhile (\<lambda>c. c \<noteq> NUL) (drop p buf)"

definition skip_spaces :: "char list \<Rightarrow> nat \<Rightarrow> nat" where
  "skip_spaces buf p = p + length (takeWhile (\<lambda>c. c = CHR '' '') (drop p buf))"

definition word_end :: "char list \<Rightarrow> nat \<Rightarrow> nat" where
  "word_end buf p = p + length (takeWhile (\<lambda>c. c \<noteq> NUL \<and> c \<noteq> CHR '' '') (drop p buf))"

text \<open>The argument loop, for at most the given number of further arguments: their positions, and the buffer
  with the separating spaces overwritten.\<close>

fun parse_args :: "nat \<Rightarrow> char list \<Rightarrow> nat \<Rightarrow> nat list \<times> char list" where
  "parse_args 0 buf p = ([], buf)"
| "parse_args (Suc room) buf p =
     (if p \<ge> length buf \<or> buf ! p = NUL then ([], buf)
      else
        let q = word_end buf p;
            sep = (q < length buf \<and> buf ! q = CHR '' '');
            buf' = (if sep then buf[q := NUL] else buf);
            p' = (if sep then skip_spaces buf' (q + 1) else q);
            (rest, buf'') = parse_args room buf' p'
        in (p # rest, buf''))"

text \<open>\<^verbatim>\<open>my_os_command_expand_env_var(arg, 256)\<close>: \<^verbatim>\<open>strncpy\<close> writes 255 bytes, padding with zeros, and one more NUL
  follows. None is a write past the end of the array.\<close>

definition expand_env_var :: "env \<Rightarrow> nat \<Rightarrow> char list \<Rightarrow> char list option" where
  "expand_env_var env p buf =
     (if p < length buf \<and> buf ! p = CHR ''$'' then
        (case env_get env (str_at buf (p + 1)) of
           None \<Rightarrow> Some buf
         | Some val \<Rightarrow>
             (if p + 256 > length buf then None
              else Some (take p buf @ take 255 (val @ replicate 255 NUL) @ [NUL] @ drop (p + 256) buf)))
      else Some buf)"

fun expand_all :: "env \<Rightarrow> nat list \<Rightarrow> char list \<Rightarrow> char list option" where
  "expand_all env [] buf = Some buf"
| "expand_all env (p # ps) buf = do { buf' \<leftarrow> expand_env_var env p buf; expand_all env ps buf' }"

text \<open>\<^verbatim>\<open>my_os_command_run\<close>: expand every argument, the command name in its own array of 64 bytes first, then
  call the function.\<close>

definition my_os_command_run :: "nat \<Rightarrow> api \<Rightarrow> char list \<Rightarrow> nat list \<Rightarrow> char list \<Rightarrow> fs \<Rightarrow> (int \<times> char list \<times> fs) option" where
  "my_os_command_run depth func name_buf args buf s = do {
     name' \<leftarrow> expand_env_var (env_map s) 0 name_buf;
     buf' \<leftarrow> expand_all (env_map s) args buf;
     (r, s1) \<leftarrow> run_api depth func (str_at name' 0 # map (str_at buf') args) s;
     Some (r, buf', s1)
   }"

definition my_os_command_search :: "nat \<Rightarrow> char list \<Rightarrow> fs \<Rightarrow> (int \<times> char list \<times> fs) option" where
  "my_os_command_search depth buf s =
     (let cmd_len = min (word_end buf 0) 63;
          cmd_name = take cmd_len buf
      in case find_command (command_map s) cmd_name of
           None \<Rightarrow> do { s1 \<leftarrow> say ''Command not found: %s\<newline>'' [ArgS cmd_name] s; Some (- 1, buf, s1) }
         | Some cmd \<Rightarrow>
             let (args, buf') = parse_args (MAX_ARGS - 1) buf (skip_spaces buf cmd_len)
             in my_os_command_run depth (ce_func cmd) (cmd_name @ replicate (64 - cmd_len) NUL) args buf' s)"


section \<open>The line editor\<close>

record shell =
  sh_fs :: fs
  sh_buffer :: "char list"
  buf_len :: nat

definition put_char :: "nat \<Rightarrow> char \<Rightarrow> char list \<Rightarrow> char list option" where
  "put_char i c buf = (if i < length buf then Some (buf[i := c]) else None)"

definition shell_prompt :: "fs \<Rightarrow> fs option" where
  "shell_prompt s = do { pwd \<leftarrow> env_get (env_map s) ''pwd''; say ''%s$ '' [ArgS pwd] s }"

text \<open>What \<^verbatim>\<open>my_own_os_main\<close> does with one character from the keyboard. A NUL only repeats the wait.\<close>

definition shell_input :: "nat \<Rightarrow> char \<Rightarrow> shell \<Rightarrow> shell option" where
  "shell_input depth c sh =
     (if c = NUL then Some sh
      else if c = CHR 0x0A \<or> c = CHR 0x0D then do {
        buf \<leftarrow> put_char (buf_len sh) NUL (sh_buffer sh);
        s1 \<leftarrow> say ''\<newline>running command\<newline>'' [] (sh_fs sh);
        (_, buf1, s2) \<leftarrow> my_os_command_search depth buf s1;
        buf2 \<leftarrow> put_char 0 NUL buf1;
        s3 \<leftarrow> shell_prompt s2;
        Some \<lparr>sh_fs = s3, sh_buffer = buf2, buf_len = 0\<rparr>
      }
      else if c = CHR 0x08 then
        (if buf_len sh > 0 then do {
           s1 \<leftarrow> say [CHR 0x08, CHR '' '', CHR 0x08] [] (sh_fs sh);
           buf \<leftarrow> put_char (buf_len sh - 1) NUL (sh_buffer sh);
           Some \<lparr>sh_fs = s1, sh_buffer = buf, buf_len = buf_len sh - 1\<rparr>
         }
         else Some sh)
      else do {
        s1 \<leftarrow> say ''%c'' [ArgI (ucast (of_char c :: u8))] (sh_fs sh);
        buf \<leftarrow> put_char (buf_len sh) c (sh_buffer sh);
        Some \<lparr>sh_fs = s1, sh_buffer = buf, buf_len = buf_len sh + 1\<rparr>
      })"

fun shell_run :: "nat \<Rightarrow> string \<Rightarrow> shell \<Rightarrow> shell option" where
  "shell_run depth [] sh = Some sh"
| "shell_run depth (c # cs) sh = do { sh1 \<leftarrow> shell_input depth c sh; shell_run depth cs sh1 }"

end
