(* ===== verification/Uthash_Growth.thy ===== *)
theory Uthash_Growth
  imports Env_Commands
begin

text \<open>
  When adding to a \<open>uthash\<close> table returns. A table with fewer than ten elements never expands, and each
  further element doubles its buckets at most once, so that a table of at most fifteen elements stays
  below 2048 buckets: as long as a free block of 32 KB is left, \<^verbatim>\<open>env_set\<close> and \<^verbatim>\<open>register_command\<close> return.
\<close>

definition ut_small :: "'v ut_table \<Rightarrow> bool" where
  "ut_small t \<longleftrightarrow> unat (log2_num_buckets t) \<le> 5 + (length (ut_items t) - 9) \<and>
     (length (ut_items t) \<le> 9 \<longrightarrow>
        (\<forall>b\<in>set (ut_buckets t). unat (bk_count b) \<le> length (ut_items t) \<and> expand_mult b = 0))"

definition uth_small :: "'v uthash \<Rightarrow> bool" where
  "uth_small d = (case d of None \<Rightarrow> True | Some t \<Rightarrow> ut_small t)"

lemma uth_small_set [simp]: "uth_small (ut_set i v d) = uth_small d"
  by (auto simp: uth_small_def ut_set_def ut_small_def split: option.splits)

lemma make_table_returns:
  assumes "heap_ok e h P" "avail n h" "n \<ge> 1000"
  shows "\<exists>t h'. HASH_MAKE_TABLE h = Some (t :: 'v ut_table, h') \<and> ut_small t \<and> avail (n - 448) h'"
proof -
  have r: "unat (req_size sizeof_ut_table) = 48" "unat (req_size (32 * sizeof_ut_bucket)) = 384"
    by (simp_all add: sizeof_ut_table_def sizeof_ut_bucket_def req_size_def ALIGN_UP_def)
  obtain p h1 where p: "malloc sizeof_ut_table h = Some (p, h1)" "p \<noteq> 0" "avail (n - 56) h1"
    using malloc_avail [OF assms(1,2), of sizeof_ut_table] assms(3) r by (auto simp: sizeof_ut_table_def)
  have "heap_ok e h1 (insert p P)" using km.alloc_fresh [OF assms(1) p(1,2)] by simp
  then obtain q h2 where q: "malloc (32 * sizeof_ut_bucket) h1 = Some (q, h2)" "q \<noteq> 0" "avail (n - 56 - 384 - 8) h2"
    using malloc_avail [OF _ p(3), of e "insert p P" "32 * sizeof_ut_bucket"] assms(3) r by (fastforce simp: sizeof_ut_bucket_def)
  show ?thesis using p q by (auto simp: HASH_MAKE_TABLE_def ut_small_def empty_bucket_def)
qed

lemma expand_returns:
  assumes "ut_ok t" "heap_ok e h P" "ut_buckets_ptr t \<in> P" "avail n h" "unat (log2_num_buckets t) \<le> 10" "n \<ge> 25000"
  shows "\<exists>t' h'. HASH_EXPAND_BUCKETS t h = Some (t', h') \<and> ut_items t' = ut_items t \<and>
    unat (log2_num_buckets t') = Suc (unat (log2_num_buckets t)) \<and> avail (n - 24600) h'"
proof -
  let ?l = "unat (log2_num_buckets t)" and ?n = "sizeof_ut_bucket * num_buckets t * 2"
  have nb: "unat (num_buckets t) = 2 ^ ?l" using assms(1) by (simp add: ut_ok_def)
  have "(2 :: nat) ^ ?l \<le> 2 ^ 10" using assms(5) by (intro power_increasing) auto
  then have "unat ?n = 24 * 2 ^ ?l" "24 * 2 ^ ?l \<le> (24576 :: nat)"
    using nb by (simp_all add: sizeof_ut_bucket_def unat_word_ariths)
  then have n: "unat ?n \<le> 24576" "?n \<noteq> 0" by auto
  have "unat (?n + 7) = unat ?n + 7" using n(1) by (simp add: unat_word_ariths)
  then have r: "unat (req_size ?n) \<le> 24584" using n(1) by (auto simp: req_size_def unat_ALIGN_UP)
  obtain p h1 where p: "malloc ?n h = Some (p, h1)" "p \<noteq> 0" "avail (n - unat (req_size ?n) - 8) h1"
    using malloc_avail [OF assms(2,4) n(2)] r assms(6) by auto
  have "heap_ok e h1 (insert p P)" using km.alloc_fresh [OF assms(2) p(1,2)] by simp
  then have "avail (n - unat (req_size ?n) - 8) (free (ut_buckets_ptr t) h1)" using free_avail [OF _ _ p(3)] assms(3) by blast
  then have "avail (n - 24600) (free (ut_buckets_ptr t) h1)" using r by (elim avail_mono) simp
  moreover have "unat (log2_num_buckets t + 1) = Suc ?l" using assms(5) by (simp add: unat_word_ariths)
  ultimately show ?thesis using p by (auto simp: HASH_EXPAND_BUCKETS_def Let_def split: prod.splits)
qed

lemma add_returns:
  assumes "uth_ok d" "uth_small d" "length (HASH_ITER d) \<le> 14" "heap_ok e h P" "ut_owns d \<subseteq> P" "avail n h" "n \<ge> 26000"
  shows "\<exists>d' h'. HASH_ADD_STR d key v h = Some (d', h') \<and> uth_small d' \<and> avail (n - 25100) h'"
proof -
  let ?el = "\<lparr>el_key = key, el_hashv = HASH_JEN key, el_value = v\<rparr>"
  obtain t h1 where t: "(case d of None \<Rightarrow> HASH_MAKE_TABLE h | Some t \<Rightarrow> Some (t, h)) = Some (t, h1)" "ut_small t" "avail (n - 448) h1"
    using make_table_returns [OF assms(4,6), where ?'v = 'a] avail_mono [OF assms(6), of "n - 448"] assms(2,7)
    by (cases d) (auto simp: uth_small_def)
  have it: "ut_ok t" "length (ut_items t) \<le> 14" and "\<exists>P1. heap_ok e h1 P1 \<and> ut_buckets_ptr t \<in> P1"
    using t(1) assms make_table_spec [OF assms(4), where ?'v = 'a]
    by (auto simp: uth_ok_def ut_owns_def HASH_ITER_def split: option.splits)
  then obtain P1 where P1: "heap_ok e h1 P1" "ut_buckets_ptr t \<in> P1" by blast
  define t1 where "t1 = t\<lparr>ut_items := ut_items t @ [?el], num_items := num_items t + 1\<rparr>"
  define b where "b = HASH_TO_BKT (HASH_JEN key) (num_buckets t)"
  define bk where "bk = ut_buckets t ! b"
  define t2 where "t2 = t1\<lparr>ut_buckets := (ut_buckets t1)[b := (ut_buckets t1 ! b)\<lparr>hh_chain := length (ut_items t) # hh_chain (ut_buckets t1 ! b),
    bk_count := bk_count (ut_buckets t1 ! b) + 1\<rparr>]\<rparr>"
  have ok: "ut_ok t2" unfolding t2_def by (rule add_to_bkt_ok [OF it(1) t1_def b_def])
  have f: "ut_buckets_ptr t2 = ut_buckets_ptr t" "length (ut_items t2) = Suc (length (ut_items t))" "log2_num_buckets t2 = log2_num_buckets t"
    "ut_buckets t2 = (ut_buckets t)[b := bk\<lparr>hh_chain := length (ut_items t) # hh_chain bk, bk_count := bk_count bk + 1\<rparr>]"
    by (simp_all add: t2_def t1_def bk_def)
  have bk: "bk \<in> set (ut_buckets t)"
    using it(1) HASH_TO_BKT_less [of "num_buckets t"] by (auto simp: bk_def b_def ut_ok_def)
  have add: "HASH_ADD_STR d key v h = map_option (\<lambda>(t2, h2). (Some t2, h2))
     (if bk_count bk + 1 \<ge> (expand_mult bk + 1) * 10 \<and> \<not> noexpand t then HASH_EXPAND_BUCKETS t2 h1 else Some (t2, h1))"
    using t(1) by (simp add: HASH_ADD_STR_def HASH_ADD_TO_BKT_def Let_def t2_def t1_def b_def bk_def)
  have young: "unat (bk_count bk + 1) = Suc (unat (bk_count bk)) \<and> unat (bk_count bk) \<le> length (ut_items t) \<and> expand_mult bk = 0"
    if "length (ut_items t) \<le> 9"
    using t(2) bk that by (auto simp: ut_small_def unat_word_ariths)
  show ?thesis
  proof (cases "bk_count bk + 1 \<ge> (expand_mult bk + 1) * 10 \<and> \<not> noexpand t")
    case True
    have k: "length (ut_items t) \<ge> 9" using True young by (fastforce simp: word_le_nat_alt)
    have "unat (log2_num_buckets t2) \<le> 10" using t(2) it(2) unfolding f(3) ut_small_def by linarith
    then obtain t' h' where x: "HASH_EXPAND_BUCKETS t2 h1 = Some (t', h')" "ut_items t' = ut_items t2"
      "unat (log2_num_buckets t') = Suc (unat (log2_num_buckets t2))" "avail (n - 448 - 24600) h'"
      using expand_returns [OF ok P1(1) _ t(3)] P1(2) f(1) assms(7) by fastforce
    have "ut_small t'" using x(2,3) f(2,3) t(2) k unfolding ut_small_def by auto
    then show ?thesis using add True x(1) avail_mono [OF x(4), of "n - 25100"] by (simp add: uth_small_def)
  next
    case False
    have "unat (bk_count x) \<le> length (ut_items t2) \<and> expand_mult x = 0" if "length (ut_items t2) \<le> 9" "x \<in> set (ut_buckets t2)" for x
    proof -
      have "x = bk\<lparr>hh_chain := length (ut_items t) # hh_chain bk, bk_count := bk_count bk + 1\<rparr> \<or> x \<in> set (ut_buckets t)"
        using that(2) set_update_subset_insert f(4) by fastforce
      then show ?thesis using that(1) young f(2) t(2) by (fastforce simp: ut_small_def)
    qed
    then have "ut_small t2" using t(2) f by (auto simp: ut_small_def)
    then show ?thesis using add False avail_mono [OF t(3), of "n - 25100"] by (auto simp: uth_small_def)
  qed
qed

text \<open>The overwrite-or-add shape of \<^verbatim>\<open>env_set\<close> and \<^verbatim>\<open>register_command\<close>.\<close>

lemma upsert_returns:
  assumes "uth_ok d" "uth_small d" "length (HASH_ITER d) \<le> 14" "heap_ok e h P" "ut_owns d \<subseteq> P" "avail n h" "n \<ge> 32768"
    and "sz \<noteq> 0" "unat sz \<le> 400"
  shows "\<exists>d' h'. (case HASH_FIND_STR d key of
        Some i \<Rightarrow> Some (ut_set i v d, h)
      | None \<Rightarrow> (case malloc sz h of None \<Rightarrow> None
           | Some (p, h1) \<Rightarrow> if p = 0 then None else HASH_ADD_STR d key v h1)) = Some (d', h') \<and> uth_small d' \<and>
    length (HASH_ITER d') \<le> Suc (length (HASH_ITER d)) \<and> avail (n - 25600) h'"
proof (cases "HASH_FIND_STR d key")
  case (Some i)
  moreover have "length (HASH_ITER (ut_set i v d)) = length (HASH_ITER d)" by (auto simp: HASH_ITER_def ut_set_def split: option.splits)
  ultimately show ?thesis using assms(2,6) avail_mono by auto
next
  case None
  have "unat (sz + 7) = unat sz + 7" using assms(9) by (simp add: unat_word_ariths)
  then have r: "unat (req_size sz) \<le> 408" using assms(9) by (auto simp: req_size_def unat_ALIGN_UP)
  obtain p h1 where p: "malloc sz h = Some (p, h1)" "p \<noteq> 0" "avail (n - unat (req_size sz) - 8) h1"
    using malloc_avail [OF assms(4,6,8)] r assms(7) by auto
  have h1: "heap_ok e h1 (insert p P)" using km.alloc_fresh [OF assms(4) p(1,2)] by simp
  have o: "ut_owns d \<subseteq> insert p P" using assms(5) by auto
  obtain d' h' where a: "HASH_ADD_STR d key v h1 = Some (d', h')" "uth_small d'" "avail (n - unat (req_size sz) - 8 - 25100) h'"
    using add_returns [OF assms(1-3) h1 o p(3), of key v] r assms(7) by fastforce
  have "length (HASH_ITER d') = Suc (length (HASH_ITER d))" using add_spec [OF assms(1) h1 o, of key v] a(1) by simp
  moreover have "avail (n - 25600) h'" using a(3) r by (elim avail_mono) simp
  ultimately show ?thesis using None p a by auto
qed

text \<open>What an entry of these tables keeps of the heap.\<close>

lemma upsert_keeps:
  assumes "uth_ok d" "heap_ok e h P" "ut_owns d \<subseteq> P"
    and "(case HASH_FIND_STR d key of
        Some i \<Rightarrow> Some (ut_set i v d, h)
      | None \<Rightarrow> (case malloc n h of None \<Rightarrow> None
           | Some (p, h1) \<Rightarrow> if p = 0 then None else HASH_ADD_STR d key v h1)) = Some (d', h')"
  shows "uth_ok d' \<and> (\<exists>P'. heap_ok e h' P' \<and> ut_owns d' \<subseteq> P' - (P - ut_owns d) \<and> P - ut_owns d \<subseteq> P')"
proof (cases "HASH_FIND_STR d key")
  case (Some i)
  have "i < length (HASH_ITER d)"
  proof (cases d)
    case None
    then show ?thesis using Some by (simp add: HASH_FIND_STR_def)
  next
    case (Some t)
    let ?b = "HASH_TO_BKT (HASH_JEN key) (num_buckets t)"
    have ok: "ut_ok t" using Some assms(1) by (simp add: uth_ok_def)
    then have "?b < length (ut_buckets t)" using HASH_TO_BKT_less [of "num_buckets t"] by (simp add: ut_ok_def)
    then show ?thesis
      using find_in_bkt_Some [of "ut_items t" "hh_chain (ut_buckets t ! ?b)" key "HASH_JEN key" i] \<open>HASH_FIND_STR d key = Some i\<close> Some ok
      by (auto simp: HASH_FIND_STR_def HASH_ITER_def Let_def ut_ok_def)
  qed
  then have "uth_ok (ut_set i v d)" by (rule ut_set_ok [OF assms(1)])
  moreover have "ut_owns (ut_set i v d) = ut_owns d" by (auto simp: ut_owns_def ut_set_def split: option.splits)
  ultimately show ?thesis using assms(2-4) Some by auto
next
  case None
  then obtain p h1 where m: "malloc n h = Some (p, h1)" "p \<noteq> 0" "HASH_ADD_STR d key v h1 = Some (d', h')"
    using assms(4) by (auto split: option.splits if_splits)
  have f: "p \<notin> P" "heap_ok e h1 (insert p P)" using km.alloc_fresh [OF assms(2) m(1,2)] by auto
  have "ut_owns d \<subseteq> insert p P" using assms(3) by auto
  from add_spec [OF assms(1) f(2) this, of key v] f(1) assms(3) m(3) show ?thesis by auto
qed

end
