(* ===== verification/Boot.thy ===== *)
theory Boot
  imports Ramfs_Spec Shell Uthash_Growth
begin

text \<open>
  Start-up of the kernel (\<^verbatim>\<open>my_own_os_init\<close> of \<^verbatim>\<open>kernel/src/Little_Linux.c\<close>) as far as it concerns memory and the
  file system: the allocator, the command registry, the environment and \<^verbatim>\<open>fs_init\<close>. It returns, establishes the
  invariant of the file system with an empty root folder, and registers every command so that the shell
  finds it. The last needs that the table tells the fifteen names apart; four pairs of them have the same length
  and dominate each other character by character, so their hash values are computed.
\<close>

section \<open>The commands are told apart\<close>

lemma jen_mix:
  assumes "a1 = (a - b - c) XOR drop_bit 13 c" "b1 = (b - c - a1) XOR push_bit 8 a1" "c1 = (c - a1 - b1) XOR drop_bit 13 b1"
    and "a2 = (a1 - b1 - c1) XOR drop_bit 12 c1" "b2 = (b1 - c1 - a2) XOR push_bit 16 a2" "c2 = (c1 - a2 - b2) XOR drop_bit 5 b2"
    and "a3 = (a2 - b2 - c2) XOR drop_bit 3 c2" "b3 = (b2 - c2 - a3) XOR push_bit 10 a3" "c3 = (c2 - a3 - b3) XOR drop_bit 15 b3"
  shows "snd (snd (HASH_JEN_MIX a b c)) = c3"
  by (simp only: HASH_JEN_MIX_def Let_def assms [symmetric] prod.sel)

lemma jen_short:
  assumes "snd (snd (HASH_JEN_MIX i j h)) = v" "length key < 12" "ks = map of_char key"
    and "h = 0xfeedbeef + of_nat (length key) + jen_tail ks 10 24 + jen_tail ks 9 16 + jen_tail ks 8 8"
    and "j = 0x9e3779b9 + jen_tail ks 7 24 + jen_tail ks 6 16 + jen_tail ks 5 8 + jen_tail ks 4 0"
    and "i = 0x9e3779b9 + jen_tail ks 3 24 + jen_tail ks 2 16 + jen_tail ks 1 8 + jen_tail ks 0 0"
  shows "HASH_JEN key = v"
  using assms by (simp add: HASH_JEN_def jen_loop.simps)

lemma jen_cd: "HASH_JEN ''cd'' = 0x6eae0722"
  by (rule jen_short [OF jen_mix [of "0x115521f" "0x9e37de1c" "0x9e3779b9" "0xfeedbef1" "0x8b6677a9" "0x7275ae1a" "0x33e0b06" "0x1eb4be89" "0x5077417f" "0x9e1ce2d1" "0x43abde39" "0x6eae0722"] _ refl])
    (simp_all add: jen_tail_def)

lemma jen_ls: "HASH_JEN ''ls'' = 0xe594714b"
  by (rule jen_short [OF jen_mix [of "0x1154316" "0x9e37ed25" "0x9e3779b9" "0xfeedbef1" "0x8b7761b2" "0x72654192" "0x33fb986" "0xac54669a" "0xc7b38246" "0x97c1a0ee" "0x4a5cfb66" "0xe594714b"] _ refl])
    (simp_all add: jen_tail_def)

lemma jen_rm: "HASH_JEN ''rm'' = 0xa45c9562"
  by (rule jen_short [OF jen_mix [of "0x11559ec" "0x9e37e72b" "0x9e3779b9" "0xfeedbef1" "0x8b6d8cdc" "0x726e8345" "0x33e6f23" "0x7ae39a74" "0xf79b657d" "0x8e4c039d" "0xc4f2455a" "0xa45c9562"] _ refl])
    (simp_all add: jen_tail_def)

lemma jen_mkdir: "HASH_JEN ''mkdir'' = 0xb0912c98"
  by (rule jen_short [OF jen_mix [of "0x6a715b6a" "0x79be526" "0x9e377a2b" "0xfeedbef4" "0x458335cd" "0x4efb01a4" "0xd5f7cc49" "0xecd967e0" "0x8b4f0644" "0x4ca6beed" "0x8e1816af" "0xb0912c98"] _ refl])
    (simp_all add: jen_tail_def)

lemma jen_rmdir: "HASH_JEN ''rmdir'' = 0x14b5e4de"
  by (rule jen_short [OF jen_mix [of "0x6a715961" "0x79be72b" "0x9e377a2b" "0xfeedbef4" "0x458100d6" "0x4ef948b5" "0xd5f3e042" "0xc0d1d7df" "0xbe351e2a" "0x412a49fc" "0x68559fb9" "0x14b5e4de"] _ refl])
    (simp_all add: jen_tail_def)

lemma jen_mount: "HASH_JEN ''mount'' = 0x6e69e020"
  by (rule jen_short [OF jen_mix [of "0x6f804768" "0xcace926" "0x9e377a2d" "0xfeedbef4" "0xaf8e1bd1" "0xdfda27cb" "0xe015fe6e" "0x11f3f598" "0xed5fac69" "0xfd69a9e0" "0x818d1f4f" "0x6e69e020"] _ refl])
    (simp_all add: jen_tail_def)

definition command_names :: "string list" where
  "command_names = ''help'' # map fst fs_commands @ map fst dfs_commands"

lemma command_names_sep: "ut_sep (set command_names)"
  by (simp add: ut_sep_def command_names_def fs_commands_def dfs_commands_def less_eq_char_def
      jen_cd jen_ls jen_rm jen_mkdir jen_rmdir jen_mount)

section \<open>Start-up\<close>

text \<open>The part of \<^verbatim>\<open>my_own_os_init\<close> from \<^verbatim>\<open>malloc_init\<close> to \<^verbatim>\<open>fs_init\<close>; \<open>e\<close> is the end of the kernel image and \<open>mb\<close> the
  memory size.\<close>

definition boot_fs :: "u32 \<Rightarrow> u32 \<Rightarrow> fs \<Rightarrow> fs option" where
  "boot_fs e mb s = do {
     let s1 = s\<lparr>hp := malloc_init e mb (hp s)\<rparr>;
     s2 \<leftarrow> reg ''help'' ''Show commands'' Os_help s1;
     s3 \<leftarrow> set_env ''pwd'' ''/'' s2;
     (_, s4) \<leftarrow> fs_init s3;
     Some s4
   }"

section \<open>Registering keeps the invariant and returns\<close>

text \<open>New owners after a table with tag \<open>T\<close> has given back the blocks \<open>R\<close> and holds \<open>N\<close>.\<close>

lemma retable:
  assumes "\<forall>a\<in>R. own a = Some T" "dom own - R \<subseteq> P'" "N \<subseteq> P' - (dom own - R)"
  shows "\<exists>own'. dom own' = P' \<and> (\<forall>a x. own a = Some x \<longrightarrow> x \<noteq> T \<longrightarrow> own' a = Some x) \<and> (\<forall>a\<in>N. own' a = Some T)"
proof -
  let ?o = "\<lambda>a. if a \<in> dom own - R then own a else if a \<in> P' then Some T else None"
  have "dom ?o = P'" using assms(2) by (auto simp: dom_def split: if_splits)
  moreover have "?o a = Some x" if "own a = Some x" "x \<noteq> T" for a x using that assms(1) by auto
  moreover have "\<forall>a\<in>N. ?o a = Some T" using assms(3) by auto
  ultimately show ?thesis by blast
qed

definition booting :: "u32 \<Rightarrow> string set \<Rightarrow> nat \<Rightarrow> nat \<Rightarrow> fs \<Rightarrow> bool" where
  "booting e K n m s \<longleftrightarrow> core_ok e K s \<and> ut_dict (set command_names) (command_map s) \<and> uth_small (command_map s) \<and>
     length (HASH_ITER (command_map s)) \<le> m \<and> avail n (hp s)"

lemma reg_booting:
  assumes "booting e K n m s" "name \<in> set command_names" "m \<le> 14" "n \<ge> 32768"
  shows "\<exists>cm h. reg name desc func s = Some (s\<lparr>command_map := cm, hp := h\<rparr>) \<and>
    booting e K (n - 25600) (Suc m) (s\<lparr>command_map := cm, hp := h\<rparr>) \<and>
    (\<forall>k\<in>set command_names. find_command cm k =
      (if k = name then Some \<lparr>ce_desc = desc, ce_func = func\<rparr> else find_command (command_map s) k))"
proof -
  have B: "core_ok e K s" "ut_dict (set command_names) (command_map s)" "uth_small (command_map s)" "uth_ok (command_map s)"
    "length (HASH_ITER (command_map s)) \<le> 14" "length (HASH_ITER (command_map s)) \<le> m" "avail n (hp s)"
    using assms(1,3) by (auto simp: booting_def ut_dict_def)
  obtain own where own: "heap_ok e (hp s) (dom own)" "owned own s" using core_okD(4) [OF B(1)] by blast
  have R: "\<forall>a\<in>ut_owns (command_map s). own a = Some OCmd" using own(2) by (simp add: owned_def)
  then have sub: "ut_owns (command_map s) \<subseteq> dom own" by auto
  have sz: "sizeof_CommandEntry \<noteq> 0" "unat sizeof_CommandEntry \<le> 400"
    by (simp_all add: sizeof_CommandEntry_def sizeof_ut_handle_def)
  obtain cm h where r: "register_command name desc func (command_map s) (hp s) = Some (cm, h)" "uth_small cm"
    "length (HASH_ITER cm) \<le> Suc m" "avail (n - 25600) h"
    using upsert_returns [OF B(4,3,5) own(1) sub B(7) assms(4) sz, of name "\<lparr>ce_desc = desc, ce_func = func\<rparr>"] B(6)
    unfolding register_command_def by (auto split: option.splits if_splits)
  note spec = register_command_spec [OF B(2) assms(2) own(1) sub r(1)]
  obtain P' where P': "heap_ok e h P'" "ut_owns cm \<subseteq> P' - (dom own - ut_owns (command_map s))" "dom own - ut_owns (command_map s) \<subseteq> P'"
    using spec(3) by blast
  obtain own' where o: "dom own' = P'" "\<forall>a x. own a = Some x \<longrightarrow> x \<noteq> OCmd \<longrightarrow> own' a = Some x" "\<forall>a\<in>ut_owns cm. own' a = Some OCmd"
    using retable [OF R P'(3,2)] by blast
  let ?s = "s\<lparr>command_map := cm, hp := h\<rparr>"
  have "owned own' ?s" using own(2) o(2,3) by (auto simp: owned_def folder_owned_def)
  then have "core_ok e K ?s" using core_okD [OF B(1)] P'(1) o(1) by (intro core_okI [of _ _ _ own']) (auto simp: files_ok_def)
  then have "booting e K (n - 25600) (Suc m) ?s" using r spec(1) by (simp add: booting_def)
  then show ?thesis using r(1) spec(2) by (intro exI [of _ cm] exI [of _ h]) (simp add: reg_def)
qed

text \<open>Only the registry and the heap change.\<close>

definition same_files :: "fs \<Rightarrow> fs \<Rightarrow> bool" where
  "same_files s s' \<longleftrightarrow> s' = s\<lparr>command_map := command_map s', hp := hp s'\<rparr>"

lemma same_filesD:
  assumes "same_files s s'"
  shows "dirs s' = dirs s" "fdata s' = fdata s" "current_dir s' = current_dir s" "current_path s' = current_path s"
    "env_map s' = env_map s" "mount_count s' = mount_count s" "out s' = out s" "disk s' = disk s"
proof -
  obtain cm h where s': "s' = s\<lparr>command_map := cm, hp := h\<rparr>" using assms by (auto simp: same_files_def)
  show "dirs s' = dirs s" "fdata s' = fdata s" "current_dir s' = current_dir s" "current_path s' = current_path s"
    "env_map s' = env_map s" "mount_count s' = mount_count s" "out s' = out s" "disk s' = disk s"
    by (simp_all add: s')
qed

lemma reg_all_booting:
  assumes "booting e K n m s" "fst ` set cs \<subseteq> set command_names" "distinct (map fst cs)" "m + length cs \<le> 15" "n \<ge> 32768 + 25600 * length cs"
  shows "\<exists>s'. reg_all cs s = Some s' \<and> same_files s s' \<and> booting e K (n - 25600 * length cs) (m + length cs) s' \<and>
    (\<forall>k\<in>set command_names. find_command (command_map s') k = (case map_of cs k of
        Some (desc, func) \<Rightarrow> Some \<lparr>ce_desc = desc, ce_func = func\<rparr> | None \<Rightarrow> find_command (command_map s) k))"
  using assms
proof (induction cs arbitrary: s n m)
  case Nil
  then show ?case by (simp add: same_files_def)
next
  case (Cons c cs)
  obtain name desc func where c: "c = (name, desc, func)" by (cases c) auto
  obtain cm h where r: "reg name desc func s = Some (s\<lparr>command_map := cm, hp := h\<rparr>)"
    "booting e K (n - 25600) (Suc m) (s\<lparr>command_map := cm, hp := h\<rparr>)"
    "\<forall>k\<in>set command_names. find_command cm k =
      (if k = name then Some \<lparr>ce_desc = desc, ce_func = func\<rparr> else find_command (command_map s) k)"
    using reg_booting [OF Cons.prems(1), of name desc func] Cons.prems c by auto
  have "n - 25600 \<ge> 32768 + 25600 * length cs" using Cons.prems(5) by simp
  with Cons.IH [OF r(2)] obtain s' where a: "reg_all cs (s\<lparr>command_map := cm, hp := h\<rparr>) = Some s'" "same_files (s\<lparr>command_map := cm, hp := h\<rparr>) s'"
    "booting e K (n - 25600 - 25600 * length cs) (Suc m + length cs) s'"
    "\<forall>k\<in>set command_names. find_command (command_map s') k = (case map_of cs k of
        Some (desc, func) \<Rightarrow> Some \<lparr>ce_desc = desc, ce_func = func\<rparr> | None \<Rightarrow> find_command cm k)"
    using Cons.prems by (auto cong: option.case_cong)
  have "map_of cs name = None" using Cons.prems(3) c by (simp add: map_of_eq_None_iff)
  moreover have "same_files s s'" using a(2) by (simp add: same_files_def)
  ultimately show ?case using r a c by (intro exI [of _ s']) (auto simp: algebra_simps split: option.splits)
qed

section \<open>The initial state\<close>

definition root_store :: "string \<Rightarrow> store" where
  "root_store n = Map.empty(ROOT \<mapsto> new_foder n 0 0 None 0)"

lemma root_tree: "tree_ok K (root_store n)"
  by (auto simp: tree_ok_def root_store_def filed_def ranked_def split: if_splits)

lemma root_store_core:
  assumes "dirs s = root_store n"
  shows "core_ok e K s \<longleftrightarrow> ROOT < e \<and> (\<exists>own. heap_ok e (hp s) (dom own) \<and>
      (\<forall>a\<in>ut_owns (env_map s). own a = Some OEnv) \<and> (\<forall>a\<in>ut_owns (command_map s). own a = Some OCmd))"
proof -
  have "folder_owned own ROOT (new_foder n 0 0 None 0)" for own
    by (simp add: folder_owned_def new_foder_def ramfs_hashmap_init_def ramfs_file_hashmap_init_def)
  then show ?thesis using assms root_tree [of K n] by (auto simp: core_ok_def files_ok_def owned_def root_store_def split: if_splits)
qed

lemma set_env_booting:
  assumes "booting e K n m s" "env_map s = None" "n \<ge> 32768"
  shows "\<exists>env h. set_env ''pwd'' ''/'' s = Some (s\<lparr>env_map := env, hp := h\<rparr>) \<and>
    booting e K (n - 25600) m (s\<lparr>env_map := env, hp := h\<rparr>) \<and> ut_dict {''pwd''} env \<and> env_get env ''pwd'' = Some ''/''"
proof -
  have B: "core_ok e K s" "avail n (hp s)" using assms(1) by (auto simp: booting_def)
  obtain own where own: "heap_ok e (hp s) (dom own)" "owned own s" using core_okD(4) [OF B(1)] by blast
  have d: "ut_dict {''pwd''} (env_map s)" "uth_ok (env_map s)" "uth_small (env_map s)" "ut_owns (env_map s) = {}" "HASH_ITER (env_map s) = []"
    using assms(2) by (simp_all add: ut_dict_def ut_sep_def uth_ok_def uth_small_def ut_owns_def HASH_ITER_def)
  have sz: "sizeof_EnvVar \<noteq> 0" "unat sizeof_EnvVar \<le> 400" by (simp_all add: sizeof_EnvVar_def sizeof_ut_handle_def)
  obtain env h where r: "env_set ''pwd'' ''/'' (env_map s) (hp s) = Some (env, h)" "avail (n - 25600) h"
    using upsert_returns [OF d(2,3) _ own(1) _ B(2) assms(3) sz, of "''pwd''" "''/''"] d(4,5)
    unfolding env_set_def by (auto split: option.splits if_splits)
  note spec = env_set_spec [OF d(1) _ _ own(1) _ r(1)]
  obtain P' where P': "heap_ok e h P'" "ut_owns env \<subseteq> P' - dom own" "dom own \<subseteq> P'" using spec(3) d(4) by auto
  obtain own' where o: "dom own' = P'" "\<forall>a x. own a = Some x \<longrightarrow> x \<noteq> OEnv \<longrightarrow> own' a = Some x" "\<forall>a\<in>ut_owns env. own' a = Some OEnv"
    using retable [of "{}" own OEnv P' "ut_owns env"] P' by auto
  let ?s = "s\<lparr>env_map := env, hp := h\<rparr>"
  have "owned own' ?s" using own(2) o(2,3) by (auto simp: owned_def folder_owned_def)
  then have "core_ok e K ?s" using core_okD [OF B(1)] P'(1) o(1) by (intro core_okI [of _ _ _ own']) (auto simp: files_ok_def)
  then have "booting e K (n - 25600) m ?s" using assms(1) r(2) by (simp add: booting_def)
  then show ?thesis using r(1) spec(1,2) d(4) by (intro exI [of _ env] exI [of _ h]) (simp add: set_env_def)
qed

lemma fs_commands_names: "fst ` set fs_commands \<subseteq> set command_names" "distinct (map fst fs_commands)" "length fs_commands = 10"
  "fst ` set dfs_commands \<subseteq> set command_names" "distinct (map fst dfs_commands)" "length dfs_commands = 4" "''help'' \<in> set command_names"
  by (auto simp: command_names_def) (simp_all add: fs_commands_def dfs_commands_def)

lemma fs_init_booting:
  assumes B: "booting e K n m s" and root: "dirs s = root_store []"
    and env: "ut_dict {''pwd''} (env_map s)" "env_get (env_map s) ''pwd'' = Some ''/''"
    and "mount_count s = 0" "m \<le> 5" "n \<ge> 300000"
  shows "\<exists>s'. fs_init s = Some (0, s') \<and> booting e K (n - 256000) (m + 10) s' \<and> fs_ok e K s' \<and> cwd_at s' [] \<and>
    view s' = [[] \<mapsto> Map.empty] \<and> out s' = out s \<and> disk s' = disk s \<and>
    (\<forall>k\<in>set command_names. find_command (command_map s') k = (case map_of fs_commands k of
        Some (desc, func) \<Rightarrow> Some \<lparr>ce_desc = desc, ce_func = func\<rparr> | None \<Rightarrow> find_command (command_map s) k))"
proof -
  let ?s = "s\<lparr>dirs := root_store ''/'', current_dir := ROOT, current_path := ''/''\<rparr>"
  have "core_ok e K ?s" using B root root_store_core [of s "[]" e K] root_store_core [of ?s "''/''" e K] by (simp add: booting_def)
  then have "booting e K n m ?s" using B by (simp add: booting_def)
  then obtain s' where s': "reg_all fs_commands ?s = Some s'" "same_files ?s s'" "booting e K (n - 256000) (m + 10) s'"
    "\<forall>k\<in>set command_names. find_command (command_map s') k = (case map_of fs_commands k of
        Some (desc, func) \<Rightarrow> Some \<lparr>ce_desc = desc, ce_func = func\<rparr> | None \<Rightarrow> find_command (command_map s) k)"
    using reg_all_booting [of e K n m ?s fs_commands] fs_commands_names assms(6,7) by (auto cong: option.case_cong)
  have "(Map.empty(ROOT \<mapsto> new_foder [] 0 0 None 0 \<lparr>fd_name := ''/'', fd_type := 0, foder_map := ramfs_hashmap_init,
       file_map := ramfs_file_hashmap_init\<rparr>)) = root_store ''/''"
    by (simp add: root_store_def new_foder_def)
  then have init: "fs_init s = Some (0, s')"
    using s'(1) root env(2) by (simp add: fs_init_def root_store_def set_folder_def strcpy_into_def)
  have f: "dirs s' = root_store ''/''" "current_dir s' = ROOT" "current_path s' = ''/''" "env_map s' = env_map s" "mount_count s' = 0"
    "out s' = out s" "disk s' = disk s"
    using same_filesD [OF s'(2)] assms(5) by simp_all
  have cwd: "cwd_at s' []" using f by (simp add: cwd_at_def root_store_def path_text_def)
  moreover have "fs_ok e K s'" using s'(3) cwd f env by (auto simp: fs_ok_def booting_def env_ok_def)
  moreover have "view s' = [[] \<mapsto> Map.empty]"
  proof
    fix xs
    show "view s' xs = [[] \<mapsto> Map.empty] xs"
      using f(1) by (cases xs) (auto simp: view_def root_store_def contents_def new_foder_def ramfs_hashmap_init_def ramfs_file_hashmap_init_def fun_eq_iff)
  qed
  ultimately show ?thesis using init s'(3,4) f by blast
qed

lemma boot_fs_returns:
  assumes "ROOT < e" "16 \<le> mb" "unat e + mb * 2 ^ 20 + 2 ^ 24 < 2 ^ 32"
  shows "\<exists>s. boot_fs e (of_nat mb) (fs0 (heap0 e) ds) = Some s \<and> booting e K 16000000 11 s \<and> fs_ok e K s \<and> cwd_at s [] \<and>
    view s = [[] \<mapsto> Map.empty] \<and> out s = [] \<and> disk s = ds \<and>
    (\<forall>k\<in>set command_names. find_command (command_map s) k =
      (case map_of ((''help'', ''Show commands'', Os_help) # fs_commands) k of
        Some (desc, func) \<Rightarrow> Some \<lparr>ce_desc = desc, ce_func = func\<rparr> | None \<Rightarrow> None))"
proof -
  have e: "e \<noteq> 0" using assms(1) by auto
  let ?s0 = "(fs0 (heap0 e) ds)\<lparr>hp := malloc_init e (of_nat mb) (heap0 e)\<rparr>"
  have f0: "dirs ?s0 = root_store []" "env_map ?s0 = None" "command_map ?s0 = None" by (simp_all add: fs0_def root_store_def)
  have "core_ok e K ?s0"
    using malloc_init_heap_ok [OF e assms(2,3)] assms(1) f0
    by (auto simp: root_store_core [OF f0(1)] ut_owns_def intro!: exI [of _ Map.empty])
  moreover have "ut_dict (set command_names) (command_map ?s0)" "uth_small (command_map ?s0)" "length (HASH_ITER (command_map ?s0)) \<le> 0"
    using f0(3) command_names_sep by (simp_all add: ut_dict_def uth_ok_def uth_small_def HASH_ITER_def)
  ultimately have b0: "booting e K (2 ^ 24 - 8) 0 ?s0"
    using malloc_init_avail [OF e assms(2,3)] by (simp add: booting_def)
  obtain cm h where s1: "reg ''help'' ''Show commands'' Os_help ?s0 = Some (?s0\<lparr>command_map := cm, hp := h\<rparr>)"
    "booting e K (2 ^ 24 - 8 - 25600) 1 (?s0\<lparr>command_map := cm, hp := h\<rparr>)"
    "\<forall>k\<in>set command_names. find_command cm k =
      (if k = ''help'' then Some \<lparr>ce_desc = ''Show commands'', ce_func = Os_help\<rparr> else find_command (command_map ?s0) k)"
    using reg_booting [OF b0 fs_commands_names(7), of "''Show commands''" Os_help] by auto
  let ?s1 = "?s0\<lparr>command_map := cm, hp := h\<rparr>"
  have "env_map ?s1 = None" using f0(2) by simp
  then obtain env h2 where s2: "set_env ''pwd'' ''/'' ?s1 = Some (?s1\<lparr>env_map := env, hp := h2\<rparr>)"
    "booting e K (2 ^ 24 - 8 - 25600 - 25600) 1 (?s1\<lparr>env_map := env, hp := h2\<rparr>)" "ut_dict {''pwd''} env" "env_get env ''pwd'' = Some ''/''"
    using set_env_booting [OF s1(2)] by auto
  let ?s2 = "?s1\<lparr>env_map := env, hp := h2\<rparr>"
  have "dirs ?s2 = root_store []" "mount_count ?s2 = 0" "out ?s2 = []" "disk ?s2 = ds" using f0(1) by (simp_all add: fs0_def)
  then obtain s where s: "fs_init ?s2 = Some (0, s)" "booting e K (2 ^ 24 - 8 - 25600 - 25600 - 256000) 11 s" "fs_ok e K s" "cwd_at s []"
    "view s = [[] \<mapsto> Map.empty]" "out s = []" "disk s = ds"
    "\<forall>k\<in>set command_names. find_command (command_map s) k = (case map_of fs_commands k of
        Some (desc, func) \<Rightarrow> Some \<lparr>ce_desc = desc, ce_func = func\<rparr> | None \<Rightarrow> find_command cm k)"
    using fs_init_booting [OF s2(2)] s2(3,4) by (auto cong: option.case_cong)
  have "boot_fs e (of_nat mb) (fs0 (heap0 e) ds) = Some s"
    using s1(1) s2(1) s(1) by (simp add: boot_fs_def fs0_def)
  moreover have "booting e K 16000000 11 s" using s(2) avail_mono [of _ "hp s" 16000000] by (auto simp: booting_def)
  moreover have "map_of fs_commands ''help'' = None" by (simp add: fs_commands_def)
  then have "\<forall>k\<in>set command_names. find_command (command_map s) k =
      (case map_of ((''help'', ''Show commands'', Os_help) # fs_commands) k of
        Some (desc, func) \<Rightarrow> Some \<lparr>ce_desc = desc, ce_func = func\<rparr> | None \<Rightarrow> None)"
    using s(8) s1(3) f0(3) by (auto simp: find_command_def HASH_FIND_STR_def split: option.splits)
  ultimately show ?thesis using s by blast
qed

lemma dfs_init_returns:
  assumes B: "booting e K n m s" and ok: "fs_ok e K s" "cwd_at s c" and "m \<le> 11" "n \<ge> 200000"
  shows "\<exists>s'. dfs_init s = Some s' \<and> fs_ok e K s' \<and> cwd_at s' c \<and> view s' = view s \<and> out s' = out s \<and> disk s' = disk s \<and>
    booting e K (n - 102400) (m + 4) s' \<and>
    (\<forall>k\<in>set command_names. find_command (command_map s') k = (case map_of dfs_commands k of
        Some (desc, func) \<Rightarrow> Some \<lparr>ce_desc = desc, ce_func = func\<rparr> | None \<Rightarrow> find_command (command_map s) k))"
proof -
  obtain s' where s': "reg_all dfs_commands s = Some s'" "same_files s s'" "booting e K (n - 102400) (m + 4) s'"
    "\<forall>k\<in>set command_names. find_command (command_map s') k = (case map_of dfs_commands k of
        Some (desc, func) \<Rightarrow> Some \<lparr>ce_desc = desc, ce_func = func\<rparr> | None \<Rightarrow> find_command (command_map s) k)"
    using reg_all_booting [OF B, of dfs_commands] fs_commands_names assms(4,5) by auto
  note D = same_filesD [OF s'(2)]
  have c: "cwd_at s' c" using ok(2) D by (simp add: cwd_at_def)
  moreover have "fs_ok e K s'" using s'(3) c D ok(1) by (auto simp: fs_ok_def booting_def env_ok_def)
  moreover have "view s' = view s" using D by (simp add: view_def [abs_def])
  ultimately show ?thesis using s' D by (auto simp: dfs_init_def)
qed

text \<open>Start-up succeeds: on a machine with at least 16 MB whose heap stays inside the address space, the initialisation
  of memory, commands, environment and file system returns, leaves the file system with an empty root folder
  as the current folder and its invariant established, and after \<open>dfs_init\<close>, whatever drives were found in
  between, the lookup of each of the fifteen commands yields the function registered for it.\<close>

theorem boot_ready:
  assumes "ROOT < e" "16 \<le> mb" "unat e + mb * 2 ^ 20 + 2 ^ 24 < 2 ^ 32"
  shows "\<exists>s s'. boot_fs e (of_nat mb) (fs0 (heap0 e) ds) = Some s \<and> dfs_init (s\<lparr>disk := ds'\<rparr>) = Some s' \<and>
    fs_ok e K s' \<and> cwd_at s' [] \<and> view s' = [[] \<mapsto> Map.empty] \<and>
    (\<forall>(name, desc, func) \<in> set ((''help'', ''Show commands'', Os_help) # fs_commands @ dfs_commands).
      find_command (command_map s') name = Some \<lparr>ce_desc = desc, ce_func = func\<rparr>)"
proof -
  let ?all = "(''help'', ''Show commands'', Os_help) # fs_commands"
  obtain s where s: "boot_fs e (of_nat mb) (fs0 (heap0 e) ds) = Some s" "booting e K 16000000 11 s" "fs_ok e K s" "cwd_at s []"
    "view s = [[] \<mapsto> Map.empty]"
    "\<forall>k\<in>set command_names. find_command (command_map s) k =
      (case map_of ?all k of Some (desc, func) \<Rightarrow> Some \<lparr>ce_desc = desc, ce_func = func\<rparr> | None \<Rightarrow> None)"
    using boot_fs_returns [OF assms, of ds K] by blast
  let ?s = "s\<lparr>disk := ds'\<rparr>"
  have "core_ok e K ?s = core_ok e K s" "view ?s = view s" "cwd_at ?s = cwd_at s" "fs_ok e K ?s = fs_ok e K s"
    using fs_ok_cong [of ?s s] by simp_all
  then have d: "booting e K 16000000 11 ?s" "fs_ok e K ?s" "cwd_at ?s []" "view ?s = [[] \<mapsto> Map.empty]"
    using s by (simp_all add: booting_def)
  obtain s' where s': "dfs_init ?s = Some s'" "fs_ok e K s'" "cwd_at s' []" "view s' = [[] \<mapsto> Map.empty]"
    "\<forall>k\<in>set command_names. find_command (command_map s') k = (case map_of dfs_commands k of
        Some (desc, func) \<Rightarrow> Some \<lparr>ce_desc = desc, ce_func = func\<rparr> | None \<Rightarrow> find_command (command_map s) k)"
    using dfs_init_returns [OF d(1-3)] d(4) by (auto cong: option.case_cong)
  have "find_command (command_map s') name = Some \<lparr>ce_desc = desc, ce_func = func\<rparr>"
    if "(name, desc, func) \<in> set (?all @ dfs_commands)" for name desc func
  proof -
    have "distinct (map fst (dfs_commands @ ?all))" by (simp add: fs_commands_def dfs_commands_def)
    moreover have "(name, desc, func) \<in> set (dfs_commands @ ?all)" using that by auto
    ultimately have m: "map_of (dfs_commands @ ?all) name = Some (desc, func)" by (rule map_of_is_SomeI)
    have "name \<in> set command_names" using that by (force simp: command_names_def)
    note look = s'(5) [rule_format, OF this] s(6) [rule_format, OF this]
    show ?thesis
    proof (cases "map_of dfs_commands name")
      case None
      then have "map_of ?all name = Some (desc, func)" using m by (simp only: map_of_append map_add_def option.case)
      then show ?thesis using look None by simp
    next
      case (Some x)
      then have "x = (desc, func)" using m by (simp only: map_of_append map_add_def option.case option.inject)
      then show ?thesis using look Some by simp
    qed
  qed
  then show ?thesis using s(1) s' by (intro exI [of _ s] exI [of _ s']) auto
qed

theorem boot_ready_witness:
  "\<exists>ds s s'. boot_fs 0x200000 32 (fs0 (heap0 0x200000) ds) = Some s \<and> dfs_init (s\<lparr>disk := ds\<rparr>) = Some s' \<and>
     fs_ok 0x200000 UNIV s' \<and> find_command (command_map s') ''rmdir'' = Some \<lparr>ce_desc = ''Remove empty directory'', ce_func = Fs_rmdir\<rparr>"
proof -
  obtain s s' where s: "boot_fs 0x200000 32 (fs0 (heap0 0x200000) undefined) = Some s" "dfs_init (s\<lparr>disk := undefined\<rparr>) = Some s'"
    "fs_ok 0x200000 UNIV s'" "\<forall>(name, desc, func) \<in> set ((''help'', ''Show commands'', Os_help) # fs_commands @ dfs_commands).
      find_command (command_map s') name = Some \<lparr>ce_desc = desc, ce_func = func\<rparr>"
    using boot_ready [of "0x200000" 32 undefined undefined UNIV] by (auto simp: ROOT_def)
  then show ?thesis by (auto simp: fs_commands_def)
qed

end
