(* ===== verification/Ramfs_Memory.thy ===== *)
theory Ramfs_Memory
  imports Ramfs_Spec
begin

text \<open>
  When the operations of the RAM file system do not run out of memory: a free block of one kilobyte is enough
  for \<^verbatim>\<open>mkdir\<close> and \<^verbatim>\<open>touch\<close>, one of the size of the data and 32 bytes for \<^verbatim>\<open>write\<close> and \<^verbatim>\<open>backspace\<close>.
\<close>

lemma insert_enough:
  assumes "heap_ok e h P" "avail n h" "n \<ge> 400" "sz \<in> {hash_node_size, file_node_size}" "hm_insert eq sz m k v h = Some (r, m', h')"
  shows "r = 1 \<and> avail (n - 300) h'"
proof (cases "chain_set eq k v (buckets m ! hash_key k)")
  case None
  have r: "unat (req_size sz) \<le> 288" "sz \<noteq> 0"
    using assms(4) by (auto simp: hash_node_size_def file_node_size_def req_size_def ALIGN_UP_def)
  obtain p h1 where p: "malloc sz h = Some (p, h1)" "p \<noteq> 0" "avail (n - unat (req_size sz) - 8) h1"
    using malloc_avail [OF assms(1,2) r(2)] r(1) assms(3) by auto
  then have "avail (n - 300) h1" using r(1) by (elim avail_mono) simp
  then show ?thesis using None p assms(5) by (auto simp: hm_insert_def Let_def)
qed (use assms avail_mono in \<open>auto simp: hm_insert_def Let_def\<close>)

lemma mkdir_enough:
  assumes ok: "fs_ok e K s" and cwd: "cwd_at s c" and av: "avail n (hp s)" "n \<ge> 1024" and f: "fs_mkdir (Some nm) None s = Some (r, s')"
  shows "r \<noteq> - 5 \<and> avail (n - 600) (hp s')"
proof -
  obtain d where C: "core_ok e K s" "tree_ok K (dirs s)" "dir_at (dirs s) ROOT c = Some (current_dir s)" "dirs s (current_dir s) = Some d"
    using cwd_dir [OF ok cwd] by blast
  obtain own where own: "heap_ok e (hp s) (dom own)" "owned own s" using core_okD(4) [OF C(1)] by blast
  have sz: "unat (req_size sizeof_foder) = 288" "sizeof_foder \<noteq> 0" by (simp_all add: sizeof_foder_def req_size_def ALIGN_UP_def)
  obtain q h1 where q: "malloc sizeof_foder (hp s) = Some (q, h1)" "q \<noteq> 0" "avail (n - 288 - 8) h1"
    using malloc_avail [OF own(1) av(1) sz(2)] sz(1) av(2) by auto
  have h1: "heap_ok e h1 (insert q (dom own))" using km.alloc_fresh [OF own(1) q(1,2)] by simp
  have "q \<noteq> current_dir s"
    using km.alloc_fresh [OF own(1) q(1,2)] ownedD(1) [OF own(2) C(4)] heap_ok_above [OF h1, of q] core_okD(1) [OF C(1)]
    by (cases "current_dir s = ROOT") auto
  then have fd: "folder (set_folder q t (s\<lparr>hp := h1\<rparr>)) (current_dir s) = Some d" for t
    using C(4) dir_at_nonzero [OF C(2,3)] by (simp add: folder_def set_folder_def)
  have ins: "r' = 1 \<and> avail (n - 600) h'" if "ramfs_hashmap_insert (foder_map d) nm v h1 = Some (r', m', h')" for r' m' h' v
    using insert_enough [OF h1 q(3), of hash_node_size ramfs_streq "foder_map d" nm _ r' m' h'] that av(2) avail_mono [of "n - 596" h' "n - 600"]
    by (auto simp: ramfs_hashmap_insert_def)
  show ?thesis
    using f folder_here [OF C(2,4)] lazy_noop [OF C(2,4)] fd q(1,2) avail_mono [OF av(1), of "n - 600"]
    by (auto simp: fs_mkdir_def base_dir_def Let_def set_folder_def split: if_splits bind_splits dest!: ins)
qed

lemma touch_enough:
  assumes ok: "fs_ok e K s" and cwd: "cwd_at s c" and av: "avail n (hp s)" "n \<ge> 1024" and f: "fs_touch (Some nm) None s = Some (r, s')"
  shows "r \<noteq> - 5 \<and> avail (n - 600) (hp s')"
proof (cases "nm = [] \<or> length nm \<ge> 128")
  case True
  then show ?thesis using f avail_mono [OF av(1), of "n - 600"] by (auto simp: fs_touch_def)
next
  case len: False
  then have "length nm < 512" by simp
  note mono = avail_mono [OF av(1), of "n - 600", simplified]
  show ?thesis
  proof (rule parent_cases [OF ok cwd \<open>length nm < 512\<close>])
    fix err assume "a_parent (view s) c nm = Inl err" "resolve_parent nm None s = Some (Inl err)"
    moreover from this have "err \<noteq> - 5" by (auto simp: a_parent_def split: if_splits option.splits prod.splits)
    ultimately show ?thesis using f len mono by (auto simp: fs_touch_def)
  next
    fix c' g p d assume "a_parent (view s) c nm = Inr (c', g)" and site: "file_site e K s nm c' g p d"
    note D = file_siteD [OF site]
    obtain own where own: "heap_ok e (hp s) (dom own)" "owned own s" using core_okD(4) [OF D(2)] by blast
    have ins: "r' = 1 \<and> avail (n - 600) h'" if "ramfs_file_hashmap_insert (file_map d) g v (hp s) = Some (r', m', h')" for r' m' h' v
      using insert_enough [OF own(1) av(1), of file_node_size file_streq "file_map d" g _ r' m' h'] that av(2) avail_mono [of "n - 300" h' "n - 600"]
      by (auto simp: ramfs_file_hashmap_insert_def)
    show ?thesis using f len D(1,7,8) mono
      by (auto simp: fs_touch_def set_folder_def split: if_splits bind_splits dest!: ins)
  qed
qed

lemma req_size_le: "unat sz \<le> 2 ^ 32 - 8 \<Longrightarrow> unat (req_size sz) \<le> unat sz + 8"
proof -
  assume "unat sz \<le> 2 ^ 32 - 8"
  then have "unat (sz + 7) = unat sz + 7" by (simp add: unat_word_ariths)
  then show ?thesis by (auto simp: req_size_def unat_ALIGN_UP)
qed

lemma write_enough:
  assumes ok: "fs_ok e K s" and cwd: "cwd_at s c" and av: "avail n (hp s)" "unat len + 32 \<le> n" "unat len \<le> 2 ^ 32 - 8"
    and f: "fs_write (Some nm) (Some bytes) len None s = Some (r, s')"
  shows "r \<noteq> - 4 \<and> avail (n - unat len - 16) (hp s')"
proof -
  obtain d where C: "core_ok e K s" "tree_ok K (dirs s)" "dir_at (dirs s) ROOT c = Some (current_dir s)" "dirs s (current_dir s) = Some d"
    using cwd_dir [OF ok cwd] by blast
  obtain own where own: "heap_ok e (hp s) (dom own)" "owned own s" using core_okD(4) [OF C(1)] by blast
  note mono = avail_mono [OF av(1), of "n - unat len - 16", simplified]
  have fok: "folder_ok K d" using tree_okD(3) [OF C(2,4)] .
  note F0 = f folder_here [OF C(2,4)] lazy_noop [OF C(2,4)]
  show ?thesis
  proof (cases "ramfs_file_hashmap_find (file_map d) nm")
    case None
    then show ?thesis using F0 mono by (auto simp: fs_write_def base_dir_def split: if_splits)
  next
    case (Some i)
    then have k: "hm_map (file_map d) (hm_key file_streq (file_map d) nm) = Some i" using file_find_key [OF fok] by simp
    have o: "fi_ptr i \<noteq> 0 \<Longrightarrow> fi_ptr i \<in> dom own" using ownedD(4) [OF own(2) C(4) k] by auto
    let ?s2 = "free_data (fi_ptr i) s"
    have av2: "avail n (hp ?s2)" using free_avail [OF own(1) o av(1)] av(1) by (simp add: free_data_def)
    note h2 = free_data_heap(1) [OF own(1) o]
    have "\<exists>q h. malloc len (hp ?s2) = Some (q, h) \<and> (q = 0 \<longrightarrow> len = 0) \<and> avail (n - unat len - 16) h"
    proof (cases "len = 0")
      case True
      then show ?thesis using av2 avail_mono [OF av2, of "n - 16"] by (simp add: malloc.simps [of 0])
    next
      case False
      have r: "unat (req_size len) \<le> unat len + 8" using req_size_le [OF av(3)] .
      obtain q h where q: "malloc len (hp ?s2) = Some (q, h)" "q \<noteq> 0" "avail (n - unat (req_size len) - 8) h"
        using malloc_avail [OF h2 av2 False] r av(2) by auto
      then have "avail (n - unat len - 16) h" using r by (elim avail_mono) simp
      then show ?thesis using q by auto
    qed
    then obtain q h where q: "malloc len (hp ?s2) = Some (q, h)" "q = 0 \<longrightarrow> len = 0" "avail (n - unat len - 16) h" by blast
    show ?thesis using F0 Some q(1) q(2,3)
      by (auto simp: fs_write_def base_dir_def Let_def set_folder_def word_gt_0 split: if_splits)
  qed
qed

lemma backspace_enough:
  assumes ok: "fs_ok e K s" and cwd: "cwd_at s c" and len: "length nm < 512" and av: "avail (2 ^ 23) (hp s)"
    and f: "fs_backspace (Some nm) count None s = Some (r, s')"
    and sz: "\<And>c' g bs. a_parent (view s) c nm = Inr (c', g) \<Longrightarrow> the (view s c') (fname s c' g) = Some bs \<Longrightarrow> length bs \<le> 2 ^ 22"
  shows "r \<noteq> - 6"
proof (rule parent_cases [OF ok cwd len])
  fix err assume "a_parent (view s) c nm = Inl err" "resolve_parent nm None s = Some (Inl err)"
  moreover from this have "err \<noteq> - 6" by (auto simp: a_parent_def split: if_splits option.splits prod.splits)
  ultimately show ?thesis using f by (auto simp: fs_backspace_def split: if_splits)
next
  fix c' g p d assume par: "a_parent (view s) c nm = Inr (c', g)" and site: "file_site e K s nm c' g p d"
  note D = file_siteD [OF site]
  obtain own where own: "heap_ok e (hp s) (dom own)" "owned own s" using core_okD(4) [OF D(2)] by blast
  show ?thesis
  proof (cases "0 < count \<and> hm_map (file_map d) (fname s c' g) \<noteq> None")
    case False
    then show ?thesis using f D(1,7,8,14) by (auto simp: fs_backspace_def split: if_splits)
  next
    case True
    then obtain i where i: "hm_map (file_map d) (fname s c' g) = Some i" by auto
    then have fi: "fi_length i = int (length (content (fdata s) i))" "length (content (fdata s) i) \<le> 2 ^ 22"
      using core_okD(3) [OF D(2)] D(5) sz [OF par, of "content (fdata s) i"] D(13) by (auto simp: files_ok_def file_ok_def contents_def)
    let ?nl = "of_int (fi_length i - (if count > fi_length i then sint (of_int (fi_length i) :: u32) else count)) :: u32"
    have "unat ?nl = nat (fi_length i) - nat count" using backspace_length [of count "fi_length i"] True fi by simp
    then have nl: "unat ?nl \<le> 2 ^ 22" using fi by simp
    have m: "\<exists>q h. malloc ?nl (hp s) = Some (q, h) \<and> q \<noteq> 0" if "?nl \<noteq> 0"
    proof -
      have "unat (req_size ?nl) + 16 \<le> 2 ^ 23" using req_size_le [of ?nl] nl by simp
      from malloc_avail [OF own(1) av that this] show ?thesis by blast
    qed
    show ?thesis using f D(1,7,8) i D(14) load_entry_MEM [OF D(6), of p g i s] m
      by (auto simp: fs_backspace_def Let_def split: if_splits bind_splits simp del: of_int_diff)
  qed
qed

end
