(* ===== verification/Ramfs_Props.thy ===== *)
theory Ramfs_Props
  imports Boot Ramfs_Memory
begin

text \<open>
  The theorems on the RAM file system. On file names that the file table tells apart (no name of the set
  dominates another character by character) every operation is the operation of the abstract file system: a
  map from paths to folders, each a map from file names to contents. The witnesses run on the state that
  start-up leaves.
\<close>

section \<open>File names\<close>

lemma parent_key_id:
  assumes ok: "fs_ok e K s" and cwd: "cwd_at s c" and len: "length nm < 512"
    and K: "no_confusion K" "snd (split_last nm) \<in> K" and p: "a_parent (view s) c nm = Inr (c', f)"
  shows "fname s c' f = f"
proof -
  have t: "tree_ok K (dirs s)" using core_okD(2) fs_okD(1) [OF ok] by blast
  obtain p where p': "dir_at (dirs s) ROOT c' = Some p"
    using resolve_parent_sim(2) [OF ok cwd len p] by (auto simp: is_dir_def)
  then obtain d where "dirs s p = Some d" using dir_at_dom by fastforce
  then show ?thesis using fname_id [OF t p' _ file_separates [OF K(1)]] K(2) a_parent_name [OF p] by simp
qed

lemma fname_here:
  assumes ok: "fs_ok e K s" and cwd: "cwd_at s c" and K: "no_confusion K" "n \<in> K"
  shows "fname s c n = n"
  using cwd_dir [OF ok cwd] fname_id [OF _ _ _ file_separates [OF K(1)] K(2)] by metis

lemma keys_here:
  assumes "fs_ok e K s" "cwd_at s c" "no_confusion K" "snd (split_last nm) \<in> K" "length nm < 512"
  shows "a_touch (fname s) c nm (view s) = a_touch (\<lambda>_ f. f) c nm (view s)"
    "a_rm (fname s) c nm (view s) = a_rm (\<lambda>_ f. f) c nm (view s)"
    "a_shorten (fname s) c nm count (view s) = a_shorten (\<lambda>_ f. f) c nm count (view s)"
proof -
  have "fname s c' f = f" if "a_parent (view s) c nm = Inr (c', f)" for c' f
    using parent_key_id [OF assms(1,2,5,3,4) that] .
  then show "a_touch (fname s) c nm (view s) = a_touch (\<lambda>_ f. f) c nm (view s)"
    "a_rm (fname s) c nm (view s) = a_rm (\<lambda>_ f. f) c nm (view s)"
    "a_shorten (fname s) c nm count (view s) = a_shorten (\<lambda>_ f. f) c nm count (view s)"
    by (auto simp: a_touch_def a_rm_def a_shorten_def split: sum.splits)
qed

section \<open>The running example\<close>

abbreviation (input) demo_K :: "string set" where "demo_K \<equiv> {''a.c'', ''b.a''}"

lemma demo_names: "no_confusion demo_K"
  by (simp add: no_confusion_def less_eq_char_def)

definition demo_state :: "fs \<Rightarrow> afs \<Rightarrow> bool" where
  "demo_state s V \<longleftrightarrow> fs_ok 0x200000 demo_K s \<and> cwd_at s [] \<and> view s = V \<and> out s = [] \<and> avail 15000000 (hp s)"

lemma demo_stateD:
  assumes "demo_state s V"
  shows "fs_ok 0x200000 demo_K s" "cwd_at s []" "view s = V" "out s = []" "avail 15000000 (hp s)"
  using assms by (simp_all add: demo_state_def)

lemma demo_empty: "\<exists>s. demo_state s [[] \<mapsto> Map.empty] \<and> avail 16000000 (hp s)"
proof -
  obtain s where "fs_ok 0x200000 demo_K s" "cwd_at s []" "view s = [[] \<mapsto> Map.empty]" "out s = []" "avail 16000000 (hp s)"
    using boot_fs_returns [of "0x200000" 32 undefined demo_K] by (auto simp: ROOT_def booting_def)
  then show ?thesis using avail_mono [of 16000000 "hp s" 15000000] by (auto simp: demo_state_def)
qed

lemma demo_touched: "\<exists>s. demo_state s [[] \<mapsto> [''a.c'' \<mapsto> []]] \<and> avail 15999000 (hp s)"
proof -
  obtain s where s: "demo_state s [[] \<mapsto> Map.empty]" "avail 16000000 (hp s)" using demo_empty by blast
  note D = demo_stateD [OF s(1)]
  have sl: "snd (split_last ''a.c'') = ''a.c''" by (simp add: split_last_def)
  have "a_touch (fname s) [] ''a.c'' (view s) = (0, [[] \<mapsto> [''a.c'' \<mapsto> []]])"
    using D(3) by (simp add: a_touch_def a_parent_def a_create_def)
  then obtain r s' where t: "fs_touch (Some ''a.c'') None s = Some (r, s')" "fs_ok 0x200000 demo_K s'" "cwd_at s' []" "out s' = []"
    "r = 0 \<and> view s' = [[] \<mapsto> [''a.c'' \<mapsto> []]] \<or> r = - 5"
    using touch_sim [OF D(1,2), of "''a.c''"] D(4) sl by (auto simp: simulates_def)
  have e: "r \<noteq> - 5" "avail 15999400 (hp s')" using touch_enough [OF D(1,2) s(2) _ t(1)] by simp_all
  show ?thesis using t e avail_mono [OF e(2), of 15999000] avail_mono [OF e(2), of 15000000] by (auto simp: demo_state_def)
qed

lemma demo_written: "\<exists>s. demo_state s [[] \<mapsto> [''a.c'' \<mapsto> bytes_of ''hi'']]"
proof -
  obtain s where s: "demo_state s [[] \<mapsto> [''a.c'' \<mapsto> []]]" "avail 15999000 (hp s)" using demo_touched by blast
  note D = demo_stateD [OF s(1)]
  have b: "take 2 (bytes_of ''hi'') = bytes_of ''hi''" "length (bytes_of ''hi'') = 2" by (simp_all add: bytes_of_def)
  have fn: "fname s [] ''a.c'' = ''a.c''" using fname_here [OF D(1,2) demo_names] by simp
  then have "a_write [] (fname s [] ''a.c'') (bytes_of ''hi'') (view s) = (0, [[] \<mapsto> [''a.c'' \<mapsto> bytes_of ''hi'']])"
    using D(3) by (simp add: a_write_def)
  then have sp: "a_write [] (fname s [] ''a.c'') (take (unat (2 :: u32)) (bytes_of ''hi'')) (view s) = (0, [[] \<mapsto> [''a.c'' \<mapsto> bytes_of ''hi'']])"
    using b by simp
  have ne: "fs_write (Some ''a.c'') (Some (bytes_of ''hi'')) 2 None s \<noteq> Some (- 4, s')" for s'
    using write_enough [OF D(1,2,5), of 2 "''a.c''" "bytes_of ''hi''" "- 4" s'] by auto
  then obtain s' where w: "fs_write (Some ''a.c'') (Some (bytes_of ''hi'')) 2 None s = Some (0, s')" "fs_ok 0x200000 demo_K s'" "cwd_at s' []"
    "out s' = []" "view s' = [[] \<mapsto> [''a.c'' \<mapsto> bytes_of ''hi'']]"
    using write_sim [OF D(1,2), of 2 "bytes_of ''hi''" "''a.c''"] D(4) b(2) unfolding sp by (auto simp: simulates_def)
  have "avail 15000000 (hp s')" using write_enough [OF D(1,2) s(2) _ _ w(1)] avail_mono [of _ "hp s'" 15000000] by auto
  then show ?thesis using w by (auto simp: demo_state_def)
qed

lemma demo_folder: "\<exists>s. demo_state s [[] \<mapsto> Map.empty, [''b.a''] \<mapsto> Map.empty]"
proof -
  obtain s where s: "demo_state s [[] \<mapsto> Map.empty]" "avail 16000000 (hp s)" using demo_empty by blast
  note D = demo_stateD [OF s(1)]
  have "a_mkdir [] ''b.a'' k (view s) = (0, [[] \<mapsto> Map.empty, [''b.a''] \<mapsto> Map.empty])" for k using D(3) by (simp add: a_mkdir_def)
  then obtain r s' where t: "fs_mkdir (Some ''b.a'') None s = Some (r, s')" "fs_ok 0x200000 demo_K s'" "cwd_at s' []" "out s' = []"
    "r = 0 \<and> view s' = [[] \<mapsto> Map.empty, [''b.a''] \<mapsto> Map.empty] \<or> r = - 5"
    using mkdir_sim [OF D(1,2), of "''b.a''"] D(4) by (auto simp: simulates_def)
  have e: "r \<noteq> - 5" "avail 15999400 (hp s')" using mkdir_enough [OF D(1,2) s(2) _ t(1)] by simp_all
  show ?thesis using t e avail_mono [OF e(2), of 15000000] by (auto simp: demo_state_def)
qed

section \<open>The operations refine the abstract file system\<close>

text \<open>C7. Creating a folder: \<open>fs_mkdir\<close> returns; it rejects an empty name and a name of 128 characters or more with -1, the
  name of an existing folder with -3 and of an existing file with -4; otherwise the tree has a new empty
  folder of that name in the current folder and nothing else changed, or -5 reports that memory ran out and
  nothing changed, which needs that no free block of one kilobyte is left. The invariant and the current
  folder are kept.\<close>

theorem mkdir_refines:
  assumes "fs_ok e K s" "cwd_at s c" "no_confusion K" "n \<in> K"
  shows "\<exists>r s'. fs_mkdir (Some n) None s = Some (r, s') \<and> fs_ok e K s' \<and> cwd_at s' c \<and> out s' = out s \<and>
    ((r, view s') = a_mkdir c n n (view s) \<or> r = - 5 \<and> view s' = view s \<and> \<not> avail 1024 (hp s))"
  using mkdir_sim [OF assms(1,2), of n] mkdir_enough [OF assms(1,2), of 1024 n]
  unfolding fname_here [OF assms] simulates_def by blast

theorem mkdir_refines_witness:
  "\<exists>s s'. fs_mkdir (Some ''a.c'') None s = Some (0, s') \<and> view s' = [[] \<mapsto> Map.empty, [''a.c''] \<mapsto> Map.empty]"
proof -
  obtain s where s: "demo_state s [[] \<mapsto> Map.empty]" using demo_empty by blast
  note D = demo_stateD [OF s]
  have "a_mkdir [] ''a.c'' ''a.c'' (view s) = (0, [[] \<mapsto> Map.empty, [''a.c''] \<mapsto> Map.empty])" using D(3) by (simp add: a_mkdir_def)
  then show ?thesis
    using mkdir_refines [OF D(1,2) demo_names, of "''a.c''"] avail_mono [OF D(5), of 1024] by auto
qed

text \<open>C24. Removing a folder: \<open>fs_rmdir\<close> returns; it removes an empty folder of the current folder and nothing else, and
  changes nothing when there is no such folder (-3) or it is not empty (-4). Its blocks go back to the
  heap; the invariant and the current folder are kept.\<close>

theorem rmdir_refines:
  assumes "fs_ok e K s" "cwd_at s c"
  shows "\<exists>r s'. fs_rmdir (Some n) None s = Some (r, s') \<and> (r, view s') = a_rmdir c n (view s) \<and>
    fs_ok e K s' \<and> cwd_at s' c \<and> out s' = out s"
  using rmdir_sim [OF assms, of n] by (auto simp: simulates_def)

theorem rmdir_refines_witness:
  "\<exists>s s'. view s [''b.a''] = Some Map.empty \<and> fs_rmdir (Some ''b.a'') None s = Some (0, s') \<and> view s' = [[] \<mapsto> Map.empty]"
proof -
  obtain s where s: "demo_state s [[] \<mapsto> Map.empty, [''b.a''] \<mapsto> Map.empty]" using demo_folder by blast
  note D = demo_stateD [OF s]
  have "a_rmdir [] ''b.a'' (view s) = (0, [[] \<mapsto> Map.empty])" using D(3) by (simp add: a_rmdir_def fun_eq_iff)
  then show ?thesis using rmdir_refines [OF D(1,2), of "''b.a''"] D(3) by - (rule exI [of _ s], auto)
qed

text \<open>C22. Creating a file: \<open>fs_touch\<close> returns; it takes a name in the current folder or a path name whose part before the
  last slash leads to a folder, rejects what names an existing folder (-3) or file (-4), and otherwise adds
  an empty file there and changes nothing else, or reports that memory ran out (-5).\<close>

theorem touch_refines:
  assumes "fs_ok e K s" "cwd_at s c" "no_confusion K" "snd (split_last nm) \<in> K" "length nm < 512"
  shows "\<exists>r s'. fs_touch (Some nm) None s = Some (r, s') \<and> fs_ok e K s' \<and> cwd_at s' c \<and> out s' = out s \<and>
    ((r, view s') = a_touch (\<lambda>_ f. f) c nm (view s) \<or> r = - 5 \<and> view s' = view s \<and> \<not> avail 1024 (hp s))"
  using touch_sim [OF assms(1,2,4)] touch_enough [OF assms(1,2), of 1024 nm]
  unfolding simulates_def keys_here(1) [OF assms] by blast

theorem touch_refines_witness:
  "\<exists>s s'. fs_touch (Some ''b.a/a.c'') None s = Some (0, s') \<and> view s' = [[] \<mapsto> Map.empty, [''b.a''] \<mapsto> [''a.c'' \<mapsto> []]]"
proof -
  obtain s where s: "demo_state s [[] \<mapsto> Map.empty, [''b.a''] \<mapsto> Map.empty]" using demo_folder by blast
  note D = demo_stateD [OF s]
  have "a_touch (\<lambda>_ f. f) [] ''b.a/a.c'' (view s) = (0, [[] \<mapsto> Map.empty, [''b.a''] \<mapsto> [''a.c'' \<mapsto> []]])"
    using D(3) by (simp add: a_touch_def a_parent_def a_create_def split_last_def apath_def)
  moreover have "snd (split_last ''b.a/a.c'') = ''a.c''" by (simp add: split_last_def)
  ultimately show ?thesis
    using touch_refines [OF D(1,2) demo_names, of "''b.a/a.c''"] avail_mono [OF D(5), of 1024] by auto
qed

text \<open>C23. Removing a file: \<open>fs_rm\<close> returns; it removes exactly the named file and gives its data and its table entry back to
  the heap, or changes nothing and reports that the folder (-2) or the file (-3) does not exist.\<close>

theorem rm_refines:
  assumes "fs_ok e K s" "cwd_at s c" "no_confusion K" "snd (split_last nm) \<in> K" "length nm < 512"
  shows "\<exists>r s'. fs_rm (Some nm) None s = Some (r, s') \<and> (r, view s') = a_rm (\<lambda>_ f. f) c nm (view s) \<and>
    fs_ok e K s' \<and> cwd_at s' c \<and> out s' = out s"
  using rm_sim [OF assms(1,2,5)] unfolding simulates_def keys_here(2) [OF assms] by auto

theorem rm_refines_witness:
  "\<exists>s s'. view s [] = Some [''a.c'' \<mapsto> bytes_of ''hi''] \<and> fs_rm (Some ''a.c'') None s = Some (0, s') \<and> view s' = [[] \<mapsto> Map.empty]"
proof -
  obtain s where s: "demo_state s [[] \<mapsto> [''a.c'' \<mapsto> bytes_of ''hi'']]" using demo_written by blast
  note D = demo_stateD [OF s]
  have "a_rm (\<lambda>_ f. f) [] ''a.c'' (view s) = (0, [[] \<mapsto> Map.empty])"
    using D(3) by (simp add: a_rm_def a_parent_def a_remove_def)
  moreover have "snd (split_last ''a.c'') = ''a.c''" by (simp add: split_last_def)
  ultimately show ?thesis using rm_refines [OF D(1,2) demo_names, of "''a.c''"] D(3) by - (rule exI [of _ s], auto)
qed

text \<open>C25. Writing a file: \<open>fs_write\<close> replaces the contents of the named file of the current folder by the given bytes and
  changes nothing else, or changes nothing and reports that there is no such file (-3). It fails to do so
  only when no free block can hold the data (-4).\<close>

theorem write_refines:
  assumes "fs_ok e K s" "cwd_at s c" "no_confusion K" "n \<in> K" "unat len \<le> length bytes" "unat len \<le> 2 ^ 32 - 8"
  shows "\<exists>r s'. fs_write (Some n) (Some bytes) len None s = Some (r, s') \<and>
    ((r, view s') = a_write c n (take (unat len) bytes) (view s) \<and> fs_ok e K s' \<and> cwd_at s' c \<and> out s' = out s \<or>
     r = - 4 \<and> \<not> avail (unat len + 32) (hp s))"
  using write_sim [OF assms(1,2,5,6), of n] write_enough [OF assms(1,2), of "unat len + 32" len n bytes] assms(6)
  unfolding fname_here [OF assms(1-4)] simulates_def by blast

theorem write_refines_witness:
  "\<exists>s s'. fs_write (Some ''a.c'') (Some (bytes_of ''hi'')) 2 None s = Some (0, s') \<and> view s' = [[] \<mapsto> [''a.c'' \<mapsto> bytes_of ''hi'']]"
proof -
  obtain s where s: "demo_state s [[] \<mapsto> [''a.c'' \<mapsto> []]]" using demo_touched by blast
  note D = demo_stateD [OF s]
  have b: "take 2 (bytes_of ''hi'') = bytes_of ''hi''" "length (bytes_of ''hi'') = 2" by (simp_all add: bytes_of_def)
  then have "a_write [] ''a.c'' (take (unat (2 :: u32)) (bytes_of ''hi'')) (view s) = (0, [[] \<mapsto> [''a.c'' \<mapsto> bytes_of ''hi'']])"
    using D(3) by (simp add: a_write_def)
  then show ?thesis
    using write_refines [OF D(1,2) demo_names, of "''a.c''" 2 "bytes_of ''hi''"] b(2) avail_mono [OF D(5), of 34] by auto
qed

text \<open>Shortening a file: \<open>fs_backspace\<close> returns; for a positive count it cuts the given number of bytes off the end of the
  named file (all of them when the count is larger), for an empty file it reports -5, and -6 means that memory
  for the copy ran out and nothing changed.\<close>

theorem backspace_refines:
  assumes "fs_ok e K s" "cwd_at s c" "no_confusion K" "snd (split_last nm) \<in> K" "length nm < 512"
  shows "\<exists>r s'. fs_backspace (Some nm) count None s = Some (r, s') \<and> fs_ok e K s' \<and> cwd_at s' c \<and> out s' = out s \<and>
    ((r, view s') = a_shorten (\<lambda>_ f. f) c nm count (view s) \<or>
     r = - 6 \<and> view s' = view s \<and> fst (a_shorten (\<lambda>_ f. f) c nm count (view s)) = 0)"
  using backspace_sim [OF assms(1,2,5), of count] unfolding simulates_def keys_here(3) [OF assms] by simp

theorem backspace_refines_witness:
  "\<exists>s s'. view s [] = Some [''a.c'' \<mapsto> bytes_of ''hi''] \<and> fs_backspace (Some ''a.c'') 1 None s = Some (0, s') \<and>
     view s' = [[] \<mapsto> [''a.c'' \<mapsto> bytes_of ''h'']]"
proof -
  obtain s where s: "demo_state s [[] \<mapsto> [''a.c'' \<mapsto> bytes_of ''hi'']]" using demo_written by blast
  note D = demo_stateD [OF s]
  have sp: "a_shorten (\<lambda>_ f. f) [] ''a.c'' 1 (view s) = (0, [[] \<mapsto> [''a.c'' \<mapsto> bytes_of ''h'']])"
    using D(3) by (simp add: a_shorten_def a_parent_def a_backspace_def bytes_of_def)
  have "snd (split_last ''a.c'') = ''a.c''" by (simp add: split_last_def)
  then obtain r s' where b: "fs_backspace (Some ''a.c'') 1 None s = Some (r, s')"
    "(r, view s') = (0, [[] \<mapsto> [''a.c'' \<mapsto> bytes_of ''h'']]) \<or> r = - 6"
    using backspace_refines [OF D(1,2) demo_names, of "''a.c''" 1] unfolding sp by auto
  have "r \<noteq> - 6"
  proof (rule backspace_enough [OF D(1,2) _ avail_mono [OF D(5)] b(1)])
    fix c' g bs assume "a_parent (view s) [] ''a.c'' = Inr (c', g)" "the (view s c') (fname s c' g) = Some bs"
    then show "length bs \<le> 2 ^ 22" using D(3) by (auto simp: a_parent_def bytes_of_def split: if_splits)
  qed simp_all
  then show ?thesis using b D(3) by - (rule exI [of _ s], auto)
qed

section \<open>Round trips and the current folder\<close>

lemma bytes_text_of: "CHR 0x00 \<notin> set str \<Longrightarrow> bytes_text (bytes_of str) = str"
proof (induction str)
  case (Cons c cs)
  have "unat (of_char c :: u8) = unat (of_nat (of_char c) :: u8)" by (simp only: of_nat_of_char)
  also have "\<dots> = of_char c mod 2 ^ 8" by (simp only: unat_of_nat) simp
  finally have c: "char_of (unat (of_char c :: u8)) = c" by simp
  moreover have "of_char c \<noteq> (0 :: u8)" using c Cons.prems by (auto simp: char_of_def)
  ultimately show ?case using Cons by (simp add: bytes_text_def bytes_of_def)
qed (simp add: bytes_text_def bytes_of_def)

text \<open>C8. What is written is what is printed: with a free block large enough, \<open>fs_write\<close> of a text without NUL characters to a
  file of the current folder succeeds, and \<open>fs_cat\<close> then prints exactly this text.\<close>

theorem write_then_cat:
  assumes "fs_ok e K s" "cwd_at s c" "no_confusion K" "n \<in> K" "the (view s c) n \<noteq> None"
    and "CHR 0x00 \<notin> set str" "length str \<le> 2 ^ 24" "avail (length str + 32) (hp s)"
  shows "\<exists>s1 s2. fs_write (Some n) (Some (bytes_of str)) (of_nat (length str)) None s = Some (0, s1) \<and>
    fs_cat (Some n) None s1 = Some (0, s2) \<and> out s2 = out s @ str \<and> fs_ok e K s2 \<and> cwd_at s2 c"
proof -
  have len: "unat (of_nat (length str) :: u32) = length str" using assms(7) by (simp add: unat_of_nat)
  have b: "length (bytes_of str) = length str" by (simp add: bytes_of_def)
  have sp: "a_write c n (take (length str) (bytes_of str)) (view s) = (0, (view s)(c \<mapsto> (the (view s c))(n \<mapsto> bytes_of str)))"
    using assms(5) b by (simp add: a_write_def)
  have ne: "fs_write (Some n) (Some (bytes_of str)) (of_nat (length str)) None s \<noteq> Some (- 4, s')" for s'
    using write_enough [OF assms(1,2,8), of "of_nat (length str)" n "bytes_of str" "- 4" s'] len assms(7) by auto
  have "simulates e K c s (fs_write (Some n) (Some (bytes_of str)) (of_nat (length str)) None s)
      (0, (view s)(c \<mapsto> (the (view s c))(n \<mapsto> bytes_of str))) None"
    using write_sim [OF assms(1,2), of "of_nat (length str)" "bytes_of str" n] ne len b assms(7)
    unfolding fname_here [OF assms(1-4)] len sp by auto
  then obtain s1 where w: "fs_write (Some n) (Some (bytes_of str)) (of_nat (length str)) None s = Some (0, s1)" "fs_ok e K s1" "cwd_at s1 c"
    "out s1 = out s" "view s1 = (view s)(c \<mapsto> (the (view s c))(n \<mapsto> bytes_of str))"
    by (auto simp: simulates_def)
  let ?s2 = "s1\<lparr>out := out s1 @ str\<rparr>"
  have "fs_cat (Some n) None s1 = Some (0, ?s2)"
    using cat_spec [OF w(2,3), of n] fname_here [OF w(2,3) assms(3,4)] w(5) bytes_text_of [OF assms(6)] by simp
  moreover have "fs_ok e K ?s2" "cwd_at ?s2 c" using w(2,3) fs_ok_cong(3,4) [of ?s2 s1] by simp_all
  ultimately show ?thesis using w(1,4) by auto
qed

theorem write_then_cat_witness:
  "\<exists>s s1 s2. fs_write (Some ''a.c'') (Some (bytes_of ''hello'')) 5 None s = Some (0, s1) \<and>
     fs_cat (Some ''a.c'') None s1 = Some (0, s2) \<and> out s2 = ''hello''"
proof -
  obtain s where s: "demo_state s [[] \<mapsto> [''a.c'' \<mapsto> []]]" using demo_touched by blast
  note D = demo_stateD [OF s]
  show ?thesis
    using write_then_cat [OF D(1,2) demo_names, of "''a.c''" "''hello''"] D(3,4) avail_mono [OF D(5), of 37] by auto
qed

text \<open>C26. Changing the folder: \<open>fs_cd\<close> follows the path name from the root or the current folder; a path that leads nowhere gives
  -2 and changes nothing; otherwise the folder it leads to becomes the current one, the current path and the
  variable \<^verbatim>\<open>pwd\<close> name it, and the files stay as they are. Only when the path of that folder needs 512
  characters or more does the call not return: the copy overruns its array.\<close>

theorem cd_correct:
  assumes "fs_ok e K s" "cwd_at s c" "length p < 512"
  shows "case apath (\<lambda>x. view s x \<noteq> None) c p of
      None \<Rightarrow> fs_cd (Some p) s = Some (- 2, s)
    | Some c' \<Rightarrow>
        (if length (path_text c') < 512
         then \<exists>s'. fs_cd (Some p) s = Some (0, s') \<and> fs_ok e K s' \<and> cwd_at s' c' \<and> current_path s' = path_text c' \<and>
           env_get (env_map s') ''pwd'' = Some (take 255 (path_text c')) \<and> view s' = view s \<and> out s' = out s
         else fs_cd (Some p) s = None)"
proof (cases "apath (\<lambda>x. view s x \<noteq> None) c p")
  case None
  then show ?thesis using cd_spec [OF assms] by simp
next
  case (Some c')
  show ?thesis
  proof (cases "length (path_text c') < 512")
    case True
    then obtain s' where s': "fs_cd (Some p) s = Some (0, s')" "fs_ok e K s'" "cwd_at s' c'" "view s' = view s" "out s' = out s"
      using cd_spec [OF assms] Some by auto
    then show ?thesis using Some True fs_okD(2) [OF s'(2)] by (auto simp: cwd_at_def env_ok_def)
  next
    case False
    then show ?thesis using cd_spec [OF assms] Some by simp
  qed
qed

theorem cd_correct_witness:
  "\<exists>s s'. fs_cd (Some ''./b.a'') s = Some (0, s') \<and> current_path s' = ''/b.a'' \<and> env_get (env_map s') ''pwd'' = Some ''/b.a'' \<and>
     fs_cd (Some ''x'') s = Some (- 2, s)"
proof -
  obtain s where s: "demo_state s [[] \<mapsto> Map.empty, [''b.a''] \<mapsto> Map.empty]" using demo_folder by blast
  note D = demo_stateD [OF s]
  have "apath (\<lambda>x. view s x \<noteq> None) [] ''./b.a'' = Some [''b.a'']" "apath (\<lambda>x. view s x \<noteq> None) [] ''x'' = None"
    using D(3) by (simp_all add: apath_def)
  then show ?thesis using cd_correct [OF D(1,2), of "''./b.a''"] cd_correct [OF D(1,2), of "''x''"] by (auto simp: path_text_def)
qed

lemma fs_cd_dirs: "fs_cd p s = Some (r, s') \<Longrightarrow> dirs s' = dirs s"
  by (auto simp: fs_cd_def Let_def split: option.splits if_splits bind_splits)

text \<open>C27. The printed path is a way back: from any folder, \<open>fs_cd\<close> to a folder and then to the path that was the current one
  returns to the first folder and leaves the files as they are.\<close>

theorem cd_and_back:
  assumes "fs_ok e K s" "cwd_at s c" "length p < 512" "apath (\<lambda>x. view s x \<noteq> None) c p = Some c'" "length (path_text c') < 512"
  shows "\<exists>s1 s2. fs_cd (Some p) s = Some (0, s1) \<and> fs_cd (Some (current_path s)) s1 = Some (0, s2) \<and>
    fs_ok e K s2 \<and> cwd_at s2 c \<and> current_path s2 = current_path s \<and> current_dir s2 = current_dir s \<and> view s2 = view s"
proof -
  obtain s1 where s1: "fs_cd (Some p) s = Some (0, s1)" "fs_ok e K s1" "cwd_at s1 c'" "view s1 = view s"
    using cd_spec [OF assms(1-3)] assms(4,5) by auto
  have c: "length (path_text c) < 512" "current_path s = path_text c" "\<forall>n\<in>set c. plain_name n" "dir_at (dirs s) ROOT c = Some (current_dir s)"
    using assms(2) by (auto simp: cwd_at_def)
  have "is_dir s c" using c(4) by (simp add: is_dir_def)
  then have d1: "is_dir s1 c" using view_is_dir [of s c] view_is_dir [of s1 c] s1(4) by simp
  have t: "tree_ok K (dirs s1)" using core_okD(2) [OF fs_okD(1) [OF s1(2)]] .
  have "apath (\<lambda>x. view s1 x \<noteq> None) c' (path_text c) = Some c" using apath_path_text [OF t d1 c(3)] by (simp add: view_dir)
  then obtain s2 where s2: "fs_cd (Some (path_text c)) s1 = Some (0, s2)" "fs_ok e K s2" "cwd_at s2 c" "view s2 = view s1"
    using cd_spec [OF s1(2,3) c(1)] c(1) by auto
  have "dirs s2 = dirs s" using s1(1) s2(1) by (metis fs_cd_dirs)
  then have "current_dir s2 = current_dir s" using s2(3) c(4) by (simp add: cwd_at_def)
  then show ?thesis using s1 s2 c(2) by (auto simp: cwd_at_def)
qed

theorem cd_and_back_witness:
  "\<exists>s s1 s2. fs_cd (Some ''b.a'') s = Some (0, s1) \<and> fs_cd (Some (current_path s)) s1 = Some (0, s2) \<and> current_dir s2 = current_dir s"
proof -
  obtain s where s: "demo_state s [[] \<mapsto> Map.empty, [''b.a''] \<mapsto> Map.empty]" using demo_folder by blast
  note D = demo_stateD [OF s]
  have "apath (\<lambda>x. view s x \<noteq> None) [] ''b.a'' = Some [''b.a'']" using D(3) by (simp add: apath_def)
  then show ?thesis using cd_and_back [OF D(1,2), of "''b.a''" "[''b.a'']"] by (auto simp: path_text_def)
qed

end
