(* ===== verification/Commands.thy ===== *)
theory Commands
  imports Boot Ramfs_Memory
begin

text \<open>
  The commands of the shell return and keep the invariant of the file system. \<open>returns\<close> is the judgement: the
  call returns and its final state has the invariant. The messages are printed by \<^verbatim>\<open>printf\<close>, which returns when every
  conversion of the format is \<^verbatim>\<open>%s\<close> with a string argument that fits its buffer, or one of the long conversions that it
  does not know and copies.
\<close>

section \<open>Messages\<close>

fun fits :: "string \<Rightarrow> arg list \<Rightarrow> bool" where
  "fits [] as = True"
| "fits (c # cs) as =
     (if c \<noteq> CHR ''%'' then fits cs as
      else case cs of [] \<Rightarrow> False
        | d # r \<Rightarrow>
            (if d = CHR ''s'' then (case as of ArgS x # as' \<Rightarrow> length x < 2048 \<and> fits r as' | _ \<Rightarrow> False)
             else d = CHR ''l'' \<and> fits r as))"

lemma printf_l: "printf (CHR ''%'' # CHR ''l'' # r) args = map_option ((@) ''%l'') (printf r args)"
  by (simp add: parse_plain convert_def Let_def)

lemma fits_printf: "fits f as \<Longrightarrow> \<exists>t. printf f as = Some t"
proof (induction f as rule: fits.induct)
  case (2 c cs as)
  show ?case
  proof (cases "c = CHR ''%''")
    case True
    then obtain d r where cs: "cs = d # r" using 2 by (cases cs) auto
    show ?thesis
    proof (cases "d = CHR ''s''")
      case s: True
      then obtain x as' where "as = ArgS x # as'" "length x < 2048" "fits r as'"
        using 2 True cs by (auto split: list.splits arg.splits)
      then show ?thesis using 2 True cs s by (auto simp: printf_s simp del: printf.simps)
    next
      case False
      then have "d = CHR ''l''" "fits r as" using 2 True cs by auto
      then show ?thesis using 2 True cs False by (auto simp: printf_l simp del: printf.simps)
    qed
  next
    case False
    then show ?thesis using 2 by auto
  qed
qed simp

lemma fits_say: "fits f as \<Longrightarrow> \<exists>o'. say f as s = Some (s\<lparr>out := o'\<rparr>)"
  using fits_printf [of f as] by (auto simp: say_def)

section \<open>The judgement\<close>

definition returns :: "u32 \<Rightarrow> (int \<times> fs) option \<Rightarrow> bool" where
  "returns e res \<longleftrightarrow> (\<exists>r s'. res = Some (r, s') \<and> fs_ok e UNIV s')"

lemma fs_ok_out [simp]: "fs_ok e K (s\<lparr>out := x\<rparr>) = fs_ok e K s" "cwd_at (s\<lparr>out := x\<rparr>) = cwd_at s" "view (s\<lparr>out := x\<rparr>) = view s"
  using fs_ok_cong [of "s\<lparr>out := x\<rparr>" s] by simp_all

lemma fs_ok_disk [simp]: "fs_ok e K (s\<lparr>disk := x\<rparr>) = fs_ok e K s" "cwd_at (s\<lparr>disk := x\<rparr>) = cwd_at s" "view (s\<lparr>disk := x\<rparr>) = view s"
  using fs_ok_cong [of "s\<lparr>disk := x\<rparr>" s] by simp_all

lemma returns_Some [intro]: "fs_ok e UNIV s \<Longrightarrow> returns e (Some (r, s))"
  by (auto simp: returns_def)

lemma returns_say_ret [intro]: "fs_ok e UNIV s \<Longrightarrow> fits f as \<Longrightarrow> returns e (say_ret f as r s)"
  using fits_say [of f as s] by (auto simp: returns_def say_ret_def)

lemma returns_say [intro]:
  assumes "fs_ok e UNIV s" "fits f as" "\<And>x. fs_ok e UNIV (s\<lparr>out := x\<rparr>) \<Longrightarrow> returns e (g (s\<lparr>out := x\<rparr>))"
  shows "returns e (say f as s \<bind> g)"
  using fits_say [OF assms(2), of s] assms(1,3) by auto

lemma returns_bind:
  assumes "returns e x" "\<And>r s. fs_ok e UNIV s \<Longrightarrow> returns e (g r s)"
  shows "returns e (x \<bind> (\<lambda>(r, s). g r s))"
  using assms by (auto simp: returns_def)

lemma say_all_returns:
  assumes "\<forall>(f, as) \<in> set ms. fits f as"
  shows "\<exists>x. say_all ms s = Some (s\<lparr>out := x\<rparr>)"
  using assms
proof (induction ms arbitrary: s)
  case Nil
  show ?case by (rule exI [of _ "out s"]) simp
next
  case (Cons m ms)
  then obtain x where "say (fst m) (snd m) s = Some (s\<lparr>out := x\<rparr>)" using fits_say [of "fst m" "snd m" s] by auto
  moreover obtain y where "say_all ms (s\<lparr>out := x\<rparr>) = Some (s\<lparr>out := x\<rparr>\<lparr>out := y\<rparr>)" using Cons.IH [of "s\<lparr>out := x\<rparr>"] Cons.prems by auto
  ultimately show ?case by (cases m) auto
qed

lemma simulates_returns: "simulates e UNIV c s res spec oom \<Longrightarrow> returns e res"
  by (auto simp: simulates_def returns_def)

section \<open>The commands of the RAM file system\<close>

text \<open>What the shell passes on: its arguments are shorter than its line buffer.\<close>

abbreviation (input) short_args :: "string list \<Rightarrow> bool" where
  "short_args argv \<equiv> \<forall>a\<in>set argv. length a < 512"

lemma short_nth: "short_args argv \<Longrightarrow> i < length argv \<Longrightarrow> length (argv ! i) < 512"
  by simp

lemma rmdir_api_returns:
  assumes "fs_ok e UNIV s" "short_args argv"
  shows "returns e (fs_rmdir_api argv s)"
proof -
  obtain c where c: "cwd_at s c" using fs_okD(4) [OF assms(1)] by blast
  note r = simulates_returns [OF rmdir_sim [OF assms(1) c, of "argv ! Suc 0"]]
  have l: "length argv = 2 \<Longrightarrow> length (argv ! 1) < 2048" using short_nth [OF assms(2), of 1] by simp
  show ?thesis unfolding fs_rmdir_api_def using assms(1) l
    by (auto intro!: returns_say_ret returns_say returns_bind [OF r])
qed

lemma rm_api_returns:
  assumes "fs_ok e UNIV s" "short_args argv"
  shows "returns e (fs_rm_api argv s)"
proof -
  obtain c where c: "cwd_at s c" using fs_okD(4) [OF assms(1)] by blast
  have r: "length argv = 2 \<Longrightarrow> returns e (fs_rm (Some (argv ! Suc 0)) None s)"
    using simulates_returns [OF rm_sim [OF assms(1) c]] short_nth [OF assms(2), of 1] by simp
  show ?thesis unfolding fs_rm_api_def using assms(1)
    by (auto intro!: returns_say_ret returns_say returns_bind [OF r])
qed

lemma touch_api_returns:
  assumes "fs_ok e UNIV s" "short_args argv"
  shows "returns e (fs_touch_api argv s)"
proof -
  obtain c where c: "cwd_at s c" using fs_okD(4) [OF assms(1)] by blast
  note r = simulates_returns [OF touch_sim [OF assms(1) c UNIV_I, of "argv ! Suc 0"]]
  show ?thesis unfolding fs_touch_api_def using assms(1)
    by (auto intro!: returns_say_ret returns_say returns_bind [OF r])
qed

lemma cat_api_returns:
  assumes "fs_ok e UNIV s"
  shows "returns e (fs_cat_api argv s)"
proof -
  obtain c where c: "cwd_at s c" using fs_okD(4) [OF assms] by blast
  have r: "returns e (fs_cat (Some n) None s)" for n
    using assms by (auto simp: cat_spec [OF assms c] returns_def split: option.splits)
  show ?thesis unfolding fs_cat_api_def using assms
    by (auto intro!: returns_say_ret returns_say returns_bind [OF r])
qed

lemma ls_api_text:
  assumes "fs_ok e UNIV s"
  shows "\<exists>r x. fs_ls_api argv s = Some (r, s\<lparr>out := x\<rparr>)"
proof -
  obtain c where c: "cwd_at s c" using fs_okD(4) [OF assms] by blast
  obtain d where C: "tree_ok UNIV (dirs s)" "dirs s (current_dir s) = Some d" using cwd_dir [OF assms c] by blast
  have ok: "hm_ok UNIV (foder_map d)" "hm_ok UNIV (file_map d)" using tree_okD(3) [OF C] by (simp_all add: folder_ok_def)
  have k: "length (nd_key n) < 2048" if a: "n \<in> set (concat (buckets m))" "hm_ok UNIV m" for n and m :: "'v hmap"
  proof -
    obtain ns where "ns \<in> set (buckets m)" "n \<in> set ns" using a(1) by auto
    then show ?thesis using a(2) by (fastforce simp: hm_ok_def in_set_conv_nth [of ns])
  qed
  let ?l1 = "(''Directories:\<newline>'', []) # map (\<lambda>n. (''  %s/\<newline>'', [ArgS (nd_key n)])) (concat (buckets (foder_map d)))"
  let ?l2 = "(''Files:\<newline>'', []) # map (\<lambda>n. (''  %s (%lld bytes)\<newline>'',
          [ArgS (nd_key n), ArgI (of_int (fi_length (nd_value n))), ArgI (of_int (fi_length (nd_value n) div 2 ^ 32))]))
          (concat (buckets (file_map d)))"
  have f: "\<forall>(f, as) \<in> set ?l1. fits f as" "\<forall>(f, as) \<in> set ?l2. fits f as"
    using k [OF _ ok(1)] k [OF _ ok(2)] by auto
  obtain x where x: "say_all ?l1 s = Some (s\<lparr>out := x\<rparr>)" using say_all_returns [OF f(1)] by blast
  obtain y where "say_all ?l2 (s\<lparr>out := x\<rparr>) = Some (s\<lparr>out := x\<rparr>\<lparr>out := y\<rparr>)" using say_all_returns [OF f(2)] by blast
  then have "fs_ls s = Some (0, s\<lparr>out := x\<rparr>\<lparr>out := y\<rparr>)" using x folder_here [OF C] by (simp add: fs_ls_def del: say_all.simps)
  moreover obtain z where "say ''ls: list directory contents\<newline>'' [] s = Some (s\<lparr>out := z\<rparr>)" using fits_say by force
  ultimately show ?thesis by (auto simp: fs_ls_api_def say_ret_def)
qed

lemma ls_api_returns: "fs_ok e UNIV s \<Longrightarrow> returns e (fs_ls_api argv s)"
  using ls_api_text by (fastforce simp: returns_def)

lemma pwd_api_returns:
  assumes "fs_ok e UNIV s"
  shows "returns e (fs_pwd_api argv s)"
proof -
  obtain c where "cwd_at s c" using fs_okD(4) [OF assms] by blast
  then have "length (current_path s) < 2048" by (auto simp: cwd_at_def)
  then show ?thesis unfolding fs_pwd_api_def using assms by (auto intro!: returns_say_ret)
qed

text \<open>\<^verbatim>\<open>cd\<close> returns unless the path of the folder it leads to has 512 characters or more.\<close>

lemma cd_api_returns:
  assumes "fs_ok e UNIV s" "short_args argv" "cwd_at s c" "argv \<noteq> []"
    and "\<And>c'. length argv = 2 \<Longrightarrow> apath (\<lambda>x. view s x \<noteq> None) c (argv ! 1) = Some c' \<Longrightarrow> length (path_text c') < 512"
  shows "returns e (fs_cd_api argv s)"
proof -
  have r: "returns e (fs_cd (Some (argv ! Suc 0)) s)" if "length argv = 2"
    using cd_spec [OF assms(1,3), of "argv ! 1"] assms(5) [OF that] short_nth [OF assms(2), of 1] that assms(1)
    by (auto simp: returns_def split: option.splits if_splits)
  have l: "length argv = 2 \<Longrightarrow> length (argv ! Suc 0) < 2048" using short_nth [OF assms(2), of 1] by simp
  show ?thesis
  proof (cases "length argv = 2")
    case True
    then show ?thesis unfolding fs_cd_api_def using assms(1) l [OF True]
      by (auto intro!: returns_say_ret returns_say returns_bind [OF r])
  next
    case False
    then have "length argv = 1 \<or> length argv > 2" using assms(4) by (cases argv rule: remdups_adj.cases) auto
    then show ?thesis unfolding fs_cd_api_def using assms(1) by (auto intro!: returns_say_ret)
  qed
qed

lemma write_api_returns:
  assumes "fs_ok e UNIV s" "short_args argv" "avail 544 (hp s)"
  shows "returns e (fs_write_api argv s)"
proof -
  obtain c where c: "cwd_at s c" using fs_okD(4) [OF assms(1)] by blast
  have r: "returns e (fs_write (Some n) (Some (bytes_of a)) (of_nat (length a)) None s)" if "length a < 512" for n a
  proof -
    have l: "unat (of_nat (length a) :: u32) = length a" using that by (simp add: unat_of_nat)
    have "length (bytes_of a) = length a" by (simp add: bytes_of_def)
    then have w: "simulates e UNIV c s (fs_write (Some n) (Some (bytes_of a)) (of_nat (length a)) None s)
        (a_write c (fname s c n) (take (length a) (bytes_of a)) (view s)) None \<or>
      (\<exists>s'. fs_write (Some n) (Some (bytes_of a)) (of_nat (length a)) None s = Some (- 4, s'))"
      using write_sim [OF assms(1) c, of "of_nat (length a)" "bytes_of a" n] that unfolding l by auto
    have "fs_write (Some n) (Some (bytes_of a)) (of_nat (length a)) None s \<noteq> Some (- 4, s')" for s'
      using write_enough [OF assms(1) c assms(3), of "of_nat (length a)" n "bytes_of a" "- 4" s'] that unfolding l by auto
    then show ?thesis using w simulates_returns by blast
  qed
  show ?thesis
  proof (cases "length argv = 3")
    case True
    then have "length (argv ! 2) < 512" using short_nth [OF assms(2), of 2] by simp
    then show ?thesis unfolding fs_write_api_def using assms(1) True
      by (auto intro!: returns_say_ret returns_bind [OF r])
  qed (use assms(1) in \<open>auto simp: fs_write_api_def intro!: returns_say_ret\<close>)
qed

lemma atoi_loop_returns:
  "m (p + of_nat k) = 0 \<Longrightarrow> \<exists>v. atoi_loop m p base sign val = Some v"
proof (induction k arbitrary: p val)
  case 0
  then show ?case by (subst atoi_loop.simps) (simp add: ctype_defs)
next
  case (Suc k)
  then have "m ((p + 1) + of_nat k) = 0" by (simp add: add.assoc)
  then show ?case using Suc.IH [of "p + 1"] by (subst atoi_loop.simps) (auto simp: Let_def)
qed

lemma atoi_skip_returns:
  "m (p + of_nat k) = 0 \<Longrightarrow> \<exists>q j. atoi_skip m p = Some q \<and> m (q + of_nat j) = 0 \<and> \<not> isspace (schar (m q))"
proof (induction k arbitrary: p)
  case 0
  then show ?case by (subst atoi_skip.simps) (auto simp: ctype_defs intro: exI [of _ 0])
next
  case (Suc k)
  then have "m ((p + 1) + of_nat k) = 0" by (simp add: add.assoc)
  then show ?case using Suc.IH [of "p + 1"] Suc.prems by (subst atoi_skip.simps) (auto intro: exI [of _ "Suc k"])
qed

lemma atoi_returns:
  assumes "m (p + of_nat k) = 0"
  shows "\<exists>v. atoi m p 10 = Some v"
proof -
  obtain q j where q: "atoi_skip m p = Some q" "m (q + of_nat j) = 0" using atoi_skip_returns [of m p k, OF assms] by blast
  have "\<exists>j'. m (q + 1 + of_nat j') = 0" if "m q \<noteq> 0"
    using q(2) that by (cases j) (auto simp: add.assoc)
  moreover have "schar (m q) = 43 \<or> schar (m q) = 45 \<Longrightarrow> m q \<noteq> 0" by auto
  ultimately have "\<exists>v. atoi_loop m q' 10 sg 0 = Some v" if "atoi_prefix m q 10 = Some (q', sg)" for q' sg
    using that q(2) atoi_loop_returns by (auto simp: atoi_prefix_def Let_def split: if_splits)
  then show ?thesis using q(1) by (auto simp: atoi_def split: option.splits)
qed

lemma atoi_text: "length a < 2 ^ 32 \<Longrightarrow> \<exists>v. atoi (string_mem a) 0 10 = Some v"
  by (intro atoi_returns [of _ _ "length a"]) (simp add: string_mem_def unat_of_nat)

lemma backspace_api_returns:
  assumes "fs_ok e UNIV s" "short_args argv"
  shows "returns e (fs_backspace_api argv s)"
proof -
  obtain c where c: "cwd_at s c" using fs_okD(4) [OF assms(1)] by blast
  have r: "returns e (fs_backspace (Some (argv ! Suc 0)) k None s)" if "length argv \<ge> 2" for k
    using simulates_returns [OF backspace_sim [OF assms(1) c]] short_nth [OF assms(2), of 1] that by simp
  have a: "\<exists>v. atoi (string_mem (argv ! 2)) 0 10 = Some v" if "length argv = 3"
    using atoi_text [of "argv ! 2"] short_nth [OF assms(2), of 2] that by simp
  show ?thesis
  proof (cases "length argv < 2 \<or> length argv > 3")
    case True
    then show ?thesis unfolding fs_backspace_api_def using assms(1) by (auto intro!: returns_say_ret)
  next
    case False
    then obtain cnt where "(if length argv = 3 then map_option sint (atoi (string_mem (argv ! 2)) 0 10) else Some 1) = Some cnt"
      using a by (cases "length argv = 3") auto
    then show ?thesis unfolding fs_backspace_api_def using assms(1) False
      by (auto intro!: returns_say_ret returns_say returns_bind [OF r])
  qed
qed

section \<open>mkdir\<close>

lemma mkdir_options_returns:
  assumes "fs_ok e UNIV s" "short_args as"
  shows "\<exists>res. mkdir_options as opt_p opt_v s = Some res \<and>
    (case res of Inl (r, s') \<Rightarrow> fs_ok e UNIV s' | Inr (_, _, dn) \<Rightarrow> (\<forall>d. dn = Some d \<longrightarrow> length d < 512))"
  using assms(2)
proof (induction "as" arbitrary: opt_p opt_v)
  case (Cons a rest)
  have l: "length a < 2048" using Cons.prems by simp
  let ?usage = "[(''Usage: mkdir [OPTION]... DIRECTORY...\<newline>'', []), (''Create DIRECTORY(ies).\<newline>'', []),
             (''  -p      create parent directories as needed\<newline>'', []),
             (''  -v      print a message for each created directory\<newline>'', []),
             (''  --version  output version information\<newline>'', [])] :: (string \<times> arg list) list"
  obtain x where x: "say_all ?usage s = Some (s\<lparr>out := x\<rparr>)" using say_all_returns [of ?usage s] by auto
  obtain y where y: "say ''ramfs mkdir version 1.0.0\<newline>'' [] s = Some (s\<lparr>out := y\<rparr>)" using fits_say [of "''ramfs mkdir version 1.0.0\<newline>''" "[]" s] by auto
  obtain z where z: "say ''mkdir: invalid option %s\<newline>'' [ArgS a] s = Some (s\<lparr>out := z\<rparr>)" using fits_say [of "''mkdir: invalid option %s\<newline>''" "[ArgS a]" s] l by auto
  show ?case using Cons assms(1) x y z by (simp del: say_all.simps)
qed simp

lemma child_dir:
  fixes s :: fs
  assumes "tree_ok K (dirs s)" "dir_at (dirs s) ROOT c = Some p" "dirs s p = Some d"
  shows "ramfs_hashmap_find (foder_map d) n = Some i \<Longrightarrow> dir_at (dirs s) ROOT (c @ [n]) = Some (di_ptr i)"
    "ramfs_hashmap_find (foder_map d) n = None \<Longrightarrow> hm_map (foder_map d) n = None \<and> dir_at (dirs s) ROOT (c @ [n]) = None"
proof -
  have ok: "hm_ok UNIV (foder_map d)" using tree_okD(3) [OF assms(1,3)] by (simp add: folder_ok_def)
  note f = foder_find_map [OF ok]
  show "ramfs_hashmap_find (foder_map d) n = Some i \<Longrightarrow> dir_at (dirs s) ROOT (c @ [n]) = Some (di_ptr i)"
    using f view_child(2) [OF assms, of n i] by simp
  show "ramfs_hashmap_find (foder_map d) n = None \<Longrightarrow> hm_map (foder_map d) n = None \<and> dir_at (dirs s) ROOT (c @ [n]) = None"
    using f view_child(1) [OF assms, of n] by (auto simp: view_def)
qed

text \<open>\<^verbatim>\<open>mkdir -p\<close> changes the current folder around the call of \<open>fs_mkdir\<close>.\<close>

lemma mkdir_at_returns:
  assumes ok: "fs_ok e UNIV s" and c: "dir_at (dirs s) ROOT c = Some cur"
  shows "\<exists>r s1. fs_mkdir (Some n) None (s\<lparr>current_dir := cur\<rparr>) = Some (r, s1) \<and> fs_ok e UNIV (s1\<lparr>current_dir := current_dir s\<rparr>) \<and>
    dir_at (dirs s1) ROOT c = Some cur"
proof -
  let ?t = "s\<lparr>current_dir := cur\<rparr>"
  have C: "core_ok e UNIV s" "tree_ok UNIV (dirs s)" using fs_okD(1) [OF ok] core_okD(2) by blast+
  obtain d where d: "dirs s cur = Some d" using dir_at_dom [OF c] by auto
  have t: "core_ok e UNIV ?t" "dir_at (dirs ?t) ROOT c = Some cur" "dirs ?t cur = Some d" "base_dir None ?t = Some cur"
    using C c d fs_ok_cong(1) [of ?t s] by (simp_all add: base_dir_def)
  obtain c0 where c0: "cwd_at s c0" using fs_okD(4) [OF ok] by blast
  note S = folder_here [of UNIV ?t cur d] lazy_noop [of UNIV ?t cur d]
  show ?thesis
  proof (cases "n = [] \<or> length n \<ge> 128 \<or> ramfs_hashmap_find (foder_map d) n \<noteq> None \<or> ramfs_file_hashmap_find (file_map d) n \<noteq> None")
    case True
    then have "\<exists>r. fs_mkdir (Some n) None ?t = Some (r, ?t)" using S C(2) d t(4) by (auto simp: fs_mkdir_def)
    then show ?thesis using ok c by auto
  next
    case False
    then have n: "n \<noteq> []" "length n < 128" "ramfs_file_hashmap_find (file_map d) n = None" "hm_map (foder_map d) n = None"
      "dir_at (dirs s) ROOT (c @ [n]) = None"
      using child_dir(2) [OF C(2) c d, of n] by auto
    from mkdir_core [OF t(1-3) n(1,2) t(4) n(4,3)] show ?thesis
    proof (elim disjE exE conjE)
      fix h assume m: "fs_mkdir (Some n) None ?t = Some (- 5, ?t\<lparr>hp := h\<rparr>)" "core_ok e UNIV (?t\<lparr>hp := h\<rparr>)"
      let ?s = "?t\<lparr>hp := h, current_dir := current_dir s\<rparr>"
      have "core_ok e UNIV ?s" using m(2) fs_ok_cong(1) [of ?s "?t\<lparr>hp := h\<rparr>"] by simp
      then have "fs_ok e UNIV ?s" by (intro fs_ok_frame(1) [OF ok c0]) simp_all
      then show ?thesis using m(1) c by auto
    next
      fix h ds q assume m: "fs_mkdir (Some n) None ?t = Some (0, ?t\<lparr>hp := h, dirs := ds\<rparr>)" "core_ok e UNIV (?t\<lparr>hp := h, dirs := ds\<rparr>)"
        "\<forall>xs. dir_at ds ROOT xs = (if xs = c @ [n] then Some q else dir_at (dirs ?t) ROOT xs)"
      let ?s = "?t\<lparr>hp := h, dirs := ds, current_dir := current_dir s\<rparr>"
      have "core_ok e UNIV ?s" using m(2) fs_ok_cong(1) [of ?s "?t\<lparr>hp := h, dirs := ds\<rparr>"] by simp
      moreover have "c0 \<noteq> c @ [n]" using c0 n(5) by (auto simp: cwd_at_def)
      ultimately have "fs_ok e UNIV ?s" using m(3) by (intro fs_ok_frame(1) [OF ok c0]) simp_all
      then show ?thesis using m(1,3) c by auto
    qed
  qed
qed

lemma mkdir_p_step_returns:
  assumes ok: "fs_ok e UNIV s" and c: "dir_at (dirs s) ROOT c = Some cur" and len: "length token < 2048"
  shows "\<exists>res s1. mkdir_p_step opt_v token cur s = Some (res, s1) \<and> fs_ok e UNIV s1 \<and>
    (\<forall>cur'. res = Inr cur' \<longrightarrow> (\<exists>c'. dir_at (dirs s1) ROOT c' = Some cur'))"
proof -
  have t: "tree_ok UNIV (dirs s)" using core_okD(2) [OF fs_okD(1) [OF ok]] .
  obtain d where d: "dirs s cur = Some d" using dir_at_dom [OF c] by auto
  note f = folder_here [OF t d]
  consider "token = [] \<or> token = ''.''" | i where "token \<noteq> []" "token \<noteq> ''.''" "ramfs_hashmap_find (foder_map d) token = Some i"
    | "token \<noteq> []" "token \<noteq> ''.''" "ramfs_hashmap_find (foder_map d) token = None" by (cases "ramfs_hashmap_find (foder_map d) token") auto
  then show ?thesis
  proof cases
    case 1
    then show ?thesis using ok c by (auto simp: mkdir_p_step_def)
  next
    case (2 i)
    then show ?thesis using ok f child_dir(1) [OF t c d 2(3)] by (auto simp: mkdir_p_step_def)
  next
    case 3
    obtain r s1 where m: "fs_mkdir (Some token) None (s\<lparr>current_dir := cur\<rparr>) = Some (r, s1)" "fs_ok e UNIV (s1\<lparr>current_dir := current_dir s\<rparr>)"
      "dir_at (dirs s1) ROOT c = Some cur"
      using mkdir_at_returns [OF ok c] by blast
    let ?s2 = "s1\<lparr>current_dir := current_dir s\<rparr>"
    obtain x where x: "say ''mkdir: failed to create '%s'\<newline>'' [ArgS token] ?s2 = Some (?s2\<lparr>out := x\<rparr>)"
      using fits_say [of "''mkdir: failed to create '%s'\<newline>''" "[ArgS token]" ?s2] len by auto
    obtain y where y: "say ''mkdir: created directory '%s'\<newline>'' [ArgS token] ?s2 = Some (?s2\<lparr>out := y\<rparr>)"
      using fits_say [of "''mkdir: created directory '%s'\<newline>''" "[ArgS token]" ?s2] len by auto
    have t2: "tree_ok UNIV (dirs s1)" using core_okD(2) [OF fs_okD(1) [OF m(2)]] by simp
    obtain d' where d': "dirs s1 cur = Some d'" using dir_at_dom [OF m(3)] by auto
    have fo: "folder (?s2\<lparr>out := z\<rparr>) cur = Some d'" "folder ?s2 cur = Some d'" for z
      using d' dir_at_nonzero [OF t2 m(3)] by (simp_all add: folder_def)
    have ch: "ramfs_hashmap_find (foder_map d') token = Some i \<Longrightarrow> dir_at (dirs s1) ROOT (c @ [token]) = Some (di_ptr i)" for i
      using child_dir(1) [OF t2 m(3) d'] .
    show ?thesis
    proof (cases "r = 0")
      case False
      then show ?thesis using 3 f m(1,2) x by (simp add: mkdir_p_step_def)
    next
      case True
      then show ?thesis using 3 f m(1,2) y fo ch
        by (cases "ramfs_hashmap_find (foder_map d') token"; cases opt_v) (auto simp: mkdir_p_step_def)
    qed
  qed
qed

lemma mkdir_p_loop_returns:
  assumes "fs_ok e UNIV s" "dir_at (dirs s) ROOT c = Some cur" "length token < 2048"
  shows "returns e (mkdir_p_loop opt_v token cur s)"
  using assms
proof (induction opt_v token cur s arbitrary: c rule: mkdir_p_loop.induct)
  case (1 opt_v token cur s)
  let ?tok = "takeWhile (\<lambda>c. c \<noteq> CHR ''/'') token" and ?rest = "dropWhile (\<lambda>c. c \<noteq> CHR ''/'') token"
  have l: "length ?tok < 2048" "length (tl ?rest) < 2048"
    using length_takeWhile_le [of "\<lambda>c. c \<noteq> CHR ''/''" token] length_dropWhile_le [of "\<lambda>c. c \<noteq> CHR ''/''" token] 1(4) by simp_all
  obtain res s1 where st: "mkdir_p_step opt_v ?tok cur s = Some (res, s1)" "fs_ok e UNIV s1"
    "\<forall>cur'. res = Inr cur' \<longrightarrow> (\<exists>c'. dir_at (dirs s1) ROOT c' = Some cur')"
    using mkdir_p_step_returns [OF 1(2,3) l(1)] by blast
  show ?case
  proof (cases res)
    case (Inl r)
    then show ?thesis using st 1(2) by (subst mkdir_p_loop.simps) auto
  next
    case (Inr cur')
    then obtain c' where c': "dir_at (dirs s1) ROOT c' = Some cur'" using st(3) by blast
    have "returns e (mkdir_p_loop opt_v (tl ?rest) cur' s1)" if "token \<noteq> []" "?rest \<noteq> []"
      using 1(1) [OF that(1) st(1) _ _ refl] that(2) st(2) c' l(2) Inr by auto
    then show ?thesis using st 1(2) Inr by (subst mkdir_p_loop.simps) (auto simp: Let_def)
  qed
qed

lemma mkdir_api_returns:
  assumes "fs_ok e UNIV s" "short_args argv"
  shows "returns e (fs_mkdir_api argv s)"
proof -
  obtain c where c: "cwd_at s c" using fs_okD(4) [OF assms(1)] by blast
  have t: "tree_ok UNIV (dirs s)" using core_okD(2) [OF fs_okD(1) [OF assms(1)]] .
  have root: "dir_at (dirs s) ROOT [] = Some ROOT" using tree_okD(2) [OF t] by auto
  have cur: "dir_at (dirs s) ROOT c = Some (current_dir s)" using c by (simp add: cwd_at_def)
  have "short_args (tl argv)" using assms(2) by (cases argv) auto
  then obtain res where o: "mkdir_options (tl argv) False False s = Some res"
    "case res of Inl (r, s') \<Rightarrow> fs_ok e UNIV s' | Inr (_, _, dn) \<Rightarrow> (\<forall>d. dn = Some d \<longrightarrow> length d < 512)"
    using mkdir_options_returns [OF assms(1)] by blast
  have r: "returns e (fs_mkdir (Some n) None s)" for n using simulates_returns [OF mkdir_sim [OF assms(1) c]] .
  have p: "length token < 512 \<Longrightarrow> returns e (mkdir_p_loop opt_v token ROOT s)" "length token < 512 \<Longrightarrow> returns e (mkdir_p_loop opt_v token (current_dir s) s)"
    for opt_v token
    using mkdir_p_loop_returns [OF assms(1) root] mkdir_p_loop_returns [OF assms(1) cur] by simp_all
  show ?thesis
  proof (cases "length argv = 1")
    case True
    then show ?thesis unfolding fs_mkdir_api_def using assms(1) by (auto intro!: returns_say_ret returns_say)
  next
    case argc: False
    show ?thesis
    proof (cases res)
      case (Inl x)
      then show ?thesis using argc o by (auto simp: fs_mkdir_api_def)
    next
      case (Inr y)
      obtain opt_p opt_v dn where y: "y = (opt_p, opt_v, dn)" by (cases y) auto
      show ?thesis
      proof (cases dn)
        case None
        then show ?thesis using argc o Inr y assms(1) by (auto simp: fs_mkdir_api_def intro!: returns_say_ret)
      next
        case (Some d)
        then have d: "length d < 512" "length (tl d) < 512" using o(2) Inr y by auto
        then show ?thesis using argc o(1) Inr y Some p
          by (auto simp: fs_mkdir_api_def strcpy_into_def intro!: returns_say_ret returns_bind [OF r])
      qed
    qed
  qed
qed

end
