(* ===== verification/Dfs_Props.thy ===== *)
theory Dfs_Props
  imports Commands
begin

text \<open>
  The disk file system and its commands. The on-disk superblock and the on-disk image of a folder decode to what was
  encoded. But the partition driver refuses transfers over 256 bytes and the superblock has 536, so through
  this driver no partition can be formatted and none mounted: \<^verbatim>\<open>mkfs.dfs\<close>, \<^verbatim>\<open>mount\<close> and \<^verbatim>\<open>umount\<close> report an
  error and change nothing.
\<close>

section \<open>Numbers and names on disk\<close>

lemma enc32_length [simp]: "length (enc32 w) = 4" "length (enc64 v) = 8"
  by (simp_all add: enc32_def enc64_def)

lemma join_u32:
  fixes w :: u32
  shows "ucast (ucast w :: u8) OR push_bit 8 (ucast (ucast (drop_bit 8 w) :: u8)) OR push_bit 16 (ucast (ucast (drop_bit 16 w) :: u8)) OR
     push_bit 24 (ucast (ucast (drop_bit 24 w) :: u8)) = w"
proof (rule bit_word_eqI)
  fix n assume "n < LENGTH(32)"
  then show "bit (ucast (ucast w :: u8) OR push_bit 8 (ucast (ucast (drop_bit 8 w) :: u8)) OR push_bit 16 (ucast (ucast (drop_bit 16 w) :: u8)) OR
     push_bit 24 (ucast (ucast (drop_bit 24 w) :: u8)) :: u32) n = bit w n"
    by (cases "n < 8"; cases "n < 16"; cases "n < 24") (auto simp: bit_simps)
qed

lemma join_u64:
  fixes v :: u64
  shows "ucast (ucast v :: u32) OR push_bit 32 (ucast (ucast (drop_bit 32 v) :: u32)) = v"
proof (rule bit_word_eqI)
  fix n assume "n < LENGTH(64)"
  then show "bit (ucast (ucast v :: u32) OR push_bit 32 (ucast (ucast (drop_bit 32 v) :: u32)) :: u64) n = bit v n"
    by (cases "n < 32") (auto simp: bit_simps)
qed

lemma le32_at: "i = length pre \<Longrightarrow> le32 (pre @ enc32 w @ post) i = w"
proof -
  assume i: "i = length pre"
  have "(pre @ enc32 w @ post) ! (i + k) = enc32 w ! k" if "k < 4" for k
    using that i by (simp add: nth_append)
  from this [of 0] this [of 1] this [of 2] this [of 3] show ?thesis
    using join_u32 [of w] by (simp add: le32_def enc32_def numeral_3_eq_3 numeral_2_eq_2)
qed

lemma le64_at: "i = length pre \<Longrightarrow> le64 (pre @ enc64 v @ post) i = v"
  using le32_at [of i pre "ucast v" "enc32 (ucast (drop_bit 32 v)) @ post"]
    le32_at [of "i + 4" "pre @ enc32 (ucast v)" "ucast (drop_bit 32 v)" post] join_u64 [of v]
  by (simp add: le64_def enc64_def)

lemma of_char_u8: "char_of (unat (of_char c :: u8)) = c" "of_char c = (0 :: u8) \<longleftrightarrow> c = CHR 0x00"
proof -
  have "unat (of_char c :: u8) = unat (of_nat (of_char c) :: u8)" by (simp only: of_nat_of_char)
  also have "\<dots> = of_char c mod 2 ^ 8" by (simp only: unat_of_nat) simp
  finally show c: "char_of (unat (of_char c :: u8)) = c" by simp
  then have "of_char c = (0 :: u8) \<Longrightarrow> c = CHR 0x00" by (simp add: char_of_def)
  then show "of_char c = (0 :: u8) \<longleftrightarrow> c = CHR 0x00" by auto
qed

lemma enc_name_length: "enc_name nm = Some b \<Longrightarrow> length b = 128 \<and> length nm < 128"
  by (auto simp: enc_name_def strcpy_into_def split: if_splits)

lemma name_at_enc:
  assumes "enc_name nm = Some b" "CHR 0x00 \<notin> set nm" "i = length pre"
  shows "name_at (pre @ b @ post) i = Some nm"
proof -
  have b: "b = map of_char nm @ replicate (128 - length nm) 0" "length nm < 128"
    using assms(1) by (auto simp: enc_name_def strcpy_into_def split: if_splits)
  have nz: "x \<noteq> 0" if "x \<in> set (map of_char nm :: u8 list)" for x
    using that assms(2) by (auto simp: of_char_u8(2))
  have "takeWhile (\<lambda>b. b \<noteq> 0) (drop i (pre @ b @ post)) = takeWhile (\<lambda>b. b \<noteq> 0) (map of_char nm @ 0 # replicate (127 - length nm) 0 @ post)"
  proof -
    have "128 - length nm = Suc (127 - length nm)" using b(2) by simp
    then show ?thesis using b(1) assms(3) by simp
  qed
  also have "\<dots> = map of_char nm" using takeWhile_append2 [of "map of_char nm" "\<lambda>b. b \<noteq> 0" "0 # replicate (127 - length nm) 0 @ post"] nz by simp
  finally show ?thesis using b assms(3) of_char_u8(1) by (simp add: name_at_def strcpy_into_def comp_def)
qed

section \<open>The superblock\<close>

lemma enc_superblock_length [simp]: "length (enc_superblock sb) = sizeof_superblock"
  by (simp add: enc_superblock_def sizeof_superblock_def)

text \<open>The fields of the structure follow each other, four bytes each.\<close>

lemma words_at:
  assumes "bs = concat (map enc32 ws) @ post" "i < length ws"
  shows "le32 bs (4 * i) = ws ! i"
proof -
  have "concat (map enc32 ws) = concat (map enc32 (take i ws)) @ enc32 (ws ! i) @ concat (map enc32 (drop (Suc i) ws))"
    using id_take_nth_drop [OF assms(2)] by (metis concat.simps(2) concat_append list.simps(9) map_append)
  moreover have "length (concat (map enc32 xs)) = 4 * length xs" for xs by (induction xs) simp_all
  ultimately show ?thesis
    using le32_at [of "4 * i" "concat (map enc32 (take i ws))" "ws ! i"] assms by simp
qed

lemma superblock_decodes: "dec_superblock (enc_superblock sb) = sb"
proof -
  let ?ws = "[sb_magic sb, total_folders sb, cur_folders sb, root_pointer sb, bitmap_start sb, data_start sb, block_count sb]"
  have "enc_superblock sb = concat (map enc32 ?ws) @ replicate 508 0" by (simp add: enc_superblock_def)
  note w = words_at [OF this]
  from w [of 0] w [of 1] w [of 2] w [of 3] w [of 4] w [of 5] w [of 6] show ?thesis
    by (simp add: dec_superblock_def)
qed

section \<open>The image of a folder\<close>

lemma enc_subs_spec:
  "enc_subs ns = Some b \<Longrightarrow> length b = 132 * length ns \<and>
    (\<forall>i<length ns. \<exists>nm pre post. enc_name (di_name (nd_value (ns ! i))) = Some nm \<and> length pre = 132 * i \<and>
      b = pre @ nm @ enc32 (of_int (di_drive_addr (nd_value (ns ! i)))) @ post)"
proof (induction ns arbitrary: b)
  case (Cons n ns)
  then obtain nm rest where r: "enc_name (di_name (nd_value n)) = Some nm" "enc_subs ns = Some rest"
    "b = nm @ enc32 (of_int (di_drive_addr (nd_value n))) @ rest" by (auto split: Option.bind_splits)
  note IH = Cons.IH [OF r(2)] and l = enc_name_length [OF r(1)]
  have "\<exists>nm' pre post. enc_name (di_name (nd_value ((n # ns) ! i))) = Some nm' \<and> length pre = 132 * i \<and>
      b = pre @ nm' @ enc32 (of_int (di_drive_addr (nd_value ((n # ns) ! i)))) @ post" if "i < length (n # ns)" for i
  proof (cases i)
    case 0
    then show ?thesis using r by auto
  next
    case (Suc j)
    then have "j < length ns" using that by simp
    then obtain nm' pre post where "enc_name (di_name (nd_value (ns ! j))) = Some nm'" "length pre = 132 * j"
      "rest = pre @ nm' @ enc32 (of_int (di_drive_addr (nd_value (ns ! j)))) @ post" using IH by blast
    then show ?thesis using Suc r(3) l by (intro exI [of _ nm'] exI [of _ "nm @ enc32 (of_int (di_drive_addr (nd_value n))) @ pre"] exI [of _ post]) simp
  qed
  then show ?case using IH l r(3) by auto
qed simp

lemma enc_files_spec:
  "enc_files ns = Some b \<Longrightarrow> length b = 140 * length ns \<and>
    (\<forall>i<length ns. \<exists>nm pre post. enc_name (fi_name (nd_value (ns ! i))) = Some nm \<and> length pre = 140 * i \<and>
      b = pre @ nm @ enc64 (of_int (fi_length (nd_value (ns ! i)))) @ enc32 (of_int (fi_drive_addr (nd_value (ns ! i)))) @ post)"
proof (induction ns arbitrary: b)
  case (Cons n ns)
  let ?w = "\<lambda>n. enc64 (of_int (fi_length (nd_value n))) @ enc32 (of_int (fi_drive_addr (nd_value n)))"
  obtain nm rest where r: "enc_name (fi_name (nd_value n)) = Some nm" "enc_files ns = Some rest"
    "b = nm @ ?w n @ rest" using Cons.prems by (auto split: Option.bind_splits)
  note IH = Cons.IH [OF r(2)] and l = enc_name_length [OF r(1)]
  have "\<exists>nm' pre post. enc_name (fi_name (nd_value ((n # ns) ! i))) = Some nm' \<and> length pre = 140 * i \<and>
      b = pre @ nm' @ enc64 (of_int (fi_length (nd_value ((n # ns) ! i)))) @ enc32 (of_int (fi_drive_addr (nd_value ((n # ns) ! i)))) @ post"
    if "i < length (n # ns)" for i
  proof (cases i)
    case 0
    then show ?thesis using r by auto
  next
    case (Suc j)
    then have "j < length ns" using that by simp
    then obtain nm' pre post where "enc_name (fi_name (nd_value (ns ! j))) = Some nm'" "length pre = 140 * j"
      "rest = pre @ nm' @ enc64 (of_int (fi_length (nd_value (ns ! j)))) @ enc32 (of_int (fi_drive_addr (nd_value (ns ! j)))) @ post"
      using IH by blast
    then show ?thesis using Suc r(3) l by (intro exI [of _ nm'] exI [of _ "nm @ ?w n @ pre"] exI [of _ post]) simp
  qed
  then show ?case using IH l r(3) by auto
qed simp

lemma of_int_sint: "- (2 ^ 31) \<le> x \<Longrightarrow> x < 2 ^ 31 \<Longrightarrow> sint (of_int x :: u32) = x"
  "- (2 ^ 63) \<le> y \<Longrightarrow> y < 2 ^ 63 \<Longrightarrow> sint (of_int y :: u64) = y"
  by (simp_all add: sint_sbintrunc' signed_take_bit_int_eq_self)

text \<open>The entries of a folder that fit its image, and the image itself.\<close>

abbreviation (input) subs_of :: "foder \<Rightarrow> foder_info hnode list" where
  "subs_of d \<equiv> take 128 (concat (buckets (foder_map d)))"

abbreviation (input) files_of :: "foder \<Rightarrow> file_info hnode list" where
  "files_of d \<equiv> take 128 (concat (buckets (file_map d)))"

lemma enc_disk_folder_layout:
  assumes "enc_disk_folder d = Some bs"
  obtains nm sb fb where "enc_name (fd_name d) = Some nm" "enc_subs (subs_of d) = Some sb" "enc_files (files_of d) = Some fb"
    "bs = nm @ enc32 1 @ enc32 (of_nat (length (subs_of d))) @ enc32 (of_nat (length (files_of d))) @
       sb @ replicate (132 * (128 - length (subs_of d))) 0 @ fb @ replicate (140 * (128 - length (files_of d))) 0"
    "length nm = 128" "length sb = 132 * length (subs_of d)" "length fb = 140 * length (files_of d)"
  using assms enc_name_length enc_subs_spec enc_files_spec
  by (auto simp: enc_disk_folder_def DFS_MAX_SUB_ENTRIES_def Let_def split: Option.bind_splits)

lemma image_header:
  assumes "enc_disk_folder d = Some bs" "CHR 0x00 \<notin> set (fd_name d)"
  shows "length bs = sizeof_disk_folder" "name_at bs 0 = Some (fd_name d)" "le32 bs 128 = 1"
    "unat (le32 bs 132) = length (subs_of d)" "unat (le32 bs 136) = length (files_of d)"
proof -
  obtain nm sb fb where L: "enc_name (fd_name d) = Some nm"
    "bs = nm @ enc32 1 @ enc32 (of_nat (length (subs_of d))) @ enc32 (of_nat (length (files_of d))) @
       sb @ replicate (132 * (128 - length (subs_of d))) 0 @ fb @ replicate (140 * (128 - length (files_of d))) 0"
    "length nm = 128" "length sb = 132 * length (subs_of d)" "length fb = 140 * length (files_of d)"
    using enc_disk_folder_layout [OF assms(1)] by blast
  have n: "length (subs_of d) \<le> 128" "length (files_of d) \<le> 128" by simp_all
  show "length bs = sizeof_disk_folder"
    unfolding L(2) using L(3-5) n by (simp add: sizeof_disk_folder_def DFS_MAX_SUB_ENTRIES_def del: length_take)
  show "name_at bs 0 = Some (fd_name d)" unfolding L(2) using name_at_enc [OF L(1) assms(2), of 0 "[]"] by simp
  show "le32 bs 128 = 1" unfolding L(2) using L(3) by (intro le32_at) simp
  have w: "unat (of_nat k :: u32) = k" if "k \<le> 128" for k using that by (simp add: unat_of_nat)
  have "le32 bs 132 = of_nat (length (subs_of d))"
    unfolding L(2) using le32_at [of 132 "nm @ enc32 1"] L(3) by (simp del: length_take)
  then show "unat (le32 bs 132) = length (subs_of d)" using w [OF n(1)] by (simp del: length_take)
  have "le32 bs 136 = of_nat (length (files_of d))"
    unfolding L(2) using le32_at [of 136 "nm @ enc32 1 @ enc32 (of_nat (length (subs_of d)))"] L(3) by (simp del: length_take)
  then show "unat (le32 bs 136) = length (files_of d)" using w [OF n(2)] by (simp del: length_take)
qed

lemma image_sub:
  assumes "enc_disk_folder d = Some bs" "i < length (subs_of d)" "v = nd_value (subs_of d ! i)" "CHR 0x00 \<notin> set (di_name v)"
  shows "name_at bs (sub_off i) = Some (di_name v)" "le32 bs (sub_off i + 128) = of_int (di_drive_addr v)"
proof -
  obtain nm sb post where L: "enc_subs (subs_of d) = Some sb"
    "bs = (nm @ enc32 1 @ enc32 (of_nat (length (subs_of d))) @ enc32 (of_nat (length (files_of d)))) @ sb @ post" "length nm = 128"
    using enc_disk_folder_layout [OF assms(1)] by (metis append.assoc)
  obtain n pre post' where S: "enc_name (di_name v) = Some n" "length pre = 132 * i" "sb = pre @ n @ enc32 (of_int (di_drive_addr v)) @ post'"
    using enc_subs_spec [OF L(1)] assms(2,3) by blast
  let ?pre = "(nm @ enc32 1 @ enc32 (of_nat (length (subs_of d))) @ enc32 (of_nat (length (files_of d)))) @ pre"
  have bs: "bs = ?pre @ n @ enc32 (of_int (di_drive_addr v)) @ post' @ post" using L(2) S(3) by (simp del: length_take)
  have l: "sub_off i = length ?pre" using L(3) S(2) by (simp add: sub_off_def del: length_take)
  show "name_at bs (sub_off i) = Some (di_name v)" unfolding bs by (rule name_at_enc [OF S(1) assms(4) l])
  show "le32 bs (sub_off i + 128) = of_int (di_drive_addr v)"
    unfolding bs using le32_at [of "sub_off i + 128" "?pre @ n"] l enc_name_length [OF S(1)] by (simp del: length_take)
qed

lemma image_file:
  assumes "enc_disk_folder d = Some bs" "i < length (files_of d)" "v = nd_value (files_of d ! i)" "CHR 0x00 \<notin> set (fi_name v)"
  shows "name_at bs (file_off i) = Some (fi_name v)" "le64 bs (file_off i + 128) = of_int (fi_length v)"
    "le32 bs (file_off i + 136) = of_int (fi_drive_addr v)"
proof -
  obtain nm sb fb post where L: "enc_files (files_of d) = Some fb"
    "bs = (nm @ enc32 1 @ enc32 (of_nat (length (subs_of d))) @ enc32 (of_nat (length (files_of d))) @
       sb @ replicate (132 * (128 - length (subs_of d))) 0) @ fb @ post" "length nm = 128" "length sb = 132 * length (subs_of d)"
    using enc_disk_folder_layout [OF assms(1)] by (metis append.assoc)
  obtain n pre post' where S: "enc_name (fi_name v) = Some n" "length pre = 140 * i"
    "fb = pre @ n @ enc64 (of_int (fi_length v)) @ enc32 (of_int (fi_drive_addr v)) @ post'"
    using enc_files_spec [OF L(1)] assms(2,3) by blast
  let ?pre = "(nm @ enc32 1 @ enc32 (of_nat (length (subs_of d))) @ enc32 (of_nat (length (files_of d))) @
       sb @ replicate (132 * (128 - length (subs_of d))) 0) @ pre"
  have bs: "bs = ?pre @ n @ enc64 (of_int (fi_length v)) @ enc32 (of_int (fi_drive_addr v)) @ post' @ post"
    using L(2) S(3) by (simp del: length_take)
  have "length (subs_of d) \<le> 128" by simp
  then have l: "file_off i = length ?pre" using L(3,4) S(2) by (simp add: file_off_def DFS_MAX_SUB_ENTRIES_def del: length_take)
  show "name_at bs (file_off i) = Some (fi_name v)" unfolding bs by (rule name_at_enc [OF S(1) assms(4) l])
  show "le64 bs (file_off i + 128) = of_int (fi_length v)"
    unfolding bs using le64_at [of "file_off i + 128" "?pre @ n"] l enc_name_length [OF S(1)] by (simp del: length_take)
  show "le32 bs (file_off i + 136) = of_int (fi_drive_addr v)"
    unfolding bs using le32_at [of "file_off i + 136" "?pre @ n @ enc64 (of_int (fi_length v))"] l enc_name_length [OF S(1)]
    by (simp del: length_take)
qed

text \<open>C14. The image of a folder on disk: when \<open>dfs_save_folder_to_disk\<close> can encode a folder, the image has the size
  of the C structure, is marked used, and reading it back at the offsets that the loaders use yields the name of
  the folder, the numbers of its entries and, for each of the first 128 subfolders and files in bucket order, its name,
  length and disk address, provided the names contain no NUL and the numbers fit their C types.\<close>

theorem folder_image_roundtrip:
  assumes "enc_disk_folder d = Some bs" "CHR 0x00 \<notin> set (fd_name d)"
    and "list_all (\<lambda>n. CHR 0x00 \<notin> set (di_name (nd_value n)) \<and> - (2 ^ 31) \<le> di_drive_addr (nd_value n) \<and> di_drive_addr (nd_value n) < 2 ^ 31)
      (concat (buckets (foder_map d)))"
    and "list_all (\<lambda>n. CHR 0x00 \<notin> set (fi_name (nd_value n)) \<and> - (2 ^ 63) \<le> fi_length (nd_value n) \<and> fi_length (nd_value n) < 2 ^ 63 \<and>
      - (2 ^ 31) \<le> fi_drive_addr (nd_value n) \<and> fi_drive_addr (nd_value n) < 2 ^ 31) (concat (buckets (file_map d)))"
  shows "length bs = sizeof_disk_folder \<and> name_at bs 0 = Some (fd_name d) \<and> le32 bs 128 = 1 \<and>
    map (\<lambda>i. (name_at bs (sub_off i), sint (le32 bs (sub_off i + 128)))) [0..<unat (le32 bs 132)] =
      map (\<lambda>n. (Some (di_name (nd_value n)), di_drive_addr (nd_value n))) (take 128 (concat (buckets (foder_map d)))) \<and>
    map (\<lambda>i. (name_at bs (file_off i), sint (le64 bs (file_off i + 128)), sint (le32 bs (file_off i + 136)))) [0..<unat (le32 bs 136)] =
      map (\<lambda>n. (Some (fi_name (nd_value n)), fi_length (nd_value n), fi_drive_addr (nd_value n))) (take 128 (concat (buckets (file_map d))))"
proof -
  note H = image_header [OF assms(1,2)]
  have sub: "CHR 0x00 \<notin> set (di_name (nd_value n))" "sint (of_int (di_drive_addr (nd_value n)) :: u32) = di_drive_addr (nd_value n)"
    if "n \<in> set (subs_of d)" for n
    using assms(3) in_set_takeD [OF that] of_int_sint(1) by (auto simp: list_all_iff)
  have fil: "CHR 0x00 \<notin> set (fi_name (nd_value n))" "sint (of_int (fi_length (nd_value n)) :: u64) = fi_length (nd_value n)"
    "sint (of_int (fi_drive_addr (nd_value n)) :: u32) = fi_drive_addr (nd_value n)"
    if "n \<in> set (files_of d)" for n
    using assms(4) in_set_takeD [OF that] of_int_sint by (auto simp: list_all_iff)
  have "(name_at bs (sub_off i), sint (le32 bs (sub_off i + 128))) =
      (Some (di_name (nd_value (subs_of d ! i))), di_drive_addr (nd_value (subs_of d ! i)))" if "i < length (subs_of d)" for i
    using image_sub [OF assms(1) that refl] sub [OF nth_mem [OF that]] by metis
  moreover have "(name_at bs (file_off i), sint (le64 bs (file_off i + 128)), sint (le32 bs (file_off i + 136))) =
      (Some (fi_name (nd_value (files_of d ! i))), fi_length (nd_value (files_of d ! i)), fi_drive_addr (nd_value (files_of d ! i)))"
    if "i < length (files_of d)" for i
    using image_file [OF assms(1) that refl] fil [OF nth_mem [OF that]] by metis
  ultimately show ?thesis
    using H by (auto intro!: nth_equalityI simp del: length_take nth_take)
qed

section \<open>What the disk file system does through this driver\<close>

lemma dfs_refused:
  assumes "partition_lock (disk s) = 0" "256 < sz" "sz < 2 ^ 31"
  shows "dfs_read_partition drive part off sz s = Some (- 1, [], s)" "dfs_write_partition drive part off buf sz s = Some (- 1, s)"
proof -
  have "256 < int sz \<and> int sz < 2 ^ 31" using assms(2,3) by simp
  then have "partition_read drive part (ucast off) (int sz) (disk s) = Some (-1, [], disk s) \<and>
    partition_write drive part (ucast off) (int sz) (Some buf) (disk s) = Some (-1, disk s)"
    by (intro partition_refuses [OF assms(1)]) simp
  then show "dfs_read_partition drive part off sz s = Some (- 1, [], s)" "dfs_write_partition drive part off buf sz s = Some (- 1, s)"
    by (simp_all add: dfs_read_partition_def dfs_write_partition_def)
qed

lemma sizes_refused: "256 < sizeof_superblock" "sizeof_superblock < 2 ^ 31" "256 < sizeof_disk_folder" "sizeof_disk_folder < 2 ^ 31"
  by (simp_all add: sizeof_superblock_def sizeof_disk_folder_def DFS_MAX_SUB_ENTRIES_def)

lemma format_fails:
  assumes "partition_lock (disk s) = 0"
  shows "\<exists>r\<in>{- 1, - 2}. dfs_format drive part s = Some (r, s)"
  using dfs_refused [OF assms sizes_refused(1,2)] by (auto simp: dfs_format_def Let_def)

lemma mount_fails:
  assumes ok: "fs_ok e K s" and "partition_lock (disk s) = 0" "length mountpoint < 512"
  shows "\<exists>r\<in>{- 1, - 2, - 3}. dfs_mount mountpoint drive part s = Some (r, s)"
proof -
  have t: "tree_ok K (dirs s)" using core_okD(2) [OF fs_okD(1) [OF ok]] .
  have root: "dir_at (dirs s) ROOT [] = Some ROOT" using tree_okD(2) [OF t] by auto
  note g = get_dir_spec(1,2) [OF t root assms(3)]
  show ?thesis
  proof (cases "apath (is_dir s) [] mountpoint")
    case None
    then have "ramfs_get_dir_by_abs_path (Some mountpoint) s = Some 0" using g(1) by (simp add: ramfs_get_dir_by_abs_path_def)
    then show ?thesis by (simp add: dfs_mount_def)
  next
    case (Some c)
    then obtain p d where p: "dir_at (dirs s) ROOT c = Some p" "dirs s p = Some d"
      using g(2) dir_at_dom by (fastforce simp: is_dir_def)
    then have "ramfs_get_dir_by_abs_path (Some mountpoint) s = Some p" using g(1) Some by (simp add: ramfs_get_dir_by_abs_path_def)
    then show ?thesis
      using folder_here [OF t p(2)] dir_at_nonzero [OF t p(1)] dfs_refused(1) [OF assms(2) sizes_refused(1,2)]
      by (auto simp: dfs_mount_def Let_def)
  qed
qed

lemma umount_fails: "mount_count s = 0 \<Longrightarrow> dfs_umount depth mountpoint s = Some (- 1, s)"
  by (simp add: dfs_umount_def find_mount_def)

text \<open>C13. No partition can be formatted or mounted: the superblock has 536 bytes and the driver refuses transfers over
  256 bytes, so on every partition \<open>dfs_format\<close> returns -1 or -2, \<open>dfs_mount\<close> -1, -2 or -3 and \<open>dfs_umount\<close> -1, and all
  three leave the file system, the drivers and the disk as they were.\<close>

theorem dfs_unusable:
  assumes "fs_ok e K s" "partition_lock (disk s) = 0" "length mountpoint < 512"
  shows "dfs_format drive part s \<in> {Some (- 1, s), Some (- 2, s)} \<and>
    dfs_mount mountpoint drive part s \<in> {Some (- 1, s), Some (- 2, s), Some (- 3, s)} \<and>
    dfs_umount depth mountpoint s = Some (- 1, s)"
  using format_fails [OF assms(2)] mount_fails [OF assms] umount_fails [OF fs_okD(3) [OF assms(1)]] by blast

section \<open>The disk commands\<close>

text \<open>A command that does no more than print.\<close>

definition prints :: "fs \<Rightarrow> ('a \<times> fs) option \<Rightarrow> bool" where
  "prints s res \<longleftrightarrow> (\<exists>r x. res = Some (r, s\<lparr>out := x\<rparr>))"

lemma prints_Some [intro!]: "prints s (Some (r, s))" "prints s (Some (r, s\<lparr>out := x\<rparr>))"
  by (auto simp: prints_def intro: exI [of _ "out s"])

lemma prints_say [intro!]:
  "fits f as \<Longrightarrow> (\<And>x. prints s (g (s\<lparr>out := x\<rparr>))) \<Longrightarrow> prints s (say f as s \<bind> g)"
  "fits f as \<Longrightarrow> (\<And>x. prints s (g (s\<lparr>out := x\<rparr>))) \<Longrightarrow> prints s (say f as (s\<lparr>out := y\<rparr>) \<bind> g)"
  using fits_say [of f as s] fits_say [of f as "s\<lparr>out := y\<rparr>"] by auto

lemma prints_say_ret [intro!]:
  "fits f as \<Longrightarrow> prints s (say_ret f as r s)" "fits f as \<Longrightarrow> prints s (say_ret f as r (s\<lparr>out := y\<rparr>))"
  by (auto simp: say_ret_def)

lemma prints_returns: "prints s res \<Longrightarrow> fs_ok e UNIV s \<Longrightarrow> returns (e :: u32) res"
  by (auto simp: prints_def returns_def)

lemma count_returns: "partition_lock ds = 0 \<Longrightarrow> \<exists>c. get_partition_count d ds = Some (c, ds)"
  by (auto simp: get_partition_count_def lock_acquire_def lock_release_def)

lemma printf_tail:
  "printf (CHR ''%'' # CHR ''6'' # CHR ''l'' # CHR ''l'' # CHR ''u'' # r) args = map_option ((@) ''    %llu'') (printf r args)"
  "length s < 2048 \<Longrightarrow> printf (CHR ''%'' # CHR ''-'' # CHR ''1'' # CHR ''0'' # CHR ''s'' # r) (ArgS s # args) =
    map_option ((@) (s @ replicate (10 - length s) (CHR '' ''))) (printf r args)"
proof -
  have p: "parseSpecifier (CHR ''6'' # CHR ''l'' # x) = Some (\<lparr>spec_flags = [], spec_width = 6, spec_precision = 0, specifier = CHR ''l''\<rparr>, x)"
    "parseSpecifier (CHR ''-'' # CHR ''1'' # CHR ''0'' # CHR ''s'' # x) =
      Some (\<lparr>spec_flags = ''-'', spec_width = 10, spec_precision = 0, specifier = CHR ''s''\<rparr>, x)" for x
    by (simp_all add: parseSpecifier_def isdigit_def)
  show "printf (CHR ''%'' # CHR ''6'' # CHR ''l'' # CHR ''l'' # CHR ''u'' # r) args = map_option ((@) ''    %llu'') (printf r args)"
    by (cases "printf r args") (simp_all add: p(1) convert_def pad_field_def insertChars_def numeral_eq_Suc)
  show "length s < 2048 \<Longrightarrow> printf (CHR ''%'' # CHR ''-'' # CHR ''1'' # CHR ''0'' # CHR ''s'' # r) (ArgS s # args) =
    map_option ((@) (s @ replicate (10 - length s) (CHR '' ''))) (printf r args)"
    by (auto simp: p(2) convert_def pad_field_def Let_def nat_diff_distrib)
qed

lemma dev_name_length [simp]: "length (dev_name d) = 3"
  by (simp add: dev_name_def)

lemma printf_char: "c \<noteq> CHR ''%'' \<Longrightarrow> printf (c # r) args = map_option ((#) c) (printf r args)"
  by simp

lemmas printf_chain = printf_tail printf_rules printf_char

lemma disk_line: "\<exists>x. say ''%-10s %6lluM disk\<newline>'' (ArgS (dev_name d) # as) s = Some (s\<lparr>out := x\<rparr>)"
  unfolding say_def by (simp add: printf_chain del: printf.simps(2)) blast

lemma part_line: "\<exists>x. say ''  `- %s%d %6lluM part\<newline>'' (ArgS (dev_name d) # ArgI i # as) s = Some (s\<lparr>out := x\<rparr>)"
  unfolding say_def by (simp add: printf_chain del: printf.simps(2)) blast

lemma part_lines_returns: "\<exists>x. say_all (part_lines d ps s) s1 = Some (s1\<lparr>out := x\<rparr>)"
proof (induction ps arbitrary: s1)
  case Nil
  show ?case by (rule exI [of _ "out s1"]) (simp add: part_lines_def)
next
  case (Cons p ps)
  obtain as where "part_lines d (p # ps) s = (''  `- %s%d %6lluM part\<newline>'', ArgS (dev_name d) # ArgI (of_nat p + 1) # as) # part_lines d ps s"
    by (simp add: part_lines_def Let_def)
  moreover obtain x where "say ''  `- %s%d %6lluM part\<newline>'' (ArgS (dev_name d) # ArgI (of_nat p + 1) # as) s1 = Some (s1\<lparr>out := x\<rparr>)"
    using part_line by blast
  moreover obtain y where "say_all (part_lines d ps s) (s1\<lparr>out := x\<rparr>) = Some (s1\<lparr>out := x\<rparr>\<lparr>out := y\<rparr>)" using Cons by blast
  ultimately show ?case by simp blast
qed

lemma lsblk_drive_returns:
  assumes "partition_lock (disk s) = 0"
  shows "\<exists>x. lsblk_drive d s = Some (None, s\<lparr>out := x\<rparr>)"
proof -
  let ?sz = "drive_size_bytes (drv (disk s)) ! d div (1024 * 1024)"
  obtain x where x: "say ''%-10s %6lluM disk\<newline>'' [ArgS (dev_name (int d)), ArgI (ucast ?sz), ArgI (ucast (drop_bit 32 ?sz))] s = Some (s\<lparr>out := x\<rparr>)"
    using disk_line by blast
  obtain c where c: "get_partition_count (int d) (disk s) = Some (c, disk s)" using count_returns [OF assms] by blast
  obtain y where "say_all (part_lines (int d) [0..<nat c] (s\<lparr>out := x\<rparr>)) (s\<lparr>out := x\<rparr>) = Some (s\<lparr>out := x\<rparr>\<lparr>out := y\<rparr>)"
    using part_lines_returns by blast
  then show ?thesis using x c by (simp add: lsblk_drive_def Let_def) blast
qed

lemma lsblk_api_prints:
  assumes "partition_lock (disk s) = 0"
  shows "prints s (fs_lsblk_api argv s)"
proof -
  have "\<exists>x. each lsblk_drive ds (s\<lparr>out := o'\<rparr>) = Some (None, s\<lparr>out := x\<rparr>)" for ds o'
  proof (induction ds arbitrary: o')
    case (Cons d ds)
    obtain x where "lsblk_drive d (s\<lparr>out := o'\<rparr>) = Some (None, s\<lparr>out := o'\<rparr>\<lparr>out := x\<rparr>)"
      using lsblk_drive_returns [of "s\<lparr>out := o'\<rparr>" d] assms by auto
    then show ?case using Cons by simp
  qed auto
  note each_drive = this
  have "prints s (each lsblk_drive ds (s\<lparr>out := o'\<rparr>) \<bind> (\<lambda>(_, s2). Some (0, s2)))" for ds o'
  proof -
    obtain x where "each lsblk_drive ds (s\<lparr>out := o'\<rparr>) = Some (None, s\<lparr>out := x\<rparr>)" using each_drive by blast
    then show ?thesis by auto
  qed
  then show ?thesis by (auto simp: fs_lsblk_api_def)
qed

lemma parse_device_returns:
  assumes "partition_lock (disk s) = 0" "length dev < 512"
  shows "\<exists>r. parse_device dev s = Some (r, s)"
proof -
  obtain v where "atoi (string_mem (drop 3 dev)) 0 10 = Some v" using atoi_text [of "drop 3 dev"] assms(2) by fastforce
  moreover obtain c where "get_partition_count (char_at dev 2 - 97) (disk s) = Some (c, disk s)" using count_returns [OF assms(1)] by blast
  ultimately show ?thesis by (auto simp: parse_device_def Let_def)
qed

lemma mount_api_prints:
  assumes ok: "fs_ok e UNIV s" and "partition_lock (disk s) = 0" "short_args argv"
  shows "prints s (fs_mount_api argv s)"
proof (cases "length argv = 3")
  case True
  then have l: "length (argv ! 1) < 512" "length (argv ! 2) < 512" using short_nth [OF assms(3)] by simp_all
  obtain d where d: "parse_device (argv ! 1) s = Some (d, s)" using parse_device_returns [OF assms(2) l(1)] by blast
  have m: "\<exists>r\<in>{- 1, - 2, - 3}. dfs_mount (argv ! 2) drive part s = Some (r, s)" for drive part using mount_fails [OF ok assms(2) l(2)] .
  show ?thesis
  proof (cases d)
    case None
    then show ?thesis using True d by (auto simp: fs_mount_api_def)
  next
    case (Some dp)
    obtain drive part where "dp = (drive, part)" by (cases dp)
    then show ?thesis using True d Some m [of drive part] by (auto simp: fs_mount_api_def)
  qed
qed (auto simp: fs_mount_api_def)

lemma umount_api_prints:
  assumes "fs_ok e UNIV s" "short_args argv"
  shows "prints s (fs_umount_api depth argv s)"
proof -
  have "length argv = 2 \<Longrightarrow> length (argv ! Suc 0) < 2048" using short_nth [OF assms(2), of 1] by simp
  then show ?thesis using umount_fails [OF fs_okD(3) [OF assms(1)]] by (auto simp: fs_umount_api_def)
qed

lemma mkfs_api_prints:
  assumes "partition_lock (disk s) = 0" "short_args argv"
  shows "prints s (fs_mkfs_api argv s)"
proof (cases "length argv = 2")
  case True
  then have l: "length (argv ! 1) < 512" using short_nth [OF assms(2)] by simp
  obtain d where d: "parse_device (argv ! 1) s = Some (d, s)" using parse_device_returns [OF assms(1) l] by blast
  show ?thesis
  proof (cases d)
    case None
    then show ?thesis using True d by (auto simp: fs_mkfs_api_def)
  next
    case (Some dp)
    obtain drive part where "dp = (drive, part)" by (cases dp)
    then show ?thesis using True d Some format_fails [OF assms(1), of drive part] by (auto simp: fs_mkfs_api_def)
  qed
qed (auto simp: fs_mkfs_api_def)

text \<open>\<^verbatim>\<open>help\<close> prints the names and descriptions of the registered commands.\<close>

definition short_commands :: "fs \<Rightarrow> bool" where
  "short_commands s \<longleftrightarrow> (\<forall>(name, e) \<in> set (HASH_ITER (command_map s)). length name < 2048 \<and> length (ce_desc e) < 2048)"

lemma help_callback_returns:
  assumes "length name < 2048" "length desc < 2048"
  shows "\<exists>x. help_callback name desc s = Some (s\<lparr>out := x\<rparr>)"
proof -
  obtain x where x: "say ''  %s'' [ArgS name] s = Some (s\<lparr>out := x\<rparr>)" using fits_say [of "''  %s''" "[ArgS name]" s] assms(1) by auto
  obtain y where y: "say '' - %s'' [ArgS desc] (s\<lparr>out := x\<rparr>) = Some (s\<lparr>out := x\<rparr>\<lparr>out := y\<rparr>)"
    using fits_say [of "'' - %s''" "[ArgS desc]" "s\<lparr>out := x\<rparr>"] assms(2) by auto
  have "\<exists>z. say ''\<newline>'' [] t = Some (t\<lparr>out := z\<rparr>)" for t :: fs using fits_say [of "''\<newline>''" "[]" t] by simp
  from this [of "s\<lparr>out := x\<rparr>"] this [of "s\<lparr>out := y\<rparr>"] show ?thesis using x y by (auto simp: help_callback_def)
qed

lemma help_prints:
  assumes "short_commands s"
  shows "prints s (my_os_command_help argv s)"
proof -
  let ?f = "\<lambda>(name, e) r. case r of None \<Rightarrow> None | Some s' \<Rightarrow> help_callback name (ce_desc e) s'"
  have "\<exists>x. fold ?f cs (Some (s\<lparr>out := o'\<rparr>)) = Some (s\<lparr>out := x\<rparr>)"
    if "\<forall>(name, e) \<in> set cs. length name < 2048 \<and> length (ce_desc e) < 2048" for cs o'
    using that
  proof (induction cs arbitrary: o')
    case (Cons c cs)
    obtain x where "help_callback (fst c) (ce_desc (snd c)) (s\<lparr>out := o'\<rparr>) = Some (s\<lparr>out := o'\<rparr>\<lparr>out := x\<rparr>)"
      using help_callback_returns [of "fst c" "ce_desc (snd c)" "s\<lparr>out := o'\<rparr>"] Cons.prems by auto
    then show ?case using Cons by (simp add: split_beta)
  qed auto
  from this [of "HASH_ITER (command_map s)"]
  have "\<exists>x. foreach_command help_callback (command_map s) (s\<lparr>out := o'\<rparr>) = Some (s\<lparr>out := x\<rparr>)" for o'
    using assms unfolding foreach_command_def short_commands_def by blast
  then have "prints s (foreach_command help_callback (command_map s) (s\<lparr>out := o'\<rparr>) \<bind> (\<lambda>s2. Some (0, s2)))" for o'
    by (metis Option.bind.bind_lunit prints_Some(2))
  then show ?thesis by (auto simp: my_os_command_help_def)
qed

section \<open>Examples\<close>

text \<open>A folder with one subfolder at 2048 and one file of five bytes at 1048576.\<close>

definition demo_foder :: foder where
  "demo_foder = (new_foder ''docs'' 1 536 None 0)
    \<lparr>foder_map := \<lparr>buckets = [[\<lparr>nd_addr = 4096, nd_key = ''old'', nd_value = \<lparr>di_name = ''old'', di_type = 1, di_ptr = 8192, di_drive_addr = 2048\<rparr>\<rparr>]], hm_count = 1\<rparr>,
     file_map := \<lparr>buckets = [[], [\<lparr>nd_addr = 4160, nd_key = ''a.c'', nd_value = \<lparr>fi_name = ''a.c'', fi_type = 2, fi_length = 5, fi_ptr = 0, fi_drive_addr = 1048576\<rparr>\<rparr>]], hm_count = 1\<rparr>\<rparr>"

theorem folder_image_roundtrip_witness:
  "\<exists>bs. enc_disk_folder demo_foder = Some bs \<and> name_at bs 0 = Some ''docs'' \<and>
     map (\<lambda>i. (name_at bs (file_off i), sint (le64 bs (file_off i + 128)), sint (le32 bs (file_off i + 136)))) [0..<unat (le32 bs 136)] =
       [(Some ''a.c'', 5, 1048576)]"
proof -
  obtain bs where bs: "enc_disk_folder demo_foder = Some bs"
    by (simp add: enc_disk_folder_def demo_foder_def new_foder_def enc_name_def strcpy_into_def DFS_MAX_SUB_ENTRIES_def Let_def)
  have f: "fd_name demo_foder = ''docs''" "concat (buckets (foder_map demo_foder)) = [\<lparr>nd_addr = 4096, nd_key = ''old'',
      nd_value = \<lparr>di_name = ''old'', di_type = 1, di_ptr = 8192, di_drive_addr = 2048\<rparr>\<rparr>]"
    "concat (buckets (file_map demo_foder)) = [\<lparr>nd_addr = 4160, nd_key = ''a.c'',
      nd_value = \<lparr>fi_name = ''a.c'', fi_type = 2, fi_length = 5, fi_ptr = 0, fi_drive_addr = 1048576\<rparr>\<rparr>]"
    by (simp_all add: demo_foder_def new_foder_def)
  from folder_image_roundtrip [OF bs] show ?thesis unfolding f using bs by simp
qed

theorem dfs_unusable_witness:
  "\<exists>s. fs_ok 0x200000 UNIV s \<and> disk s = demo_disk \<and> dfs_mount ''/'' 0 0 s \<in> {Some (- 1, s), Some (- 2, s), Some (- 3, s)}"
proof -
  obtain s where "fs_ok 0x200000 UNIV s" "disk s = demo_disk"
    using boot_fs_returns [of "0x200000" 32 demo_disk UNIV] by (auto simp: ROOT_def)
  moreover have "partition_lock demo_disk = 0" by (simp add: demo_disk_def)
  ultimately show ?thesis using dfs_unusable [of "0x200000" UNIV s "''/''" 0 0] by auto
qed

end
