(* ===== verification/Shell_Props.thy ===== *)
theory Shell_Props
  imports Dfs_Props
begin

text \<open>
  The shell. Every command returns and keeps the invariant of the file system, provided the heap has room for one
  more file content and no folder has a path of 512 characters or more; theory \<open>Session\<close> extends this to lines
  typed at the prompt. The two provisos are needed: \<^verbatim>\<open>fs_write\<close> frees the old content before it asks for the new one, and \<^verbatim>\<open>fs_cd\<close>
  writes the path into an array of 512 bytes.
\<close>

section \<open>What no command changes\<close>

text \<open>The command table stays as it is, and the lock of the partition tables is released.\<close>

definition kept :: "fs \<Rightarrow> fs \<Rightarrow> bool" where
  "kept s s' \<longleftrightarrow> command_map s' = command_map s \<and> (partition_lock (disk s) = 0 \<longrightarrow> partition_lock (disk s') = 0)"

lemma kept_refl [simp, intro!]: "kept s s"
  by (simp add: kept_def)

lemma kept_trans [trans]: "kept a b \<Longrightarrow> kept b c \<Longrightarrow> kept a c"
  by (auto simp: kept_def)

lemma kept_fields [simp]:
  "kept s (t\<lparr>hp := h\<rparr>) = kept s t" "kept s (t\<lparr>dirs := ds\<rparr>) = kept s t" "kept s (t\<lparr>fdata := fd\<rparr>) = kept s t"
  "kept s (t\<lparr>current_dir := p\<rparr>) = kept s t" "kept s (t\<lparr>current_path := cp\<rparr>) = kept s t" "kept s (t\<lparr>env_map := ev\<rparr>) = kept s t"
  "kept s (t\<lparr>out := x\<rparr>) = kept s t" "kept (t\<lparr>current_dir := p\<rparr>) s = kept t s"
  "kept s (set_folder q d t) = kept s t" "kept s (free_folder q t) = kept s t" "kept s (free_data q t) = kept s t"
  by (auto simp: kept_def set_folder_def free_folder_def free_data_def)

definition keeps :: "fs \<Rightarrow> ('a \<times> fs) option \<Rightarrow> bool" where
  "keeps s res \<longleftrightarrow> (\<forall>x s'. res = Some (x, s') \<longrightarrow> kept s s')"

lemma keepsI: "(\<And>x s'. res = Some (x, s') \<Longrightarrow> kept s s') \<Longrightarrow> keeps s res"
  by (simp add: keeps_def)

lemma keepsD: "keeps s res \<Longrightarrow> res = Some (x, s') \<Longrightarrow> kept s s'"
  by (simp add: keeps_def)

lemma keeps_simps [simp]: "keeps s None" "keeps s (Some (x, t)) = kept s t"
  by (simp_all add: keeps_def)

lemma keeps_bind:
  assumes "keeps s m" "\<And>x t. kept s t \<Longrightarrow> keeps s (g x t)"
  shows "keeps s (m \<bind> (\<lambda>(x, t). g x t))"
  using assms by (cases m) (auto simp: keeps_def)

lemma keeps_bind_other:
  assumes "\<And>x. m = Some x \<Longrightarrow> keeps s (g x)"
  shows "keeps s (m \<bind> g)"
  using assms by (cases m) auto

lemma keeps_trans: "kept s t \<Longrightarrow> keeps t res \<Longrightarrow> keeps s res"
  using kept_trans by (auto simp: keeps_def)

lemma kept_disk:
  "partition_read drive part off len (disk s) = Some (r, bs, ds) \<Longrightarrow> kept s (s\<lparr>disk := ds\<rparr>)"
  "partition_read drive part off len (disk s) = Some (r, bs, ds) \<Longrightarrow> kept s (s\<lparr>hp := h, disk := ds\<rparr>)"
  by (auto simp: kept_def partition_read_def lock_acquire_def lock_release_def part_address_def Let_def split: prod.splits if_splits sum.splits)

lemma kept_say: "say f as s = Some s' \<Longrightarrow> kept s s'"
  by (auto simp: say_def)

lemma kept_say_ret: "say_ret f as r s = Some (r', s') \<Longrightarrow> kept s s'"
  by (auto simp: say_ret_def bind_eq_Some_conv dest: kept_say)

lemma kept_say_all: "say_all ms s = Some s' \<Longrightarrow> kept s s'"
  by (induction ms arbitrary: s) (auto simp: bind_eq_Some_conv, meson kept_trans kept_say)

lemma kept_each: "each f is s = Some (r, s') \<Longrightarrow> (\<And>i t r t'. f i t = Some (r, t') \<Longrightarrow> kept t t') \<Longrightarrow> kept s s'"
proof (induction f "is" s rule: each.induct)
  case (2 f i "is" s)
  then obtain r1 s1 where 1: "f i s = Some (r1, s1)" by (auto split: option.splits)
  then have k: "kept s s1" using 2(3) by blast
  show ?case
  proof (cases r1)
    case None
    then have "kept s1 s'" using 1 2 by auto
    then show ?thesis using k kept_trans by blast
  qed (use 1 2(2) k in simp)
qed simp

lemma kept_load_sub: "load_sub dir mp bs i s = Some (r, s') \<Longrightarrow> kept s s'"
  by (auto simp: load_sub_def bind_eq_Some_conv Let_def split: if_splits)

lemma kept_load_file: "load_file dir bs i s = Some (r, s') \<Longrightarrow> kept s s'"
  by (auto simp: load_file_def bind_eq_Some_conv Let_def split: if_splits)

lemma kept_load_children:
  assumes "dfs_load_folder_children dir s = Some (r, s')"
  shows "kept s s'"
proof -
  have rd: "kept s t" if "dfs_read_partition a b c d s = Some (r, bs, t)" for a b c d r bs t
    using that by (auto simp: dfs_read_partition_def dest: kept_disk(1))
  have e1: "kept s t \<Longrightarrow> keeps s (each (load_sub a b c) is t)" for a b c "is" t
    using kept_load_sub by (blast intro: keeps_trans keepsI kept_each)
  have e2: "kept s t \<Longrightarrow> keeps s (each (load_file a c) is t)" for a c "is" t
    using kept_load_file by (blast intro: keeps_trans keepsI kept_each)
  have rd3: "keeps s (dfs_read_partition a b c n s \<bind> (\<lambda>(r, bs, t). g r bs t))"
    if "\<And>r bs t. kept s t \<Longrightarrow> keeps s (g r bs t)" for a b c n and g :: "int \<Rightarrow> u8 list \<Rightarrow> fs \<Rightarrow> (int \<times> fs) option"
    using that rd by (intro keeps_bind_other) (auto split: prod.splits)
  have "keeps s (dfs_load_folder_children dir s)"
    unfolding dfs_load_folder_children_def
    by (auto split: option.splits intro!: keeps_bind_other [of "folder s dir"] rd3 keeps_bind e1 e2)
  then show ?thesis using assms by (rule keepsD)
qed

lemma kept_lazy: "lazy_load_directory p s = Some s' \<Longrightarrow> kept s s'"
  by (auto simp: lazy_load_directory_def bind_eq_Some_conv split: if_splits dest: kept_load_children)

lemma kept_load_entry: "load_entry p d nm i s = Some (r, i', d', s') \<Longrightarrow> kept s s'"
  by (auto simp: load_entry_def dfs_load_file_data_def bind_eq_Some_conv Let_def split: option.splits if_splits dest!: kept_disk(1))
    (auto simp: kept_def)

lemma kept_print_bytes: "print_bytes bs s = Some s' \<Longrightarrow> kept s s'"
  by (induction bs arbitrary: s) (auto simp: bind_eq_Some_conv, meson kept_trans kept_say)

text \<open>The same as steps from a state that is already known to be kept.\<close>

lemma kept_steps:
  assumes "kept s t"
  shows "say f as t = Some u \<Longrightarrow> kept s u" "say_ret f as r t = Some (r', u) \<Longrightarrow> kept s u" "say_all ms t = Some u \<Longrightarrow> kept s u"
    "print_bytes bs t = Some u \<Longrightarrow> kept s u" "lazy_load_directory p t = Some u \<Longrightarrow> kept s u"
    "load_entry p d nm i t = Some (q, i', d', u) \<Longrightarrow> kept s u"
  by (rule kept_trans [OF assms], erule kept_say kept_say_ret kept_say_all kept_print_bytes kept_lazy kept_load_entry)+

section \<open>The operations\<close>

lemma keeps_mkdir: "keeps s (fs_mkdir name from s)"
  unfolding fs_mkdir_def
  by (auto simp: Let_def simp del: say_all.simps split: option.splits sum.splits prod.splits intro!: keeps_bind_other elim!: kept_steps [rotated])

lemma keeps_rmdir: "keeps s (fs_rmdir name from s)"
  unfolding fs_rmdir_def
  by (auto simp: Let_def simp del: say_all.simps split: option.splits sum.splits prod.splits intro!: keeps_bind_other elim!: kept_steps [rotated])

lemma keeps_rm: "keeps s (fs_rm name from s)"
  unfolding fs_rm_def
  by (auto simp: Let_def simp del: say_all.simps split: option.splits sum.splits prod.splits intro!: keeps_bind_other elim!: kept_steps [rotated])

lemma keeps_touch: "keeps s (fs_touch name from s)"
  unfolding fs_touch_def
  by (auto simp: Let_def simp del: say_all.simps split: option.splits sum.splits prod.splits intro!: keeps_bind_other elim!: kept_steps [rotated])

lemma keeps_write: "keeps s (fs_write name data len from s)"
  unfolding fs_write_def
  by (auto simp: Let_def simp del: say_all.simps split: option.splits sum.splits prod.splits intro!: keeps_bind_other elim!: kept_steps [rotated])

lemma keeps_cat: "keeps s (fs_cat name from s)"
  unfolding fs_cat_def
  by (auto simp: Let_def simp del: say_all.simps split: option.splits sum.splits prod.splits intro!: keeps_bind_other elim!: kept_steps [rotated])

lemma keeps_cd: "keeps s (fs_cd path s)"
  unfolding fs_cd_def
  by (auto simp: Let_def simp del: say_all.simps split: option.splits sum.splits prod.splits intro!: keeps_bind_other elim!: kept_steps [rotated])

lemma keeps_ls: "keeps s (fs_ls s)"
  unfolding fs_ls_def
  by (auto simp: Let_def simp del: say_all.simps split: option.splits sum.splits prod.splits intro!: keeps_bind_other elim!: kept_steps [rotated])

lemma keeps_backspace: "keeps s (fs_backspace name n from s)"
  unfolding fs_backspace_def
  by (auto simp: Let_def simp del: say_all.simps split: option.splits sum.splits prod.splits intro!: keeps_bind_other elim!: kept_steps [rotated])

lemma kept_ops:
  assumes "kept s t"
  shows "fs_mkdir name from t = Some (r, u) \<Longrightarrow> kept s u" "fs_rmdir name from t = Some (r, u) \<Longrightarrow> kept s u"
    "fs_rm name from t = Some (r, u) \<Longrightarrow> kept s u" "fs_touch name from t = Some (r, u) \<Longrightarrow> kept s u"
    "fs_write name data len from t = Some (r, u) \<Longrightarrow> kept s u" "fs_cat name from t = Some (r, u) \<Longrightarrow> kept s u"
    "fs_cd path t = Some (r, u) \<Longrightarrow> kept s u" "fs_ls t = Some (r, u) \<Longrightarrow> kept s u" "fs_backspace name n from t = Some (r, u) \<Longrightarrow> kept s u"
  by (rule kept_trans [OF assms], erule keepsD [OF keeps_mkdir] keepsD [OF keeps_rmdir] keepsD [OF keeps_rm] keepsD [OF keeps_touch]
      keepsD [OF keeps_write] keepsD [OF keeps_cat] keepsD [OF keeps_cd] keepsD [OF keeps_ls] keepsD [OF keeps_backspace])+

section \<open>The commands\<close>

lemma keeps_mkdir_p_step: "keeps s (mkdir_p_step v token cur s)"
proof -
  have m: "kept s u" if "fs_mkdir name fr (s\<lparr>current_dir := cur\<rparr>) = Some (r, u)" for name fr r u
    using kept_ops(1) [OF _ that, of s] by simp
  show ?thesis unfolding mkdir_p_step_def
    by (auto simp: Let_def split: option.splits prod.splits intro!: keeps_bind_other elim!: kept_steps [rotated] dest!: m)
qed

lemma keeps_mkdir_p_loop: "keeps s (mkdir_p_loop v token cur s)"
proof (induction v token cur s rule: mkdir_p_loop.induct)
  case (1 v token cur s)
  have k: "kept s t" if "mkdir_p_step v tok cur s = Some (x, t)" for tok x t using keepsD [OF keeps_mkdir_p_step that] .
  show ?case
  proof (cases "mkdir_p_step v (takeWhile (\<lambda>c. c \<noteq> CHR ''/'') token) cur s")
    case None
    then show ?thesis by (subst mkdir_p_loop.simps) simp
  next
    case (Some y)
    obtain x t where y: "y = (x, t)" by (cases y)
    note K = k [OF Some [unfolded y]]
    have "keeps t (mkdir_p_loop v (tl (dropWhile (\<lambda>c. c \<noteq> CHR ''/'') token)) cur' t)"
      if "token \<noteq> []" "x = Inr cur'" "dropWhile (\<lambda>c. c \<noteq> CHR ''/'') token \<noteq> []" for cur'
      using 1 [OF that(1) Some y [symmetric] that(2) refl that(3)] .
    then show ?thesis using Some y K keeps_trans [OF K]
      by (cases x) (subst mkdir_p_loop.simps; auto simp: Let_def)+
  qed
qed

lemma kept_mkdir_options: "mkdir_options as p v s = Some (Inl (r, s')) \<Longrightarrow> kept s s'"
  by (induction "as" arbitrary: p v)
    (auto simp: bind_eq_Some_conv simp del: say_all.simps split: if_splits elim!: kept_steps(1,3) [rotated])

lemma keeps_ramfs_commands:
  "keeps s (fs_mkdir_api argv s)" "keeps s (fs_rmdir_api argv s)" "keeps s (fs_rm_api argv s)" "keeps s (fs_touch_api argv s)"
  "keeps s (fs_write_api argv s)" "keeps s (fs_cat_api argv s)" "keeps s (fs_cd_api argv s)" "keeps s (fs_ls_api argv s)"
  "keeps s (fs_pwd_api argv s)" "keeps s (fs_backspace_api argv s)"
proof -
  note rules = kept_steps(1,2,3) [rotated] kept_ops [rotated]
  have say_ret: "kept s t \<Longrightarrow> keeps s (say_ret f as r t)" for f as r t
    by (rule keepsI) (rule kept_steps(2))
  have opt: "keeps s (case res of Inl r \<Rightarrow> Some r | Inr (_, _, None) \<Rightarrow> say_ret f0 a0 r0 s | Inr (opt_p, opt_v, Some dirname) \<Rightarrow> g opt_p opt_v dirname)"
    if "mkdir_options as False False s = Some res" "\<And>p v n. keeps s (g p v n)" for "as" res f0 a0 r0 g
    using that kept_mkdir_options say_ret [OF kept_refl] by (auto split: sum.splits prod.splits option.splits)
  show "keeps s (fs_mkdir_api argv s)"
  proof (cases "length argv = 1")
    case True
    then show ?thesis unfolding fs_mkdir_api_def by (auto intro!: keeps_bind_other say_ret elim!: rules)
  next
    case False
    show ?thesis unfolding fs_mkdir_api_def if_not_P [OF False]
      by (rule keeps_bind_other, erule opt)
        (auto split: prod.splits intro!: keeps_bind_other say_ret keeps_mkdir_p_loop elim!: rules)
  qed
  show "keeps s (fs_rmdir_api argv s)" unfolding fs_rmdir_api_def by (auto split: prod.splits intro!: keeps_bind_other say_ret elim!: rules)
  show "keeps s (fs_rm_api argv s)" unfolding fs_rm_api_def by (auto split: prod.splits intro!: keeps_bind_other say_ret elim!: rules)
  show "keeps s (fs_touch_api argv s)" unfolding fs_touch_api_def by (auto split: prod.splits intro!: keeps_bind_other say_ret elim!: rules)
  show "keeps s (fs_write_api argv s)" unfolding fs_write_api_def by (auto split: prod.splits intro!: keeps_bind_other say_ret elim!: rules)
  show "keeps s (fs_cat_api argv s)" unfolding fs_cat_api_def by (auto split: prod.splits intro!: keeps_bind_other say_ret elim!: rules)
  show "keeps s (fs_cd_api argv s)" unfolding fs_cd_api_def by (auto split: prod.splits intro!: keeps_bind_other say_ret elim!: rules)
  show "keeps s (fs_ls_api argv s)" unfolding fs_ls_api_def by (auto split: prod.splits intro!: say_ret keeps_ls)
  show "keeps s (fs_pwd_api argv s)" unfolding fs_pwd_api_def by (auto intro!: say_ret)
  show "keeps s (fs_backspace_api argv s)" unfolding fs_backspace_api_def
    by (auto split: prod.splits intro!: keeps_bind_other say_ret elim!: rules)
qed

end
