(* ===== verification/Session.thy ===== *)
theory Session
  imports Shell_Props
begin

text \<open>
  Sessions at the prompt. A line of up to 511 printable characters (257 when it has a \<^verbatim>\<open>$\<close>), typed and ended by a newline, is split
  into a command and its arguments, the command runs, and the shell is back at the prompt with its
  invariant. Sessions are sequences of such lines, as an inductive relation.
\<close>

section \<open>Every command returns\<close>

text \<open>Room for one more file content, and no folder whose path overflows the array of 512 bytes.\<close>

definition short_paths :: "fs \<Rightarrow> bool" where
  "short_paths s \<longleftrightarrow> (\<forall>c. view s c \<noteq> None \<longrightarrow> length (path_text c) < 512)"

definition roomy :: "fs \<Rightarrow> bool" where
  "roomy s \<longleftrightarrow> avail 544 (hp s) \<and> short_paths s"

text \<open>The state between two commands.\<close>

definition ready :: "u32 \<Rightarrow> fs \<Rightarrow> bool" where
  "ready e s \<longleftrightarrow> fs_ok e UNIV s \<and> partition_lock (disk s) = 0 \<and> short_commands s"

lemma ready_kept: "ready e s \<Longrightarrow> kept s s' \<Longrightarrow> fs_ok e UNIV s' \<Longrightarrow> ready e s'"
  by (auto simp: ready_def kept_def short_commands_def)

lemma ready_out [simp]: "ready e (s\<lparr>out := x\<rparr>) = ready e s" "roomy (s\<lparr>out := x\<rparr>) = roomy s"
  by (simp_all add: ready_def short_commands_def roomy_def short_paths_def)

lemma prints_keeps: "prints s res \<Longrightarrow> keeps s res"
  by (auto simp: prints_def keeps_def)

lemma run_api_keeps:
  assumes R: "ready e s" and A: "short_args argv"
  shows "keeps s (run_api depth f argv s)"
proof -
  have S: "fs_ok e UNIV s" "partition_lock (disk s) = 0" "short_commands s" using R by (simp_all add: ready_def)
  show ?thesis
    using keeps_ramfs_commands [of s argv] lsblk_api_prints [OF S(2), of argv, THEN prints_keeps] mount_api_prints [OF S(1,2) A, THEN prints_keeps]
      umount_api_prints [OF S(1) A, of depth, THEN prints_keeps] mkfs_api_prints [OF S(2) A, THEN prints_keeps] help_prints [OF S(3), of argv, THEN prints_keeps]
    by (cases f) simp_all
qed

lemma run_api_ready:
  assumes R: "ready e s" "roomy s" and A: "short_args argv" "argv \<noteq> []"
  shows "\<exists>r s'. run_api depth f argv s = Some (r, s') \<and> ready e s'"
proof -
  have S: "fs_ok e UNIV s" "partition_lock (disk s) = 0" "short_commands s" "avail 544 (hp s)" "short_paths s"
    using R by (simp_all add: ready_def roomy_def)
  obtain c where c: "cwd_at s c" using fs_okD(4) [OF S(1)] by blast
  have cd: "returns e (fs_cd_api argv s)"
  proof (rule cd_api_returns [OF S(1) A(1) c A(2)])
    fix c' assume "length argv = 2" and p: "apath (\<lambda>x. view s x \<noteq> None) c (argv ! 1) = Some c'"
    then have l: "length (argv ! 1) < 512" using short_nth [OF A(1), of 1] by simp
    have "is_dir s c'"
      using get_dir_spec(2) [OF core_okD(2) [OF fs_okD(1) [OF S(1)]] _ l, of c "current_dir s" c'] c p
      by (simp add: view_dir cwd_at_def)
    then show "length (path_text c') < 512" using S(5) view_is_dir [of s c'] by (simp add: short_paths_def)
  qed
  note P = lsblk_api_prints [OF S(2), of argv] mount_api_prints [OF S(1,2) A(1)] umount_api_prints [OF S(1) A(1), of depth]
    mkfs_api_prints [OF S(2) A(1)] help_prints [OF S(3), of argv]
  have "returns e (run_api depth f argv s)"
    using mkdir_api_returns [OF S(1) A(1)] cd rmdir_api_returns [OF S(1) A(1)] touch_api_returns [OF S(1) A(1)]
      write_api_returns [OF S(1) A(1) S(4)] cat_api_returns [OF S(1)] ls_api_returns [OF S(1)] pwd_api_returns [OF S(1)]
      rm_api_returns [OF S(1) A(1)] backspace_api_returns [OF S(1) A(1)] P [THEN prints_returns, OF S(1)]
    by (cases f) simp_all
  then show ?thesis using run_api_keeps [OF R(1) A(1), of depth f] ready_kept [OF R(1)] by (auto simp: returns_def keeps_def)
qed

section \<open>Splitting a line\<close>

text \<open>A buffer that holds a string of length \<open>k\<close>.\<close>

lemma takeWhile_stops: "k < length xs \<Longrightarrow> \<not> P (xs ! k) \<Longrightarrow> length (takeWhile P xs) \<le> k"
proof (rule ccontr)
  assume a: "k < length xs" "\<not> P (xs ! k)" "\<not> length (takeWhile P xs) \<le> k"
  then have "takeWhile P xs ! k \<in> set (takeWhile P xs)" by simp
  then show False using a by (auto simp: takeWhile_nth dest: set_takeWhileD)
qed

lemma scan_stops:
  assumes "k < length buf" "buf ! k = NUL" "p \<le> k"
  shows "p \<le> word_end buf p" "word_end buf p \<le> k" "p \<le> skip_spaces buf p" "skip_spaces buf p \<le> k"
proof -
  have "k - p < length (drop p buf)" "drop p buf ! (k - p) = NUL" using assms by simp_all
  then show "word_end buf p \<le> k" "skip_spaces buf p \<le> k"
    using takeWhile_stops [of "k - p" "drop p buf" "\<lambda>c. c \<noteq> NUL \<and> c \<noteq> CHR '' ''"] takeWhile_stops [of "k - p" "drop p buf" "\<lambda>c. c = CHR '' ''"] assms(3)
    by (simp_all add: word_end_def skip_spaces_def)
qed (simp_all add: word_end_def skip_spaces_def)

lemma parse_args_spec:
  assumes "k < length buf" "buf ! k = NUL" "p \<le> k" "parse_args room buf p = (ps, buf')"
  shows "length buf' = length buf \<and> (\<forall>q\<in>set ps. q < k \<and> buf ! q \<noteq> NUL) \<and>
    (\<forall>i<length buf. buf' ! i = buf ! i \<or> buf ! i = CHR '' '' \<and> buf' ! i = NUL)"
  using assms
proof (induction room buf p arbitrary: ps buf' rule: parse_args.induct)
  case (2 room buf p)
  show ?case
  proof (cases "p \<ge> length buf \<or> buf ! p = NUL")
    case True
    then show ?thesis using 2(5) by auto
  next
    case False
    let ?q = "word_end buf p"
    let ?sep = "?q < length buf \<and> buf ! ?q = CHR '' ''"
    let ?b = "if ?sep then buf[?q := NUL] else buf"
    let ?p = "if ?sep then skip_spaces ?b (?q + 1) else ?q"
    obtain rest b2 where r: "parse_args room ?b ?p = (rest, b2)" by fastforce
    have q: "?q \<le> k" using scan_stops [OF 2(2-4)] by blast
    have k: "k < length ?b" "?b ! k = NUL" using 2(2,3) by (auto simp: nth_list_update)
    have "?sep \<Longrightarrow> ?q + 1 \<le> k" using q 2(3) by (cases "?q = k") auto
    then have "?p \<le> k" using scan_stops(4) [OF k, of "?q + 1"] q by auto
    from 2(1) [OF False refl refl refl refl k this r]
    have IH: "length b2 = length buf" "\<forall>x\<in>set rest. x < k \<and> ?b ! x \<noteq> NUL"
      "\<forall>i<length buf. b2 ! i = ?b ! i \<or> ?b ! i = CHR '' '' \<and> b2 ! i = NUL" by auto
    have "p < k" using False 2(3,4) by (cases "p = k") auto
    moreover have "ps = p # rest" "buf' = b2" using 2(5) False r by (simp_all add: Let_def split: prod.splits)
    ultimately show ?thesis using IH False by (auto simp: nth_list_update split: if_splits)
  qed
qed simp

lemma str_at_length:
  assumes "k < length buf" "buf ! k = NUL" "p \<le> k"
  shows "length (str_at buf p) \<le> k - p"
  using takeWhile_stops [of "k - p" "drop p buf" "\<lambda>c. c \<noteq> NUL"] assms by (simp add: str_at_def)

lemma expand_all_plain: "(\<And>q. q \<in> set ps \<Longrightarrow> buf ! q \<noteq> CHR ''$'') \<Longrightarrow> expand_all env ps buf = Some buf"
  by (induction ps) (simp_all add: expand_env_var_def)

text \<open>Expansion of variables: as long as every argument starts at 256 or before, it stays inside the buffer, and every argument is
  still followed by a NUL, although the text of a later one may be overwritten.\<close>

definition ended :: "char list \<Rightarrow> nat set \<Rightarrow> bool" where
  "ended buf A \<longleftrightarrow> length buf = 512 \<and> (\<exists>j<512. buf ! j = NUL \<and> (\<forall>q\<in>A. q \<le> j))"

lemma expand_ended:
  assumes "ended buf A" "p \<le> 256"
  shows "\<exists>buf'. expand_env_var env p buf = Some buf' \<and> ended buf' A"
proof -
  obtain j where B: "length buf = 512" "j < 512" "buf ! j = NUL" "\<forall>q\<in>A. q \<le> j" using assms(1) by (auto simp: ended_def)
  have w: "ended (take p buf @ v @ [NUL] @ drop (p + 256) buf) A" if "length v = 255" for v
  proof -
    let ?b = "take p buf @ v @ [NUL] @ drop (p + 256) buf"
    have l: "length v = 255" "length ?b = 512" using B(1) assms(2) that by simp_all
    show ?thesis
    proof (cases "j < p + 256")
      case True
      have "?b ! (p + 255) = NUL" using B(1) assms(2) l(1) by (simp add: nth_append)
      then show ?thesis using l(2) True B(4) assms(2) unfolding ended_def by (intro conjI exI [of _ "p + 255"]) auto
    next
      case False
      then have "\<not> j - p < 255" "\<not> j < p" by auto
      then have "?b ! j = NUL" using B(1,3) assms(2) l(1) False by (simp add: nth_append)
      then show ?thesis using l(2) B(2,4) unfolding ended_def by blast
    qed
  qed
  have v: "length (take 255 (val @ replicate 255 NUL)) = 255" for val by simp
  show ?thesis using assms w [OF v] B(1) by (simp add: expand_env_var_def del: take_append append.simps split: option.split)
qed

lemma expand_all_ended:
  "ended buf A \<Longrightarrow> \<forall>p\<in>set ps. p \<le> 256 \<Longrightarrow> \<exists>buf'. expand_all env ps buf = Some buf' \<and> ended buf' A"
proof (induction ps arbitrary: buf)
  case (Cons p ps)
  then obtain b where "expand_env_var env p buf = Some b" "ended b A" using expand_ended [of buf A p env] by auto
  then show ?case using Cons.IH [of b] Cons.prems(2) by simp
qed simp

lemma ended_str: "ended buf A \<Longrightarrow> q \<in> A \<Longrightarrow> length (str_at buf q) < 512"
  using str_at_length [of _ buf q] by (fastforce simp: ended_def)

text \<open>A line of length \<open>k\<close> in the buffer of the shell; one with a \<^verbatim>\<open>$\<close> is short and does not start with it.\<close>

definition line_in :: "char list \<Rightarrow> nat \<Rightarrow> bool" where
  "line_in buf k \<longleftrightarrow> length buf = 512 \<and> k < 512 \<and> buf ! k = NUL \<and> (\<forall>i<k. buf ! i \<noteq> NUL) \<and>
     ((\<forall>i<k. buf ! i \<noteq> CHR ''$'') \<or> buf ! 0 \<noteq> CHR ''$'' \<and> k \<le> 257)"

lemma parsed_line:
  assumes "line_in buf k" "p \<le> k" "parse_args room buf p = (ps, buf')"
  shows "\<exists>buf''. expand_all env ps buf' = Some buf'' \<and> ended buf'' (set ps)"
proof -
  have B: "k < length buf" "buf ! k = NUL" "length buf = 512" using assms(1) by (simp_all add: line_in_def)
  from parse_args_spec [OF B(1,2) assms(2,3)]
  have S: "length buf' = length buf" "\<forall>q\<in>set ps. q < k \<and> buf ! q \<noteq> NUL"
    "\<forall>i<length buf. buf' ! i = buf ! i \<or> buf ! i = CHR '' '' \<and> buf' ! i = NUL" by blast+
  have "buf' ! k = NUL" using S(3) B(1,2) by auto
  then have e: "ended buf' (set ps)" using S(1,2) B unfolding ended_def by (metis less_imp_le)
  consider "\<forall>i<k. buf ! i \<noteq> CHR ''$''" | "k \<le> 257" using assms(1) by (auto simp: line_in_def)
  then show ?thesis
  proof cases
    case 1
    have "buf' ! q \<noteq> CHR ''$''" if "q \<in> set ps" for q
    proof -
      have "q < k" "buf ! q \<noteq> CHR ''$''" using S(2) that 1 by auto
      moreover have "buf' ! q = buf ! q \<or> buf' ! q = NUL" using S(3) \<open>q < k\<close> B(1) by (meson order.strict_trans)
      ultimately show ?thesis by auto
    qed
    then show ?thesis using expand_all_plain e by blast
  next
    case 2
    then have "\<forall>q\<in>set ps. q \<le> 256" using S(2) by fastforce
    then show ?thesis using expand_all_ended [OF e] by blast
  qed
qed

lemma search_ready:
  assumes R: "ready e s" "roomy s" and L: "line_in buf k"
  shows "\<exists>r buf' s'. my_os_command_search depth buf s = Some (r, buf', s') \<and> length buf' = 512 \<and> ready e s'"
proof -
  have B: "k < length buf" "buf ! k = NUL" "length buf = 512" using L by (simp_all add: line_in_def)
  let ?n = "min (word_end buf 0) 63"
  let ?name = "take ?n buf"
  have n: "?n \<le> k" using scan_stops(2) [OF B(1,2), of 0] by simp
  show ?thesis
  proof (cases "find_command (command_map s) ?name")
    case None
    have "fits ''Command not found: %s\<newline>'' [ArgS ?name]" by simp
    then obtain x where "say ''Command not found: %s\<newline>'' [ArgS ?name] s = Some (s\<lparr>out := x\<rparr>)" using fits_say by blast
    then show ?thesis using None R(1) B(3) by (simp add: my_os_command_search_def Let_def)
  next
    case (Some cmd)
    let ?p = "skip_spaces buf ?n" and ?nb = "?name @ replicate (64 - ?n) NUL"
    have p: "?p \<le> k" using scan_stops(4) [OF B(1,2) n] .
    obtain ps buf' where ps: "parse_args (MAX_ARGS - 1) buf ?p = (ps, buf')" by fastforce
    obtain buf'' where P: "expand_all (env_map s) ps buf' = Some buf''" "ended buf'' (set ps)" using parsed_line [OF L p ps] by blast
    have B2: "length buf'' = 512" "\<forall>a\<in>set (map (str_at buf'') ps). length a < 512" using P(2) ended_str [OF P(2)] by (auto simp: ended_def)
    have nb: "?nb ! 0 \<noteq> CHR ''$''"
    proof (cases "?n = 0")
      case False
      then have "0 < k" "?nb ! 0 = buf ! 0" using n B by (auto simp: nth_append)
      then show ?thesis using L by (auto simp: line_in_def)
    qed (simp add: nth_append)
    then have ex: "expand_env_var (env_map s) 0 ?nb = Some ?nb" by (simp add: expand_env_var_def)
    have "length (str_at ?nb 0) \<le> length ?nb" unfolding str_at_def by (metis drop0 length_takeWhile_le)
    then have "length (str_at ?nb 0) < 512" using B(3) by simp
    then have "short_args (str_at ?nb 0 # map (str_at buf'') ps)" using B2(2) by simp
    then obtain r s' where "run_api depth (ce_func cmd) (str_at ?nb 0 # map (str_at buf'') ps) s = Some (r, s')" "ready e s'"
      using run_api_ready [OF R] by blast
    then show ?thesis using Some ps P(1) B2(1) ex by (simp add: my_os_command_search_def my_os_command_run_def Let_def)
  qed
qed

section \<open>Typing a line\<close>

definition printable :: "char \<Rightarrow> bool" where
  "printable c \<longleftrightarrow> c \<noteq> NUL \<and> c \<noteq> CHR 0x0A \<and> c \<noteq> CHR 0x0D \<and> c \<noteq> CHR 0x08"

definition plain_line :: "string \<Rightarrow> bool" where
  "plain_line l \<longleftrightarrow> length l < 512 \<and> list_all printable l \<and> (CHR ''$'' \<in> set l \<longrightarrow> hd l \<noteq> CHR ''$'' \<and> length l \<le> 257)"

definition at_prompt :: "u32 \<Rightarrow> shell \<Rightarrow> bool" where
  "at_prompt e sh \<longleftrightarrow> ready e (sh_fs sh) \<and> length (sh_buffer sh) = 512 \<and> buf_len sh = 0"

lemma shell_run_append: "shell_run depth (cs @ ds) sh = shell_run depth cs sh \<bind> shell_run depth ds"
  by (induction cs arbitrary: sh) (auto simp: bind_assoc split: Option.bind_splits)

lemma say_char: "\<exists>x. say ''%c'' [ArgI i] s = Some (s\<lparr>out := x\<rparr>)"
  by (auto simp: say_def printf_c simp del: printf.simps(2) intro: exI [of _ "out s"])

lemma typing:
  assumes "list_all printable cs" "length (sh_buffer sh) = 512" "buf_len sh + length cs \<le> 512"
  shows "\<exists>x. shell_run depth cs sh = Some (sh\<lparr>sh_fs := (sh_fs sh)\<lparr>out := x\<rparr>,
    sh_buffer := take (buf_len sh) (sh_buffer sh) @ cs @ drop (buf_len sh + length cs) (sh_buffer sh), buf_len := buf_len sh + length cs\<rparr>)"
  using assms
proof (induction cs arbitrary: sh)
  case Nil
  show ?case by (rule exI [of _ "out (sh_fs sh)"]) simp
next
  case (Cons c cs)
  let ?n = "buf_len sh" and ?b = "sh_buffer sh"
  have n: "?n < length ?b" using Cons.prems by simp
  obtain x where x: "say ''%c'' [ArgI (ucast (of_char c :: u8))] (sh_fs sh) = Some ((sh_fs sh)\<lparr>out := x\<rparr>)" using say_char by blast
  let ?sh = "sh\<lparr>sh_fs := (sh_fs sh)\<lparr>out := x\<rparr>, sh_buffer := ?b[?n := c], buf_len := ?n + 1\<rparr>"
  have "shell_input depth c sh = Some ?sh"
    using Cons.prems(1) x n by (cases sh) (simp add: shell_input_def printable_def put_char_def)
  moreover obtain y where "shell_run depth cs ?sh = Some (?sh\<lparr>sh_fs := (sh_fs ?sh)\<lparr>out := y\<rparr>,
    sh_buffer := take (buf_len ?sh) (sh_buffer ?sh) @ cs @ drop (buf_len ?sh + length cs) (sh_buffer ?sh), buf_len := buf_len ?sh + length cs\<rparr>)"
    using Cons.IH [of ?sh] Cons.prems by auto
  moreover have "take (?n + 1) (?b[?n := c]) = take ?n ?b @ [c]" using n by (simp add: take_Suc_conv_app_nth)
  moreover have "drop (?n + 1 + length cs) (?b[?n := c]) = drop (?n + length (c # cs)) ?b" by simp
  ultimately show ?case by auto
qed

lemma prompt_returns:
  assumes "ready e s"
  shows "\<exists>x. shell_prompt s = Some (s\<lparr>out := x\<rparr>)"
proof -
  have "env_get (env_map s) ''pwd'' = Some (take 255 (current_path s))" using assms fs_okD(2) by (auto simp: ready_def env_ok_def)
  then show ?thesis using fits_say [of "''%s$ ''" "[ArgS (take 255 (current_path s))]" s] by (simp add: shell_prompt_def)
qed

lemma typed_line:
  assumes "at_prompt e sh" "plain_line l"
  shows "\<exists>x b. shell_run depth l sh = Some (sh\<lparr>sh_fs := (sh_fs sh)\<lparr>out := x\<rparr>, sh_buffer := b, buf_len := length l\<rparr>) \<and>
    line_in (b[length l := NUL]) (length l) \<and> take (length l) b = l \<and> length b = 512"
proof -
  let ?b = "l @ drop (length l) (sh_buffer sh)"
  have l: "length l < 512" "list_all printable l" "length (sh_buffer sh) = 512" "buf_len sh = 0"
    "CHR ''$'' \<in> set l \<longrightarrow> hd l \<noteq> CHR ''$'' \<and> length l \<le> 257"
    using assms by (auto simp: plain_line_def at_prompt_def)
  obtain x where "shell_run depth l sh = Some (sh\<lparr>sh_fs := (sh_fs sh)\<lparr>out := x\<rparr>, sh_buffer := ?b, buf_len := length l\<rparr>)"
    using typing [OF l(2,3), of depth] l(1,4) by auto
  moreover have "line_in (?b[length l := NUL]) (length l)"
  proof -
    have n: "?b[length l := NUL] ! i = l ! i" if "i < length l" for i using that by (simp add: nth_append)
    have "(\<forall>i<length l. l ! i \<noteq> CHR ''$'') \<or> ?b[length l := NUL] ! 0 \<noteq> CHR ''$'' \<and> length l \<le> 257"
    proof (cases "CHR ''$'' \<in> set l")
      case True
      then have "l \<noteq> []" by auto
      then show ?thesis using True l(5) n [of 0] by (simp add: hd_conv_nth)
    qed (auto simp: in_set_conv_nth)
    then show ?thesis using l n by (auto simp: line_in_def list_all_length printable_def)
  qed
  ultimately show ?thesis using l(1,3) by (intro exI [of _ x] exI [of _ ?b]) auto
qed

text \<open>What the newline does: the command runs on the line in the buffer, and the prompt is printed again.\<close>

lemma enter_runs:
  assumes "buf_len sh < length (sh_buffer sh)" "say ''\<newline>running command\<newline>'' [] (sh_fs sh) = Some s1"
    and "my_os_command_search depth ((sh_buffer sh)[buf_len sh := NUL]) s1 = Some (r, b, s2)" "0 < length b" "shell_prompt s2 = Some s3"
  shows "shell_input depth (CHR 0x0A) sh = Some \<lparr>sh_fs = s3, sh_buffer = b[0 := NUL], buf_len = 0\<rparr>"
  using assms by (simp add: shell_input_def put_char_def)

lemma running_said: "\<exists>x. say ''\<newline>running command\<newline>'' [] s = Some (s\<lparr>out := x\<rparr>)"
  using fits_say [of "''\<newline>running command\<newline>''" "[]" s] by simp

lemma line_returns:
  assumes P: "at_prompt e sh" and "roomy (sh_fs sh)" and l: "plain_line l"
  shows "\<exists>sh'. shell_run depth (l @ [CHR 0x0A]) sh = Some sh' \<and> at_prompt e sh'"
proof -
  obtain x b where t: "shell_run depth l sh = Some (sh\<lparr>sh_fs := (sh_fs sh)\<lparr>out := x\<rparr>, sh_buffer := b, buf_len := length l\<rparr>)"
    "line_in (b[length l := NUL]) (length l)" "length b = 512"
    using typed_line [OF P l] by blast
  let ?sh = "sh\<lparr>sh_fs := (sh_fs sh)\<lparr>out := x\<rparr>, sh_buffer := b, buf_len := length l\<rparr>"
  obtain y where y: "say ''\<newline>running command\<newline>'' [] (sh_fs ?sh) = Some ((sh_fs ?sh)\<lparr>out := y\<rparr>)" using running_said by blast
  have R: "ready e ((sh_fs sh)\<lparr>out := y\<rparr>)" "roomy ((sh_fs sh)\<lparr>out := y\<rparr>)" using P assms(2) by (simp_all add: at_prompt_def)
  obtain r b' s2 where s2: "my_os_command_search depth (b[length l := NUL]) ((sh_fs sh)\<lparr>out := y\<rparr>) = Some (r, b', s2)"
    "length b' = 512" "ready e s2"
    using search_ready [OF R t(2)] by blast
  obtain z where z: "shell_prompt s2 = Some (s2\<lparr>out := z\<rparr>)" using prompt_returns [OF s2(3)] by blast
  have "shell_input depth (CHR 0x0A) ?sh = Some \<lparr>sh_fs = s2\<lparr>out := z\<rparr>, sh_buffer = b'[0 := NUL], buf_len = 0\<rparr>"
    using enter_runs [OF _ y, of depth r b' s2] s2 z t(2,3) by (simp add: line_in_def)
  then show ?thesis using t(1) s2 by (simp add: shell_run_append at_prompt_def)
qed

section \<open>Sessions\<close>

text \<open>The states a user reaches by typing lines, as long as memory and paths leave room.\<close>

inductive session :: "nat \<Rightarrow> shell \<Rightarrow> shell \<Rightarrow> bool" for depth and sh0 where
  start: "session depth sh0 sh0"
| line: "session depth sh0 sh \<Longrightarrow> roomy (sh_fs sh) \<Longrightarrow> plain_line l \<Longrightarrow> shell_run depth (l @ [CHR 0x0A]) sh = Some sh' \<Longrightarrow>
    session depth sh0 sh'"

lemma session_at_prompt: "session depth sh0 sh \<Longrightarrow> at_prompt e sh0 \<Longrightarrow> at_prompt e sh"
proof (induction rule: session.induct)
  case (line sh l sh')
  then show ?case using line_returns [of e sh l depth] by auto
qed


section \<open>A command with its arguments\<close>

definition word_text :: "string \<Rightarrow> bool" where
  "word_text w \<longleftrightarrow> w \<noteq> [] \<and> list_all (\<lambda>c. printable c \<and> c \<noteq> CHR ''$'' \<and> c \<noteq> CHR '' '') w"

lemma takeWhile_word:
  assumes "word_text w" "c = NUL \<or> c = CHR '' ''"
  shows "takeWhile (\<lambda>c. c \<noteq> NUL \<and> c \<noteq> CHR '' '') (w @ c # rest) = w" "takeWhile (\<lambda>c. c \<noteq> NUL) (w @ NUL # rest) = w"
    "takeWhile (\<lambda>c. c = CHR '' '') (CHR '' '' # w @ rest) = [CHR '' '']"
proof -
  have w: "\<forall>x\<in>set w. x \<noteq> NUL \<and> x \<noteq> CHR '' ''" "w \<noteq> []" using assms(1) by (auto simp: word_text_def list_all_iff printable_def)
  show "takeWhile (\<lambda>c. c \<noteq> NUL \<and> c \<noteq> CHR '' '') (w @ c # rest) = w"
    using takeWhile_append2 [of w "\<lambda>c. c \<noteq> NUL \<and> c \<noteq> CHR '' ''" "c # rest"] w assms(2) by auto
  show "takeWhile (\<lambda>c. c \<noteq> NUL) (w @ NUL # rest) = w"
    using takeWhile_append2 [of w "\<lambda>c. c \<noteq> NUL" "NUL # rest"] w by auto
  show "takeWhile (\<lambda>c. c = CHR '' '') (CHR '' '' # w @ rest) = [CHR '' '']" using w by (cases w) auto
qed

text \<open>Words with a character between them.\<close>

fun join :: "char \<Rightarrow> string list \<Rightarrow> string" where
  "join z [] = []"
| "join z [w] = w"
| "join z (w # v # ws) = w @ z # join z (v # ws)"

lemma join_Cons: "ws \<noteq> [] \<Longrightarrow> join z (w # ws) = w @ z # join z ws"
  by (cases ws) simp_all

lemma length_join: "length (join z ws) = length (join y ws)"
  by (induction z ws rule: join.induct) simp_all

lemma scan_word:
  assumes "word_text w" "z = NUL \<or> z = CHR '' ''"
  shows "word_end (pre @ w @ z # rest) (length pre) = length pre + length w"
    "skip_spaces (pre @ CHR '' '' # w @ rest) (length pre) = length pre + 1" "skip_spaces (pre @ w @ rest) (length pre) = length pre"
    "str_at (pre @ w @ NUL # rest) (length pre) = w" "(pre @ w @ rest) ! length pre \<noteq> CHR ''$''" "(pre @ w @ rest) ! length pre \<noteq> NUL"
  using takeWhile_word [OF assms] assms(1)
  by (auto simp: word_end_def skip_spaces_def str_at_def word_text_def nth_append neq_Nil_conv printable_def)

lemma join_head: "ws \<noteq> [] \<Longrightarrow> list_all word_text ws \<Longrightarrow> \<exists>r. join z ws = hd ws @ r \<and> word_text (hd ws)"
  by (cases "(z, ws)" rule: join.cases) auto

text \<open>The argument loop on words separated by single spaces: the positions of exactly these words, which are no variables.\<close>

lemma parse_words:
  assumes "ws \<noteq> []" "list_all word_text ws" "length ws \<le> room"
  shows "\<exists>ps. parse_args room (pre @ join (CHR '' '') ws @ NUL # rest) (length pre) = (ps, pre @ join NUL ws @ NUL # rest) \<and>
    map (str_at (pre @ join NUL ws @ NUL # rest)) ps = ws \<and> (\<forall>p\<in>set ps. (pre @ join NUL ws @ NUL # rest) ! p \<noteq> CHR ''$'')"
  using assms
proof (induction ws arbitrary: pre room)
  case (Cons w ws)
  obtain n where n: "room = Suc n" "length ws \<le> n" using Cons.prems(3) by (cases room) auto
  have w: "word_text w" "list_all word_text ws" using Cons.prems(2) by simp_all
  show ?case
  proof (cases "ws = []")
    case True
    have e: "word_end (pre @ w @ NUL # rest) (length pre) = length pre + length w" using scan_word(1) [OF w(1)] by simp
    have z: "(pre @ w @ NUL # rest) ! (length pre + length w) = NUL" by (simp add: nth_append)
    then have "parse_args n (pre @ w @ NUL # rest) (length pre + length w) = ([], pre @ w @ NUL # rest)" by (cases n) simp_all
    then show ?thesis
      using True n(1) e z scan_word(4-6) [OF w(1), of NUL pre] by (intro exI [of _ "[length pre]"]) (simp add: Let_def)
  next
    case False
    let ?r = "\<lambda>z. join z ws @ NUL # rest"
    let ?b = "pre @ w @ CHR '' '' # ?r (CHR '' '')" and ?b' = "(pre @ w @ [NUL]) @ ?r (CHR '' '')" and ?q = "length pre + length w"
    obtain r where r: "join (CHR '' '') ws = hd ws @ r" "word_text (hd ws)" using join_head [OF False w(2)] by blast
    have e: "word_end ?b (length pre) = ?q" using scan_word(1) [OF w(1)] by simp
    have sp: "?b ! ?q = CHR '' ''" by (simp add: nth_append)
    have u: "?b[?q := NUL] = ?b'" by (simp add: list_update_append)
    have k: "skip_spaces ?b' (?q + 1) = ?q + 1"
      using scan_word(3) [OF r(2), of NUL "pre @ w @ [NUL]" "r @ NUL # rest"] r(1) by simp
    obtain ps where ps: "parse_args n ?b' (?q + 1) = (ps, (pre @ w @ [NUL]) @ ?r NUL)"
      "map (str_at ((pre @ w @ [NUL]) @ ?r NUL)) ps = ws" "\<forall>p\<in>set ps. ((pre @ w @ [NUL]) @ ?r NUL) ! p \<noteq> CHR ''$''"
      using Cons.IH [OF False w(2) n(2), of "pre @ w @ [NUL]"] by auto
    have "parse_args room ?b (length pre) = (length pre # ps, (pre @ w @ [NUL]) @ ?r NUL)"
      using n(1) e sp u k ps(1) scan_word(6) [OF w(1), of NUL pre] by (simp add: Let_def)
    moreover have "?b = pre @ join (CHR '' '') (w # ws) @ NUL # rest" "(pre @ w @ [NUL]) @ ?r NUL = pre @ join NUL (w # ws) @ NUL # rest"
      using join_Cons [OF False] by simp_all
    ultimately show ?thesis
      using ps(2,3) scan_word(4,5) [OF w(1), of NUL pre] join_Cons [OF False, of NUL w] by (intro exI [of _ "length pre # ps"]) simp
  qed
qed simp

lemma search_words:
  assumes w: "word_text cmd" "list_all word_text ws" and l: "length cmd \<le> 63" "length ws \<le> 63"
    and f: "find_command (command_map s) cmd = Some ce" and r: "run_api depth (ce_func ce) (cmd # ws) s = Some (r, s')"
  shows "\<exists>b. my_os_command_search depth (join (CHR '' '') (cmd # ws) @ NUL # rest) s = Some (r, b, s') \<and>
    length b = length (join (CHR '' '') (cmd # ws) @ NUL # rest)"
proof -
  let ?b = "join (CHR '' '') (cmd # ws) @ NUL # rest"
  obtain z t where t: "?b = cmd @ z # t" "z = NUL \<or> z = CHR '' ''" by (cases ws) auto
  have we: "word_end ?b 0 = length cmd" using scan_word(1) [OF w(1) t(2), of "[]" t] unfolding t(1) by simp
  have m: "min (length cmd) 63 = length cmd" "take (length cmd) ?b = cmd" using l(1) unfolding t(1) by simp_all
  obtain ps b where p: "parse_args (MAX_ARGS - 1) ?b (skip_spaces ?b (length cmd)) = (ps, b)" "map (str_at b) ps = ws"
    "\<forall>p\<in>set ps. b ! p \<noteq> CHR ''$''" "length b = length ?b"
  proof (cases "ws = []")
    case True
    have "skip_spaces ?b (length cmd) = length cmd" using True by (simp add: skip_spaces_def)
    then have "parse_args (MAX_ARGS - 1) ?b (skip_spaces ?b (length cmd)) = ([], ?b)" using True by (simp add: MAX_ARGS_def nth_append numeral_eq_Suc)
    then show thesis using that True by simp
  next
    case False
    obtain r where r: "join (CHR '' '') ws = hd ws @ r" "word_text (hd ws)" using join_head [OF False w(2)] by blast
    have b: "?b = (cmd @ '' '') @ join (CHR '' '') ws @ NUL # rest" using join_Cons [OF False] by simp
    have "skip_spaces ?b (length cmd) = length (cmd @ '' '')"
      using scan_word(2) [OF r(2), of NUL cmd "r @ NUL # rest"] r(1) b by simp
    then obtain ps where "parse_args (MAX_ARGS - 1) ?b (skip_spaces ?b (length cmd)) = (ps, (cmd @ '' '') @ join NUL ws @ NUL # rest)"
      "map (str_at ((cmd @ '' '') @ join NUL ws @ NUL # rest)) ps = ws"
      "\<forall>p\<in>set ps. ((cmd @ '' '') @ join NUL ws @ NUL # rest) ! p \<noteq> CHR ''$''"
      using parse_words [OF False w(2), of "MAX_ARGS - 1" "cmd @ '' ''" rest] l(2) b by (auto simp: MAX_ARGS_def)
    then show thesis using that b length_join [of NUL ws "CHR '' ''"] by simp
  qed
  let ?nb = "cmd @ replicate (64 - length cmd) NUL"
  have nb: "?nb = cmd @ NUL # replicate (63 - length cmd) NUL" using l(1) by (simp add: Suc_diff_le flip: replicate_Suc)
  have "str_at ?nb 0 = cmd" "?nb ! 0 \<noteq> CHR ''$''" unfolding nb using scan_word(4,5) [OF w(1), of NUL "[]"] by simp_all
  moreover from this have "expand_env_var (env_map s) 0 ?nb = Some ?nb" by (simp add: expand_env_var_def)
  moreover have "expand_all (env_map s) ps b = Some b" using p(3) by (intro expand_all_plain) blast
  ultimately have "my_os_command_search depth ?b s = Some (r, b, s')" using f r p(1,2)
    by (simp only: my_os_command_search_def my_os_command_run_def we m Let_def) simp
  then show ?thesis using p(4) by blast
qed

text \<open>A line of words, typed at the prompt.\<close>

lemma word_plain: "word_text w \<Longrightarrow> list_all (\<lambda>c. printable c \<and> c \<noteq> CHR ''$'') w"
  unfolding word_text_def by (blast intro: list.pred_mono_strong)

lemma join_plain: "list_all word_text ws \<Longrightarrow> list_all (\<lambda>c. printable c \<and> c \<noteq> CHR ''$'') (join (CHR '' '') ws)"
proof -
  have "printable (CHR '' '')" by (simp add: printable_def)
  then show "list_all word_text ws \<Longrightarrow> ?thesis" by (induction ws rule: induct_list012) (simp_all add: word_plain)
qed

lemma join_line:
  assumes "list_all word_text ws" "length (join (CHR '' '') ws) < 512"
  shows "plain_line (join (CHR '' '') ws)"
proof -
  have "\<forall>c\<in>set (join (CHR '' '') ws). printable c \<and> c \<noteq> CHR ''$''" using join_plain [OF assms(1)] by (simp only: list_all_iff)
  then show ?thesis using assms(2) unfolding plain_line_def list_all_iff by blast
qed

lemma typed_words:
  assumes P: "at_prompt e sh" and w: "word_text cmd" "list_all word_text ws"
    and l: "length cmd \<le> 63" "length ws \<le> 63" "length (join (CHR '' '') (cmd # ws)) < 512"
    and f: "find_command (command_map (sh_fs sh)) cmd = Some ce"
    and r: "\<And>x. \<exists>r s'. run_api depth (ce_func ce) (cmd # ws) ((sh_fs sh)\<lparr>out := x\<rparr>) = Some (r, s') \<and> ready e s' \<and> Q s'"
  shows "\<exists>sh' s' z. shell_run depth (join (CHR '' '') (cmd # ws) @ [CHR 0x0A]) sh = Some sh' \<and> at_prompt e sh' \<and> Q s' \<and> sh_fs sh' = s'\<lparr>out := z\<rparr>"
proof -
  let ?l = "join (CHR '' '') (cmd # ws)"
  have pl: "plain_line ?l" using join_line [of "cmd # ws"] w l(3) by simp
  obtain x b where t: "shell_run depth ?l sh = Some (sh\<lparr>sh_fs := (sh_fs sh)\<lparr>out := x\<rparr>, sh_buffer := b, buf_len := length ?l\<rparr>)"
    "take (length ?l) b = ?l" "length b = 512"
    using typed_line [OF P pl] by blast
  let ?sh = "sh\<lparr>sh_fs := (sh_fs sh)\<lparr>out := x\<rparr>, sh_buffer := b, buf_len := length ?l\<rparr>"
  have n: "length ?l < length b" using t(3) l(3) by simp
  have b: "b[length ?l := NUL] = ?l @ NUL # drop (Suc (length ?l)) b" using n t(2) by (simp only: upd_conv_take_nth_drop)
  obtain y where y: "say ''\<newline>running command\<newline>'' [] (sh_fs ?sh) = Some ((sh_fs ?sh)\<lparr>out := y\<rparr>)" using running_said by blast
  obtain r s2 where s2: "run_api depth (ce_func ce) (cmd # ws) ((sh_fs sh)\<lparr>out := y\<rparr>) = Some (r, s2)" "ready e s2" "Q s2" using r by blast
  have "find_command (command_map ((sh_fs sh)\<lparr>out := y\<rparr>)) cmd = Some ce" using f by simp
  from search_words [OF w l(1,2) this s2(1), of "drop (Suc (length ?l)) b"] obtain b2 where
    se: "my_os_command_search depth (b[length ?l := NUL]) ((sh_fs sh)\<lparr>out := y\<rparr>) = Some (r, b2, s2)" "length b2 = 512"
    using t(3) n unfolding b by (auto simp: Suc_diff_Suc)
  obtain z where z: "shell_prompt s2 = Some (s2\<lparr>out := z\<rparr>)" using prompt_returns [OF s2(2)] by blast
  have "shell_input depth (CHR 0x0A) ?sh = Some \<lparr>sh_fs = s2\<lparr>out := z\<rparr>, sh_buffer = b2[0 := NUL], buf_len = 0\<rparr>"
    using enter_runs [OF _ y, of depth r b2 s2] se z n by simp
  then show ?thesis using t(1) s2(2,3) se(2) shell_run_append [of depth ?l "[CHR 0x0A]" sh] by (auto simp: at_prompt_def)
qed

section \<open>The first prompt\<close>

lemma hm_ok_mono: "hm_ok K m \<Longrightarrow> hm_ok UNIV m"
  by (auto simp: hm_ok_def)

lemma fs_ok_UNIV: "fs_ok e K s \<Longrightarrow> fs_ok e UNIV s"
proof -
  assume ok: "fs_ok e K s"
  have "folder_ok K d \<Longrightarrow> folder_ok UNIV d" for d using hm_ok_mono by (auto simp: folder_ok_def)
  then have "tree_ok K ds \<Longrightarrow> tree_ok UNIV ds" for ds unfolding tree_ok_def by blast
  then show "fs_ok e UNIV s" using ok by (auto simp: fs_ok_def core_ok_def)
qed

text \<open>The commands that start-up registers.\<close>

definition all_commands :: "(string \<times> string \<times> api) list" where
  "all_commands = (''help'', ''Show commands'', Os_help) # fs_commands @ dfs_commands"

definition registered :: "fs \<Rightarrow> bool" where
  "registered s \<longleftrightarrow> (\<forall>(k, d, f)\<in>set all_commands. find_command (command_map s) k = Some \<lparr>ce_desc = d, ce_func = f\<rparr>)"

lemma registered_out [simp]: "registered (s\<lparr>out := x\<rparr>) = registered s"
  by (simp add: registered_def)

lemma booted_short:
  assumes "booting e K n m s" "\<forall>k\<in>set command_names. \<forall>x. find_command (command_map s) k = Some x \<longrightarrow> length (ce_desc x) < 2048"
  shows "short_commands s"
proof -
  have d: "ut_dict (set command_names) (command_map s)" using assms(1) by (simp add: booting_def)
  have "length k < 2048 \<and> length (ce_desc x) < 2048" if "(k, x) \<in> set (HASH_ITER (command_map s))" for k x
  proof -
    have k: "k \<in> set command_names" using d that by (force simp: ut_dict_def)
    then have "find_command (command_map s) k = Some x"
      using find_command_map [OF d k] d that by (simp add: ut_dict_def)
    moreover have "length k < 2048" using k by (auto simp: command_names_def fs_commands_def dfs_commands_def)
    ultimately show ?thesis using assms(2) k by blast
  qed
  then show ?thesis by (auto simp: short_commands_def)
qed

lemma command_descs: "map_of fs_commands k = Some (d, f) \<Longrightarrow> length d < 2048" "map_of dfs_commands k = Some (d, f) \<Longrightarrow> length d < 2048"
  by (auto simp: fs_commands_def dfs_commands_def split: if_splits)

lemma booted_with:
  assumes "ROOT < e" "16 \<le> mb" "unat e + mb * 2 ^ 20 + 2 ^ 24 < 2 ^ 32" "partition_lock ds' = 0"
  shows "\<exists>s s'. boot_fs e (of_nat mb) (fs0 (heap0 e) ds) = Some s \<and> dfs_init (s\<lparr>disk := ds'\<rparr>) = Some s' \<and>
    ready e s' \<and> fs_ok e K s' \<and> cwd_at s' [] \<and> view s' = [[] \<mapsto> Map.empty] \<and> avail 15000000 (hp s') \<and> registered s'"
proof -
  obtain s where s: "boot_fs e (of_nat mb) (fs0 (heap0 e) ds) = Some s" "booting e K 16000000 11 s" "fs_ok e K s" "cwd_at s []"
    "view s = [[] \<mapsto> Map.empty]"
    "\<forall>k\<in>set command_names. find_command (command_map s) k =
      (case map_of ((''help'', ''Show commands'', Os_help) # fs_commands) k of
        Some (desc, func) \<Rightarrow> Some \<lparr>ce_desc = desc, ce_func = func\<rparr> | None \<Rightarrow> None)"
    using boot_fs_returns [OF assms(1-3), of ds K] by blast
  let ?s = "s\<lparr>disk := ds'\<rparr>"
  have d: "booting e K 16000000 11 ?s" "fs_ok e K ?s" "cwd_at ?s []" "view ?s = [[] \<mapsto> Map.empty]"
    using s fs_ok_cong(1) [of ?s s e K] by (simp_all add: booting_def)
  obtain s' where s': "dfs_init ?s = Some s'" "fs_ok e K s'" "cwd_at s' []" "view s' = [[] \<mapsto> Map.empty]" "disk s' = ds'"
    "booting e K (16000000 - 102400) 15 s'"
    "\<forall>k\<in>set command_names. find_command (command_map s') k = (case map_of dfs_commands k of
        Some (desc, func) \<Rightarrow> Some \<lparr>ce_desc = desc, ce_func = func\<rparr> | None \<Rightarrow> find_command (command_map s) k)"
    using dfs_init_returns [OF d(1-3)] d(4) by (auto cong: option.case_cong)
  have "short_commands s'"
  proof (rule booted_short [OF s'(6)], intro ballI allI impI)
    fix k x assume "k \<in> set command_names" "find_command (command_map s') k = Some x"
    then show "length (ce_desc x) < 2048"
      using s'(7) s(6) command_descs [of k] by (auto split: option.splits if_splits)
  qed
  then have "ready e s'" using fs_ok_UNIV [OF s'(2)] s'(5) assms(4) by (simp add: ready_def)
  moreover have "avail 15000000 (hp s')" using s'(6) avail_mono [of _ "hp s'" 15000000] by (auto simp: booting_def)
  moreover have "registered s'"
    using s'(7) s(6) by (simp add: registered_def all_commands_def command_names_def fs_commands_def dfs_commands_def)
  ultimately show ?thesis using s(1) s' by blast
qed

lemma booted_ready:
  assumes "ROOT < e" "16 \<le> mb" "unat e + mb * 2 ^ 20 + 2 ^ 24 < 2 ^ 32" "partition_lock ds' = 0"
  shows "\<exists>s s'. boot_fs e (of_nat mb) (fs0 (heap0 e) ds) = Some s \<and> dfs_init (s\<lparr>disk := ds'\<rparr>) = Some s' \<and>
    ready e s' \<and> (\<forall>K. fs_ok e K s') \<and> cwd_at s' [] \<and> view s' = [[] \<mapsto> Map.empty] \<and> avail 15000000 (hp s') \<and> registered s'"
proof -
  note B = booted_with [OF assms, of ds]
  obtain s s' where s: "boot_fs e (of_nat mb) (fs0 (heap0 e) ds) = Some s" "dfs_init (s\<lparr>disk := ds'\<rparr>) = Some s'"
    "ready e s'" "cwd_at s' []" "view s' = [[] \<mapsto> Map.empty]" "avail 15000000 (hp s')" "registered s'" using B [of UNIV] by blast
  moreover have "fs_ok e K s'" for K using B [of K] s(1,2) by auto
  ultimately show ?thesis by blast
qed

text \<open>A machine with 32 MB, a kernel that ends at 2 MB and one drive.\<close>

lemma demo_prompt:
  "\<exists>sh. at_prompt 0x200000 sh \<and> (\<forall>K. fs_ok 0x200000 K (sh_fs sh)) \<and> cwd_at (sh_fs sh) [] \<and> view (sh_fs sh) = [[] \<mapsto> Map.empty] \<and>
    avail 15000000 (hp (sh_fs sh)) \<and> registered (sh_fs sh)"
proof -
  obtain s where s: "ready 0x200000 s" "\<forall>K. fs_ok 0x200000 K s" "cwd_at s []" "view s = [[] \<mapsto> Map.empty]" "avail 15000000 (hp s)" "registered s"
    using booted_ready [of "0x200000" 32 demo_disk] by (auto simp: ROOT_def demo_disk_def)
  then show ?thesis
    by (intro exI [of _ "\<lparr>sh_fs = s, sh_buffer = replicate 512 NUL, buf_len = 0\<rparr>"]) (simp add: at_prompt_def)
qed


end
