(* ===== verification/Ahci_Init.thy ===== *)
theory Ahci_Init
  imports Partition
begin

text \<open>
  Bringing up the disk controller, \<^verbatim>\<open>drivers/src/drive.c\<close>: the search of the PCI bus, the reset of the controller, starting
  and stopping its ports, and the first scan for drives. The machine is a \<open>bus\<close>: port and memory access and the passing
  of time, on a state of its own. A loop that waits for a register is a partial function: None is waiting forever. The commands
  to the drives go through the \<open>device\<close> of theory \<open>Ahci\<close>.
\<close>

section \<open>The machine\<close>

record 'w bus =
  outl :: "u16 \<Rightarrow> u32 \<Rightarrow> 'w \<Rightarrow> 'w"
  inl :: "u16 \<Rightarrow> 'w \<Rightarrow> u32 \<times> 'w"
  mmio_read32 :: "u32 \<Rightarrow> 'w \<Rightarrow> u32 \<times> 'w"
  mmio_write32 :: "u32 \<Rightarrow> u32 \<Rightarrow> 'w \<Rightarrow> 'w"
  pause :: "'w \<Rightarrow> 'w"

abbreviation (input) PCI_CONFIG_ADDRESS :: u16 where "PCI_CONFIG_ADDRESS \<equiv> 0xCF8"
abbreviation (input) PCI_CONFIG_DATA :: u16 where "PCI_CONFIG_DATA \<equiv> 0xCFC"

definition pci_addr :: "u8 \<Rightarrow> u8 \<Rightarrow> u8 \<Rightarrow> u8 \<Rightarrow> u32" where
  "pci_addr bus slot func offset =
     0x80000000 OR push_bit 16 (ucast bus) OR push_bit 11 (ucast slot) OR push_bit 8 (ucast func) OR ucast (offset AND 0xFC)"

definition pci_read_config_dword :: "'w bus \<Rightarrow> u8 \<Rightarrow> u8 \<Rightarrow> u8 \<Rightarrow> u8 \<Rightarrow> 'w \<Rightarrow> u32 \<times> 'w" where
  "pci_read_config_dword io bus slot func offset w =
     inl io PCI_CONFIG_DATA (outl io PCI_CONFIG_ADDRESS (pci_addr bus slot func offset) w)"

definition pci_write_config_dword :: "'w bus \<Rightarrow> u8 \<Rightarrow> u8 \<Rightarrow> u8 \<Rightarrow> u8 \<Rightarrow> u32 \<Rightarrow> 'w \<Rightarrow> 'w" where
  "pci_write_config_dword io bus slot func offset val w =
     outl io PCI_CONFIG_DATA val (outl io PCI_CONFIG_ADDRESS (pci_addr bus slot func offset) w)"

definition wait_cycles :: "'w bus \<Rightarrow> u32 \<Rightarrow> 'w \<Rightarrow> 'w" where
  "wait_cycles io count w = (pause io ^^ unat count) w"

text \<open>\<^verbatim>\<open>while (!done) wait_cycles(n)\<close> on a register.\<close>

partial_function (option) poll :: "'w bus \<Rightarrow> u32 \<Rightarrow> u32 \<Rightarrow> (u32 \<Rightarrow> bool) \<Rightarrow> 'w \<Rightarrow> 'w option" where
  "poll io addr cycles fin w =
     (let (v, w1) = mmio_read32 io addr w
      in if fin v then Some w1 else poll io addr cycles fin (wait_cycles io cycles w1))"

section \<open>Ports\<close>

text \<open>The driver with the memory it shares with the controller: the command list and the command table of each port as
  words, and the addresses of the arrays.\<close>

record 'w ctl =
  world :: 'w
  driver :: ahci
  cmd_list_area :: "int \<Rightarrow> u32 list"
  cmd_table_area :: "int \<Rightarrow> u32 list"
  cmd_list_addr :: u32
  fis_addr :: u32

definition port_base :: "u64 \<Rightarrow> int \<Rightarrow> u32" where
  "port_base base port = ucast (base + 0x100 + of_int (port * 0x80))"

abbreviation (input) PxCLB :: u32 where "PxCLB \<equiv> 0x00"
abbreviation (input) PxCLBU :: u32 where "PxCLBU \<equiv> 0x04"
abbreviation (input) PxFB :: u32 where "PxFB \<equiv> 0x08"
abbreviation (input) PxFBU :: u32 where "PxFBU \<equiv> 0x0C"
abbreviation (input) PxIS :: u32 where "PxIS \<equiv> 0x10"
abbreviation (input) PxIE :: u32 where "PxIE \<equiv> 0x14"
abbreviation (input) PxCMD :: u32 where "PxCMD \<equiv> 0x18"
abbreviation (input) PxSSTS :: u32 where "PxSSTS \<equiv> 0x28"
abbreviation (input) PxCMD_ST :: u32 where "PxCMD_ST \<equiv> 0x1"
abbreviation (input) PxCMD_FRE :: u32 where "PxCMD_FRE \<equiv> 0x10"
abbreviation (input) PxCMD_FR :: u32 where "PxCMD_FR \<equiv> 0x4000"
abbreviation (input) PxCMD_CR :: u32 where "PxCMD_CR \<equiv> 0x8000"

definition port_stop :: "'w bus \<Rightarrow> u64 \<Rightarrow> int \<Rightarrow> 'w \<Rightarrow> 'w option" where
  "port_stop io hba_base port w =
     (let base = port_base hba_base port;
          (cmd, w1) = mmio_read32 io (base + PxCMD) w;
          w2 = mmio_write32 io (base + PxCMD) (cmd AND NOT (PxCMD_ST OR PxCMD_FRE)) w1
      in poll io (base + PxCMD) 100 (\<lambda>v. v AND (PxCMD_FR OR PxCMD_CR) = 0) w2)"

definition port_start :: "'w bus \<Rightarrow> u64 \<Rightarrow> int \<Rightarrow> 'w \<Rightarrow> 'w option" where
  "port_start io hba_base port w =
     (let base = port_base hba_base port;
          (cmd, w1) = mmio_read32 io (base + PxCMD) w;
          w2 = mmio_write32 io (base + PxCMD) (cmd OR PxCMD_FRE) w1
      in case poll io (base + PxCMD) 10 (\<lambda>v. v AND PxCMD_FR \<noteq> 0) w2 of
           None \<Rightarrow> None
         | Some w3 \<Rightarrow>
             poll io (base + PxCMD) 10 (\<lambda>v. v AND PxCMD_ST \<noteq> 0)
               (mmio_write32 io (base + PxCMD) (cmd OR PxCMD_FRE OR PxCMD_ST) w3))"

text \<open>A command table is padded to its alignment, 256 bytes.\<close>

definition port_init :: "'w bus \<Rightarrow> int \<Rightarrow> 'w ctl \<Rightarrow> 'w ctl option" where
  "port_init io port c =
     (let hba_base = ahci_hba_base (driver c);
          base = port_base hba_base port
      in case port_stop io hba_base port (world c) of
           None \<Rightarrow> None
         | Some w1 \<Rightarrow>
             (let c1 = c\<lparr>cmd_list_area := (cmd_list_area c)(port := replicate 1024 0),
                         cmd_table_area := (cmd_table_area c)(port := replicate 64 0)\<rparr>;
                  w2 = mmio_write32 io (base + PxCLB) (cmd_list_addr c + of_int (port * 4096)) w1;
                  w3 = mmio_write32 io (base + PxCLBU) 0 w2;
                  w4 = mmio_write32 io (base + PxFB) (fis_addr c + of_int (port * 4096)) w3;
                  w5 = mmio_write32 io (base + PxFBU) 0 w4;
                  w6 = mmio_write32 io (base + PxIS) 0xFFFFFFFF w5;
                  w7 = mmio_write32 io (base + PxIE) 0 w6
              in map_option (\<lambda>w. c1\<lparr>world := w\<rparr>) (port_start io hba_base port w7)))"

definition port_device_present :: "'w bus \<Rightarrow> u64 \<Rightarrow> int \<Rightarrow> 'w \<Rightarrow> bool \<times> 'w" where
  "port_device_present io hba_base port w =
     (let (ssts, w1) = mmio_read32 io (port_base hba_base port + PxSSTS) w in (ssts AND 0x0F = 0x03, w1))"

text \<open>\<^verbatim>\<open>port_scan_update\<close> with its accesses to the controller; theory \<open>Ahci\<close> has its effect on the drive table.\<close>

definition scan_port :: "'w bus \<Rightarrow> int \<Rightarrow> 'w ctl \<Rightarrow> 'w ctl option" where
  "scan_port io port c =
     (let d = driver c;
          already = (port \<in> set (take (nat (drive_count d)) (drive_port d)));
          (present, w1) = port_device_present io (ahci_hba_base d) port (world c);
          c1 = c\<lparr>world := w1\<rparr>
      in if present \<and> \<not> already then
           (case port_init io port c1 of
              None \<Rightarrow> None
            | Some c2 \<Rightarrow>
                (case identify_device port (driver c2) of
                   (None, d') \<Rightarrow> Some (c2\<lparr>driver := d'\<rparr>)
                 | (Some sz, d') \<Rightarrow> Some (c2\<lparr>driver := snd (add_drive_to_table port sz d')\<rparr>)))
         else if \<not> present \<and> already then
           map_option (\<lambda>w. c1\<lparr>world := w, driver := remove_drive_from_table port d\<rparr>) (port_stop io (ahci_hba_base d) port w1)
         else Some c1)"

fun scan_ports :: "'w bus \<Rightarrow> u32 \<Rightarrow> nat list \<Rightarrow> 'w ctl \<Rightarrow> 'w ctl option" where
  "scan_ports io ports_impl [] c = Some c"
| "scan_ports io ports_impl (p # ps) c =
     (if bit ports_impl p
      then (case scan_port io (int p) c of None \<Rightarrow> None | Some c' \<Rightarrow> scan_ports io ports_impl ps c')
      else scan_ports io ports_impl ps c)"

section \<open>Finding the controller\<close>

definition ahci_class :: "u32 \<Rightarrow> bool" where
  "ahci_class class_rev \<longleftrightarrow>
     (ucast (drop_bit 24 class_rev AND 0xFF) :: u8) = 0x01 \<and> (ucast (drop_bit 16 class_rev AND 0xFF) :: u8) = 0x06 \<and>
     (ucast (drop_bit 8 class_rev AND 0xFF) :: u8) = 0x01"

fun dev_scan :: "'w bus \<Rightarrow> u8 \<Rightarrow> u8 list \<Rightarrow> 'w \<Rightarrow> u8 option \<times> 'w" where
  "dev_scan io bus [] w = (None, w)"
| "dev_scan io bus (dev # devs) w =
     (let (class_rev, w1) = pci_read_config_dword io bus dev 0 0x08 w
      in if ahci_class class_rev then (Some dev, w1) else dev_scan io bus devs w1)"

text \<open>\<^verbatim>\<open>for (u8 bus = 0; bus < 256; ++bus)\<close>: the counter wraps, and the condition never fails.\<close>

partial_function (option) bus_scan :: "'w bus \<Rightarrow> u8 \<Rightarrow> 'w \<Rightarrow> ((u8 \<times> u8) \<times> 'w) option" where
  "bus_scan io bus w =
     (case dev_scan io bus (map of_nat [0..<32]) w of
        (Some dev, w1) \<Rightarrow> Some ((bus, dev), w1)
      | (None, w1) \<Rightarrow> bus_scan io (bus + 1) w1)"

definition bar_base :: "'w bus \<Rightarrow> u8 \<Rightarrow> u8 \<Rightarrow> 'w \<Rightarrow> u64 \<times> 'w" where
  "bar_base io bus dev w =
     (let (low, w1) = pci_read_config_dword io bus dev 0 0x24 w;
          bar = ucast low AND NOT 0xF :: u64
      in if bar AND 0x4 \<noteq> 0
         then let (high, w2) = pci_read_config_dword io bus dev 0 0x28 w1 in (bar OR push_bit 32 (ucast high), w2)
         else (bar, w1))"

abbreviation (input) HBA_GHC :: u32 where "HBA_GHC \<equiv> 0x04"
abbreviation (input) HBA_PI :: u32 where "HBA_PI \<equiv> 0x0C"
abbreviation (input) HBA_RESET :: u32 where "HBA_RESET \<equiv> 1"
abbreviation (input) AHCI_ENABLE :: u32 where "AHCI_ENABLE \<equiv> 0x80000000"

definition hba_reset :: "'w bus \<Rightarrow> u64 \<Rightarrow> 'w \<Rightarrow> 'w option" where
  "hba_reset io hba_base w =
     (let ghc_addr = ucast hba_base + HBA_GHC;
          (ghc, w1) = mmio_read32 io ghc_addr w;
          w2 = mmio_write32 io ghc_addr (ghc OR HBA_RESET) w1;
          w3 = wait_cycles io 10000 w2
      in map_option (mmio_write32 io ghc_addr AHCI_ENABLE)
           (poll io ghc_addr 100 (\<lambda>v. v AND HBA_RESET = 0) w3))"

text \<open>\<^verbatim>\<open>ahci_init\<close>; the return for the case that no controller was found cannot be reached.\<close>

definition ahci_init :: "'w bus \<Rightarrow> 'w ctl \<Rightarrow> 'w ctl option" where
  "ahci_init io c =
     (case bus_scan io 0 (world c) of
        None \<Rightarrow> None
      | Some ((bus, dev), w1) \<Rightarrow>
          (let (bar, w2) = bar_base io bus dev w1;
               d1 = (driver c)\<lparr>ahci_hba_base := bar\<rparr>;
               (cmd, w3) = pci_read_config_dword io bus dev 0 0x04 w2;
               w4 = pci_write_config_dword io bus dev 0 0x04 (cmd OR 0x6) w3
           in case hba_reset io bar w4 of
                None \<Rightarrow> None
              | Some w5 \<Rightarrow>
                  (let (ports_impl, w6) = mmio_read32 io (ucast bar + HBA_PI) w5
                   in map_option (\<lambda>c'. c'\<lparr>driver := (driver c')\<lparr>ahci_initialized := True\<rparr>\<rparr>)
                        (scan_ports io ports_impl [0..<32] (c\<lparr>world := w6, driver := d1\<rparr>)))))"

section \<open>The search\<close>

text \<open>What a configuration space \<open>cfg\<close> promises on the states \<open>ok\<close>: a read yields the word selected by the address.\<close>

definition pci_space :: "'w bus \<Rightarrow> (u32 \<Rightarrow> u32) \<Rightarrow> ('w \<Rightarrow> bool) \<Rightarrow> bool" where
  "pci_space io cfg ok \<longleftrightarrow> (\<forall>w a. ok w \<longrightarrow>
     fst (inl io PCI_CONFIG_DATA (outl io PCI_CONFIG_ADDRESS a w)) = cfg a \<and>
     ok (snd (inl io PCI_CONFIG_DATA (outl io PCI_CONFIG_ADDRESS a w))))"

definition ahci_at :: "(u32 \<Rightarrow> u32) \<Rightarrow> u8 \<Rightarrow> u8 \<Rightarrow> bool" where
  "ahci_at cfg bus dev \<longleftrightarrow> ahci_class (cfg (pci_addr bus dev 0 0x08))"

abbreviation (input) all_devs :: "u8 list" where "all_devs \<equiv> map of_nat [0..<32]"

lemma pci_read:
  assumes "pci_space io cfg ok" "ok w"
  shows "\<exists>w'. pci_read_config_dword io b d f off w = (cfg (pci_addr b d f off), w') \<and> ok w'"
  using assms unfolding pci_space_def pci_read_config_dword_def by (metis prod.collapse)

lemma dev_scan_spec:
  assumes "pci_space io cfg ok" "ok w"
  shows "\<exists>w'. dev_scan io b ds w = (find (ahci_at cfg b) ds, w') \<and> ok w'"
  using assms(2)
proof (induction ds arbitrary: w)
  case (Cons d ds)
  obtain w1 where "pci_read_config_dword io b d 0 8 w = (cfg (pci_addr b d 0 8), w1)" "ok w1"
    using pci_read [OF assms(1) Cons.prems] by blast
  then show ?case using Cons.IH [of w1] by (auto simp: ahci_at_def)
qed simp

lemma all_devs_set: "set all_devs = {d. d < (32 :: u8)}"
proof -
  have "d \<in> of_nat ` {0..<32}" if "d < 32" for d :: u8
    using that by (intro image_eqI [of _ _ "unat d"]) (simp_all add: word_less_nat_alt)
  moreover have "of_nat n < (32 :: u8)" if "n < 32" for n
    using that by (simp add: word_less_nat_alt unat_of_nat)
  ultimately show ?thesis by auto
qed

lemma bus_scan_none:
  assumes "pci_space io cfg ok" "ok w" "\<forall>b d. d < 32 \<longrightarrow> \<not> ahci_at cfg b d"
  shows "bus_scan io b w = None"
proof (rule ccontr)
  assume "bus_scan io b w \<noteq> None"
  then obtain r where "bus_scan io b w = Some r" by auto
  then have "io = io \<longrightarrow> \<not> ok w"
  proof (rule bus_scan.raw_induct [where P = "\<lambda>i b w y. i = io \<longrightarrow> \<not> ok w", rotated])
    fix rec i b w y
    assume IH: "\<And>i b w y. rec i b w = Some y \<Longrightarrow> i = io \<longrightarrow> \<not> ok w"
      and eq: "(case dev_scan i b all_devs w of (None, w1) \<Rightarrow> rec i (b + 1) w1 | (Some dev, w1) \<Rightarrow> Some ((b, dev), w1)) = Some y"
    show "i = io \<longrightarrow> \<not> ok w"
    proof (intro impI notI)
      assume i: "i = io" and "ok w"
      have "find (ahci_at cfg b) all_devs = None" using assms(3) all_devs_set by (auto simp: find_None_iff)
      then obtain w1 where "dev_scan io b all_devs w = (None, w1)" "ok w1" using dev_scan_spec [OF assms(1) \<open>ok w\<close>] by metis
      then have "rec io (b + 1) w1 = Some y" using eq i by simp
      then show False using IH \<open>ok w1\<close> by blast
    qed
  qed
  then show False using assms(2) by simp
qed

text \<open>The first device, in the order of the search, from bus \<open>b\<close> on.\<close>

lemma bus_scan_first:
  assumes "pci_space io cfg ok" "ok w" "find (ahci_at cfg (b + of_nat n)) all_devs = Some d"
    and "\<forall>i<n. find (ahci_at cfg (b + of_nat i)) all_devs = None"
  shows "\<exists>w'. bus_scan io b w = Some ((b + of_nat n, d), w') \<and> ok w'"
  using assms(2-4)
proof (induction n arbitrary: b w)
  case 0
  then show ?case using dev_scan_spec [OF assms(1) 0(1), of b all_devs] by (subst bus_scan.simps) auto
next
  case (Suc n)
  then have "find (ahci_at cfg b) all_devs = None" by auto
  then obtain w1 where w1: "dev_scan io b all_devs w = (None, w1)" "ok w1" using dev_scan_spec [OF assms(1) Suc(2)] by metis
  have "\<forall>i<n. find (ahci_at cfg (b + 1 + of_nat i)) all_devs = None"
  proof (intro allI impI)
    fix i assume "i < n"
    then have "find (ahci_at cfg (b + of_nat (Suc i))) all_devs = None" using Suc(4) by blast
    then show "find (ahci_at cfg (b + 1 + of_nat i)) all_devs = None" by (simp add: add.assoc)
  qed
  moreover have "find (ahci_at cfg (b + 1 + of_nat n)) all_devs = Some d" using Suc(3) by (simp add: add.assoc)
  ultimately obtain w2 where "bus_scan io (b + 1) w1 = Some ((b + 1 + of_nat n, d), w2)" "ok w2"
    using Suc.IH [OF w1(2), of "b + 1"] by blast
  then show ?case using w1(1) by (subst bus_scan.simps) (simp add: add.assoc)
qed

lemma bus_scan_spec:
  assumes "pci_space io cfg ok" "ok w"
  shows "case bus_scan io 0 w of
      None \<Rightarrow> \<forall>b d. d < 32 \<longrightarrow> \<not> ahci_at cfg b d
    | Some ((b, d), w') \<Rightarrow> ok w' \<and> d < 32 \<and> ahci_at cfg b d \<and> (\<forall>b' d'. d' < 32 \<longrightarrow> b' < b \<or> b' = b \<and> d' < d \<longrightarrow> \<not> ahci_at cfg b' d')"
proof (cases "\<forall>b d. d < 32 \<longrightarrow> \<not> ahci_at cfg b d")
  case True
  then show ?thesis using bus_scan_none [OF assms True] by auto
next
  case False
  let ?P = "\<lambda>n. find (ahci_at cfg (of_nat n)) all_devs \<noteq> None"
  obtain b0 d0 where "d0 < 32" "ahci_at cfg b0 d0" using False by blast
  then have "?P (unat b0)" using all_devs_set by (auto simp: find_None_iff)
  then have ex: "\<exists>n. ?P n \<and> n < 256" using unsigned_less [of b0] by (intro exI [of _ "unat b0"]) simp
  define n where "n = (LEAST n. ?P n)"
  have n: "?P n" "n < 256" "\<forall>i<n. find (ahci_at cfg (of_nat i)) all_devs = None"
    using ex LeastI_ex [of ?P] not_less_Least [of _ ?P] Least_le [of ?P] unfolding n_def by (blast, meson le_less_trans, blast)
  then obtain d where d: "find (ahci_at cfg (of_nat n)) all_devs = Some d" by auto
  obtain w' where w': "bus_scan io 0 w = Some ((of_nat n, d), w')" "ok w'"
    using bus_scan_first [OF assms, of 0 n d] d n(3) by auto
  obtain i where i: "i < 32" "d = of_nat i" "ahci_at cfg (of_nat n) (of_nat i)" "\<forall>j<i. \<not> ahci_at cfg (of_nat n) (of_nat j)"
    using d by (auto simp: find_Some_iff)
  have u: "unat (of_nat i :: u8) = i" "unat (of_nat n :: u8) = n" using i(1) n(2) by (simp_all add: unat_of_nat)
  have "\<not> ahci_at cfg b' d'" if "d' < 32" "b' < of_nat n \<or> b' = of_nat n \<and> d' < d" for b' d' :: u8
  proof (cases "b' < of_nat n")
    case True
    then have "find (ahci_at cfg b') all_devs = None" using n(3) [rule_format, of "unat b'"] u(2) by (simp add: word_less_nat_alt)
    then show ?thesis using that(1) unfolding find_None_iff all_devs_set by blast
  next
    case False
    then have "b' = of_nat n" "unat d' < i" using that(2) i(2) u(1) by (auto simp: word_less_nat_alt)
    then show ?thesis using i(4) [rule_format, of "unat d'"] by simp
  qed
  moreover have "d < 32" using i(1,2) u(1) by (simp add: word_less_nat_alt)
  ultimately show ?thesis using w' i by auto
qed

text \<open>C12. The search for a disk controller: on a configuration space that answers reads, the search finds the first AHCI
  controller in the order of buses and devices when there is one, and never ends when there is none, since the eight-bit bus
  counter is always below 256; so on a machine without such a controller \<open>ahci_init\<close> does not return and the prompt never comes.\<close>

theorem controller_search:
  assumes "pci_space io cfg ok" "ok w"
  shows "(case bus_scan io 0 w of
      None \<Rightarrow> \<forall>b d. d < 32 \<longrightarrow> \<not> ahci_at cfg b d
    | Some ((b, d), w') \<Rightarrow> ok w' \<and> d < 32 \<and> ahci_at cfg b d \<and>
        (\<forall>b' d'. d' < 32 \<longrightarrow> b' < b \<or> b' = b \<and> d' < d \<longrightarrow> \<not> ahci_at cfg b' d')) \<and>
    ((\<forall>b d. d < 32 \<longrightarrow> \<not> ahci_at cfg b d) \<longrightarrow> world c = w \<longrightarrow> ahci_init io c = None)"
proof -
  have "ahci_init io c = None" if "\<forall>b d. d < 32 \<longrightarrow> \<not> ahci_at cfg b d" "world c = w"
    using bus_scan_none [OF assms that(1), of 0] that(2) by (simp add: ahci_init_def)
  then show ?thesis using bus_scan_spec [OF assms] by blast
qed

section \<open>Waiting\<close>

definition polled :: "'w bus \<Rightarrow> u32 \<Rightarrow> u32 \<Rightarrow> nat \<Rightarrow> 'w \<Rightarrow> 'w" where
  "polled io a n k = ((\<lambda>w. wait_cycles io n (snd (mmio_read32 io a w))) ^^ k)"

text \<open>Some later read of the register satisfies the condition.\<close>

definition settles :: "'w bus \<Rightarrow> u32 \<Rightarrow> u32 \<Rightarrow> (u32 \<Rightarrow> bool) \<Rightarrow> 'w \<Rightarrow> bool" where
  "settles io a n fin w \<longleftrightarrow> (\<exists>k. fin (fst (mmio_read32 io a (polled io a n k w))))"

text \<open>What the driver relies on. In the states \<open>ok\<close>, which no access leaves, the registers of the implemented ports and of the
  device status have fixed values; the reset bit clears itself; the list-running and receive-running bits clear after
  the start and receive-enable bits were cleared; receive-running is set after receive-enable was set; and the start bit reads as set
  after it was set.\<close>

definition controller :: "'w bus \<Rightarrow> ('w \<Rightarrow> bool) \<Rightarrow> u64 \<Rightarrow> u32 \<Rightarrow> (int \<Rightarrow> u32) \<Rightarrow> bool" where
  "controller io ok base ports_impl ssts \<longleftrightarrow>
     (\<forall>w a v p. ok w \<longrightarrow> ok (mmio_write32 io a v w) \<and> ok (snd (mmio_read32 io a w)) \<and> ok (pause io w) \<and> ok (outl io p v w)) \<and>
     (\<forall>w. ok w \<longrightarrow> fst (mmio_read32 io (ucast base + HBA_PI) w) = ports_impl) \<and>
     (\<forall>w p. ok w \<longrightarrow> p < 32 \<longrightarrow> fst (mmio_read32 io (port_base base (int p) + PxSSTS) w) = ssts (int p)) \<and>
     (\<forall>w v. ok w \<longrightarrow> v AND HBA_RESET \<noteq> 0 \<longrightarrow>
        settles io (ucast base + HBA_GHC) 100 (\<lambda>x. x AND HBA_RESET = 0)
          (wait_cycles io 10000 (mmio_write32 io (ucast base + HBA_GHC) v w))) \<and>
     (\<forall>w v p. ok w \<longrightarrow> p < 32 \<longrightarrow> v AND (PxCMD_ST OR PxCMD_FRE) = 0 \<longrightarrow>
        settles io (port_base base (int p) + PxCMD) 100 (\<lambda>x. x AND (PxCMD_FR OR PxCMD_CR) = 0)
          (mmio_write32 io (port_base base (int p) + PxCMD) v w)) \<and>
     (\<forall>w v p. ok w \<longrightarrow> p < 32 \<longrightarrow> v AND PxCMD_FRE \<noteq> 0 \<longrightarrow>
        settles io (port_base base (int p) + PxCMD) 10 (\<lambda>x. x AND PxCMD_FR \<noteq> 0)
          (mmio_write32 io (port_base base (int p) + PxCMD) v w)) \<and>
     (\<forall>w v p. ok w \<longrightarrow> p < 32 \<longrightarrow> v AND PxCMD_ST \<noteq> 0 \<longrightarrow>
        settles io (port_base base (int p) + PxCMD) 10 (\<lambda>x. x AND PxCMD_ST \<noteq> 0)
          (mmio_write32 io (port_base base (int p) + PxCMD) v w))"

lemma controllerD:
  assumes "controller io ok base ports_impl ssts" "ok w"
  shows "ok (mmio_write32 io a v w)" "ok (snd (mmio_read32 io a w))" "ok (pause io w)" "ok (outl io q v w)"
    "fst (mmio_read32 io (ucast base + HBA_PI) w) = ports_impl"
    "p < 32 \<Longrightarrow> fst (mmio_read32 io (port_base base (int p) + PxSSTS) w) = ssts (int p)"
    "v AND HBA_RESET \<noteq> 0 \<Longrightarrow> settles io (ucast base + HBA_GHC) 100 (\<lambda>x. x AND HBA_RESET = 0)
          (wait_cycles io 10000 (mmio_write32 io (ucast base + HBA_GHC) v w))"
    "p < 32 \<Longrightarrow> v AND (PxCMD_ST OR PxCMD_FRE) = 0 \<Longrightarrow>
        settles io (port_base base (int p) + PxCMD) 100 (\<lambda>x. x AND (PxCMD_FR OR PxCMD_CR) = 0)
          (mmio_write32 io (port_base base (int p) + PxCMD) v w)"
    "p < 32 \<Longrightarrow> v AND PxCMD_FRE \<noteq> 0 \<Longrightarrow> settles io (port_base base (int p) + PxCMD) 10 (\<lambda>x. x AND PxCMD_FR \<noteq> 0)
          (mmio_write32 io (port_base base (int p) + PxCMD) v w)"
    "p < 32 \<Longrightarrow> v AND PxCMD_ST \<noteq> 0 \<Longrightarrow> settles io (port_base base (int p) + PxCMD) 10 (\<lambda>x. x AND PxCMD_ST \<noteq> 0)
          (mmio_write32 io (port_base base (int p) + PxCMD) v w)"
  using assms by (simp_all add: controller_def)

lemma wait_ok:
  assumes "controller io ok base ports_impl ssts" "ok w"
  shows "ok (wait_cycles io n w)"
proof -
  have "ok ((pause io ^^ k) w)" for k by (induction k) (use assms controllerD(3) in auto)
  then show ?thesis by (simp add: wait_cycles_def)
qed

lemma poll_returns:
  assumes C: "controller io ok base ports_impl ssts" and "ok w" "settles io a n fin w"
  shows "\<exists>w'. poll io a n fin w = Some w' \<and> ok w'"
proof -
  obtain k where "fin (fst (mmio_read32 io a (polled io a n k w)))" using assms(3) by (auto simp: settles_def)
  then show ?thesis using assms(2)
  proof (induction k arbitrary: w)
    case 0
    then show ?case using controllerD(2) [OF C 0(2), of a] by (subst poll.simps) (auto simp: polled_def split: prod.splits)
  next
    case (Suc k)
    let ?w = "wait_cycles io n (snd (mmio_read32 io a w))"
    have "polled io a n (Suc k) w = polled io a n k ?w" by (simp add: polled_def funpow_Suc_right del: funpow.simps)
    moreover have "ok ?w" using wait_ok [OF C controllerD(2) [OF C Suc(3)]] .
    ultimately obtain w' where "poll io a n fin ?w = Some w'" "ok w'" using Suc by metis
    then show ?case using controllerD(2) [OF C Suc(3), of a] by (subst poll.simps) (auto split: prod.splits)
  qed
qed

lemma bits_off: "(v AND NOT (PxCMD_ST OR PxCMD_FRE)) AND (PxCMD_ST OR PxCMD_FRE) = (0 :: u32)"
  by (rule bit_word_eqI) (auto simp: bit_simps)

lemma bits_on: "(v OR PxCMD_FRE) AND PxCMD_FRE \<noteq> (0 :: u32)" "(v OR PxCMD_FRE OR PxCMD_ST) AND PxCMD_ST \<noteq> (0 :: u32)" "(v OR 1) AND 1 \<noteq> (0 :: u32)"
proof -
  have "bit ((v OR PxCMD_FRE) AND PxCMD_FRE) 4" "bit ((v OR PxCMD_FRE OR PxCMD_ST) AND PxCMD_ST) 0" "bit ((v OR 1) AND (1 :: u32)) 0"
    by (simp_all add: bit_simps)
  then show "(v OR PxCMD_FRE) AND PxCMD_FRE \<noteq> (0 :: u32)" "(v OR PxCMD_FRE OR PxCMD_ST) AND PxCMD_ST \<noteq> (0 :: u32)" "(v OR 1) AND 1 \<noteq> (0 :: u32)"
    by (metis bit_0_eq bot_apply bot_bool_def)+
qed

lemma port_stop_returns:
  assumes C: "controller io ok base ports_impl ssts" and "ok w" "p < 32"
  shows "\<exists>w'. port_stop io base (int p) w = Some w' \<and> ok w'"
proof -
  let ?a = "port_base base (int p) + PxCMD"
  obtain cmd w1 where r: "mmio_read32 io ?a w = (cmd, w1)" "ok w1" using controllerD(2) [OF C assms(2), of ?a] by (metis prod.collapse)
  from poll_returns [OF C controllerD(1) [OF C r(2)] controllerD(8) [OF C r(2) assms(3) bits_off]] r(1)
  show ?thesis by (simp add: port_stop_def Let_def)
qed

lemma port_start_returns:
  assumes C: "controller io ok base ports_impl ssts" and "ok w" "p < 32"
  shows "\<exists>w'. port_start io base (int p) w = Some w' \<and> ok w'"
proof -
  let ?a = "port_base base (int p) + PxCMD"
  obtain cmd w1 where r: "mmio_read32 io ?a w = (cmd, w1)" "ok w1" using controllerD(2) [OF C assms(2), of ?a] by (metis prod.collapse)
  obtain w2 where w2: "poll io ?a 10 (\<lambda>x. x AND PxCMD_FR \<noteq> 0) (mmio_write32 io ?a (cmd OR PxCMD_FRE) w1) = Some w2" "ok w2"
    using poll_returns [OF C controllerD(1) [OF C r(2)] controllerD(9) [OF C r(2) assms(3) bits_on(1)]] by blast
  from poll_returns [OF C controllerD(1) [OF C w2(2)] controllerD(10) [OF C w2(2) assms(3) bits_on(2)]] r(1) w2(1)
  show ?thesis by (simp add: port_start_def Let_def)
qed

lemma port_init_returns:
  assumes C: "controller io ok (ahci_hba_base (driver c)) ports_impl ssts" and "ok (world c)" "p < 32"
  shows "\<exists>c'. port_init io (int p) c = Some c' \<and> ok (world c') \<and> driver c' = driver c"
proof -
  note W = controllerD(1) [OF C]
  obtain w1 where w1: "port_stop io (ahci_hba_base (driver c)) (int p) (world c) = Some w1" "ok w1"
    using port_stop_returns [OF C assms(2,3)] by blast
  have start: "\<exists>w'. port_start io (ahci_hba_base (driver c)) (int p) w = Some w' \<and> ok w'" if "ok w" for w
    using port_start_returns [OF C that assms(3)] .
  obtain w' where "port_start io (ahci_hba_base (driver c)) (int p)
      (mmio_write32 io (port_base (ahci_hba_base (driver c)) (int p) + PxIE) 0 (mmio_write32 io (port_base (ahci_hba_base (driver c)) (int p) + PxIS) 0xFFFFFFFF
        (mmio_write32 io (port_base (ahci_hba_base (driver c)) (int p) + PxFBU) 0 (mmio_write32 io (port_base (ahci_hba_base (driver c)) (int p) + PxFB)
          (fis_addr c + of_int (int p * 4096)) (mmio_write32 io (port_base (ahci_hba_base (driver c)) (int p) + PxCLBU) 0
            (mmio_write32 io (port_base (ahci_hba_base (driver c)) (int p) + PxCLB) (cmd_list_addr c + of_int (int p * 4096)) w1)))))) = Some w'" "ok w'"
    using start [OF W [OF W [OF W [OF W [OF W [OF W [OF w1(2)]]]]]]] by blast
  then show ?thesis using w1(1) by (simp add: port_init_def Let_def)
qed

section \<open>The scan\<close>

text \<open>With the controller's answers fixed, the scan has the effect on the drive table that theory \<open>Ahci\<close> describes.\<close>

lemma same_base: "ahci_hba_base (port_scan_update ssts p d) = ahci_hba_base d"
proof -
  have "ahci_hba_base (remove_loop is p d) = ahci_hba_base d" for "is" by (induction "is") (simp_all add: Let_def)
  then show ?thesis
    by (auto simp: port_scan_update_def identify_device_def add_drive_to_table_def remove_drive_from_table_def Let_def split: prod.splits option.splits)
qed

lemma scan_port_returns:
  assumes C: "controller io ok (ahci_hba_base (driver c)) ports_impl ssts" and "ok (world c)" "p < 32"
  shows "\<exists>c'. scan_port io (int p) c = Some c' \<and> ok (world c') \<and> driver c' = port_scan_update ssts (int p) (driver c)"
proof -
  let ?b = "ahci_hba_base (driver c)"
  obtain w1 where w1: "mmio_read32 io (port_base ?b (int p) + PxSSTS) (world c) = (ssts (int p), w1)" "ok w1"
    using controllerD(2) [OF C assms(2), of "port_base ?b (int p) + PxSSTS"] controllerD(6) [OF C assms(2,3)] by (metis prod.collapse)
  then have pr: "port_device_present io ?b (int p) (world c) = (ssts (int p) AND 0x0F = 0x03, w1)" by (simp add: port_device_present_def)
  obtain c2 where c2: "port_init io (int p) (c\<lparr>world := w1\<rparr>) = Some c2" "ok (world c2)" "driver c2 = driver c"
    using port_init_returns [of io ok "c\<lparr>world := w1\<rparr>" ports_impl ssts p] C w1(2) assms(3) by auto
  obtain w2 where w2: "port_stop io ?b (int p) w1 = Some w2" "ok w2" using port_stop_returns [OF C w1(2) assms(3)] by blast
  show ?thesis
    using pr c2 w2 w1(2) by (auto simp: scan_port_def port_scan_update_def Let_def split: prod.splits option.splits)
qed

lemma scan_ports_returns:
  assumes "controller io ok (ahci_hba_base (driver c)) ports_impl ssts" "ok (world c)" "\<forall>p\<in>set ps. p < 32"
  shows "\<exists>c'. scan_ports io pi ps c = Some c' \<and> ok (world c') \<and>
    driver c' = fold (\<lambda>port. if bit pi port then port_scan_update ssts (int port) else id) ps (driver c)"
  using assms
proof (induction ps arbitrary: c)
  case (Cons p ps)
  show ?case
  proof (cases "bit pi p")
    case True
    obtain c1 where c1: "scan_port io (int p) c = Some c1" "ok (world c1)" "driver c1 = port_scan_update ssts (int p) (driver c)"
      using scan_port_returns [OF Cons.prems(1,2)] Cons.prems(3) by auto
    then show ?thesis using Cons.IH [of c1] Cons.prems True by (auto simp: same_base)
  qed (use Cons in auto)
qed simp

lemma hba_reset_returns:
  assumes C: "controller io ok base ports_impl ssts" and "ok w"
  shows "\<exists>w'. hba_reset io base w = Some w' \<and> ok w'"
proof -
  let ?a = "ucast base + HBA_GHC"
  obtain ghc w1 where r: "mmio_read32 io ?a w = (ghc, w1)" "ok w1" using controllerD(2) [OF C assms(2), of ?a] by (metis prod.collapse)
  have "ok (wait_cycles io 10000 (mmio_write32 io ?a (ghc OR HBA_RESET) w1))" using wait_ok [OF C controllerD(1) [OF C r(2)]] .
  from poll_returns [OF C this controllerD(7) [OF C r(2) bits_on(3)]] obtain w3 where
    "poll io ?a 100 (\<lambda>x. x AND HBA_RESET = 0) (wait_cycles io 10000 (mmio_write32 io ?a (ghc OR HBA_RESET) w1)) = Some w3" "ok w3" by blast
  then show ?thesis using r(1) controllerD(1) [OF C] by (simp add: hba_reset_def Let_def)
qed

text \<open>The flag of a 64-bit address has been masked away when it is tested.\<close>

lemma bar_base_low:
  assumes "pci_space io cfg ok" "ok w"
  shows "\<exists>w'. bar_base io b d w = (ucast (cfg (pci_addr b d 0 0x24)) AND NOT 0xF, w') \<and> ok w'"
proof -
  have "(x AND NOT 0xF) AND 0x4 = (0 :: u64)" for x by (simp only: and.assoc) simp
  then show ?thesis using pci_read [OF assms, of b d 0 "0x24"] by (auto simp: bar_base_def)
qed

lemma ahci_init_returns:
  assumes "pci_space io cfg ok" "ok (world c)" "d < 32" "ahci_at cfg b d"
    and "\<And>b' d'. d' < 32 \<Longrightarrow> b' < b \<or> b' = b \<and> d' < d \<Longrightarrow> \<not> ahci_at cfg b' d'"
    and "base = ucast (cfg (pci_addr b d 0 0x24)) AND NOT 0xF" "controller io ok base ports_impl ssts"
  shows "\<exists>c'. ahci_init io c = Some c' \<and> ok (world c') \<and>
    driver c' = (fold (\<lambda>port. if bit ports_impl port then port_scan_update ssts (int port) else id) [0..<32]
      ((driver c)\<lparr>ahci_hba_base := base\<rparr>))\<lparr>ahci_initialized := True\<rparr>"
proof -
  obtain w1 where w1: "bus_scan io 0 (world c) = Some ((b, d), w1)" "ok w1"
  proof -
    obtain b0 d0 w1 where r: "bus_scan io 0 (world c) = Some ((b0, d0), w1)" "ok w1" "d0 < 32" "ahci_at cfg b0 d0"
      "\<forall>b' d'. d' < 32 \<longrightarrow> b' < b0 \<or> b' = b0 \<and> d' < d0 \<longrightarrow> \<not> ahci_at cfg b' d'"
      using bus_scan_spec [OF assms(1,2)] assms(3,4) by (auto split: option.splits)
    have "\<not> (b < b0 \<or> b = b0 \<and> d < d0)" using r(5) assms(3,4) by blast
    moreover have "\<not> (b0 < b \<or> b0 = b \<and> d0 < d)" using assms(5) [OF r(3), of b0] r(4) by blast
    ultimately have "b0 = b" "d0 = d" by (auto simp: not_less)
    then show thesis using that r(1,2) by simp
  qed
  note C = assms(7)
  obtain w2 where w2: "bar_base io b d w1 = (base, w2)" "ok w2" using bar_base_low [OF assms(1) w1(2)] assms(6) by blast
  obtain cmd w3 where w3: "pci_read_config_dword io b d 0 0x04 w2 = (cmd, w3)" "ok w3" using pci_read [OF assms(1) w2(2)] by blast
  have "ok (pci_write_config_dword io b d 0 0x04 (cmd OR 0x6) w3)"
    using controllerD(4) [OF C] w3(2) by (simp add: pci_write_config_dword_def)
  then obtain w5 where w5: "hba_reset io base (pci_write_config_dword io b d 0 0x04 (cmd OR 0x6) w3) = Some w5" "ok w5"
    using hba_reset_returns [OF C] by blast
  obtain w6 where w6: "mmio_read32 io (ucast base + HBA_PI) w5 = (ports_impl, w6)" "ok w6"
    using controllerD(2,5) [OF C w5(2)] by (metis prod.collapse)
  let ?c = "c\<lparr>world := w6, driver := (driver c)\<lparr>ahci_hba_base := base\<rparr>\<rparr>"
  obtain c' where "scan_ports io ports_impl [0..<32] ?c = Some c'" "ok (world c')"
    "driver c' = fold (\<lambda>port. if bit ports_impl port then port_scan_update ssts (int port) else id) [0..<32] (driver ?c)"
    using scan_ports_returns [of io ok ?c ports_impl ssts "[0..<32]" ports_impl] C w6(2) by auto
  then show ?thesis using w1(1) w2(1) w3(1) w5(1) w6(1) by (simp add: ahci_init_def Let_def)
qed


section \<open>A simulated controller\<close>

text \<open>A machine with one AHCI controller, bus 0 device 3, at 0xFEBF1000, and a drive at port 0. The state is the selected
  configuration address and the registers as last written; the running bits follow the enable bits.\<close>

record sim =
  latch :: u32
  regs :: "u32 \<Rightarrow> u32"

definition sim_cfg :: "u32 \<Rightarrow> u32" where
  "sim_cfg a = (if a = pci_addr 0 3 0 0x08 then 0x01060102 else if a = pci_addr 0 3 0 0x24 then 0xFEBF1000 else 0xFFFFFFFF)"

definition sim_read :: "u32 \<Rightarrow> u32 \<Rightarrow> u32" where
  "sim_read off v =
     (if off = 0x0C then 1
      else if off AND 0x7F = 0x28 then (if off = 0x128 then 3 else 0)
      else if off = 0x04 then v AND NOT 1
      else (v AND 0x11) OR (if v AND 0x10 \<noteq> 0 then 0x4000 else 0) OR (if v AND 1 \<noteq> 0 then 0x8000 else 0))"

definition sim_bus :: "sim bus" where
  "sim_bus = \<lparr>outl = (\<lambda>p v w. if p = PCI_CONFIG_ADDRESS then w\<lparr>latch := v\<rparr> else w),
     inl = (\<lambda>p w. (sim_cfg (latch w), w)),
     mmio_read32 = (\<lambda>a w. (sim_read (a - 0xFEBF1000) (regs w a), w)),
     mmio_write32 = (\<lambda>a v w. w\<lparr>regs := (regs w)(a := v)\<rparr>),
     pause = id\<rparr>"

definition sim_ssts :: "int \<Rightarrow> u32" where "sim_ssts p = (if p = 0 then 3 else 0)"

lemma ucast_of_int_32: "(ucast (of_int k :: u64) :: u32) = of_int k"
  by transfer simp

lemma sim_port: "port_base 0xFEBF1000 (int p) - 0xFEBF1000 = 0x100 + 0x80 * of_nat p"
proof -
  have "(0xFEBF1000 + 0x100 + of_int (int p * 0x80) :: u64) = of_int (0xFEBF1100 + int p * 0x80)" by simp
  then have "port_base 0xFEBF1000 (int p) = of_int (0xFEBF1100 + int p * 0x80)" unfolding port_base_def by (simp only: ucast_of_int_32)
  then show ?thesis by simp
qed

lemma sim_off:
  assumes "p < 32"
  shows "(0x118 + 0x80 * of_nat p) AND 0x7F = (0x18 :: u32)" "(0x128 + 0x80 * of_nat p) AND 0x7F = (0x28 :: u32)"
    "0x118 + 0x80 * of_nat p \<noteq> (0x0C :: u32)" "0x118 + 0x80 * of_nat p \<noteq> (0x04 :: u32)"
    "0x128 + 0x80 * of_nat p \<noteq> (0x0C :: u32)" "0x128 + 0x80 * of_nat p = (0x128 :: u32) \<longleftrightarrow> p = 0"
proof -
  have m: "(0x7F :: u32) = mask 7" by (simp add: mask_eq_exp_minus_1)
  have u: "unat (k + 0x80 * of_nat p :: u32) = unat k + 128 * p" if "unat k < 1000" for k
    using assms that by (simp add: unat_word_ariths unat_of_nat)
  have a: "x AND 0x7F = of_nat (unat x mod 128)" for x :: u32
  proof -
    have "of_nat (unat (x mod 128)) = x mod 128" by simp
    then show ?thesis unfolding m take_bit_eq_mask [symmetric] by (simp only: unat_mod take_bit_eq_mod) simp
  qed
  show "(0x118 + 0x80 * of_nat p) AND 0x7F = (0x18 :: u32)" "(0x128 + 0x80 * of_nat p) AND 0x7F = (0x28 :: u32)"
    using u [of "0x118"] u [of "0x128"] by (simp_all only: a) simp_all
  show "0x118 + 0x80 * of_nat p \<noteq> (0x0C :: u32)" "0x118 + 0x80 * of_nat p \<noteq> (0x04 :: u32)"
    "0x128 + 0x80 * of_nat p \<noteq> (0x0C :: u32)" "0x128 + 0x80 * of_nat p = (0x128 :: u32) \<longleftrightarrow> p = 0"
    using u [of "0x118"] u [of "0x128"] by (auto simp: word_unat_eq_iff)
qed

lemma settles_now: "fin (fst (mmio_read32 io a w)) \<Longrightarrow> settles io a n fin w"
  unfolding settles_def by (rule exI [of _ 0]) (simp add: polled_def)

lemma sim_wait [simp]: "wait_cycles sim_bus n w = w"
  by (simp add: wait_cycles_def sim_bus_def)

lemma sim_cmd:
  assumes "p < 32"
  shows "fst (mmio_read32 sim_bus (port_base 0xFEBF1000 (int p) + PxCMD) (mmio_write32 sim_bus (port_base 0xFEBF1000 (int p) + PxCMD) v w)) =
    (v AND 0x11) OR (if v AND 0x10 \<noteq> 0 then 0x4000 else 0) OR (if v AND 1 \<noteq> 0 then 0x8000 else 0)"
proof -
  have "port_base 0xFEBF1000 (int p) + PxCMD - 0xFEBF1000 = 0x118 + 0x80 * of_nat p" using sim_port [of p] by (simp add: algebra_simps)
  then show ?thesis using sim_off [OF assms] by (simp add: sim_bus_def sim_read_def)
qed

lemma sim_controller: "controller sim_bus (\<lambda>_. True) 0xFEBF1000 1 sim_ssts"
proof -
  let ?r = "\<lambda>v :: u32. (v AND 0x11) OR (if v AND 0x10 \<noteq> 0 then 0x4000 else 0) OR (if v AND 1 \<noteq> 0 then 0x8000 else 0)"
  have b: "v AND 0x11 = 0 \<Longrightarrow> ?r v AND 0xC000 = 0" "v AND 0x10 \<noteq> 0 \<Longrightarrow> ?r v AND 0x4000 \<noteq> 0" "v AND 1 \<noteq> 0 \<Longrightarrow> ?r v AND 1 \<noteq> 0" for v
  proof -
    have t: "x AND 0x4000 \<noteq> 0 \<longleftrightarrow> bit x 14" "x AND 0x10 \<noteq> 0 \<longleftrightarrow> bit x 4" "x AND 1 \<noteq> 0 \<longleftrightarrow> bit x 0" for x :: u32
      using bit_iff_and_push_bit_not_eq_0 [of x 14] bit_iff_and_push_bit_not_eq_0 [of x 4] bit_iff_and_push_bit_not_eq_0 [of x 0] by simp_all
    have "v AND 0x11 = (v AND 0x10) OR (v AND 1)" by (simp flip: bit.conj_disj_distrib)
    then show "v AND 0x11 = 0 \<Longrightarrow> ?r v AND 0xC000 = 0" by (simp add: or_eq_0_iff)
    show "v AND 0x10 \<noteq> 0 \<Longrightarrow> ?r v AND 0x4000 \<noteq> 0" unfolding t(1) by (simp add: bit_simps)
    show "v AND 1 \<noteq> 0 \<Longrightarrow> ?r v AND 1 \<noteq> 0" unfolding t(3) by (simp add: bit_simps)
  qed
  have ssts: "fst (mmio_read32 sim_bus (port_base 0xFEBF1000 (int p) + PxSSTS) w) = sim_ssts (int p)" if "p < 32" for p w
  proof -
    have "port_base 0xFEBF1000 (int p) + PxSSTS - 0xFEBF1000 = 0x128 + 0x80 * of_nat p" using sim_port [of p] by (simp add: algebra_simps)
    then show ?thesis using sim_off [OF that] by (simp add: sim_bus_def sim_read_def sim_ssts_def)
  qed
  have ghc: "fst (mmio_read32 sim_bus (ucast (0xFEBF1000 :: u64) + HBA_GHC) (mmio_write32 sim_bus (ucast (0xFEBF1000 :: u64) + HBA_GHC) v w)) AND HBA_RESET = 0" for v w
    by (simp add: sim_bus_def sim_read_def and.assoc)
  have pi: "fst (mmio_read32 sim_bus (ucast (0xFEBF1000 :: u64) + HBA_PI) w) = 1" for w by (simp add: sim_bus_def sim_read_def)
  show ?thesis unfolding controller_def
    using ssts ghc pi b by (auto intro!: settles_now simp: sim_cmd)
qed

lemma sim_pci: "pci_space sim_bus sim_cfg (\<lambda>_. True)"
  by (simp add: pci_space_def sim_bus_def)

lemma sim_found:
  "ahci_at sim_cfg 0 3" "(d :: u8) < 3 \<Longrightarrow> \<not> ahci_at sim_cfg 0 d"
proof -
  show "ahci_at sim_cfg 0 3" by (simp add: ahci_at_def sim_cfg_def ahci_class_def)
  assume "d < 3"
  then have "unat d < 3" by (simp add: word_less_nat_alt)
  then have "unat d = 0 \<or> unat d = 1 \<or> unat d = 2" by linarith
  then have "d = 0 \<or> d = 1 \<or> d = 2" by (auto simp: word_unat_eq_iff)
  then show "\<not> ahci_at sim_cfg 0 d" by (auto simp: ahci_at_def sim_cfg_def ahci_class_def pci_addr_def)
qed

definition sim_start :: "sim ctl" where
  "sim_start = \<lparr>world = \<lparr>latch = 0, regs = (\<lambda>_. 0)\<rparr>, driver = demo_ahci\<lparr>ahci_initialized := False, drive_count := 0\<rparr>,
     cmd_list_area = (\<lambda>_. []), cmd_table_area = (\<lambda>_. []), cmd_list_addr = 0x300000, fis_addr = 0x340000\<rparr>"


theorem controller_search_witness:
  "\<exists>w'. bus_scan sim_bus 0 (world sim_start) = Some ((0, 3), w') \<and>
     bus_scan (sim_bus\<lparr>inl := (\<lambda>p w. (0xFFFFFFFF, w))\<rparr>) 0 (world sim_start) = None"
proof -
  let ?io = "sim_bus\<lparr>inl := (\<lambda>p w. (0xFFFFFFFF, w))\<rparr>"
  have "pci_space ?io (\<lambda>_. 0xFFFFFFFF) (\<lambda>_. True)" "\<forall>b d. d < 32 \<longrightarrow> \<not> ahci_at (\<lambda>_. 0xFFFFFFFF) b d"
    by (simp_all add: pci_space_def ahci_at_def ahci_class_def)
  then have "bus_scan ?io 0 (world sim_start) = None"
    using controller_search [of ?io "\<lambda>_. 0xFFFFFFFF" "\<lambda>_. True" "world sim_start" sim_start]
    by (cases "bus_scan ?io 0 (world sim_start)") auto
  moreover obtain b d w' where r: "bus_scan sim_bus 0 (world sim_start) = Some ((b, d), w')"
    "\<forall>b' d'. d' < 32 \<longrightarrow> b' < b \<or> b' = b \<and> d' < d \<longrightarrow> \<not> ahci_at sim_cfg b' d'" "ahci_at sim_cfg b d" "d < 32"
    using controller_search [OF sim_pci TrueI, of "world sim_start" sim_start] sim_found(1)
    by (cases "bus_scan sim_bus 0 (world sim_start)") auto
  have "\<not> (0 < b \<or> 0 = b \<and> 3 < d)" using r(2) [rule_format, of 3 0] sim_found(1) by auto
  then have "b = 0" "d \<le> 3" by (auto simp: word_neq_0_conv not_less)
  then have "d = 3" using sim_found(2) [of d] r(3) by (auto simp: order_le_less)
  ultimately show ?thesis using r(1) \<open>b = 0\<close> by blast
qed

end
