(* ===== verification/Kernel_Init.thy ===== *)
theory Kernel_Init
  imports Session Ahci_Init
begin

text \<open>
  From the boot loader to the prompt: the memory map and the processor name, the drive scan on the register level, and
  \<^verbatim>\<open>my_own_os_init\<close> of \<^verbatim>\<open>kernel/src/Little_Linux.c\<close>, which calls the initialisation of every part in turn. The processor's
  \<^verbatim>\<open>cpuid\<close> and the memory that the boot loader filled are parameters. None is an initialisation that does not return.
\<close>

section \<open>Memory\<close>

definition ld32 :: "mem \<Rightarrow> u32 \<Rightarrow> u32" where
  "ld32 m a = ucast (m a) OR push_bit 8 (ucast (m (a + 1))) OR push_bit 16 (ucast (m (a + 2))) OR push_bit 24 (ucast (m (a + 3)))"

definition ld64 :: "mem \<Rightarrow> u32 \<Rightarrow> u64" where
  "ld64 m a = ucast (ld32 m a) OR push_bit 32 (ucast (ld32 m (a + 4)))"

abbreviation (input) MULTIBOOT_INFO_MEM_MAP :: u32 where "MULTIBOOT_INFO_MEM_MAP \<equiv> 0x40"

text \<open>The loop over the map: an entry has its size at 0, its length at 12 and its type at 20. The next entry follows the size
  field and that many bytes.\<close>

partial_function (option) mmap_loop :: "mem \<Rightarrow> u32 \<Rightarrow> u32 \<Rightarrow> u64 \<Rightarrow> u64 option" where
  "mmap_loop m mmap_end mmap total_bytes =
     (if mmap < mmap_end
      then mmap_loop m mmap_end (mmap + ld32 m mmap + 4)
        (if ld32 m (mmap + 20) = 1 then total_bytes + ld64 m (mmap + 12) else total_bytes)
      else Some total_bytes)"

definition my_os_get_memory_size_mb :: "mem \<Rightarrow> u32 \<Rightarrow> u32 option" where
  "my_os_get_memory_size_mb m info =
     (if ld32 m info AND MULTIBOOT_INFO_MEM_MAP = 0 then Some ((ld32 m (info + 4) + ld32 m (info + 8)) div 1024)
      else map_option (\<lambda>total. ucast (total div (1024 * 1024)))
        (mmap_loop m (ld32 m (info + 48) + ld32 m (info + 44)) (ld32 m (info + 48)) 0))"

text \<open>\<^verbatim>\<open>my_os_get_cpu\<close>: the return value, and the string when the buffer is not empty.\<close>

definition brand_bytes :: "(u32 \<Rightarrow> u32 \<times> u32 \<times> u32 \<times> u32) \<Rightarrow> u8 list" where
  "brand_bytes cpuid = concat (map (\<lambda>i. case cpuid (0x80000002 + of_nat i) of
     (eax, ebx, ecx, edx) \<Rightarrow> enc32 eax @ enc32 ebx @ enc32 ecx @ enc32 edx) [0..<3])"

definition my_os_get_cpu :: "(u32 \<Rightarrow> u32 \<times> u32 \<times> u32 \<times> u32) \<Rightarrow> nat \<Rightarrow> int \<times> string option" where
  "my_os_get_cpu cpuid buflen =
     (let brand = brand_bytes cpuid;
          src_len = length (takeWhile (\<lambda>b. b \<noteq> 0) brand);
          copy = (\<lambda>n. map (\<lambda>b. char_of (unat b)) (take n brand))
      in if buflen = 0 then (1, None)
         else if src_len \<ge> buflen then (1, Some (copy (buflen - 1)))
         else (0, Some (copy src_len)))"

section \<open>Drives\<close>

text \<open>\<^verbatim>\<open>ahci_table_update\<close> and \<^verbatim>\<open>update_partition_tables\<close> with their accesses to the controller.\<close>

definition table_update :: "'w bus \<Rightarrow> 'w ctl \<Rightarrow> 'w ctl option" where
  "table_update io c =
     (if \<not> ahci_initialized (driver c) then Some c
      else if ahci_hba_base (driver c) = 0 then Some c
      else
        let (ports_impl, w) = mmio_read32 io (ucast (ahci_hba_base (driver c)) + HBA_PI) (world c)
        in scan_ports io ports_impl [0..<32] (c\<lparr>world := w\<rparr>))"

definition update_tables :: "'w bus \<Rightarrow> 'w ctl \<Rightarrow> disk_state \<Rightarrow> ('w ctl \<times> disk_state) option" where
  "update_tables io c ds = do {
     ds1 \<leftarrow> lock_acquire ds;
     c1 \<leftarrow> table_update io (c\<lparr>driver := drv ds1\<rparr>);
     ds2 \<leftarrow> parse_all [0..drive_count (driver c1) - 1] (ds1\<lparr>drv := driver c1\<rparr>);
     Some (c1\<lparr>driver := drv ds2\<rparr>, lock_release ds2)
   }"

text \<open>The report on the drives; the size does not appear, because \<open>printf\<close> does not know \<^verbatim>\<open>%llu\<close>.\<close>

fun report_drives :: "nat list \<Rightarrow> fs \<Rightarrow> fs option" where
  "report_drives [] s = Some s"
| "report_drives (i # is) s = do {
     let mb = drive_size_bytes (drv (disk s)) ! i div (1024 * 1024);
     s1 \<leftarrow> say ''  drive %d: %llu MB\<newline>'' [ArgI (of_nat i), ArgI (ucast mb), ArgI (ucast (drop_bit 32 mb))] s;
     (cnt, ds) \<leftarrow> get_partition_count (int i) (disk s1);
     s2 \<leftarrow> say ''    partitions: %d\<newline>'' [ArgI (of_int cnt)] (s1\<lparr>disk := ds\<rparr>);
     report_drives is s2
   }"

section \<open>Initialisation\<close>

text \<open>\<^verbatim>\<open>my_own_os_init\<close> up to the first prompt of \<^verbatim>\<open>my_own_os_main\<close>. \<open>e\<close> is the end of the kernel image; a null pointer from the boot
  loader ends in an endless loop.\<close>

definition my_own_os_init ::
  "'w bus \<Rightarrow> (u32 \<Rightarrow> u32 \<times> u32 \<times> u32 \<times> u32) \<Rightarrow> mem \<Rightarrow> u32 \<Rightarrow> u32 \<Rightarrow> 'w ctl \<Rightarrow> fs \<Rightarrow> ('w ctl \<times> fs) option" where
  "my_own_os_init io cpuid m e multiboot_info c s = do {
     s1 \<leftarrow> say ''Little Linux is Running\<newline>'' [] s;
     s2 \<leftarrow> say ''multiboot_info = 0x%x\<newline>'' [ArgI multiboot_info] s1;
     (if multiboot_info = 0 then None
      else do {
        cpumodel \<leftarrow> snd (my_os_get_cpu cpuid 512);
        s3 \<leftarrow> say ''CPU:%s\<newline>'' [ArgS cpumodel] s2;
        memory_size_mb \<leftarrow> my_os_get_memory_size_mb m multiboot_info;
        s4 \<leftarrow> say ''RAM:%dMB\<newline>'' [ArgI memory_size_mb] s3;
        s5 \<leftarrow> say ''calling malloc_init'' [] s4;
        s6 \<leftarrow> boot_fs e memory_size_mb s5;
        c1 \<leftarrow> ahci_init io (c\<lparr>driver := drv (disk s6)\<rparr>);
        (c2, ds) \<leftarrow> update_tables io c1 ((disk s6)\<lparr>drv := driver c1\<rparr>);
        let s7 = s6\<lparr>disk := ds\<rparr>;
        s8 \<leftarrow> say ''Detected %d drive(s)\<newline>'' [ArgI (of_int (drive_count (drv ds)))] s7;
        s9 \<leftarrow> report_drives [0..<nat (drive_count (drv ds))] s8;
        s10 \<leftarrow> dfs_init s9;
        s11 \<leftarrow> shell_prompt s10;
        Some (c2, s11)
      })
   }"

section \<open>The memory map\<close>

record mmap_entry =
  me_size :: u32
  me_len :: u64
  me_type :: u32

text \<open>The entries \<open>es\<close> lie in memory from \<open>a\<close> on.\<close>

fun mmap_at :: "mem \<Rightarrow> u32 \<Rightarrow> mmap_entry list \<Rightarrow> bool" where
  "mmap_at m a [] = True"
| "mmap_at m a (x # xs) =
     (ld32 m a = me_size x \<and> ld64 m (a + 12) = me_len x \<and> ld32 m (a + 20) = me_type x \<and> mmap_at m (a + me_size x + 4) xs)"

definition mmap_bytes :: "mmap_entry list \<Rightarrow> nat" where
  "mmap_bytes es = (\<Sum>x\<leftarrow>es. unat (me_size x) + 4)"

definition usable :: "mmap_entry list \<Rightarrow> u64" where
  "usable es = (\<Sum>x\<leftarrow>filter (\<lambda>x. me_type x = 1) es. me_len x)"

lemma mmap_loop_sum:
  assumes "mmap_at m a es" "unat a + mmap_bytes es < 2 ^ 32" "mmap_end = a + of_nat (mmap_bytes es)"
  shows "mmap_loop m mmap_end a t = Some (t + usable es)"
  using assms
proof (induction es arbitrary: a t)
  case Nil
  then show ?case by (subst mmap_loop.simps) (simp add: mmap_bytes_def usable_def)
next
  case (Cons x es)
  let ?a = "a + me_size x + 4"
  have b: "mmap_bytes (x # es) = unat (me_size x) + 4 + mmap_bytes es" by (simp add: mmap_bytes_def)
  have n: "unat ?a = unat a + unat (me_size x) + 4"
    using Cons.prems(2) b by (simp add: unat_word_ariths)
  have e: "mmap_end = ?a + of_nat (mmap_bytes es)" using Cons.prems(3) b by simp
  have "unat mmap_end = unat a + mmap_bytes (x # es)"
    using Cons.prems(2,3) by (simp add: unat_word_ariths unat_of_nat)
  then have "a < mmap_end" using b by (simp add: word_less_nat_alt)
  moreover have "mmap_loop m mmap_end ?a t' = Some (t' + usable es)" for t'
    using Cons.IH [of ?a t'] Cons.prems(1,2) n b e by simp
  ultimately show ?case using Cons.prems(1)
    by (subst mmap_loop.simps) (simp add: usable_def add.assoc)
qed

text \<open>The memory size: for a memory map of well-placed entries, the sum over the map ends, and the result is the total length
  of the entries of type 1 in megabytes.\<close>

theorem memory_size_correct:
  assumes "ld32 m info AND MULTIBOOT_INFO_MEM_MAP \<noteq> 0" "mmap_at m (ld32 m (info + 48)) es"
    and "ld32 m (info + 44) = of_nat (mmap_bytes es)" "unat (ld32 m (info + 48)) + mmap_bytes es < 2 ^ 32"
  shows "my_os_get_memory_size_mb m info = Some (ucast (usable es div 2 ^ 20))"
  using mmap_loop_sum [OF assms(2,4), of _ 0] assms(1,3) by (simp add: my_os_get_memory_size_mb_def)

section \<open>The drive scan\<close>

text \<open>A device that serves sectors and also answers IDENTIFY.\<close>

coinductive disk_device :: "disks \<Rightarrow> device \<Rightarrow> bool" where
  serves: "(\<And>port c buf. cfis c ! 2 = ATA_CMD_READ_DMA_EXT \<Longrightarrow>
      \<exists>k dev'. k < 1000000 \<and> serve dev (port, c, buf) = ((Some k, False, d port (fis_lba c)), dev') \<and> disk_device d dev') \<Longrightarrow>
    (\<And>port c buf. cfis c ! 2 = ATA_CMD_WRITE_DMA_EXT \<Longrightarrow>
      \<exists>k dev'. k < 1000000 \<and> serve dev (port, c, buf) = ((Some k, False, buf), dev') \<and>
        disk_device (d(port := (d port)(fis_lba c := buf))) dev') \<Longrightarrow>
    (\<And>port c buf. cfis c ! 2 = ATA_CMD_IDENTIFY \<Longrightarrow>
      \<exists>ans dev'. serve dev (port, c, buf) = (ans, dev') \<and> disk_device d dev') \<Longrightarrow>
    disk_device d dev"

inductive_cases disk_deviceE: "disk_device d dev"

lemma disk_sector_device: "disk_device d dev \<Longrightarrow> sector_device d dev"
proof (coinduction arbitrary: d dev)
  case (sector_device d dev)
  have r: "\<exists>k dev'. k < 1000000 \<and> serve dev (port, c, buf) = ((Some k, False, d port (fis_lba c)), dev') \<and> disk_device d dev'"
    if "cfis c ! 2 = ATA_CMD_READ_DMA_EXT" for port c buf
    using sector_device that by (auto elim: disk_deviceE)
  have w: "\<exists>k dev'. k < 1000000 \<and> serve dev (port, c, buf) = ((Some k, False, buf), dev') \<and>
      disk_device (d(port := (d port)(fis_lba c := buf))) dev'"
    if "cfis c ! 2 = ATA_CMD_WRITE_DMA_EXT" for port c buf
    using sector_device that by (auto elim: disk_deviceE)
  show ?case
    by (rule exI [of _ dev], rule exI [of _ d], intro conjI refl allI impI) (meson r w)+
qed

lemma ideal_disk_device: "disk_device d (ideal_device d)"
proof (coinduction arbitrary: d)
  case disk_device
  then show ?case by (auto simp: ideal_answer_def)
qed

definition drives_ok :: "disks \<Rightarrow> ahci \<Rightarrow> bool" where
  "drives_ok d a \<longleftrightarrow> table_ok a \<and> disk_device d (hba a)"

lemma identify_disk:
  assumes "disk_device d (hba a)" "identify_device port a = (r, a')"
  shows "disk_device d (hba a')"
proof -
  let ?c = "build_cmd ATA_CMD_IDENTIFY 0 0 False"
  have "cfis ?c ! 2 = ATA_CMD_IDENTIFY" by simp
  then obtain ans dev' where "serve (hba a) (port, ?c, take 512 (sector_buf a)) = (ans, dev')" "disk_device d dev'"
    using assms(1) by (blast elim: disk_deviceE)
  then show ?thesis using assms(2) by (auto simp: identify_device_def exec_ata_cmd_def Let_def split: prod.splits if_splits)
qed

lemma scan_drives_ok:
  assumes "drives_ok d a"
  shows "drives_ok d (port_scan_update ssts port a)"
proof -
  have ok: "table_ok a" "disk_device d (hba a)" using assms by (simp_all add: drives_ok_def)
  obtain r a' where r: "identify_device port a = (r, a')" by fastforce
  have a': "table_ok a'" "drives a' = drives a" "drive_count a' = drive_count a"
  proof -
    have "table_ok (a\<lparr>hba := x\<rparr>)" "drives (a\<lparr>hba := x\<rparr>) = drives a" "drive_count (a\<lparr>hba := x\<rparr>) = drive_count a" for x
      using ok(1) by (simp_all add: table_ok_def ahci_ok_def drives_def)
    then show "table_ok a'" "drives a' = drives a" "drive_count a' = drive_count a" using identify_same [OF r] by metis+
  qed
  have h: "hba (snd (add_drive_to_table port sz x)) = hba x" "hba (remove_drive_from_table port x) = hba x" for sz x
  proof -
    show "hba (snd (add_drive_to_table port sz x)) = hba x" by (simp add: add_drive_to_table_def)
    have "hba (remove_loop is port x) = hba x" for "is" by (induction "is") (simp_all add: Let_def)
    then show "hba (remove_drive_from_table port x) = hba x" by (simp add: remove_drive_from_table_def)
  qed
  show ?thesis
    using ok r a' identify_disk [OF ok(2) r] h add_drive_spec(1) [OF a'(1), of port] remove_drive_spec(1) [OF ok(1), of port]
    by (cases r) (auto simp: port_scan_update_def drives_ok_def drives_def Let_def)
qed

lemma scan_all_drives_ok:
  "drives_ok d a \<Longrightarrow> drives_ok d (fold (\<lambda>port. if bit pi port then port_scan_update ssts (int port) else id) ps a)"
  by (induction ps arbitrary: a) (auto intro: scan_drives_ok)

section \<open>The partition tables\<close>

text \<open>A boot sector without an extended partition.\<close>

definition plain_mbr :: "u8 list \<Rightarrow> bool" where
  "plain_mbr mbr \<longleftrightarrow> list_all (\<lambda>i. \<not> is_extended (part_type (entry_at mbr i))) [0, 1, 2, 3]"

definition parsing :: "disks \<Rightarrow> ahci \<Rightarrow> disk_state \<Rightarrow> bool" where
  "parsing d a s \<longleftrightarrow> sector_device d (hba (drv s)) \<and> ahci_ok (drv s) \<and> ahci_initialized (drv s) \<and> same_table a (drv s)"

lemma parse_mbr_returns:
  assumes "parsing d a s" "disk_ok d" "\<forall>p. plain_mbr (d p 0)" "0 \<le> drive" "drive < drive_count a"
  shows "\<exists>s'. parse_mbr drive s = Some s' \<and> parsing d a s' \<and> partition_lock s' = partition_lock s"
proof -
  have P: "sector_device d (hba (drv s))" "ahci_ok (drv s)" "ahci_initialized (drv s)" "same_table a (drv s)"
    using assms(1) by (simp_all add: parsing_def)
  let ?mbr = "d (drive_port (drv s) ! nat drive) 0"
  have "drive < drive_count (drv s)" using assms(5) P(4) by (simp add: same_table_def)
  then obtain a' where a': "read_sector drive 0 (drv s) = (Some ?mbr, a')" "sector_device d (hba a')" "ahci_ok a'" "same_table (drv s) a'"
    using sector_served [OF P(1) assms(2) P(2,3) assms(4), of 0] by auto
  have "parse_primary drive ?mbr [0, 1, 2, 3] [] a' =
      Some (filter (\<lambda>pe. sector_count pe \<noteq> 0) (map (entry_at ?mbr) [0, 1, 2, 3]), a')"
    using parse_primary_plain [of "[0, 1, 2, 3]" ?mbr "[]" drive a'] assms(3) by (simp add: plain_mbr_def)
  then show ?thesis
    using a' P(3,4) by (auto simp: parse_mbr_def parsing_def same_table_def simp del: parse_primary.simps)
qed

lemma parse_all_returns:
  assumes "parsing d a s" "disk_ok d" "\<forall>p. plain_mbr (d p 0)" "\<forall>i\<in>set is. 0 \<le> i \<and> i < drive_count a"
  shows "\<exists>s'. parse_all is s = Some s' \<and> parsing d a s' \<and> partition_lock s' = partition_lock s"
  using assms(1,4)
proof (induction "is" arbitrary: s)
  case (Cons i "is")
  obtain s1 where "parse_mbr i s = Some s1" "parsing d a s1" "partition_lock s1 = partition_lock s"
    using parse_mbr_returns [OF Cons.prems(1) assms(2,3), of i] Cons.prems(2) by auto
  then show ?case using Cons.IH [of s1] Cons.prems(2) by auto
qed simp

lemma same_init:
  "ahci_initialized (fold (\<lambda>port. if bit pi port then port_scan_update ssts (int port) else id) ps a) = ahci_initialized a"
proof -
  have r: "ahci_initialized (remove_loop is p a) = ahci_initialized a" for "is" p a by (induction "is") (simp_all add: Let_def)
  have "ahci_initialized (port_scan_update ssts p a) = ahci_initialized a" for p a
    by (auto simp: port_scan_update_def identify_device_def add_drive_to_table_def remove_drive_from_table_def Let_def r split: prod.splits option.splits)
  then show ?thesis by (induction ps arbitrary: a) simp_all
qed

lemma update_tables_returns:
  assumes C: "controller io ok (ahci_hba_base (drv ds)) ports_impl ssts" "ok (world c)"
    and D: "drives_ok dk (drv ds)" "ahci_initialized (drv ds)" "partition_lock ds = 0" "disk_ok dk" "\<forall>p. plain_mbr (dk p 0)"
  shows "\<exists>c' ds'. update_tables io c ds = Some (c', ds') \<and> ok (world c') \<and> partition_lock ds' = 0 \<and> driver c' = drv ds'"
proof -
  let ?ds = "ds\<lparr>partition_lock := 1\<rparr>" and ?c = "c\<lparr>driver := drv ds\<rparr>"
  obtain c1 where c1: "table_update io ?c = Some c1" "ok (world c1)" "drives_ok dk (driver c1)" "ahci_initialized (driver c1)"
  proof (cases "ahci_hba_base (drv ds) = 0")
    case True
    then show thesis using that [of ?c] C(2) D(1,2) by (simp add: table_update_def)
  next
    case False
    obtain w where w: "mmio_read32 io (ucast (ahci_hba_base (drv ds)) + HBA_PI) (world c) = (ports_impl, w)" "ok w"
      using controllerD(2,5) [OF C] by (metis prod.collapse)
    obtain c1 where c1: "scan_ports io ports_impl [0..<32] (?c\<lparr>world := w\<rparr>) = Some c1" "ok (world c1)"
      "driver c1 = fold (\<lambda>port. if bit ports_impl port then port_scan_update ssts (int port) else id) [0..<32] (drv ds)"
      using scan_ports_returns [of io ok "?c\<lparr>world := w\<rparr>" ports_impl ssts "[0..<32]" ports_impl] C(1) w(2) by auto
    have "table_update io ?c = Some c1" using c1(1) w(1) False D(2) by (simp add: table_update_def)
    moreover have "drives_ok dk (driver c1)" unfolding c1(3) by (rule scan_all_drives_ok [OF D(1)])
    moreover have "ahci_initialized (driver c1)" unfolding c1(3) same_init by (rule D(2))
    ultimately show thesis using that c1(2) by blast
  qed
  have "parsing dk (driver c1) (?ds\<lparr>drv := driver c1\<rparr>)"
    using c1(3,4) disk_sector_device by (auto simp: parsing_def drives_ok_def table_ok_def same_table_def)
  then obtain ds2 where "parse_all [0..drive_count (driver c1) - 1] (?ds\<lparr>drv := driver c1\<rparr>) = Some ds2"
    using parse_all_returns [OF _ D(4,5), of "driver c1" _ "[0..drive_count (driver c1) - 1]"] by auto
  then show ?thesis using c1(1,2) D(3) by (auto simp: update_tables_def lock_acquire_def lock_release_def)
qed

section \<open>The messages\<close>

lemma hex_line: "\<exists>x. say ''multiboot_info = 0x%x\<newline>'' [ArgI i] s = Some (s\<lparr>out := x\<rparr>)"
proof -
  have t: "itoa_text (sint i) 16 = Some (numeral_text (sint i) 16)" "length (numeral_text (sint i) 16) \<le> 33"
    using itoa_text_spec [of 16 i] by simp_all
  have "printf (CHR ''%'' # CHR ''x'' # r) (ArgI i # as) = map_option ((@) (numeral_text (sint i) 16)) (printf r as)" for r as
    using t by (simp add: parse_plain convert_def zero_pad_def Let_def)
  then show ?thesis unfolding say_def by (simp add: printf_char del: printf.simps(2)) blast
qed

lemma number_lines:
  "\<exists>x. say ''RAM:%dMB\<newline>'' [ArgI i] s = Some (s\<lparr>out := x\<rparr>)"
  "\<exists>x. say ''Detected %d drive(s)\<newline>'' [ArgI i] s = Some (s\<lparr>out := x\<rparr>)"
  "\<exists>x. say ''    partitions: %d\<newline>'' [ArgI i] s = Some (s\<lparr>out := x\<rparr>)"
  unfolding say_def by (simp add: printf_chain del: printf.simps(2), blast)+

lemma drive_line: "\<exists>x. say ''  drive %d: %llu MB\<newline>'' (ArgI i # as) s = Some (s\<lparr>out := x\<rparr>)"
  unfolding say_def by (simp add: printf_chain printf_l del: printf.simps(2)) blast

lemma report_returns:
  assumes "partition_lock (disk s) = 0"
  shows "\<exists>x. report_drives is s = Some (s\<lparr>out := x\<rparr>)"
  using assms
proof (induction "is" arbitrary: s)
  case Nil
  show ?case by (rule exI [of _ "out s"]) simp
next
  case (Cons i "is")
  let ?mb = "drive_size_bytes (drv (disk s)) ! i div (1024 * 1024)"
  obtain x where x: "say ''  drive %d: %llu MB\<newline>'' [ArgI (of_nat i), ArgI (ucast ?mb), ArgI (ucast (drop_bit 32 ?mb))] s = Some (s\<lparr>out := x\<rparr>)"
    using drive_line by blast
  obtain n where n: "get_partition_count (int i) (disk s) = Some (n, disk s)" using count_returns [OF Cons.prems] by blast
  obtain y where y: "say ''    partitions: %d\<newline>'' [ArgI (of_int n)] (s\<lparr>out := x\<rparr>) = Some (s\<lparr>out := x\<rparr>\<lparr>out := y\<rparr>)" using number_lines(3) by blast
  obtain z where "report_drives is (s\<lparr>out := y\<rparr>) = Some (s\<lparr>out := y\<rparr>\<lparr>out := z\<rparr>)" using Cons.IH [of "s\<lparr>out := y\<rparr>"] Cons.prems by auto
  then show ?case using x n y by (simp add: Let_def) blast
qed

lemma cpu_name: "\<exists>n. snd (my_os_get_cpu cpuid 512) = Some n \<and> length n < 2048"
proof -
  have "length (takeWhile (\<lambda>b. b \<noteq> 0) (brand_bytes cpuid)) \<le> length (brand_bytes cpuid)" by (rule length_takeWhile_le)
  moreover have "length (brand_bytes cpuid) = 48" by (simp add: brand_bytes_def upt_rec split: prod.splits)
  ultimately show ?thesis by (auto simp: my_os_get_cpu_def Let_def)
qed

text \<open>The initialisation functions neither read nor write the console.\<close>

lemma reg_out: "reg n d f (s\<lparr>out := x\<rparr>) = map_option (\<lambda>t. t\<lparr>out := x\<rparr>) (reg n d f s)"
  by (auto simp: reg_def split: Option.bind_splits)

lemma reg_all_out: "reg_all cs (s\<lparr>out := x\<rparr>) = map_option (\<lambda>t. t\<lparr>out := x\<rparr>) (reg_all cs s)"
proof (induction cs s rule: reg_all.induct)
  case (2 name desc func cs s)
  then show ?case using reg_out [of name desc func x s] by (cases "reg name desc func s") simp_all
qed simp

lemma set_env_out: "set_env n v (s\<lparr>out := x\<rparr>) = map_option (\<lambda>t. t\<lparr>out := x\<rparr>) (set_env n v s)"
  by (auto simp: set_env_def split: Option.bind_splits)

lemma fs_init_out: "fs_init (s\<lparr>out := x\<rparr>) = map_option (\<lambda>(r, t). (r, t\<lparr>out := x\<rparr>)) (fs_init s)"
proof (cases "dirs s ROOT")
  case (Some d)
  let ?d = "d\<lparr>fd_name := ''/'', fd_type := 0, foder_map := ramfs_hashmap_init, file_map := ramfs_file_hashmap_init\<rparr>"
  let ?s = "(set_folder ROOT ?d s)\<lparr>current_dir := ROOT\<rparr>"
  let ?env = "\<lambda>t. case env_get (env_map t) ''pwd'' of
        Some pwd \<Rightarrow> do { p \<leftarrow> strcpy_into 512 pwd; Some (t\<lparr>current_path := p\<rparr>) }
      | None \<Rightarrow> set_env ''pwd'' ''/'' (t\<lparr>current_path := ''/''\<rparr>)"
  have s1: "(set_folder ROOT ?d (s\<lparr>out := x\<rparr>))\<lparr>current_dir := ROOT\<rparr> = ?s\<lparr>out := x\<rparr>" by (simp add: set_folder_def)
  have p: "t\<lparr>out := x\<rparr>\<lparr>current_path := q\<rparr> = t\<lparr>current_path := q\<rparr>\<lparr>out := x\<rparr>" for t :: fs and q by simp
  have e: "?env (?s\<lparr>out := x\<rparr>) = map_option (\<lambda>t. t\<lparr>out := x\<rparr>) (?env ?s)"
    unfolding p set_env_out by (auto split: option.splits Option.bind_splits)
  have f: "fs_init t = ?env ((set_folder ROOT ?d t)\<lparr>current_dir := ROOT\<rparr>) \<bind> (\<lambda>s2. reg_all fs_commands s2 \<bind> (\<lambda>s3. Some (0, s3)))"
    if "dirs t ROOT = Some d" for t
    using that by (simp add: fs_init_def Let_def)
  have d: "dirs (s\<lparr>out := x\<rparr>) ROOT = Some d" using Some by simp
  show ?thesis unfolding f [OF d] f [OF Some] s1 e
    by (cases "?env ?s") (auto simp: reg_all_out split: Option.bind_splits)
qed (simp add: fs_init_def)

lemma boot_fs_out: "boot_fs e mb (s\<lparr>out := x\<rparr>) = map_option (\<lambda>t. t\<lparr>out := x\<rparr>) (boot_fs e mb s)"
proof -
  let ?s = "s\<lparr>hp := malloc_init e mb (hp s)\<rparr>"
  have b: "boot_fs e mb t = reg ''help'' ''Show commands'' Os_help (t\<lparr>hp := malloc_init e mb (hp t)\<rparr>) \<bind> (\<lambda>s2.
      set_env ''pwd'' ''/'' s2 \<bind> (\<lambda>s3. fs_init s3 \<bind> (\<lambda>(_, s4). Some s4)))" for t
    by (simp add: boot_fs_def Let_def)
  have "s\<lparr>out := x\<rparr>\<lparr>hp := malloc_init e mb (hp (s\<lparr>out := x\<rparr>))\<rparr> = ?s\<lparr>out := x\<rparr>" by simp
  then show ?thesis unfolding b
    by (simp only: reg_out) (auto simp: set_env_out fs_init_out split: Option.bind_splits)
qed

section \<open>The kernel boots\<close>

lemma drives_come_up:
  assumes "pci_space io cfg ok" "ok (world c)" "d < 32" "ahci_at cfg b d"
    and "\<And>b' d'. d' < 32 \<Longrightarrow> b' < b \<or> b' = b \<and> d' < d \<Longrightarrow> \<not> ahci_at cfg b' d'"
    and "base = ucast (cfg (pci_addr b d 0 0x24)) AND NOT 0xF" "controller io ok base ports_impl ssts"
    and "drives_ok dk (drv ds)" "partition_lock ds = 0" "disk_ok dk" "\<forall>p. plain_mbr (dk p 0)"
  obtains c1 c2 ds2 where "ahci_init io (c\<lparr>driver := drv ds\<rparr>) = Some c1"
    "update_tables io c1 (ds\<lparr>drv := driver c1\<rparr>) = Some (c2, ds2)" "partition_lock ds2 = 0"
proof -
  let ?c = "c\<lparr>driver := drv ds\<rparr>"
  have "ok (world ?c)" using assms(2) by simp
  then obtain c1 where c1: "ahci_init io ?c = Some c1" "ok (world c1)"
    "driver c1 = (fold (\<lambda>port. if bit ports_impl port then port_scan_update ssts (int port) else id) [0..<32]
      ((drv ds)\<lparr>ahci_hba_base := base\<rparr>))\<lparr>ahci_initialized := True\<rparr>"
    using ahci_init_returns [OF assms(1) _ assms(3-7), of ?c] by auto
  have f: "ahci_hba_base (fold (\<lambda>port. if bit pi port then port_scan_update ssts (int port) else id) ps a) = ahci_hba_base a" for pi ps a
    by (induction ps arbitrary: a) (simp_all add: same_base)
  have fields: "drives_ok dk (a\<lparr>ahci_hba_base := base\<rparr>) = drives_ok dk a" "drives_ok dk (a\<lparr>ahci_initialized := True\<rparr>) = drives_ok dk a" for a
    by (simp_all add: drives_ok_def table_ok_def ahci_ok_def drives_def)
  have D: "drives_ok dk (driver c1)" "ahci_hba_base (driver c1) = base" "ahci_initialized (driver c1)"
  proof -
    define a where "a = fold (\<lambda>port. if bit ports_impl port then port_scan_update ssts (int port) else id) [0..<32] ((drv ds)\<lparr>ahci_hba_base := base\<rparr>)"
    have "drives_ok dk a" "ahci_hba_base a = base" unfolding a_def f using scan_all_drives_ok assms(8) fields(1) by (blast, simp)
    then show "drives_ok dk (driver c1)" "ahci_hba_base (driver c1) = base" "ahci_initialized (driver c1)"
      unfolding c1(3) a_def [symmetric] fields(2) by simp_all
  qed
  obtain c2 ds2 where "update_tables io c1 (ds\<lparr>drv := driver c1\<rparr>) = Some (c2, ds2)" "partition_lock ds2 = 0"
    using update_tables_returns [of io ok "ds\<lparr>drv := driver c1\<rparr>" ports_impl ssts c1 dk] assms(7,9-11) c1(2) D by auto
  then show thesis using that c1(1) by blast
qed


text \<open>\<open>my_own_os_init\<close> returns at the prompt.\<close>

lemma init_returns:
  assumes "pci_space io cfg ok" "ok (world c)" "d < 32" "ahci_at cfg b d"
    and "\<And>b' d'. d' < 32 \<Longrightarrow> b' < b \<or> b' = b \<and> d' < d \<Longrightarrow> \<not> ahci_at cfg b' d'"
    and "base = ucast (cfg (pci_addr b d 0 0x24)) AND NOT 0xF" "controller io ok base ports_impl ssts"
    and "drives_ok dk (drv ds)" "partition_lock ds = 0" "disk_ok dk" "\<forall>p. plain_mbr (dk p 0)"
    and "info \<noteq> 0" "my_os_get_memory_size_mb m info = Some (of_nat mb)"
    and "ROOT < e" "16 \<le> mb" "unat e + mb * 2 ^ 20 + 2 ^ 24 < 2 ^ 32" "length buf = 512"
  shows "\<exists>c' s'. my_own_os_init io cpuid m e info c (fs0 (heap0 e) ds) = Some (c', s') \<and>
    at_prompt e \<lparr>sh_fs = s', sh_buffer = buf, buf_len = 0\<rparr> \<and> cwd_at s' [] \<and> view s' = [[] \<mapsto> Map.empty] \<and>
    avail 15000000 (hp s') \<and> registered s' \<and> (\<forall>K. fs_ok e K s')"
proof -
  let ?s0 = "fs0 (heap0 e) ds"
  obtain x1 where s1: "say ''Little Linux is Running\<newline>'' [] ?s0 = Some (?s0\<lparr>out := x1\<rparr>)"
    using fits_say [of "''Little Linux is Running\<newline>''" "[]" ?s0] by auto
  obtain x2 where s2: "say ''multiboot_info = 0x%x\<newline>'' [ArgI info] (?s0\<lparr>out := x1\<rparr>) = Some (?s0\<lparr>out := x2\<rparr>)"
    using hex_line [of info "?s0\<lparr>out := x1\<rparr>"] by auto
  obtain n where n: "snd (my_os_get_cpu cpuid 512) = Some n" "length n < 2048" using cpu_name by blast
  obtain x3 where s3: "say ''CPU:%s\<newline>'' [ArgS n] (?s0\<lparr>out := x2\<rparr>) = Some (?s0\<lparr>out := x3\<rparr>)"
    using fits_say [of "''CPU:%s\<newline>''" "[ArgS n]" "?s0\<lparr>out := x2\<rparr>"] n(2) by auto
  obtain x4 where s4: "say ''RAM:%dMB\<newline>'' [ArgI (of_nat mb)] (?s0\<lparr>out := x3\<rparr>) = Some (?s0\<lparr>out := x4\<rparr>)"
    using number_lines(1) [of "of_nat mb" "?s0\<lparr>out := x3\<rparr>"] by auto
  obtain x5 where s5: "say ''calling malloc_init'' [] (?s0\<lparr>out := x4\<rparr>) = Some (?s0\<lparr>out := x5\<rparr>)"
    using fits_say [of "''calling malloc_init''" "[]" "?s0\<lparr>out := x4\<rparr>"] by auto
  note early = s1 s2 n(1) s3 s4 s5 assms(12,13)
  obtain s where s: "boot_fs e (of_nat mb) ?s0 = Some s" "disk s = ds" using boot_fs_returns [OF assms(14-16), of ds UNIV] by blast
  then have s6: "boot_fs e (of_nat mb) (?s0\<lparr>out := x5\<rparr>) = Some (s\<lparr>out := x5\<rparr>)" by (simp add: boot_fs_out)
  obtain c1 c2 ds2 where t: "ahci_init io (c\<lparr>driver := drv ds\<rparr>) = Some c1" "update_tables io c1 (ds\<lparr>drv := driver c1\<rparr>) = Some (c2, ds2)"
    "partition_lock ds2 = 0"
    using drives_come_up [OF assms(1-11)] by blast
  obtain s' where s': "dfs_init (s\<lparr>disk := ds2\<rparr>) = Some s'" "ready e s'" "cwd_at s' []" "view s' = [[] \<mapsto> Map.empty]" "avail 15000000 (hp s')"
    "registered s'" "\<forall>K. fs_ok e K s'"
    using booted_ready [OF assms(14-16) t(3), of ds] s(1) by auto
  let ?t = "s\<lparr>disk := ds2\<rparr>"
  have o: "s\<lparr>out := x5, disk := ds2\<rparr> = ?t\<lparr>out := x5\<rparr>" by simp
  obtain x8 where s8: "say ''Detected %d drive(s)\<newline>'' [ArgI (of_int (drive_count (drv ds2)))] (?t\<lparr>out := x5\<rparr>) = Some (?t\<lparr>out := x8\<rparr>)"
    using number_lines(2) [of _ "?t\<lparr>out := x5\<rparr>"] by auto
  obtain x9 where s9: "report_drives [0..<nat (drive_count (drv ds2))] (?t\<lparr>out := x8\<rparr>) = Some (?t\<lparr>out := x9\<rparr>)"
    using report_returns [of "?t\<lparr>out := x8\<rparr>"] t(3) by auto
  have s10: "dfs_init (?t\<lparr>out := x9\<rparr>) = Some (s'\<lparr>out := x9\<rparr>)" using s'(1) by (simp add: dfs_init_def reg_all_out)
  obtain x11 where s11: "shell_prompt (s'\<lparr>out := x9\<rparr>) = Some (s'\<lparr>out := x11\<rparr>)"
    using prompt_returns [of e "s'\<lparr>out := x9\<rparr>"] s'(2) by auto
  have "my_own_os_init io cpuid m e info c ?s0 = Some (c2, s'\<lparr>out := x11\<rparr>)"
    using early s6 s(2) t(1,2) s8 s9 s10 s11 by (simp add: my_own_os_init_def o Let_def)
  then show ?thesis using s'(2-7) assms(17) by (auto simp: at_prompt_def)
qed

section \<open>Examples\<close>

text \<open>What a boot loader leaves at 0x10000: 32 MB above the first megabyte, and a map at 0x20000 with two usable entries of 1
  and 31 MB and a reserved one.\<close>

definition demo_mem :: "u32 \<Rightarrow> mem" where
  "demo_mem flags = (\<lambda>a. if a = 0x10000 then ucast flags else if a = 0x10009 then 0x80 else if a = 0x1002C then 72 else if a = 0x10032 then 2
     else if a \<in> {0x20000, 0x20018, 0x20030} then 20 else if a = 0x2000E then 0x10 else if a = 0x20014 then 1
     else if a = 0x20026 then 0xF0 else if a = 0x20027 then 1 else if a = 0x2002C then 1 else if a = 0x2003E then 1 else if a = 0x20044 then 2 else 0)"

theorem memory_size_correct_witness:
  "my_os_get_memory_size_mb (demo_mem 0x40) 0x10000 = Some 32"
proof -
  let ?m = "demo_mem 0x40"
  let ?es = "[\<lparr>me_size = 20, me_len = 0x100000, me_type = 1\<rparr>, \<lparr>me_size = 20, me_len = 0x1F00000, me_type = 1\<rparr>, \<lparr>me_size = 20, me_len = 0x10000, me_type = 2\<rparr>]"
  have "ld32 ?m 0x10000 = 0x40" "ld32 ?m (0x10000 + 44) = 72" "ld32 ?m (0x10000 + 48) = 0x20000" "mmap_at ?m 0x20000 ?es"
    by (simp_all add: ld32_def ld64_def demo_mem_def)
  moreover have "mmap_bytes ?es = 72" "usable ?es = 0x2000000" by (simp_all add: mmap_bytes_def usable_def)
  ultimately show ?thesis using memory_size_correct [of ?m "0x10000" ?es] by simp
qed

definition demo_drives :: disk_state where
  "demo_drives = demo_disk\<lparr>drv := demo_ahci\<lparr>ahci_initialized := False, drive_count := 0, hba := ideal_device (\<lambda>_ _. replicate 512 0)\<rparr>\<rparr>"

end
