(* ===== verification/Shell_Spec.thy ===== *)
theory Shell_Spec
  imports Session Ramfs_Props
begin

text \<open>
  The abstract shell and its refinement. The state of the abstract shell is the current path and the tree of folders and files; a
  command with its arguments maps it to the next state. On file names that the file table tells apart, and with memory to
  spare, a line typed at the prompt has the effect of the abstract command, and a sequence of lines that of the sequence of commands.
\<close>

section \<open>The abstract shell\<close>

type_synonym ash = "string list \<times> afs"

fun a_run :: "api \<Rightarrow> string list \<Rightarrow> ash \<Rightarrow> ash" where
  "a_run Fs_mkdir [n] (c, V) = (c, snd (a_mkdir c n n V))"
| "a_run Fs_rmdir [n] (c, V) = (c, snd (a_rmdir c n V))"
| "a_run Fs_touch [n] (c, V) = (c, snd (a_touch (\<lambda>_ f. f) c n V))"
| "a_run Fs_rm [n] (c, V) = (c, snd (a_rm (\<lambda>_ f. f) c n V))"
| "a_run Fs_write [n, t] (c, V) = (c, snd (a_write c n (bytes_of t) V))"
| "a_run Fs_cd [p] (c, V) = (case apath (\<lambda>x. V x \<noteq> None) c p of None \<Rightarrow> (c, V) | Some c' \<Rightarrow> (c', V))"
| "a_run f ws st = st"

text \<open>The commands and the numbers of arguments that the refinement covers, with the file names they may use. Options are left out.\<close>

fun covered :: "string set \<Rightarrow> api \<Rightarrow> string list \<Rightarrow> bool" where
  "covered K Fs_mkdir [n] = (n \<in> K)"
| "covered K Fs_rmdir [n] = True"
| "covered K Fs_touch [n] = (snd (split_last n) \<in> K)"
| "covered K Fs_rm [n] = (snd (split_last n) \<in> K)"
| "covered K Fs_write [n, t] = (n \<in> K)"
| "covered K Fs_cd [p] = True"
| "covered K Fs_cat [n] = True"
| "covered K Fs_ls ws = True"
| "covered K Fs_pwd ws = True"
| "covered K Fs_lsblk ws = True"
| "covered K Fs_mount ws = True"
| "covered K Fs_umount ws = True"
| "covered K Fs_mkfs ws = True"
| "covered K Os_help ws = True"
| "covered K f ws = False"

section \<open>One command\<close>

text \<open>The abstract state \<open>st\<close> of a state with the invariant.\<close>

definition stands :: "u32 \<Rightarrow> string set \<Rightarrow> ash \<Rightarrow> fs \<Rightarrow> bool" where
  "stands e K st s \<longleftrightarrow> ready e s \<and> fs_ok e K s \<and> cwd_at s (fst st) \<and> view s = snd st"

lemma stands_out [simp]: "stands e K st (s\<lparr>out := x\<rparr>) = stands e K st s"
  by (simp add: stands_def)

lemma stands_after:
  assumes "ready e s" "fs_ok e K s1" "cwd_at s1 c" "prints s1 res" "keeps s res"
  shows "\<exists>r s'. res = Some (r, s') \<and> stands e K (c, view s1) s'"
proof -
  obtain r x where r: "res = Some (r, s1\<lparr>out := x\<rparr>)" using assms(4) by (auto simp: prints_def)
  then have "kept s (s1\<lparr>out := x\<rparr>)" using assms(5) by (simp add: keepsD)
  then have "ready e (s1\<lparr>out := x\<rparr>)" using ready_kept [OF assms(1)] fs_ok_UNIV [OF assms(2)] by simp
  then show ?thesis using r assms(2,3) by (auto simp: stands_def)
qed

definition plenty :: "fs \<Rightarrow> bool" where
  "plenty s \<longleftrightarrow> avail 1024 (hp s) \<and> short_paths s"

lemma sim_stands:
  assumes S: "stands e K (c, V) s" and sim: "simulates e K c s op spec oom"
    and P: "\<And>r s1. op = Some (r, s1) \<Longrightarrow> prints s1 res \<and> oom \<noteq> Some r" and k: "keeps s res"
  shows "\<exists>r s'. res = Some (r, s') \<and> stands e K (c, snd spec) s'"
proof -
  obtain r s1 where o: "op = Some (r, s1)" "fs_ok e K s1" "cwd_at s1 c" "(r, view s1) = spec \<or> oom = Some r"
    using sim by (auto simp: simulates_def)
  then have "view s1 = snd spec" using P by force
  then show ?thesis using stands_after [of e s K s1 c res] S P [OF o(1)] o(2,3) k by (auto simp: stands_def)
qed

text \<open>Each command with its arguments; \<open>cmd\<close> is the name under which it was called.\<close>

lemma mkdir_stands:
  assumes S: "stands e K (c, V) s" "plenty s" and K: "no_confusion K" "n \<in> K" and n: "hd n \<noteq> CHR ''-''" "length n < 512"
  shows "\<exists>r s'. fs_mkdir_api [cmd, n] s = Some (r, s') \<and> stands e K (a_run Fs_mkdir [n] (c, V)) s'"
proof -
  have ok: "fs_ok e K s" "cwd_at s c" "view s = V" "avail 1024 (hp s)" using S by (simp_all add: stands_def plenty_def)
  have f: "fname s c n = n" using fname_here [OF ok(1,2) K] .
  have p: "prints s1 (fs_mkdir_api [cmd, n] s) \<and> Some (- 5) \<noteq> Some r" if "fs_mkdir (Some n) None s = Some (r, s1)" for r s1
    using that n mkdir_enough [OF ok(1,2,4) _ that] by (auto simp: fs_mkdir_api_def)
  show ?thesis
    using sim_stands [OF S(1) mkdir_sim [OF ok(1,2), of n] p keeps_ramfs_commands(1)] ok(3) f by simp
qed

lemma rmdir_stands:
  assumes S: "stands e K (c, V) s" and n: "hd n \<noteq> CHR ''-''" "length n < 512"
  shows "\<exists>r s'. fs_rmdir_api [cmd, n] s = Some (r, s') \<and> stands e K (a_run Fs_rmdir [n] (c, V)) s'"
proof -
  have ok: "fs_ok e K s" "cwd_at s c" "view s = V" using S by (simp_all add: stands_def)
  have p: "prints s1 (fs_rmdir_api [cmd, n] s) \<and> None \<noteq> Some r" if "fs_rmdir (Some n) None s = Some (r, s1)" for r s1
    using that n by (auto simp: fs_rmdir_api_def)
  show ?thesis
    using sim_stands [OF S rmdir_sim [OF ok(1,2), of n] p keeps_ramfs_commands(2)] ok(3) by simp
qed

lemma touch_stands:
  assumes S: "stands e K (c, V) s" "plenty s" and K: "no_confusion K" "snd (split_last n) \<in> K" and n: "hd n \<noteq> CHR ''-''" "length n < 512"
  shows "\<exists>r s'. fs_touch_api [cmd, n] s = Some (r, s') \<and> stands e K (a_run Fs_touch [n] (c, V)) s'"
proof -
  have ok: "fs_ok e K s" "cwd_at s c" "view s = V" "avail 1024 (hp s)" using S by (simp_all add: stands_def plenty_def)
  have p: "prints s1 (fs_touch_api [cmd, n] s) \<and> Some (- 5) \<noteq> Some r" if "fs_touch (Some n) None s = Some (r, s1)" for r s1
    using that n touch_enough [OF ok(1,2,4) _ that] by (auto simp: fs_touch_api_def)
  show ?thesis
    using sim_stands [OF S(1) touch_sim [OF ok(1,2) K(2)] p keeps_ramfs_commands(4)] keys_here(1) [OF ok(1,2) K n(2)] ok(3) by simp
qed

lemma rm_stands:
  assumes S: "stands e K (c, V) s" and K: "no_confusion K" "snd (split_last n) \<in> K" and n: "hd n \<noteq> CHR ''-''" "length n < 512"
  shows "\<exists>r s'. fs_rm_api [cmd, n] s = Some (r, s') \<and> stands e K (a_run Fs_rm [n] (c, V)) s'"
proof -
  have ok: "fs_ok e K s" "cwd_at s c" "view s = V" using S by (simp_all add: stands_def)
  have p: "prints s1 (fs_rm_api [cmd, n] s) \<and> None \<noteq> Some r" if "fs_rm (Some n) None s = Some (r, s1)" for r s1
    using that n by (auto simp: fs_rm_api_def)
  show ?thesis
    using sim_stands [OF S(1) rm_sim [OF ok(1,2) n(2)] p keeps_ramfs_commands(3)] keys_here(2) [OF ok(1,2) K n(2)] ok(3) by simp
qed

lemma write_stands:
  assumes S: "stands e K (c, V) s" "plenty s" and K: "no_confusion K" "n \<in> K" and n: "length n < 512" "length t < 512"
  shows "\<exists>r s'. fs_write_api [cmd, n, t] s = Some (r, s') \<and> stands e K (a_run Fs_write [n, t] (c, V)) s'"
proof -
  let ?l = "of_nat (length t) :: u32"
  let ?op = "fs_write (Some n) (Some (bytes_of t)) ?l None s"
  have ok: "fs_ok e K s" "cwd_at s c" "view s = V" "avail 1024 (hp s)" using S by (simp_all add: stands_def plenty_def)
  have l: "unat ?l = length t" using n(2) by (simp add: unat_of_nat)
  have b: "unat ?l \<le> length (bytes_of t)" "unat ?l \<le> 2 ^ 32 - 8" "unat ?l + 32 \<le> 1024" using l n(2) by (simp_all add: bytes_of_def)
  have m: "r \<noteq> - 4" if "?op = Some (r, s1)" for r s1 using write_enough [OF ok(1,2,4) b(3,2) that] by simp
  then have "simulates e K c s ?op (a_write c (fname s c n) (take (unat ?l) (bytes_of t)) (view s)) None"
    using write_sim [OF ok(1,2) b(1,2)] by blast
  moreover have "fname s c n = n" "take (unat ?l) (bytes_of t) = bytes_of t" using fname_here [OF ok(1,2) K] l by (simp_all add: bytes_of_def)
  ultimately have sim: "simulates e K c s ?op (a_write c n (bytes_of t) V) None" using ok(3) by simp
  have p: "prints s1 (fs_write_api [cmd, n, t] s) \<and> None \<noteq> Some r" if "?op = Some (r, s1)" for r s1
    using that n by (auto simp: fs_write_api_def)
  show ?thesis using sim_stands [OF S(1) sim p keeps_ramfs_commands(5)] by simp
qed

lemma cd_stands:
  assumes S: "stands e K (c, V) s" "plenty s" and n: "hd p \<noteq> CHR ''-''" "length p < 512"
  shows "\<exists>r s'. fs_cd_api [cmd, p] s = Some (r, s') \<and> stands e K (a_run Fs_cd [p] (c, V)) s'"
proof -
  have ok: "fs_ok e K s" "cwd_at s c" "view s = V" "short_paths s" "ready e s" using S by (simp_all add: stands_def plenty_def)
  note C = cd_spec [OF ok(1,2) n(2)]
  show ?thesis
  proof (cases "apath (\<lambda>x. view s x \<noteq> None) c p")
    case None
    then have "prints s (fs_cd_api [cmd, p] s)" using C n by (auto simp: fs_cd_api_def)
    then show ?thesis using stands_after [OF ok(5,1,2) _ keeps_ramfs_commands(7)] None ok(3) by simp
  next
    case (Some c')
    then have l: "length (path_text c') < 512"
      using get_dir_spec(2) [OF core_okD(2) [OF fs_okD(1) [OF ok(1)]] _ n(2), of c "current_dir s" c'] ok(2,4) view_is_dir [of s c']
      by (auto simp: view_dir cwd_at_def short_paths_def)
    obtain s1 where s1: "fs_cd (Some p) s = Some (0, s1)" "fs_ok e K s1" "cwd_at s1 c'" "view s1 = view s"
      using C Some l by (auto split: if_splits)
    then have "prints s1 (fs_cd_api [cmd, p] s)" using n by (auto simp: fs_cd_api_def)
    then show ?thesis using stands_after [OF ok(5) s1(2,3) _ keeps_ramfs_commands(7)] s1(4) ok(3) Some by simp
  qed
qed

lemma cat_prints:
  assumes "stands e K st s" "length n < 512"
  shows "prints s (fs_cat_api [cmd, n] s)"
proof -
  have ok: "fs_ok e K s" "cwd_at s (fst st)" using assms by (simp_all add: stands_def)
  show ?thesis using cat_spec [OF ok, of n] by (auto simp: fs_cat_api_def split: option.splits)
qed

text \<open>The commands that only print.\<close>

lemma print_stands:
  assumes S: "stands e K st s" and A: "short_args ws" "length cmd < 512" and F: "covered K f ws"
    and f: "f \<in> {Fs_cat, Fs_ls, Fs_pwd, Fs_lsblk, Fs_mount, Fs_umount, Fs_mkfs, Os_help}"
  shows "\<exists>r s'. run_api depth f (cmd # ws) s = Some (r, s') \<and> stands e K st s'"
proof -
  have ok: "fs_ok e UNIV s" "partition_lock (disk s) = 0" "short_commands s" using S by (simp_all add: stands_def ready_def)
  have a: "short_args (cmd # ws)" using A by simp
  have "length (current_path s) < 2048" using S by (auto simp: stands_def cwd_at_def)
  then have pwd: "prints s (fs_pwd_api argv s)" for argv by (auto simp: fs_pwd_api_def)
  have cat: "prints s (fs_cat_api (cmd # ws) s)" if "f = Fs_cat"
    using cat_prints [OF S, of "hd ws" cmd] F A(1) that by (cases "(K, f, ws)" rule: covered.cases) simp_all
  have "prints s (run_api depth f (cmd # ws) s)"
    using f cat pwd ls_api_text [OF ok(1), of "cmd # ws"] lsblk_api_prints [OF ok(2)] mount_api_prints [OF ok(1,2) a]
      umount_api_prints [OF ok(1) a, of depth] mkfs_api_prints [OF ok(2) a] help_prints [OF ok(3)]
    by (auto simp: prints_def)
  then show ?thesis using S by (auto simp: prints_def)
qed

text \<open>An argument that is not an option.\<close>

abbreviation (input) operands :: "string list \<Rightarrow> bool" where
  "operands ws \<equiv> list_all (\<lambda>w. word_text w \<and> hd w \<noteq> CHR ''-'') ws"

lemma run_stands:
  assumes S: "stands e K st s" "plenty s" and K: "no_confusion K" and C: "covered K f ws" "operands ws" "short_args ws" "length cmd < 512"
  shows "\<exists>r s'. run_api depth f (cmd # ws) s = Some (r, s') \<and> stands e K (a_run f ws st) s' \<and> command_map s' = command_map s"
proof -
  obtain c V where st: "st = (c, V)" by fastforce
  note S1 = S(1) [unfolded st]
  have "\<exists>r s'. run_api depth f (cmd # ws) s = Some (r, s') \<and> stands e K (a_run f ws st) s'"
  proof (cases "f \<in> {Fs_cat, Fs_ls, Fs_pwd, Fs_lsblk, Fs_mount, Fs_umount, Fs_mkfs, Os_help}")
    case True
    then have "a_run f ws st = st" by auto
    then show ?thesis using print_stands [OF S(1) C(3,4,1) True, of depth] by simp
  next
    case False
    then show ?thesis
      using C(1-3) mkdir_stands [OF S1 S(2) K] rmdir_stands [OF S1] touch_stands [OF S1 S(2) K] rm_stands [OF S1 K]
        write_stands [OF S1 S(2) K] cd_stands [OF S1 S(2)]
      by (cases "(K, f, ws)" rule: covered.cases) (simp_all add: st)
  qed
  moreover have "keeps s (run_api depth f (cmd # ws) s)" using run_api_keeps [of e s "cmd # ws" depth f] S(1) C(3,4) by (simp add: stands_def)
  ultimately show ?thesis by (auto simp: keeps_def kept_def)
qed

section \<open>Lines and sessions\<close>

type_synonym line = "string \<times> string list"

definition line_text :: "line \<Rightarrow> string" where
  "line_text l = join (CHR '' '') (fst l # snd l) @ [CHR 0x0A]"

definition apis :: "shell \<Rightarrow> string \<Rightarrow> api option" where
  "apis sh cmd = map_option ce_func (find_command (command_map (sh_fs sh)) cmd)"

definition good_line :: "string set \<Rightarrow> (string \<Rightarrow> api option) \<Rightarrow> line \<Rightarrow> bool" where
  "good_line K ap l \<longleftrightarrow> (case l of (cmd, ws) \<Rightarrow> (case ap cmd of None \<Rightarrow> False | Some f \<Rightarrow> covered K f ws) \<and>
     word_text cmd \<and> length cmd \<le> 63 \<and> operands ws \<and> length ws \<le> 63 \<and> length (line_text l) \<le> 512)"

definition a_line :: "(string \<Rightarrow> api option) \<Rightarrow> line \<Rightarrow> ash \<Rightarrow> ash" where
  "a_line ap l st = (case ap (fst l) of None \<Rightarrow> st | Some f \<Rightarrow> a_run f (snd l) st)"

lemma join_lengths: "w \<in> set ws \<Longrightarrow> length w \<le> length (join z ws)"
  by (induction z ws rule: join.induct) auto

lemma line_stands:
  assumes P: "at_prompt e sh" "stands e K st (sh_fs sh)" "plenty (sh_fs sh)" and K: "no_confusion K" and l: "good_line K (apis sh) l"
  shows "\<exists>sh'. shell_run depth (line_text l) sh = Some sh' \<and> at_prompt e sh' \<and> stands e K (a_line (apis sh) l st) (sh_fs sh') \<and> apis sh' = apis sh"
proof -
  obtain cmd ws where lw: "l = (cmd, ws)" by fastforce
  obtain ce where ce: "find_command (command_map (sh_fs sh)) cmd = Some ce" "covered K (ce_func ce) ws"
    using l by (auto simp: lw good_line_def apis_def split: option.splits)
  have L: "word_text cmd" "length cmd \<le> 63" "operands ws" "length ws \<le> 63" "length (join (CHR '' '') (cmd # ws)) < 512"
    using l by (auto simp: lw good_line_def line_text_def)
  have w: "list_all word_text ws" using L(3) by (auto elim: list.pred_mono_strong)
  have sa: "short_args ws" "length cmd < 512" using join_lengths [of _ "cmd # ws" "CHR '' ''"] L(5) by fastforce+
  let ?Q = "\<lambda>s'. stands e K (a_line (apis sh) l st) s' \<and> command_map s' = command_map (sh_fs sh)"
  have "\<exists>r s'. run_api depth (ce_func ce) (cmd # ws) ((sh_fs sh)\<lparr>out := x\<rparr>) = Some (r, s') \<and> ready e s' \<and> ?Q s'" for x
  proof -
    have "stands e K st ((sh_fs sh)\<lparr>out := x\<rparr>)" "plenty ((sh_fs sh)\<lparr>out := x\<rparr>)" using P(2,3) by (simp_all add: plenty_def short_paths_def)
    from run_stands [OF this K ce(2) L(3) sa, of depth] show ?thesis using ce(1) by (auto simp: stands_def a_line_def lw apis_def)
  qed
  from typed_words [OF P(1) L(1) w L(2,4,5) ce(1) this] show ?thesis by (fastforce simp: lw line_text_def apis_def)
qed

text \<open>The states that typing lines leads to, as long as there is memory to spare.\<close>

inductive typed :: "nat \<Rightarrow> shell \<Rightarrow> line list \<Rightarrow> shell \<Rightarrow> bool" for depth sh0 where
  none: "typed depth sh0 [] sh0"
| more: "typed depth sh0 ls sh \<Longrightarrow> plenty (sh_fs sh) \<Longrightarrow> shell_run depth (line_text l) sh = Some sh' \<Longrightarrow> typed depth sh0 (ls @ [l]) sh'"

lemma typed_stands:
  assumes "typed depth sh0 ls sh" and P: "at_prompt e sh0" "stands e K st (sh_fs sh0)" "no_confusion K"
    and "\<forall>l\<in>set ls. good_line K (apis sh0) l"
  shows "at_prompt e sh \<and> stands e K (fold (a_line (apis sh0)) ls st) (sh_fs sh) \<and> apis sh = apis sh0"
  using assms(1,5)
proof (induction rule: typed.induct)
  case none
  then show ?case using P by simp
next
  case (more ls sh l sh')
  then show ?case using line_stands [of e sh K "fold (a_line (apis sh0)) ls st" l depth] P(3) by auto
qed


section \<open>Examples\<close>

lemma apis_registered: "registered (sh_fs sh) \<Longrightarrow> (k, d, f) \<in> set all_commands \<Longrightarrow> apis sh k = Some f"
  by (fastforce simp: registered_def apis_def)

lemma demo_good:
  assumes "registered (sh_fs sh)"
  shows "good_line {''docs''} (apis sh) (''mkdir'', [''docs''])"
proof -
  have "apis sh ''mkdir'' = Some Fs_mkdir"
    using apis_registered [OF assms, of "''mkdir''" "''Create a directory''"] by (simp add: all_commands_def fs_commands_def)
  then show ?thesis by (simp add: good_line_def line_text_def word_text_def printable_def)
qed

lemma demo_stands:
  "\<exists>sh. at_prompt 0x200000 sh \<and> stands 0x200000 {''docs''} ([], [[] \<mapsto> Map.empty]) (sh_fs sh) \<and> plenty (sh_fs sh) \<and> registered (sh_fs sh)"
proof -
  obtain sh where sh: "at_prompt 0x200000 sh" "\<forall>K. fs_ok 0x200000 K (sh_fs sh)" "cwd_at (sh_fs sh) []" "view (sh_fs sh) = [[] \<mapsto> Map.empty]"
    "avail 15000000 (hp (sh_fs sh))" "registered (sh_fs sh)" using demo_prompt by blast
  have "plenty (sh_fs sh)" using sh(4) avail_mono [OF sh(5), of 1024] by (auto simp: plenty_def short_paths_def path_text_def split: if_splits)
  then show ?thesis using sh by (intro exI [of _ sh]) (simp add: stands_def at_prompt_def)
qed


end
