(* ===== verification/Line_Edit.thy ===== *)
theory Line_Edit
  imports Session
begin

text \<open>
  The line editor of \<^verbatim>\<open>my_own_os_main\<close>: what the buffer holds after any sequence of characters and backspaces, against a
  reference editor on strings, and the bound of the buffer of 512 bytes, which the code does not check.
\<close>

section \<open>The reference editor\<close>

abbreviation (input) BS :: char where "BS \<equiv> CHR 0x08"

text \<open>A backspace removes the last character, any other key appends; None is a key too many.\<close>

fun edit_line :: "string \<Rightarrow> string \<Rightarrow> string option" where
  "edit_line l [] = Some l"
| "edit_line l (c # ks) =
     (if c = BS then edit_line (butlast l) ks else if length l < 512 then edit_line (l @ [c]) ks else None)"

definition edit_key :: "char \<Rightarrow> bool" where
  "edit_key c \<longleftrightarrow> printable c \<or> c = BS"

lemma edit_line_printable:
  "list_all printable ks \<Longrightarrow> length l \<le> 512 \<Longrightarrow> edit_line l ks = (if length l + length ks \<le> 512 then Some (l @ ks) else None)"
  by (induction ks arbitrary: l) (auto simp: printable_def)

section \<open>The buffer\<close>

text \<open>The shell edits the line \<open>l\<close>; \<open>sh0\<close> is the state at the prompt.\<close>

definition editing :: "shell \<Rightarrow> string \<Rightarrow> shell \<Rightarrow> bool" where
  "editing sh0 l sh \<longleftrightarrow> length (sh_buffer sh) = 512 \<and> length l \<le> 512 \<and> buf_len sh = length l \<and>
     take (length l) (sh_buffer sh) = l \<and> (\<exists>x. sh_fs sh = (sh_fs sh0)\<lparr>out := x\<rparr>)"

lemma key_editing:
  assumes "editing sh0 l sh" "edit_key c"
  shows "case edit_line l [c] of
    None \<Rightarrow> shell_input depth c sh = None
  | Some l' \<Rightarrow> \<exists>sh'. shell_input depth c sh = Some sh' \<and> editing sh0 l' sh'"
proof -
  have E: "length (sh_buffer sh) = 512" "length l \<le> 512" "buf_len sh = length l" "take (length l) (sh_buffer sh) = l"
    using assms(1) by (simp_all add: editing_def)
  obtain y where y: "sh_fs sh = (sh_fs sh0)\<lparr>out := y\<rparr>" using assms(1) by (auto simp: editing_def)
  have nz: "c \<noteq> NUL" "c \<noteq> CHR 0x0A" "c \<noteq> CHR 0x0D" using assms(2) by (auto simp: edit_key_def printable_def)
  show ?thesis
  proof (cases "c = BS")
    case True
    obtain x where x: "say [BS, CHR '' '', BS] [] (sh_fs sh) = Some ((sh_fs sh)\<lparr>out := x\<rparr>)"
      using fits_say [of "[BS, CHR '' '', BS]" "[]" "sh_fs sh"] by auto
    have b: "take (length l - 1) ((sh_buffer sh)[length l - 1 := NUL]) = butlast l" if "l \<noteq> []"
      using E(4) by (simp add: butlast_conv_take) (metis diff_le_self min.absorb1 take_take)
    show ?thesis
    proof (cases "l = []")
      case True
      then show ?thesis using \<open>c = BS\<close> E assms(1) by (simp add: shell_input_def)
    next
      case False
      then show ?thesis using \<open>c = BS\<close> E x y b by (auto simp: shell_input_def put_char_def editing_def)
    qed
  next
    case False
    obtain x where x: "say ''%c'' [ArgI (ucast (of_char c :: u8))] (sh_fs sh) = Some ((sh_fs sh)\<lparr>out := x\<rparr>)" using say_char by blast
    have "take (Suc (length l)) ((sh_buffer sh)[length l := c]) = l @ [c]" if "length l < 512"
      using that E(1,4) by (simp add: take_Suc_conv_app_nth)
    then show ?thesis using False nz E x y by (auto simp: shell_input_def put_char_def editing_def)
  qed
qed

lemma keys_editing:
  "editing sh0 l sh \<Longrightarrow> list_all edit_key ks \<Longrightarrow>
   (case edit_line l ks of
      None \<Rightarrow> shell_run depth ks sh = None
    | Some l' \<Rightarrow> \<exists>sh'. shell_run depth ks sh = Some sh' \<and> editing sh0 l' sh')"
proof (induction ks arbitrary: l sh)
  case (Cons c ks)
  then have k: "edit_key c" "list_all edit_key ks" by simp_all
  show ?case
  proof (cases "edit_line l [c]")
    case None
    then show ?thesis using key_editing [OF Cons.prems(1) k(1), of depth] by (simp split: if_splits)
  next
    case (Some l1)
    then obtain sh1 where s: "shell_input depth c sh = Some sh1" "editing sh0 l1 sh1"
      using key_editing [OF Cons.prems(1) k(1), of depth] by auto
    have "edit_line l (c # ks) = edit_line l1 ks" using Some by (auto split: if_splits)
    then show ?thesis using Cons.IH [OF s(2) k(2)] s(1) by (simp split: option.splits)
  qed
qed simp

lemma prompt_editing: "at_prompt e sh \<Longrightarrow> editing sh [] sh"
  by (auto simp: at_prompt_def editing_def intro: exI [of _ "out (sh_fs sh)"])

text \<open>C15. The line editor is the reference editor: from the prompt, after any sequence of printable characters and backspaces
  the first \<open>buf_len\<close> characters of the buffer are the line that the reference editor yields, and nothing but the
  output has changed; the editor writes outside its buffer exactly when the reference editor has no place for a key.\<close>

theorem line_editing:
  assumes "at_prompt e sh" "list_all edit_key ks"
  shows "case edit_line [] ks of
    None \<Rightarrow> shell_run depth ks sh = None
  | Some l \<Rightarrow> \<exists>x b. shell_run depth ks sh = Some \<lparr>sh_fs = (sh_fs sh)\<lparr>out := x\<rparr>, sh_buffer = b, buf_len = length l\<rparr> \<and>
      length b = 512 \<and> take (length l) b = l"
proof -
  have "\<exists>x b. sh' = \<lparr>sh_fs = (sh_fs sh)\<lparr>out := x\<rparr>, sh_buffer = b, buf_len = length l\<rparr> \<and> length b = 512 \<and> take (length l) b = l"
    if "editing sh l sh'" for l sh'
    using that by (cases sh') (auto simp: editing_def)
  then show ?thesis
    using keys_editing [OF prompt_editing [OF assms(1)] assms(2), of depth] by (auto split: option.splits)
qed

text \<open>C21. The bound of the line buffer: printable characters typed at the prompt are stored inside the buffer exactly as long as
  there are at most 512 of them, and after 512 the newline stores its terminating zero outside the buffer.\<close>

theorem line_buffer_bound:
  assumes "at_prompt e sh" "list_all printable ks"
  shows "(shell_run depth ks sh = None \<longleftrightarrow> 512 < length ks) \<and>
    (512 \<le> length ks \<longrightarrow> shell_run depth (ks @ [CHR 0x0A]) sh = None)"
proof -
  have k: "list_all edit_key ks" using assms(2) by (auto simp: list_all_iff edit_key_def)
  note E = keys_editing [OF prompt_editing [OF assms(1)] k, of depth]
  have l: "edit_line [] ks = (if length ks \<le> 512 then Some ks else None)" using edit_line_printable [OF assms(2), of "[]"] by simp
  show ?thesis
  proof (cases "length ks \<le> 512")
    case True
    then obtain sh' where s: "shell_run depth ks sh = Some sh'" "editing sh ks sh'" using E l by auto
    then have "shell_input depth (CHR 0x0A) sh' = None" if "512 \<le> length ks"
      using that True by (simp add: editing_def shell_input_def put_char_def)
    then show ?thesis using True s(1) by (simp add: shell_run_append)
  next
    case False
    then show ?thesis using E l by (simp add: shell_run_append)
  qed
qed

section \<open>Examples\<close>

theorem line_editing_witness:
  "\<exists>sh x b. shell_run 8 (''lx'' @ [BS] @ ''s'') sh = Some \<lparr>sh_fs = (sh_fs sh)\<lparr>out := x\<rparr>, sh_buffer = b, buf_len = 2\<rparr> \<and> take 2 b = ''ls''"
proof -
  obtain sh where "at_prompt 0x200000 sh" using demo_prompt by blast
  moreover have "list_all edit_key (''lx'' @ [BS] @ ''s'')" "edit_line [] (''lx'' @ [BS] @ ''s'') = Some ''ls''"
    by (simp_all add: edit_key_def printable_def)
  ultimately show ?thesis using line_editing [of "0x200000" sh "''lx'' @ [BS] @ ''s''" 8]
    by (simp del: append.simps) (metis numeral_2_eq_2)
qed

theorem line_buffer_bound_witness:
  "\<exists>sh. shell_run 8 (replicate 512 CHR ''a'') sh \<noteq> None \<and> shell_run 8 (replicate 512 CHR ''a'' @ [CHR 0x0A]) sh = None"
proof -
  obtain sh where "at_prompt 0x200000 sh" using demo_prompt by blast
  moreover have "list_all printable (replicate 512 CHR ''a'')" by (simp add: list_all_iff printable_def)
  ultimately show ?thesis using line_buffer_bound [of "0x200000" sh "replicate 512 CHR ''a''" 8] by (metis length_replicate less_irrefl order.refl)
qed

end
