(* ===== verification/Queue_Interface.thy ===== *)
theory Queue_Interface
  imports Prelude
begin

text \<open>
  The contract of a bounded FIFO queue that drops what does not fit, the interface between the
  keyboard interrupt (producer) and the readers of characters (consumer). \<open>contents\<close> is the abstract
  queue, oldest element first.
\<close>

locale bounded_queue =
  fixes enq :: "'a \<Rightarrow> 's \<Rightarrow> 's"
    and deq :: "'s \<Rightarrow> ('a \<times> 's) option"
    and contents :: "'s \<Rightarrow> 'a list"
    and ok :: "'s \<Rightarrow> bool"
    and capacity :: nat
  assumes enq_ok: "ok s \<Longrightarrow> ok (enq x s)"
    and enq_room: "ok s \<Longrightarrow> length (contents s) < capacity \<Longrightarrow> contents (enq x s) = contents s @ [x]"
    and enq_full: "ok s \<Longrightarrow> length (contents s) = capacity \<Longrightarrow> enq x s = s"
    and deq_empty: "ok s \<Longrightarrow> contents s = [] \<Longrightarrow> deq s = None"
    and deq_cons: "ok s \<Longrightarrow> contents s = x # xs \<Longrightarrow> \<exists>s'. deq s = Some (x, s') \<and> ok s' \<and> contents s' = xs"
    and bounded: "ok s \<Longrightarrow> length (contents s) \<le> capacity"
begin

lemma enq_contents:
  "ok s \<Longrightarrow> contents (enq x s) = take capacity (contents s @ [x])"
  using bounded [of s] enq_room [of s x] enq_full [of s x]
  by (cases "length (contents s) < capacity") auto

lemma enq_all:
  assumes "ok s"
  shows "ok (fold enq xs s) \<and> contents (fold enq xs s) = take capacity (contents s @ xs)"
  using assms
proof (induction xs arbitrary: s)
  case Nil
  then show ?case using bounded [of s] by simp
next
  case (Cons x xs)
  have "contents (fold enq (x # xs) s) = take capacity (take capacity (contents s @ [x]) @ xs)"
    using Cons.IH [OF enq_ok [OF Cons.prems]] enq_contents [OF Cons.prems] by simp
  also have "\<dots> = take capacity (contents s @ x # xs)"
    by (cases "length (contents s) < capacity") (simp_all add: Suc_le_eq)
  finally show ?case using Cons.IH [OF enq_ok [OF Cons.prems]] by simp
qed

text \<open>Reading \<open>n\<close> elements.\<close>

fun deq_list :: "nat \<Rightarrow> 's \<Rightarrow> ('a list \<times> 's) option" where
  "deq_list 0 s = Some ([], s)"
| "deq_list (Suc n) s =
     (case deq s of None \<Rightarrow> None
      | Some (x, s') \<Rightarrow> map_option (\<lambda>(xs, s''). (x # xs, s'')) (deq_list n s'))"

lemma deq_list_contents:
  assumes "ok s" "n \<le> length (contents s)"
  shows "\<exists>s'. deq_list n s = Some (take n (contents s), s') \<and> ok s' \<and> contents s' = drop n (contents s)"
  using assms
proof (induction n arbitrary: s)
  case 0
  then show ?case by simp
next
  case (Suc n)
  then obtain x xs where c: "contents s = x # xs" by (cases "contents s") auto
  then obtain s1 where s1: "deq s = Some (x, s1)" "ok s1" "contents s1 = xs"
    using deq_cons Suc.prems(1) by blast
  then obtain s' where "deq_list n s1 = Some (take n xs, s')" "ok s'" "contents s' = drop n xs"
    using Suc.IH [of s1] Suc.prems(2) c by auto
  then show ?case using s1 c by simp
qed

end

end
