(* ===== verification/Keyboard.thy ===== *)
theory Keyboard
  imports Queue_Interface
begin

text \<open>
  The keyboard driver, \<^verbatim>\<open>drivers/src/keyboard.c\<close> and \<^verbatim>\<open>drivers/includes/keyboard.h\<close>: the key tables,
  the interrupt handler with its multi-byte scan codes, shift and caps lock, and the ring buffer
  between the handler and the readers. An interrupt is a pair of the bytes that port 0x60 and port
  0x64 return when the handler reads them. \<^verbatim>\<open>scanToKeycode\<close> has 512 entries but is indexed with
  16-bit codes; the model keeps a cell for every 16-bit index and logs in \<open>kb_oob\<close> the indices that
  lie outside the array (and 6-byte overruns of the scan code buffer) instead of corrupting other
  variables.

  The ring buffer interprets the locale \<open>bounded_queue\<close>. The blocking reader consumes the
  interrupts that arrive while it waits; None means that it still waits when no more arrive.
\<close>

section \<open>Key codes\<close>

abbreviation (input) KEY_ESC :: u8 where "KEY_ESC \<equiv> 0x0"
abbreviation (input) KEY_F1 :: u8 where "KEY_F1 \<equiv> 0x1"
abbreviation (input) KEY_F2 :: u8 where "KEY_F2 \<equiv> 0x2"
abbreviation (input) KEY_F3 :: u8 where "KEY_F3 \<equiv> 0x3"
abbreviation (input) KEY_F4 :: u8 where "KEY_F4 \<equiv> 0x4"
abbreviation (input) KEY_F5 :: u8 where "KEY_F5 \<equiv> 0x5"
abbreviation (input) KEY_F6 :: u8 where "KEY_F6 \<equiv> 0x6"
abbreviation (input) KEY_F7 :: u8 where "KEY_F7 \<equiv> 0x7"
abbreviation (input) KEY_F8 :: u8 where "KEY_F8 \<equiv> 0x8"
abbreviation (input) KEY_F9 :: u8 where "KEY_F9 \<equiv> 0x9"
abbreviation (input) KEY_F10 :: u8 where "KEY_F10 \<equiv> 0xa"
abbreviation (input) KEY_F11 :: u8 where "KEY_F11 \<equiv> 0xb"
abbreviation (input) KEY_F12 :: u8 where "KEY_F12 \<equiv> 0xc"
abbreviation (input) KEY_PRSCR :: u8 where "KEY_PRSCR \<equiv> 0xd"
abbreviation (input) KEY_INS :: u8 where "KEY_INS \<equiv> 0xe"
abbreviation (input) KEY_DEL :: u8 where "KEY_DEL \<equiv> 0xf"
abbreviation (input) KEY_GRAVE :: u8 where "KEY_GRAVE \<equiv> 0x20"
abbreviation (input) KEY_1 :: u8 where "KEY_1 \<equiv> 0x21"
abbreviation (input) KEY_2 :: u8 where "KEY_2 \<equiv> 0x22"
abbreviation (input) KEY_3 :: u8 where "KEY_3 \<equiv> 0x23"
abbreviation (input) KEY_4 :: u8 where "KEY_4 \<equiv> 0x24"
abbreviation (input) KEY_5 :: u8 where "KEY_5 \<equiv> 0x25"
abbreviation (input) KEY_6 :: u8 where "KEY_6 \<equiv> 0x26"
abbreviation (input) KEY_7 :: u8 where "KEY_7 \<equiv> 0x27"
abbreviation (input) KEY_8 :: u8 where "KEY_8 \<equiv> 0x28"
abbreviation (input) KEY_9 :: u8 where "KEY_9 \<equiv> 0x29"
abbreviation (input) KEY_0 :: u8 where "KEY_0 \<equiv> 0x2a"
abbreviation (input) KEY_MINUS :: u8 where "KEY_MINUS \<equiv> 0x2b"
abbreviation (input) KEY_EQU :: u8 where "KEY_EQU \<equiv> 0x2c"
abbreviation (input) KEY_BCKSPC :: u8 where "KEY_BCKSPC \<equiv> 0x2d"
abbreviation (input) KEY_TAB :: u8 where "KEY_TAB \<equiv> 0x40"
abbreviation (input) KEY_Q :: u8 where "KEY_Q \<equiv> 0x41"
abbreviation (input) KEY_W :: u8 where "KEY_W \<equiv> 0x42"
abbreviation (input) KEY_E :: u8 where "KEY_E \<equiv> 0x43"
abbreviation (input) KEY_R :: u8 where "KEY_R \<equiv> 0x44"
abbreviation (input) KEY_T :: u8 where "KEY_T \<equiv> 0x45"
abbreviation (input) KEY_Y :: u8 where "KEY_Y \<equiv> 0x46"
abbreviation (input) KEY_U :: u8 where "KEY_U \<equiv> 0x47"
abbreviation (input) KEY_I :: u8 where "KEY_I \<equiv> 0x48"
abbreviation (input) KEY_O :: u8 where "KEY_O \<equiv> 0x49"
abbreviation (input) KEY_P :: u8 where "KEY_P \<equiv> 0x4a"
abbreviation (input) KEY_LBRACKET :: u8 where "KEY_LBRACKET \<equiv> 0x4b"
abbreviation (input) KEY_RBRACKET :: u8 where "KEY_RBRACKET \<equiv> 0x4c"
abbreviation (input) KEY_BSLASH :: u8 where "KEY_BSLASH \<equiv> 0x4d"
abbreviation (input) KEY_CAPS :: u8 where "KEY_CAPS \<equiv> 0x50"
abbreviation (input) KEY_A :: u8 where "KEY_A \<equiv> 0x51"
abbreviation (input) KEY_S :: u8 where "KEY_S \<equiv> 0x52"
abbreviation (input) KEY_D :: u8 where "KEY_D \<equiv> 0x53"
abbreviation (input) KEY_F :: u8 where "KEY_F \<equiv> 0x54"
abbreviation (input) KEY_G :: u8 where "KEY_G \<equiv> 0x55"
abbreviation (input) KEY_H :: u8 where "KEY_H \<equiv> 0x56"
abbreviation (input) KEY_J :: u8 where "KEY_J \<equiv> 0x57"
abbreviation (input) KEY_K :: u8 where "KEY_K \<equiv> 0x58"
abbreviation (input) KEY_L :: u8 where "KEY_L \<equiv> 0x59"
abbreviation (input) KEY_SMICOLON :: u8 where "KEY_SMICOLON \<equiv> 0x5a"
abbreviation (input) KEY_QUOTE :: u8 where "KEY_QUOTE \<equiv> 0x5b"
abbreviation (input) KEY_ENTER :: u8 where "KEY_ENTER \<equiv> 0x5c"
abbreviation (input) KEY_LSHIFT :: u8 where "KEY_LSHIFT \<equiv> 0x80"
abbreviation (input) KEY_Z :: u8 where "KEY_Z \<equiv> 0x81"
abbreviation (input) KEY_X :: u8 where "KEY_X \<equiv> 0x82"
abbreviation (input) KEY_C :: u8 where "KEY_C \<equiv> 0x83"
abbreviation (input) KEY_V :: u8 where "KEY_V \<equiv> 0x84"
abbreviation (input) KEY_B :: u8 where "KEY_B \<equiv> 0x85"
abbreviation (input) KEY_N :: u8 where "KEY_N \<equiv> 0x86"
abbreviation (input) KEY_M :: u8 where "KEY_M \<equiv> 0x87"
abbreviation (input) KEY_COMMA :: u8 where "KEY_COMMA \<equiv> 0x88"
abbreviation (input) KEY_FSTOP :: u8 where "KEY_FSTOP \<equiv> 0x89"
abbreviation (input) KEY_FSLASH :: u8 where "KEY_FSLASH \<equiv> 0x8a"
abbreviation (input) KEY_RSHIFT :: u8 where "KEY_RSHIFT \<equiv> 0x8b"
abbreviation (input) KEY_LCTRL :: u8 where "KEY_LCTRL \<equiv> 0x90"
abbreviation (input) KEY_SUPER :: u8 where "KEY_SUPER \<equiv> 0x91"
abbreviation (input) KEY_LALT :: u8 where "KEY_LALT \<equiv> 0x92"
abbreviation (input) KEY_SPACE :: u8 where "KEY_SPACE \<equiv> 0x93"
abbreviation (input) KEY_RALT :: u8 where "KEY_RALT \<equiv> 0x94"
abbreviation (input) KEY_RCTRL :: u8 where "KEY_RCTRL \<equiv> 0x95"
abbreviation (input) KEY_MENU :: u8 where "KEY_MENU \<equiv> 0x96"
abbreviation (input) KEY_LEFT :: u8 where "KEY_LEFT \<equiv> 0x97"
abbreviation (input) KEY_HOME :: u8 where "KEY_HOME \<equiv> 0x98"
abbreviation (input) KEY_UP :: u8 where "KEY_UP \<equiv> 0x99"
abbreviation (input) KEY_PGUP :: u8 where "KEY_PGUP \<equiv> 0x9a"
abbreviation (input) KEY_DOWN :: u8 where "KEY_DOWN \<equiv> 0x9b"
abbreviation (input) KEY_PGDOWN :: u8 where "KEY_PGDOWN \<equiv> 0x9c"
abbreviation (input) KEY_RIGHT :: u8 where "KEY_RIGHT \<equiv> 0x9d"
abbreviation (input) KEY_END :: u8 where "KEY_END \<equiv> 0x9e"


section \<open>State\<close>

record keyData =
  isPressed :: bool
  ASCII :: u8
  altASCII :: u8

record kbd =
  kbuf_head :: int
  kbuf_tail :: int
  keyboard_buffer :: "u8 list"
  capsLock :: bool
  keys :: "u8 \<Rightarrow> keyData"
  scanToKeycode :: "u16 \<Rightarrow> u8"
  scanCodeBuffer :: "u8 list"
  kb_oob :: "u16 list"

definition KBUF_SIZE :: nat where "KBUF_SIZE = 256"

text \<open>The zero-initialised statics.\<close>

definition kbd0 :: kbd where
  "kbd0 = \<lparr>kbuf_head = 0, kbuf_tail = 0, keyboard_buffer = replicate KBUF_SIZE 0, capsLock = False,
     keys = (\<lambda>_. \<lparr>isPressed = False, ASCII = 0, altASCII = 0\<rparr>), scanToKeycode = (\<lambda>_. 0),
     scanCodeBuffer = [], kb_oob = []\<rparr>"


section \<open>The ring buffer\<close>

definition putchar_to_buffer :: "u8 \<Rightarrow> kbd \<Rightarrow> kbd" where
  "putchar_to_buffer c s =
     (let next = (kbuf_head s + 1) mod int KBUF_SIZE in
      if next \<noteq> kbuf_tail s
      then s\<lparr>keyboard_buffer := (keyboard_buffer s)[nat (kbuf_head s) := c], kbuf_head := next\<rparr>
      else s)"

text \<open>What a reader does once the buffer is not empty.\<close>

definition take_char :: "kbd \<Rightarrow> (u8 \<times> kbd) option" where
  "take_char s =
     (if kbuf_head s = kbuf_tail s then None
      else Some (keyboard_buffer s ! nat (kbuf_tail s),
                 s\<lparr>kbuf_tail := (kbuf_tail s + 1) mod int KBUF_SIZE\<rparr>))"


section \<open>Keys and interrupts\<close>

definition log_index :: "u16 \<Rightarrow> kbd \<Rightarrow> kbd" where
  "log_index i s = (if i < 512 then s else s\<lparr>kb_oob := kb_oob s @ [i]\<rparr>)"

definition registerKey :: "u8 \<Rightarrow> u16 \<Rightarrow> u8 \<Rightarrow> u8 \<Rightarrow> kbd \<Rightarrow> kbd" where
  "registerKey keyCode scanCode a b s =
     (log_index scanCode s)\<lparr>scanToKeycode := (scanToKeycode s)(scanCode := keyCode),
       keys := (keys s)(keyCode := \<lparr>isPressed = False, ASCII = a, altASCII = b\<rparr>)\<rparr>"

definition isDown :: "u8 \<Rightarrow> kbd \<Rightarrow> bool" where
  "isDown code s = isPressed (keys s code)"

definition getASCII :: "u8 \<Rightarrow> kbd \<Rightarrow> u8" where
  "getASCII code s =
     (if isDown KEY_LSHIFT s \<or> isDown KEY_RSHIFT s then
        (let ch = altASCII (keys s code)
         in if capsLock s \<and> 65 \<le> schar ch \<and> schar ch \<le> 90 then ASCII (keys s code) else ch)
      else
        (let ch = ASCII (keys s code)
         in if capsLock s \<and> 97 \<le> schar ch \<and> schar ch \<le> 122 then altASCII (keys s code) else ch))"

text \<open>\<^verbatim>\<open>readScanCode\<close>: store the data byte and report whether the controller has no further byte.\<close>

definition readScanCode :: "u8 \<Rightarrow> u8 \<Rightarrow> kbd \<Rightarrow> bool \<times> kbd" where
  "readScanCode data status s =
     (let s1 = (if length (scanCodeBuffer s) < 6 then s
                else s\<lparr>kb_oob := kb_oob s @ [of_nat (length (scanCodeBuffer s))]\<rparr>)
      in (status AND 1 = 0, s1\<lparr>scanCodeBuffer := scanCodeBuffer s @ [data]\<rparr>))"

definition scan_code :: "u8 list \<Rightarrow> u16" where
  "scan_code bs = fold (\<lambda>b code. push_bit 8 code + ucast b) bs 0"

definition KBDinterrupt :: "u8 \<times> u8 \<Rightarrow> kbd \<Rightarrow> kbd" where
  "KBDinterrupt ev s =
     (let (done, s1) = readScanCode (fst ev) (snd ev) s in
      if done then
        (let code = scan_code (scanCodeBuffer s1);
             s2 = (if code AND 0x80 \<noteq> 0 then
                     (let idx = code AND 0xff7f;
                          keycode = scanToKeycode s1 idx;
                          s3 = (log_index idx s1)\<lparr>keys := (keys s1)(keycode := (keys s1 keycode)\<lparr>isPressed := False\<rparr>)\<rparr>
                      in if keycode = KEY_CAPS then s3\<lparr>capsLock := \<not> capsLock s3\<rparr> else s3)
                   else
                     (let keycode = scanToKeycode s1 code;
                          s3 = (log_index code s1)\<lparr>keys := (keys s1)(keycode := (keys s1 keycode)\<lparr>isPressed := True\<rparr>)\<rparr>;
                          ch = getASCII keycode s3
                      in if ch \<noteq> 0 then putchar_to_buffer ch s3 else s3))
         in s2\<lparr>scanCodeBuffer := []\<rparr>)
      else s1)"

definition initKBD :: "kbd \<Rightarrow> kbd" where
  "initKBD s = fold id [
      registerKey KEY_ESC 0x1 0 0,
      registerKey KEY_F1 0x3b 0 0,
      registerKey KEY_F2 0x3c 0 0,
      registerKey KEY_F3 0x3d 0 0,
      registerKey KEY_F4 0x3e 0 0,
      registerKey KEY_F5 0x3f 0 0,
      registerKey KEY_F6 0x40 0 0,
      registerKey KEY_F7 0x41 0 0,
      registerKey KEY_F8 0x42 0 0,
      registerKey KEY_F9 0x43 0 0,
      registerKey KEY_F10 0x44 0 0,
      registerKey KEY_F11 0x57 0 0,
      registerKey KEY_F12 0x58 0 0,
      registerKey KEY_PRSCR 0xe037 0 0,
      registerKey KEY_INS 0xe052 0 0,
      registerKey KEY_DEL 0xe053 0 0,
      registerKey KEY_GRAVE 0x29 96 126,
      registerKey KEY_1 0x2 49 33,
      registerKey KEY_2 0x3 50 64,
      registerKey KEY_3 0x4 51 35,
      registerKey KEY_4 0x5 52 36,
      registerKey KEY_5 0x6 53 37,
      registerKey KEY_6 0x7 54 94,
      registerKey KEY_7 0x8 55 38,
      registerKey KEY_8 0x9 56 42,
      registerKey KEY_9 0xa 57 40,
      registerKey KEY_0 0xb 48 41,
      registerKey KEY_MINUS 0xc 45 95,
      registerKey KEY_EQU 0xd 61 43,
      registerKey KEY_BCKSPC 0xe 8 0,
      registerKey KEY_TAB 0xf 9 0,
      registerKey KEY_Q 0x10 113 81,
      registerKey KEY_W 0x11 119 87,
      registerKey KEY_E 0x12 101 69,
      registerKey KEY_R 0x13 114 82,
      registerKey KEY_T 0x14 116 84,
      registerKey KEY_Y 0x15 121 89,
      registerKey KEY_U 0x16 117 85,
      registerKey KEY_I 0x17 105 73,
      registerKey KEY_O 0x18 111 79,
      registerKey KEY_P 0x19 112 80,
      registerKey KEY_LBRACKET 0x1a 91 123,
      registerKey KEY_RBRACKET 0x1b 93 125,
      registerKey KEY_BSLASH 0x2b 92 124,
      registerKey KEY_CAPS 0x3a 0 0,
      registerKey KEY_A 0x1e 97 65,
      registerKey KEY_S 0x1f 115 83,
      registerKey KEY_D 0x20 100 68,
      registerKey KEY_F 0x21 102 70,
      registerKey KEY_G 0x22 103 71,
      registerKey KEY_H 0x23 104 72,
      registerKey KEY_J 0x24 106 74,
      registerKey KEY_K 0x25 107 75,
      registerKey KEY_L 0x26 108 76,
      registerKey KEY_SMICOLON 0x27 59 58,
      registerKey KEY_BSLASH 0x28 39 34,
      registerKey KEY_ENTER 0x1c 10 0,
      registerKey KEY_LSHIFT 0x2a 0 0,
      registerKey KEY_Z 0x2c 122 90,
      registerKey KEY_X 0x2d 120 88,
      registerKey KEY_C 0x2e 99 67,
      registerKey KEY_V 0x2f 118 86,
      registerKey KEY_B 0x30 98 66,
      registerKey KEY_N 0x31 110 78,
      registerKey KEY_M 0x32 109 77,
      registerKey KEY_COMMA 0x33 44 60,
      registerKey KEY_FSTOP 0x34 46 62,
      registerKey KEY_FSLASH 0x35 47 63,
      registerKey KEY_RSHIFT 0x36 0 0,
      registerKey KEY_LCTRL 0x1d 0 0,
      registerKey KEY_SUPER 0xe05b 0 0,
      registerKey KEY_LALT 0x38 0 0,
      registerKey KEY_SPACE 0x39 32 0,
      registerKey KEY_RALT 0xe038 0 0,
      registerKey KEY_RCTRL 0xe01d 0 0,
      registerKey KEY_MENU 0xe05d 0 0,
      registerKey KEY_LEFT 0xe04b 0 0,
      registerKey KEY_HOME 0xe047 0 0,
      registerKey KEY_UP 0xe048 0 0,
      registerKey KEY_PGUP 0xe049 0 0,
      registerKey KEY_DOWN 0xe050 0 0,
      registerKey KEY_PGDOWN 0xe051 0 0,
      registerKey KEY_RIGHT 0xe04d 0 0,
      registerKey KEY_END 0xe04f 0 0] s"


section \<open>Reading characters\<close>

text \<open>\<^verbatim>\<open>getchar_from_buffer\<close> halts until an interrupt arrives whenever the buffer is empty.\<close>

fun getchar_from_buffer :: "(u8 \<times> u8) list \<Rightarrow> kbd \<Rightarrow> (u8 \<times> (u8 \<times> u8) list \<times> kbd) option" where
  "getchar_from_buffer [] s = map_option (\<lambda>(c, s'). (c, [], s')) (take_char s)"
| "getchar_from_buffer (ev # evs) s =
     (case take_char s of
        Some (c, s') \<Rightarrow> Some (c, ev # evs, s')
      | None \<Rightarrow> getchar_from_buffer evs (KBDinterrupt ev s))"

text \<open>The timed reader polls: \<open>evs\<close> gives the interrupt, if any, that arrives during each iteration.\<close>

fun timeout_loop :: "nat \<Rightarrow> (u8 \<times> u8) option list \<Rightarrow> kbd \<Rightarrow> u8 \<times> kbd" where
  "timeout_loop 0 evs s = (0, s)"
| "timeout_loop (Suc n) evs s =
     (case take_char s of
        Some r \<Rightarrow> r
      | None \<Rightarrow>
          (case evs of [] \<Rightarrow> timeout_loop n [] s
           | None # evs' \<Rightarrow> timeout_loop n evs' s
           | Some ev # evs' \<Rightarrow> timeout_loop n evs' (KBDinterrupt ev s)))"

definition max_loops :: "u32 \<Rightarrow> u32" where
  "max_loops timeout_ms = timeout_ms * 1000000"

definition getchar_from_buffer_timeout :: "u32 \<Rightarrow> (u8 \<times> u8) option list \<Rightarrow> kbd \<Rightarrow> u8 \<times> kbd" where
  "getchar_from_buffer_timeout timeout_ms evs s = timeout_loop (unat (max_loops timeout_ms)) evs s"


section \<open>The ring buffer is a bounded queue\<close>

text \<open>Arithmetic of ring indices.\<close>

definition ring :: "int \<Rightarrow> bool" where
  "ring i \<longleftrightarrow> 0 \<le> i \<and> i < 256"

lemma ring_diff:
  assumes "ring h" "ring t"
  shows "(h - t) mod 256 = (if t \<le> h then h - t else h - t + 256)"
proof (cases "t \<le> h")
  case False
  have "(h - t) mod 256 = (h - t + 256) mod 256" by simp
  also have "\<dots> = h - t + 256" using assms False by (intro mod_pos_pos_trivial) (auto simp: ring_def)
  finally show ?thesis using False by simp
qed (use assms in \<open>auto simp: ring_def\<close>)

lemma ring_succ: "ring h \<Longrightarrow> (h + 1) mod 256 = (if h = 255 then 0 else h + 1)"
  by (auto simp: ring_def)

lemma ring_mod [simp]: "ring (i mod 256)"
  by (simp add: ring_def)

lemma ring_empty: "ring h \<Longrightarrow> ring t \<Longrightarrow> (h - t) mod 256 = 0 \<longleftrightarrow> h = t"
  by (auto simp: ring_diff) (auto simp: ring_def)

lemma ring_full: "ring h \<Longrightarrow> ring t \<Longrightarrow> (h + 1) mod 256 = t \<longleftrightarrow> (h - t) mod 256 = 255"
  by (auto simp: ring_diff ring_succ) (auto simp: ring_def)

lemma ring_enq:
  "ring h \<Longrightarrow> ring t \<Longrightarrow> (h - t) mod 256 \<noteq> 255 \<Longrightarrow> ((h + 1) mod 256 - t) mod 256 = (h - t) mod 256 + 1"
  by (subst (asm) ring_diff, simp_all, subst ring_diff [OF ring_mod], simp, subst ring_diff, simp_all,
      subst (1 2 3) ring_succ) (auto simp: ring_def)

lemma ring_end: "ring h \<Longrightarrow> ring t \<Longrightarrow> (t + (h - t) mod 256) mod 256 = h"
  by (simp add: mod_simps) (auto simp: ring_def)

lemma ring_deq:
  "ring h \<Longrightarrow> ring t \<Longrightarrow> h \<noteq> t \<Longrightarrow> (h - (t + 1) mod 256) mod 256 = (h - t) mod 256 - 1"
  by (subst ring_diff [OF _ ring_mod], simp_all, subst (1 2) ring_succ, simp_all add: ring_diff)
    (auto simp: ring_def)

text \<open>The abstraction: the queued characters from the tail on.\<close>

definition kbuf_ok :: "kbd \<Rightarrow> bool" where
  "kbuf_ok s \<longleftrightarrow> length (keyboard_buffer s) = 256 \<and> ring (kbuf_head s) \<and> ring (kbuf_tail s)"

definition kbuf_len :: "kbd \<Rightarrow> nat" where
  "kbuf_len s = nat ((kbuf_head s - kbuf_tail s) mod 256)"

definition kbuf_contents :: "kbd \<Rightarrow> u8 list" where
  "kbuf_contents s = map (\<lambda>i. keyboard_buffer s ! nat ((kbuf_tail s + int i) mod 256)) [0..<kbuf_len s]"

lemma length_kbuf_contents [simp]: "length (kbuf_contents s) = kbuf_len s"
  by (simp add: kbuf_contents_def)

lemma kbuf_len_le: "kbuf_len s \<le> 255"
  using pos_mod_bound [of 256 "kbuf_head s - kbuf_tail s"] unfolding kbuf_len_def by linarith

lemma putchar_ok: "kbuf_ok s \<Longrightarrow> kbuf_ok (putchar_to_buffer c s)"
  by (simp add: kbuf_ok_def putchar_to_buffer_def Let_def KBUF_SIZE_def)

lemma putchar_full:
  "kbuf_ok s \<Longrightarrow> length (kbuf_contents s) = 255 \<Longrightarrow> putchar_to_buffer c s = s"
  using ring_full [of "kbuf_head s" "kbuf_tail s"] 
  by (auto simp: kbuf_ok_def putchar_to_buffer_def Let_def KBUF_SIZE_def kbuf_len_def)

lemma putchar_room:
  assumes "kbuf_ok s" "length (kbuf_contents s) < 255"
  shows "kbuf_contents (putchar_to_buffer c s) = kbuf_contents s @ [c]"
proof -
  let ?h = "kbuf_head s" and ?t = "kbuf_tail s" and ?s = "putchar_to_buffer c s"
  have r: "ring ?h" "ring ?t" "length (keyboard_buffer s) = 256" using assms(1) by (simp_all add: kbuf_ok_def)
  have nf: "(?h - ?t) mod 256 \<noteq> 255" using assms(2) by (auto simp: kbuf_len_def)
  then have s: "?s = s\<lparr>keyboard_buffer := (keyboard_buffer s)[nat ?h := c], kbuf_head := (?h + 1) mod 256\<rparr>"
    using ring_full [OF r(1,2)] by (simp add: putchar_to_buffer_def Let_def KBUF_SIZE_def)
  have "int (kbuf_len s) = (?h - ?t) mod 256" by (simp add: kbuf_len_def)
  then have len: "kbuf_len ?s = Suc (kbuf_len s)" and last: "(?t + int (kbuf_len s)) mod 256 = ?h"
    using ring_enq [OF r(1,2) nf] ring_end [OF r(1,2)] by (simp_all add: s kbuf_len_def nat_add_distrib)
  have old: "nat ((?t + int i) mod 256) \<noteq> nat ?h" if "i < kbuf_len s" for i
  proof
    assume "nat ((?t + int i) mod 256) = nat ?h"
    then have "(?t + int i) mod 256 = (?t + int (kbuf_len s)) mod 256"
      using r(1) ring_mod [of "?t + int i"] last by (simp add: ring_def)
    then have "int i mod 256 = int (kbuf_len s) mod 256" by (metis mod_add_left_eq add_left_cancel mod_diff_left_eq add_diff_cancel_left')
    then show False using that kbuf_len_le [of s] by simp
  qed
  have "nat ?h < 256" using r(1) by (auto simp: ring_def nat_less_iff)
  then show ?thesis
    using old last r(3) unfolding kbuf_contents_def len by (fastforce simp: s nth_list_update)
qed

lemma take_char_empty: "kbuf_ok s \<Longrightarrow> kbuf_contents s = [] \<Longrightarrow> take_char s = None"
  using ring_empty [of "kbuf_head s" "kbuf_tail s"]
  by (auto simp: kbuf_ok_def take_char_def kbuf_contents_def kbuf_len_def)

lemma take_char_cons:
  assumes "kbuf_ok s" "kbuf_contents s = x # xs"
  shows "\<exists>s'. take_char s = Some (x, s') \<and> kbuf_ok s' \<and> kbuf_contents s' = xs"
proof -
  let ?h = "kbuf_head s" and ?t = "kbuf_tail s"
  let ?s = "s\<lparr>kbuf_tail := (?t + 1) mod 256\<rparr>"
  have r: "ring ?h" "ring ?t" using assms(1) by (simp_all add: kbuf_ok_def)
  have n0: "kbuf_len s \<noteq> 0" using arg_cong [OF assms(2), of length] by simp
  then have ne: "?h \<noteq> ?t" using ring_empty [OF r] by (auto simp: kbuf_len_def)
  have len: "kbuf_len s = Suc (kbuf_len ?s)"
    using ring_deq [OF r ne] n0 by (simp add: kbuf_len_def nat_diff_distrib)
  have "kbuf_contents s = keyboard_buffer s ! nat (?t mod 256) # kbuf_contents ?s"
    unfolding kbuf_contents_def len
    by (simp add: upt_conv_Cons map_Suc_upt [symmetric] mod_simps ac_simps del: upt_Suc)
  moreover have "?t mod 256 = ?t" using r(2) by (simp add: ring_def)
  ultimately show ?thesis
    using assms ne by (auto simp: take_char_def KBUF_SIZE_def kbuf_ok_def)
qed

interpretation kq: bounded_queue putchar_to_buffer take_char kbuf_contents kbuf_ok 255
proof
  show "length (kbuf_contents s) \<le> 255" for s using kbuf_len_le by simp
qed (simp_all add: putchar_ok putchar_room putchar_full take_char_empty take_char_cons)


text \<open>Reading \<open>n\<close> characters.\<close>

fun read_chars :: "nat \<Rightarrow> kbd \<Rightarrow> (u8 list \<times> kbd) option" where
  "read_chars 0 s = Some ([], s)"
| "read_chars (Suc n) s =
     (case take_char s of None \<Rightarrow> None
      | Some (x, s') \<Rightarrow> map_option (\<lambda>(xs, s''). (x # xs, s'')) (read_chars n s'))"

lemma read_chars_deq: "read_chars n s = kq.deq_list n s"
  by (induction n arbitrary: s) (simp_all split: option.splits prod.splits)

text \<open>C28. The ring buffer is a FIFO queue that keeps the first 255 pending characters: after writing any
  characters into a well-formed buffer, reading them back yields the old contents followed by the new
  characters in order, cut at 255, and then the buffer is empty.\<close>

theorem keyboard_buffer_fifo:
  assumes "kbuf_ok s" "xs = take 255 (kbuf_contents s @ cs)"
  shows "\<exists>s'. read_chars (length xs) (fold putchar_to_buffer cs s) = Some (xs, s') \<and>
    kbuf_ok s' \<and> take_char s' = None"
proof -
  let ?s = "fold putchar_to_buffer cs s"
  have ok: "kbuf_ok ?s" and c: "kbuf_contents ?s = xs" using kq.enq_all [OF assms(1), of cs] assms(2) by auto
  obtain s' where "kq.deq_list (length xs) ?s = Some (xs, s')" "kbuf_ok s'" "kbuf_contents s' = []"
    using kq.deq_list_contents [OF ok order.refl, unfolded c] by auto
  then show ?thesis using kq.deq_empty by (simp add: read_chars_deq)
qed

lemma kbd0_ok: "kbuf_ok kbd0"
  by (simp add: kbuf_ok_def kbd0_def KBUF_SIZE_def ring_def)

theorem keyboard_buffer_fifo_witness:
  "\<exists>s'. read_chars 2 (fold putchar_to_buffer [104, 105] kbd0) = Some ([104, 105], s')"
proof -
  have "kbuf_contents kbd0 = []" by (simp add: kbuf_contents_def kbuf_len_def kbd0_def)
  then show ?thesis
    using keyboard_buffer_fifo [OF kbd0_ok, of "[104, 105]" "[104, 105]"] by (auto simp: numeral_2_eq_2)
qed


section \<open>The key tables\<close>

text \<open>Every interrupt keeps the tables that \<open>initKBD\<close> sets up; only the pressed flags change.\<close>

definition layout :: "kbd \<Rightarrow> bool" where
  "layout s \<longleftrightarrow> scanToKeycode s = scanToKeycode (initKBD kbd0) \<and>
     (\<forall>k. ASCII (keys s k) = ASCII (keys (initKBD kbd0) k) \<and> altASCII (keys s k) = altASCII (keys (initKBD kbd0) k))"

lemma log_index_simps [simp]:
  "kbuf_head (log_index i s) = kbuf_head s" "kbuf_tail (log_index i s) = kbuf_tail s"
  "keyboard_buffer (log_index i s) = keyboard_buffer s" "keys (log_index i s) = keys s"
  "scanToKeycode (log_index i s) = scanToKeycode s" "capsLock (log_index i s) = capsLock s"
  "scanCodeBuffer (log_index i s) = scanCodeBuffer s"
  by (simp_all add: log_index_def)

lemma putchar_simps [simp]:
  "keys (putchar_to_buffer c s) = keys s" "scanToKeycode (putchar_to_buffer c s) = scanToKeycode s"
  "capsLock (putchar_to_buffer c s) = capsLock s"
  by (simp_all add: putchar_to_buffer_def Let_def)

lemma interrupt_layout: "layout s \<Longrightarrow> layout (KBDinterrupt ev s)"
  by (simp add: layout_def KBDinterrupt_def readScanCode_def Let_def)

lemma kbuf_ok_cong:
  "kbuf_head s' = kbuf_head s \<Longrightarrow> kbuf_tail s' = kbuf_tail s \<Longrightarrow> keyboard_buffer s' = keyboard_buffer s \<Longrightarrow>
   kbuf_ok s' = kbuf_ok s \<and> kbuf_contents s' = kbuf_contents s"
  by (simp add: kbuf_ok_def kbuf_contents_def kbuf_len_def)

lemma interrupt_kbuf_ok: "kbuf_ok s \<Longrightarrow> kbuf_ok (KBDinterrupt ev s)"
  by (auto simp: KBDinterrupt_def readScanCode_def Let_def kbuf_ok_def putchar_to_buffer_def KBUF_SIZE_def)

lemma registerKey_ok: "kbuf_ok (registerKey k c a b s) = kbuf_ok s"
  by (simp add: registerKey_def kbuf_ok_def)

lemma reachable_kbd:
  "kbuf_ok (fold KBDinterrupt evs (initKBD kbd0)) \<and> layout (fold KBDinterrupt evs (initKBD kbd0))"
proof -
  have "kbuf_ok (initKBD kbd0)" by (simp add: initKBD_def registerKey_ok kbd0_ok)
  then have "kbuf_ok (fold KBDinterrupt evs s) \<and> layout (fold KBDinterrupt evs s)"
    if "kbuf_ok s" "layout s" for s
    using that by (induction evs arbitrary: s) (simp_all add: interrupt_kbuf_ok interrupt_layout)
  then show ?thesis using \<open>kbuf_ok (initKBD kbd0)\<close> by (simp add: layout_def)
qed

text \<open>Initialisation writes out of bounds: \<open>initKBD\<close> stores the two-byte scan codes at 15 indices from
  0xe01d on, far beyond the 512 entries of \<^verbatim>\<open>scanToKeycode\<close>.\<close>

theorem initKBD_out_of_bounds:
  "kb_oob (initKBD kbd0) = [0xe037, 0xe052, 0xe053, 0xe05b, 0xe038, 0xe01d, 0xe05d, 0xe04b, 0xe047,
     0xe048, 0xe049, 0xe050, 0xe051, 0xe04d, 0xe04f]"
  by code_simp

text \<open>The letter keys: scan code and lower-case letter.\<close>

definition letter_keys :: "(u8 \<times> u8) list" where
  "letter_keys =
     zip [0x10, 0x11, 0x12, 0x13, 0x14, 0x15, 0x16, 0x17, 0x18, 0x19] (map of_char ''qwertyuiop'') @
     zip [0x1e, 0x1f, 0x20, 0x21, 0x22, 0x23, 0x24, 0x25, 0x26] (map of_char ''asdfghjkl'') @
     zip [0x2c, 0x2d, 0x2e, 0x2f, 0x30, 0x31, 0x32] (map of_char ''zxcvbnm'')"

definition letter_ok :: "kbd \<Rightarrow> u8 \<Rightarrow> u8 \<Rightarrow> bool" where
  "letter_ok s code l \<longleftrightarrow>
     (let k = scanToKeycode s (ucast code) in
      code AND 0x80 = 0 \<and> k \<noteq> KEY_LSHIFT \<and> k \<noteq> KEY_RSHIFT \<and> ASCII (keys s k) = l \<and> altASCII (keys s k) = l - 32 \<and>
      97 \<le> schar l \<and> schar l \<le> 122 \<and> 65 \<le> schar (l - 32) \<and> schar (l - 32) \<le> 90)"

lemma letter_keys_ok: "list_all (\<lambda>(code, l). letter_ok (initKBD kbd0) code l) letter_keys"
  by code_simp

lemma layout_letter: "layout s \<Longrightarrow> letter_ok s code l = letter_ok (initKBD kbd0) code l"
  by (simp add: letter_ok_def layout_def Let_def)

text \<open>The effect of a complete make code on the queue.\<close>

lemma getASCII_cong:
  "keys s' = keys s \<Longrightarrow> capsLock s' = capsLock s \<Longrightarrow> getASCII k s' = getASCII k s"
  by (simp add: getASCII_def isDown_def Let_def)

lemma make_code_contents:
  assumes "kbuf_ok s" "scanCodeBuffer s = []" "status AND 1 = 0" "code AND 0x80 = 0"
  shows "kbuf_contents (KBDinterrupt (code, status) s) =
    (let k = scanToKeycode s (ucast code);
         ch = getASCII k (s\<lparr>keys := (keys s)(k := (keys s k)\<lparr>isPressed := True\<rparr>)\<rparr>)
     in if ch = 0 then kbuf_contents s else take 255 (kbuf_contents s @ [ch]))"
proof -
  let ?k = "scanToKeycode s (ucast code)"
  let ?s1 = "s\<lparr>scanCodeBuffer := [code]\<rparr>"
  let ?s = "(log_index (ucast code) ?s1)\<lparr>keys := (keys s)(?k := (keys s ?k)\<lparr>isPressed := True\<rparr>)\<rparr>"
  let ?ch = "getASCII ?k ?s"
  have "(ucast code :: u16) AND 0x80 = ucast (code AND 0x80)" by (simp add: unsigned_and_eq)
  then have "(ucast code :: u16) AND 0x80 = 0" using assms(4) by simp
  moreover have "scan_code [code] = ucast code" by (simp add: scan_code_def)
  ultimately have "KBDinterrupt (code, status) s =
      (if ?ch \<noteq> 0 then putchar_to_buffer ?ch ?s else ?s)\<lparr>scanCodeBuffer := []\<rparr>"
    using assms(2,3) by (simp add: KBDinterrupt_def readScanCode_def Let_def)
  moreover have "kbuf_contents (t\<lparr>scanCodeBuffer := []\<rparr>) = kbuf_contents t" for t
    by (simp add: kbuf_contents_def kbuf_len_def)
  moreover have "kbuf_ok ?s" "kbuf_contents ?s = kbuf_contents s"
    using kbuf_ok_cong [of ?s s] assms(1) by simp_all
  moreover have "?ch = getASCII ?k (s\<lparr>keys := (keys s)(?k := (keys s ?k)\<lparr>isPressed := True\<rparr>)\<rparr>)"
    by (rule getASCII_cong) simp_all
  ultimately show ?thesis using kq.enq_contents [of ?s ?ch] by (simp add: Let_def)
qed

lemma letter_ascii:
  assumes "letter_ok s code l" "k = scanToKeycode s (ucast code)"
  shows "getASCII k (s\<lparr>keys := (keys s)(k := (keys s k)\<lparr>isPressed := True\<rparr>)\<rparr>) =
    (if (isDown KEY_LSHIFT s \<or> isDown KEY_RSHIFT s) \<noteq> capsLock s then l - 32 else l)"
  using assms by (auto simp: letter_ok_def getASCII_def isDown_def Let_def)



text \<open>The backslash key types a quote: the entry of \<^verbatim>\<open>KEY_BSLASH\<close> is registered twice, so after
  initialisation the backslash key (scan code 0x2b) and the quote key (0x28) both yield a quote, or a
  double quote with shift.\<close>

theorem backslash_key_types_quote:
  "list_all (\<lambda>code. let k = keys (initKBD kbd0) (scanToKeycode (initKBD kbd0) code)
     in ASCII k = of_char CHR 0x27 \<and> altASCII k = of_char CHR 0x22) [0x2b, 0x28]"
  by code_simp

end
