(* ===== verification/Descriptors.thy ===== *)
theory Descriptors
  imports Ports
begin

text \<open>
  The processor tables and the interrupt path: \<^verbatim>\<open>gdt.c\<close>, \<^verbatim>\<open>tss.c\<close>, \<^verbatim>\<open>idt.c\<close>, \<^verbatim>\<open>pic.c\<close> and
  \<^verbatim>\<open>interrupts.c\<close> of \<^verbatim>\<open>kernel/src\<close>. Tables are functions from entry number to entry; what a
  descriptor means (base, limit, privilege, handler address) is decoded as the processor does, and
  the lemmas show that the entries mean what the kernel asks for. The assembly stubs
  (\<^verbatim>\<open>GDTLoadSet\<close>, \<^verbatim>\<open>load_idt\<close>, \<^verbatim>\<open>tss_load_and_set\<close>, \<^verbatim>\<open>enable_interrupts\<close> and the handler entry
  points) are not modelled: the entry points are a parameter, a function from vector to address.
\<close>

section \<open>The global descriptor table\<close>

record gdt_entry =
  limit_low :: u16
  base_low :: u16
  base_mid :: u8
  access :: u8
  granularity :: u8
  base_high :: u8

type_synonym gdt = "u32 \<Rightarrow> gdt_entry"

definition gdt0 :: gdt where
  "gdt0 = (\<lambda>_. \<lparr>limit_low = 0, base_low = 0, base_mid = 0, access = 0, granularity = 0, base_high = 0\<rparr>)"

abbreviation (input) SEGMENT_BASE :: u32 where "SEGMENT_BASE \<equiv> 0"
abbreviation (input) SEGMENT_LIMIT :: u32 where "SEGMENT_LIMIT \<equiv> 0xFFFFF"
abbreviation (input) CODE_RX_TYPE :: u8 where "CODE_RX_TYPE \<equiv> 0xA"
abbreviation (input) DATA_RW_TYPE :: u8 where "DATA_RW_TYPE \<equiv> 0x2"
abbreviation (input) GDT_NUM_ENTRIES :: u16 where "GDT_NUM_ENTRIES \<equiv> 6"
abbreviation (input) PL0 :: u8 where "PL0 \<equiv> 0"
abbreviation (input) PL3 :: u8 where "PL3 \<equiv> 3"

definition GDTCreateEntry :: "u32 \<Rightarrow> u8 \<Rightarrow> u8 \<Rightarrow> gdt \<Rightarrow> gdt" where
  "GDTCreateEntry n pl type g = g(n :=
     \<lparr>limit_low = ucast (SEGMENT_LIMIT AND 0xFFFF),
      base_low = ucast (SEGMENT_BASE AND 0xFFFF),
      base_mid = ucast (drop_bit 16 SEGMENT_BASE AND 0xFF),
      access = push_bit 7 1 OR push_bit 5 (pl AND 3) OR push_bit 4 1 OR (type AND 0x0F),
      granularity = granularity (g n) OR (push_bit 7 1 OR push_bit 6 1 OR 0x0F),
      base_high = ucast (drop_bit 24 SEGMENT_BASE AND 0xFF)\<rparr>)"

text \<open>The task state segment has 104 bytes.\<close>

definition sizeof_tss :: u16 where "sizeof_tss = 104"

definition GDTCreateTSSEntry :: "u32 \<Rightarrow> u32 \<Rightarrow> gdt \<Rightarrow> gdt" where
  "GDTCreateTSSEntry n tss_vaddr g = g(n :=
     \<lparr>limit_low = sizeof_tss - 1,
      base_low = ucast (tss_vaddr AND 0xFFFF),
      base_mid = ucast (drop_bit 16 tss_vaddr AND 0xFF),
      access = push_bit 7 1 OR push_bit 3 1 OR 1,
      granularity = 0,
      base_high = ucast (drop_bit 24 tss_vaddr AND 0xFF)\<rparr>)"

text \<open>\<open>gdt_limit\<close> is the limit field of the descriptor table register.\<close>

definition gdt_limit :: u16 where
  "gdt_limit = 8 * GDT_NUM_ENTRIES"

definition initGDT :: "u32 \<Rightarrow> gdt \<Rightarrow> gdt" where
  "initGDT tss_vaddr g =
     (let g0 = GDTCreateEntry 0 0 0 g;
          g1 = GDTCreateEntry 1 PL0 CODE_RX_TYPE g0;
          g2 = GDTCreateEntry 2 PL0 DATA_RW_TYPE g1;
          g3 = GDTCreateEntry 3 PL3 CODE_RX_TYPE g2;
          g4 = GDTCreateEntry 4 PL3 DATA_RW_TYPE g3
      in GDTCreateTSSEntry 5 tss_vaddr g4)"

text \<open>What the processor reads from an entry.\<close>

definition seg_base :: "gdt_entry \<Rightarrow> u32" where
  "seg_base e = ucast (base_low e) OR push_bit 16 (ucast (base_mid e)) OR push_bit 24 (ucast (base_high e))"

definition seg_limit :: "gdt_entry \<Rightarrow> u32" where
  "seg_limit e =
     (let l = ucast (limit_low e) OR push_bit 16 (ucast (granularity e AND 0x0F))
      in if bit (granularity e) 7 then push_bit 12 l OR 0xFFF else l)"

definition seg_dpl :: "gdt_entry \<Rightarrow> u8" where
  "seg_dpl e = drop_bit 5 (access e) AND 3"

definition seg_present :: "gdt_entry \<Rightarrow> bool" where
  "seg_present e = bit (access e) 7"


section \<open>The task state segment\<close>

record tss =
  esp0 :: u32
  ss0 :: u16

definition TSSSetKernelStack :: "u16 \<Rightarrow> u32 \<Rightarrow> tss \<Rightarrow> tss" where
  "TSSSetKernelStack segsel vaddr t = t\<lparr>esp0 := vaddr, ss0 := segsel\<rparr>"


section \<open>The interrupt descriptor table\<close>

record idt_gate =
  handler_low :: u16
  segsel :: u16
  zero :: u8
  config :: u8
  handler_high :: u16

type_synonym idt = "u8 \<Rightarrow> idt_gate"

definition idt0 :: idt where
  "idt0 = (\<lambda>_. \<lparr>handler_low = 0, segsel = 0, zero = 0, config = 0, handler_high = 0\<rparr>)"

definition createIDTGate :: "u8 \<Rightarrow> u32 \<Rightarrow> u8 \<Rightarrow> u8 \<Rightarrow> idt \<Rightarrow> idt" where
  "createIDTGate n handler type pl t = t(n :=
     \<lparr>handler_low = ucast (handler AND 0x0000FFFF), segsel = 0x08, zero = 0,
      config = push_bit 7 1 OR push_bit 5 (pl AND 3) OR push_bit 3 1 OR push_bit 2 1 OR push_bit 1 1 OR type,
      handler_high = ucast (drop_bit 16 handler AND 0x0000FFFF)\<rparr>)"

text \<open>The vectors of the \<^verbatim>\<open>CREATE_IDT_GATE\<close> lines, in order.\<close>

definition idt_vectors :: "u8 list" where
  "idt_vectors = [0, 1, 2, 3, 4, 5, 6, 7, 8, 9, 10, 11, 12, 13, 14, 15, 16, 17, 18, 19, 32, 33, 34, 35, 36, 37, 38, 39, 40, 41, 42, 43, 44, 45, 46, 47]"

definition initIDT :: "(u8 \<Rightarrow> u32) \<Rightarrow> idt \<Rightarrow> idt" where
  "initIDT entry_point t = fold (\<lambda>i. createIDTGate i (entry_point i) 1 0) idt_vectors t"

definition gate_target :: "idt_gate \<Rightarrow> u32" where
  "gate_target e = ucast (handler_low e) OR push_bit 16 (ucast (handler_high e))"


section \<open>The interrupt controllers\<close>

definition pic_mask :: "'w ports \<Rightarrow> u8 \<Rightarrow> u8 \<Rightarrow> 'w \<Rightarrow> 'w" where
  "pic_mask io mask1 mask2 w = outb io 0xA1 mask2 (outb io 0x21 mask1 w)"

definition pic_acknowledge :: "'w ports \<Rightarrow> 'w \<Rightarrow> 'w" where
  "pic_acknowledge io w = outb io 0xA0 0x20 (outb io 0x20 0x20 w)"

abbreviation (input) PIC1_ICW1 :: u8 where "PIC1_ICW1 \<equiv> 0x11"
abbreviation (input) PIC1_ICW2 :: u8 where "PIC1_ICW2 \<equiv> 0x20"
abbreviation (input) PIC2_ICW1 :: u8 where "PIC2_ICW1 \<equiv> PIC1_ICW2"
abbreviation (input) PIC2_ICW2 :: u8 where "PIC2_ICW2 \<equiv> 0x28"

definition initPIC :: "'w ports \<Rightarrow> 'w \<Rightarrow> 'w" where
  "initPIC io w =
     (let w1 = outb io 0x20 PIC1_ICW1 w;
          w2 = outb io 0xA0 PIC2_ICW1 w1;
          w3 = outb io 0x21 PIC1_ICW2 w2;
          w4 = outb io 0xA1 PIC2_ICW2 w3;
          w5 = outb io 0x21 0x04 w4;
          w6 = outb io 0xA1 0x02 w5;
          w7 = outb io 0x21 0x05 w6;
          w8 = outb io 0xA1 0x01 w7
      in pic_mask io 0xEC 0xFF w8)"


section \<open>Dispatch\<close>

record cpu_state =
  edi :: u32
  esi :: u32
  ebp :: u32
  edx :: u32
  ecx :: u32
  ebx :: u32
  eax :: u32
  esp :: u32

record stack_state =
  error_code :: u32
  eip :: u32
  cs :: u32
  eflags :: u32

type_synonym 's interrupt_handler_func = "cpu_state \<Rightarrow> u32 \<Rightarrow> stack_state \<Rightarrow> 's \<Rightarrow> 's"
type_synonym 's handlers = "u32 \<Rightarrow> 's interrupt_handler_func option"

definition registerInterruptHandler :: "u32 \<Rightarrow> 's interrupt_handler_func \<Rightarrow> 's handlers \<Rightarrow> 's handlers" where
  "registerInterruptHandler interrupt func hs = hs(interrupt \<mapsto> func)"

text \<open>\<^verbatim>\<open>interrupt_handler\<close>: run the registered handler, if any, then acknowledge. The state pairs what
  the handlers act on with the state of the ports.\<close>

definition interrupt_handler ::
  "'w ports \<Rightarrow> 's handlers \<Rightarrow> cpu_state \<Rightarrow> u32 \<Rightarrow> stack_state \<Rightarrow> 's \<times> 'w \<Rightarrow> 's \<times> 'w" where
  "interrupt_handler io hs cpu interrupt stack = (\<lambda>(s, w).
     (case hs interrupt of None \<Rightarrow> s | Some f \<Rightarrow> f cpu interrupt stack s, pic_acknowledge io w))"


section \<open>What the tables mean\<close>

lemma split_u32:
  fixes a :: u32
  shows "ucast (ucast (a AND 0xFFFF) :: u16) OR push_bit 16 (ucast (ucast (drop_bit 16 a AND 0xFFFF) :: u16)) = a"
    and "ucast (ucast (a AND 0xFFFF) :: u16) OR push_bit 16 (ucast (ucast (drop_bit 16 a AND 0xFF) :: u8)) OR
      push_bit 24 (ucast (ucast (drop_bit 24 a AND 0xFF) :: u8)) = a"
proof -
  have m: "(0xFFFF :: u32) = mask 16" "(0xFF :: u32) = mask 8" by (simp_all add: mask_eq_exp_minus_1)
  show "ucast (ucast (a AND 0xFFFF) :: u16) OR push_bit 16 (ucast (ucast (drop_bit 16 a AND 0xFFFF) :: u16)) = a"
    unfolding m by (rule bit_eqI) (auto simp: bit_simps not_less dest: bit_imp_le_length)
  show "ucast (ucast (a AND 0xFFFF) :: u16) OR push_bit 16 (ucast (ucast (drop_bit 16 a AND 0xFF) :: u8)) OR
      push_bit 24 (ucast (ucast (drop_bit 24 a AND 0xFF) :: u8)) = a"
    unfolding m
  proof (rule bit_eqI)
    fix n :: nat
    have "24 \<le> n \<Longrightarrow> 24 + (n - 24) = n" "\<not> 24 \<le> n \<Longrightarrow> 16 \<le> n \<Longrightarrow> n - 16 < 8" by auto
    then show "bit (ucast (ucast (a AND mask 16) :: u16) OR push_bit 16 (ucast (ucast (drop_bit 16 a AND mask 8) :: u8)) OR
        push_bit 24 (ucast (ucast (drop_bit 24 a AND mask 8) :: u8)) :: u32) n \<longleftrightarrow> bit a n"
      by (cases "24 \<le> n") (auto simp: bit_simps not_less dest: bit_imp_le_length)
  qed
qed

text \<open>The task segment: whatever the address of the task state segment, entry 5 of the table set up by
  \<open>initGDT\<close> decodes to exactly that base, to the limit 103 of its 104 bytes, to privilege level 0, and
  is present.\<close>

theorem gdt_tss_entry:
  "seg_base (initGDT a g 5) = a \<and> seg_limit (initGDT a g 5) = 103 \<and> seg_dpl (initGDT a g 5) = 0 \<and>
   seg_present (initGDT a g 5)"
  using split_u32(2) [of a]
  by (simp add: initGDT_def GDTCreateTSSEntry_def seg_base_def seg_limit_def seg_dpl_def seg_present_def
      sizeof_tss_def Let_def)

text \<open>The code and data segments are flat: from the zero-initialised table, entries 1 to 4 have base 0,
  span the whole 4 GB, are present, and have privilege 0 (kernel) and 3 (user); the entry meant to be
  the null descriptor is present as well.\<close>

theorem gdt_flat_segments:
  "list_all (\<lambda>(n, pl). let e = initGDT a gdt0 n in
     seg_base e = 0 \<and> seg_limit e = 0xFFFFFFFF \<and> seg_dpl e = pl \<and> seg_present e)
   [(0, 0), (1, 0), (2, 0), (3, 3), (4, 3)]"
  by (simp add: initGDT_def GDTCreateTSSEntry_def GDTCreateEntry_def gdt0_def seg_base_def seg_limit_def
      seg_dpl_def seg_present_def Let_def)

lemma fold_gates:
  "fold (\<lambda>i. createIDTGate i (f i) 1 0) vs t n =
     (if n \<in> set vs then createIDTGate n (f n) 1 0 t n else t n)"
  by (induction vs arbitrary: t) (auto simp: createIDTGate_def)

text \<open>The interrupt gates: every vector that \<open>initIDT\<close> installs (0 to 19 and 32 to 47) gets a present
  ring-0 trap gate in the kernel code segment that leads to its own entry point; every other vector
  stays as it was.\<close>

theorem idt_gates:
  "let e = initIDT entry_point t n in
   if n \<in> set idt_vectors then gate_target e = entry_point n \<and> segsel e = 8 \<and> config e = 0x8F \<and> zero e = 0
   else e = t n"
  using split_u32(1) [of "entry_point n"]
  by (simp add: initIDT_def fold_gates createIDTGate_def gate_target_def Let_def)

text \<open>What the interrupt controllers are told: \<open>initPIC\<close> sends exactly this sequence. The first byte for
  the second controller is 0x20, not the initialisation command 0x11 (bit 4 is clear), so that
  controller never sees an initialisation.\<close>

theorem initPIC_trace:
  "initPIC recorder [] = [(0x20, 0x11), (0xA0, 0x20), (0x21, 0x20), (0xA1, 0x28), (0x21, 0x04), (0xA1, 0x02),
     (0x21, 0x05), (0xA1, 0x01), (0x21, 0xEC), (0xA1, 0xFF)] \<and>
   filter (\<lambda>(p, v). p = 0xA0 \<and> bit v 4) (initPIC recorder []) = []"
  by (simp add: initPIC_def pic_mask_def Let_def bit_numeral_simps)

text \<open>Dispatch: a registered handler is called once with the interrupt's own state, an unregistered
  interrupt changes nothing, and in both cases both controllers get an end-of-interrupt afterwards.\<close>

theorem interrupt_dispatch:
  "interrupt_handler recorder (registerInterruptHandler v f hs) cpu i stack (s, w) =
     (if i = v then f cpu i stack s else case hs i of None \<Rightarrow> s | Some g \<Rightarrow> g cpu i stack s,
      w @ [(0x20, 0x20), (0xA0, 0x20)])"
  by (simp add: interrupt_handler_def registerInterruptHandler_def pic_acknowledge_def)

end
