(* ===== verification/Machine.thy ===== *)
theory Machine
  imports Kernel_Init Shell_Spec Line_Edit Keyboard Descriptors "HOL-Library.Sublist"
begin

text \<open>
  The whole machine: \<^verbatim>\<open>main\<close> of \<^verbatim>\<open>kernel/src/kernel.c\<close>, and the kernel at its prompt as a step relation in which keyboard
  interrupts and the reader of the shell interleave. The keyboard handler only touches the state of the keyboard
  driver, the shell only takes characters out of its ring, and the output of the shell goes to the screen.
\<close>

section \<open>The state\<close>

text \<open>What the interrupt handlers act on: the bytes at the ports 0x60 and 0x64, and the keyboard driver.\<close>

type_synonym irq_state = "(u8 \<times> u8) \<times> kbd"

text \<open>\<open>loaded\<close> is the local variable of \<^verbatim>\<open>getchar_from_buffer\<close> between its read of the ring and the store to \<^verbatim>\<open>kbuf_tail\<close>.\<close>

record 'p machine =
  screen :: "'p tty"
  gdt_entries :: gdt
  idt_entries :: idt
  int_handlers :: "irq_state handlers"
  keyboard :: kbd
  loaded :: "u8 option"
  console :: shell

abbreviation (input) KBD_INT_IDX :: u32 where "KBD_INT_IDX \<equiv> 0x21"

definition kbd_handler :: "irq_state interrupt_handler_func" where
  "kbd_handler cpu interrupt stack = (\<lambda>(ev, k). (ev, KBDinterrupt ev k))"

section \<open>Start\<close>

definition show_text :: "'p ports \<Rightarrow> string \<Rightarrow> 'p tty \<Rightarrow> 'p tty" where
  "show_text pio txt t = snd (terminalPutS pio (map of_char txt) t)"

text \<open>\<^verbatim>\<open>main\<close>, up to the first prompt. \<open>tss\<close> is the address of the task state segment, \<open>entry_point\<close> the addresses of the interrupt stubs.\<close>

definition kernel_main ::
  "'p ports \<Rightarrow> 'w bus \<Rightarrow> (u32 \<Rightarrow> u32 \<times> u32 \<times> u32 \<times> u32) \<Rightarrow> mem \<Rightarrow> u32 \<Rightarrow> u32 \<Rightarrow> (u8 \<Rightarrow> u32) \<Rightarrow> u32 \<Rightarrow> 'p tty \<Rightarrow> 'w ctl \<Rightarrow> disk_state \<Rightarrow>
   char list \<Rightarrow> ('w ctl \<times> 'p machine) option" where
  "kernel_main pio io cpuid m e tss entry_point multiboot_info t c ds buf = do {
     let t = initTerminal t;
     (_, t) \<leftarrow> console_printf pio ''[NOTICE] Basic system init done\<newline>'' [] t;
     (_, t) \<leftarrow> console_printf pio ''[NOTICE] Init TSS\<newline>'' [] t;
     let gdt = initGDT tss gdt0;
     (_, t) \<leftarrow> console_printf pio ''[NOTICE] Init PIC\<newline>'' [] t;
     let t = t\<lparr>tty_io := initPIC pio (tty_io t)\<rparr>;
     (_, t) \<leftarrow> console_printf pio ''[NOTICE] Init KBD\<newline>'' [] t;
     let hs = registerInterruptHandler KBD_INT_IDX kbd_handler Map.empty;
     let kb = initKBD kbd0;
     (_, t) \<leftarrow> console_printf pio ''[NOTICE] Init IDT\<newline>'' [] t;
     let idt = initIDT entry_point idt0;
     (_, t) \<leftarrow> console_printf pio ''[NOTICE] Start Kernel!\<newline>'' [] t;
     (c, s) \<leftarrow> my_own_os_init io cpuid m e multiboot_info c (fs0 (heap0 e) ds);
     Some (c, \<lparr>screen = show_text pio (out s) t, gdt_entries = gdt, idt_entries = idt, int_handlers = hs, keyboard = kb, loaded = None,
       console = \<lparr>sh_fs = s, sh_buffer = buf, buf_len = 0\<rparr>\<rparr>)
   }"

section \<open>Steps\<close>

text \<open>An interrupt of the keyboard: the stub calls \<^verbatim>\<open>interrupt_handler\<close> with its vector.\<close>

definition key_irq :: "'p ports \<Rightarrow> u8 \<times> u8 \<Rightarrow> 'p machine \<Rightarrow> 'p machine" where
  "key_irq pio ev m =
     (let ((_, k), w) = interrupt_handler pio (int_handlers m) \<lparr>edi = 0, esi = 0, ebp = 0, edx = 0, ecx = 0, ebx = 0, eax = 0, esp = 0\<rparr>
            KBD_INT_IDX \<lparr>error_code = 0, eip = 0, cs = 0, eflags = 0\<rparr> ((ev, keyboard m), tty_io (screen m))
      in m\<lparr>keyboard := k, screen := (screen m)\<lparr>tty_io := w\<rparr>\<rparr>)"

text \<open>The reader: the load of the character, and the store of the new tail, after which the shell handles the character.\<close>

definition load_char :: "'p machine \<Rightarrow> 'p machine option" where
  "load_char m =
     (if loaded m \<noteq> None \<or> kbuf_head (keyboard m) = kbuf_tail (keyboard m) then None
      else Some (m\<lparr>loaded := Some (keyboard_buffer (keyboard m) ! nat (kbuf_tail (keyboard m)))\<rparr>))"

definition handle_char :: "'p ports \<Rightarrow> nat \<Rightarrow> 'p machine \<Rightarrow> (u8 \<times> 'p machine) option" where
  "handle_char pio depth m = do {
     c \<leftarrow> loaded m;
     let k = keyboard m;
     sh \<leftarrow> shell_input depth (char_of (unat c)) (console m);
     let txt = drop (length (out (sh_fs (console m)))) (out (sh_fs sh));
     Some (c, m\<lparr>keyboard := k\<lparr>kbuf_tail := (kbuf_tail k + 1) mod int KBUF_SIZE\<rparr>, loaded := None, console := sh,
       screen := show_text pio txt (screen m)\<rparr>)
   }"

text \<open>The character that an interrupt types, if any.\<close>

definition key_char :: "u8 \<times> u8 \<Rightarrow> kbd \<Rightarrow> u8 list" where
  "key_char ev k =
     (let (done, k1) = readScanCode (fst ev) (snd ev) k;
          code = scan_code (scanCodeBuffer k1);
          keycode = scanToKeycode k1 code;
          ch = getASCII keycode (k1\<lparr>keys := (keys k1)(keycode := (keys k1 keycode)\<lparr>isPressed := True\<rparr>)\<rparr>)
      in if done \<and> code AND 0x80 = 0 \<and> ch \<noteq> 0 then [ch] else [])"

fun typed_text :: "(u8 \<times> u8) list \<Rightarrow> kbd \<Rightarrow> u8 list" where
  "typed_text [] k = []"
| "typed_text (ev # evs) k = key_char ev k @ typed_text evs (KBDinterrupt ev k)"

text \<open>Executions from \<open>m0\<close>: what has been typed, what the shell has handled, and how many characters found the ring full.\<close>

inductive runs :: "'p ports \<Rightarrow> nat \<Rightarrow> 'p machine \<Rightarrow> u8 list \<Rightarrow> u8 list \<Rightarrow> nat \<Rightarrow> 'p machine \<Rightarrow> bool" for pio depth m0 where
  start: "runs pio depth m0 [] [] 0 m0"
| irq: "runs pio depth m0 ts hs n m \<Longrightarrow> x = key_char ev (keyboard m) \<Longrightarrow>
    n' = (if length (kbuf_contents (keyboard m)) < 255 then n else n + length x) \<Longrightarrow> runs pio depth m0 (ts @ x) hs n' (key_irq pio ev m)"
| load: "runs pio depth m0 ts hs n m \<Longrightarrow> load_char m = Some m' \<Longrightarrow> runs pio depth m0 ts hs n m'"
| handle: "runs pio depth m0 ts hs n m \<Longrightarrow> handle_char pio depth m = Some (c, m') \<Longrightarrow> runs pio depth m0 ts (hs @ [c]) n m'"

section \<open>The ring between interrupts and reader\<close>

definition machine_ok :: "'p machine \<Rightarrow> bool" where
  "machine_ok m \<longleftrightarrow> kbuf_ok (keyboard m) \<and> int_handlers m KBD_INT_IDX = Some kbd_handler \<and>
     (\<forall>c. loaded m = Some c \<longrightarrow> (\<exists>r. kbuf_contents (keyboard m) = c # r))"

abbreviation "waiting m \<equiv> kbuf_contents (keyboard m)"

definition chars :: "u8 list \<Rightarrow> string" where
  "chars = map (\<lambda>c. char_of (unat c))"

lemma interrupt_contents:
  assumes "kbuf_ok k"
  shows "kbuf_contents (KBDinterrupt ev k) = take 255 (kbuf_contents k @ key_char ev k)"
proof -
  obtain d k1 where r: "readScanCode (fst ev) (snd ev) k = (d, k1)" by fastforce
  let ?code = "scan_code (scanCodeBuffer k1)"
  let ?c = "scanToKeycode k1 ?code"
  let ?k = "(log_index ?code k1)\<lparr>keys := (keys k1)(?c := (keys k1 ?c)\<lparr>isPressed := True\<rparr>)\<rparr>"
  let ?ch = "getASCII ?c (k1\<lparr>keys := (keys k1)(?c := (keys k1 ?c)\<lparr>isPressed := True\<rparr>)\<rparr>)"
  have k1: "kbuf_head k1 = kbuf_head k" "kbuf_tail k1 = kbuf_tail k" "keyboard_buffer k1 = keyboard_buffer k"
    using r by (auto simp: readScanCode_def Let_def)
  have t: "take 255 (kbuf_contents k) = kbuf_contents k" using kq.bounded [OF assms] by simp
  have ch: "getASCII ?c ?k = ?ch" by (rule getASCII_cong) simp_all
  consider "\<not> d" | "d" "?code AND 0x80 \<noteq> 0" | "d" "?code AND 0x80 = 0" "?ch = 0" | "d" "?code AND 0x80 = 0" "?ch \<noteq> 0" by blast
  then show ?thesis
  proof cases
    case 4
    have "kbuf_ok ?k" "kbuf_contents ?k = kbuf_contents k" using kbuf_ok_cong [of ?k k] k1 assms by simp_all
    then have "kbuf_contents (putchar_to_buffer ?ch ?k) = take 255 (kbuf_contents k @ [?ch])" using kq.enq_contents [of ?k ?ch] by simp
    moreover have "KBDinterrupt ev k = (putchar_to_buffer ?ch ?k)\<lparr>scanCodeBuffer := []\<rparr>" "key_char ev k = [?ch]"
      using 4 r ch by (simp_all add: KBDinterrupt_def key_char_def Let_def)
    ultimately show ?thesis by (simp add: kbuf_contents_def kbuf_len_def)
  next
    case 1
    then show ?thesis using r k1 t by (simp add: KBDinterrupt_def key_char_def kbuf_contents_def kbuf_len_def)
  next
    case 2
    then show ?thesis using r k1 t by (simp add: KBDinterrupt_def key_char_def kbuf_contents_def kbuf_len_def Let_def)
  next
    case 3
    then show ?thesis using r k1 t ch by (simp add: KBDinterrupt_def key_char_def kbuf_contents_def kbuf_len_def Let_def)
  qed
qed

lemma irq_machine:
  assumes "machine_ok m"
  shows "keyboard (key_irq pio ev m) = KBDinterrupt ev (keyboard m)" "loaded (key_irq pio ev m) = loaded m"
    "console (key_irq pio ev m) = console m" "int_handlers (key_irq pio ev m) = int_handlers m"
  using assms by (simp_all add: key_irq_def machine_ok_def interrupt_handler_def kbd_handler_def)

lemma key_char_length: "length (key_char ev k) \<le> 1"
  by (auto simp: key_char_def Let_def split: prod.splits)

lemma irq_ok:
  assumes "machine_ok m"
  shows "machine_ok (key_irq pio ev m)"
    "waiting (key_irq pio ev m) = (if length (waiting m) < 255 then waiting m @ key_char ev (keyboard m) else waiting m)"
proof -
  have k: "kbuf_ok (keyboard m)" using assms by (simp add: machine_ok_def)
  show w: "waiting (key_irq pio ev m) = (if length (waiting m) < 255 then waiting m @ key_char ev (keyboard m) else waiting m)"
    using interrupt_contents [OF k, of ev] kq.bounded [OF k] key_char_length [of ev "keyboard m"] irq_machine(1) [OF assms, of pio ev] by simp
  show "machine_ok (key_irq pio ev m)"
    using assms w irq_machine [OF assms, of pio ev] interrupt_kbuf_ok [OF k, of ev] by (auto simp: machine_ok_def)
qed

lemma load_ok:
  assumes "machine_ok m" "load_char m = Some m'"
  shows "machine_ok m'" "waiting m' = waiting m" "console m' = console m" "loaded m = None" "loaded m' \<noteq> None"
proof -
  have k: "kbuf_ok (keyboard m)" using assms(1) by (simp add: machine_ok_def)
  have l: "loaded m = None" "kbuf_head (keyboard m) \<noteq> kbuf_tail (keyboard m)"
    "m' = m\<lparr>loaded := Some (keyboard_buffer (keyboard m) ! nat (kbuf_tail (keyboard m)))\<rparr>"
    using assms(2) by (simp_all add: load_char_def split: if_splits)
  then have "take_char (keyboard m) \<noteq> None" by (simp add: take_char_def)
  then obtain c r where "waiting m = c # r" using kq.deq_empty [OF k] by (cases "waiting m") auto
  moreover from this obtain k' where "take_char (keyboard m) = Some (c, k')" using kq.deq_cons [OF k] by blast
  then have "c = keyboard_buffer (keyboard m) ! nat (kbuf_tail (keyboard m))" using l(2) by (simp add: take_char_def)
  ultimately show "machine_ok m'" using assms(1) l(3) by (simp add: machine_ok_def)
  show "waiting m' = waiting m" "console m' = console m" "loaded m = None" "loaded m' \<noteq> None" using l by simp_all
qed

lemma handle_ok:
  assumes "machine_ok m" "handle_char pio depth m = Some (c, m')"
  shows "machine_ok m'" "waiting m = c # waiting m'" "shell_input depth (char_of (unat c)) (console m) = Some (console m')" "loaded m' = None"
proof -
  have k: "kbuf_ok (keyboard m)" using assms(1) by (simp add: machine_ok_def)
  have h: "loaded m = Some c" "shell_input depth (char_of (unat c)) (console m) = Some (console m')" "loaded m' = None"
    "int_handlers m' = int_handlers m" "keyboard m' = (keyboard m)\<lparr>kbuf_tail := (kbuf_tail (keyboard m) + 1) mod int KBUF_SIZE\<rparr>"
    using assms(2) by (auto simp: handle_char_def Let_def split: Option.bind_splits)
  obtain r where r: "waiting m = c # r" using h(1) assms(1) by (auto simp: machine_ok_def)
  obtain k' where k': "take_char (keyboard m) = Some (c, k')" "kbuf_ok k'" "kbuf_contents k' = r" using kq.deq_cons [OF k r] by blast
  then have "k' = keyboard m'" using h(5) by (auto simp: take_char_def split: if_splits)
  then show "machine_ok m'" "waiting m = c # waiting m'" using k' r h assms(1) by (auto simp: machine_ok_def)
  show "shell_input depth (char_of (unat c)) (console m) = Some (console m')" "loaded m' = None" using h by simp_all
qed

section \<open>Every interleaving\<close>

text \<open>The invariant of the executions.\<close>

definition in_order :: "nat \<Rightarrow> 'p machine \<Rightarrow> u8 list \<Rightarrow> u8 list \<Rightarrow> nat \<Rightarrow> 'p machine \<Rightarrow> bool" where
  "in_order depth m0 ts hs n m \<longleftrightarrow> machine_ok m \<and> subseq (hs @ waiting m) ts \<and> length (hs @ waiting m) + n = length ts \<and>
     shell_run depth (chars hs) (console m0) = Some (console m)"

lemma runs_in_order:
  "runs pio depth m0 ts hs n m \<Longrightarrow> machine_ok m0 \<Longrightarrow> waiting m0 = [] \<Longrightarrow> in_order depth m0 ts hs n m"
proof (induction rule: runs.induct)
  case start
  then show ?case by (simp add: in_order_def chars_def)
next
  case (irq ts hs n m x ev n')
  then have I: "machine_ok m" "subseq (hs @ waiting m) ts" "length (hs @ waiting m) + n = length ts"
    "shell_run depth (chars hs) (console m0) = Some (console m)" by (simp_all add: in_order_def)
  have "subseq ((hs @ waiting m) @ x) (ts @ x)" "subseq (hs @ waiting m) (ts @ x)"
    using I(2) by (blast intro: list_emb_append_mono, blast intro: subseq_rev_drop_many)
  then show ?case using I irq_ok [OF I(1), of pio ev] irq_machine(3) [OF I(1), of pio ev] irq.hyps(2,3) by (auto simp: in_order_def)
next
  case (load ts hs n m m')
  then show ?case using load_ok [of m m'] by (simp add: in_order_def)
next
  case (handle ts hs n m c m')
  then have I: "in_order depth m0 ts hs n m" by simp
  then have w: "waiting m = c # waiting m'" using handle_ok(2) handle.hyps(2) by (auto simp: in_order_def)
  then have "length (waiting m) = Suc (length (waiting m'))" by (metis length_Cons)
  then show ?case using I w handle_ok [OF _ handle.hyps(2)] by (auto simp: in_order_def chars_def shell_run_append)
qed

lemma runs_trans: "runs pio depth m ts' hs' n' m' \<Longrightarrow> runs pio depth m0 ts hs n m \<Longrightarrow> runs pio depth m0 (ts @ ts') (hs @ hs') (n + n') m'"
proof (induction rule: runs.induct)
  case (irq ts1 hs1 n1 m1 x ev n1')
  then show ?case using runs.irq [of pio depth m0 "ts @ ts1" "hs @ hs1" "n + n1" m1 x ev "n + n1'"] by (auto simp: add.assoc)
next
  case (handle ts1 hs1 n1 m1 c m1')
  then show ?case using runs.handle [of pio depth m0 "ts @ ts1" "hs @ hs1" "n + n1" m1 c m1'] by simp
qed (auto intro: runs.load)

text \<open>The reader drains the ring, as long as the shell handles what is in it.\<close>

lemma reader_step:
  assumes "machine_ok m" "waiting m = c # r" "shell_input depth (char_of (unat c)) (console m) = Some sh"
  shows "\<exists>m'. runs pio depth m [] [c] 0 m' \<and> machine_ok m' \<and> waiting m' = r \<and> console m' = sh"
proof -
  have handle: "\<exists>m2. runs pio depth m [] [c] 0 m2 \<and> machine_ok m2 \<and> waiting m2 = r \<and> console m2 = sh"
    if R: "runs pio depth m [] [] 0 m1" and M: "machine_ok m1" "waiting m1 = waiting m" "console m1 = console m" "loaded m1 \<noteq> None" for m1
  proof -
    have "loaded m1 = Some c" using M assms(2) by (auto simp: machine_ok_def)
    then obtain m2 where m2: "handle_char pio depth m1 = Some (c, m2)" using assms(3) M(3) by (auto simp: handle_char_def Let_def)
    then show ?thesis using runs.handle [OF R m2] handle_ok [OF M(1) m2] M(2,3) assms(2,3) by auto
  qed
  show ?thesis
  proof (cases "loaded m")
    case None
    have k: "kbuf_ok (keyboard m)" using assms(1) by (simp add: machine_ok_def)
    have "take_char (keyboard m) \<noteq> None" using kq.deq_cons [OF k assms(2)] by auto
    then obtain m1 where m1: "load_char m = Some m1" using None by (auto simp: load_char_def take_char_def split: if_splits)
    then show ?thesis using handle [OF runs.load [OF runs.start m1]] load_ok [OF assms(1) m1] by blast
  next
    case (Some x)
    then show ?thesis using handle [OF runs.start assms(1)] by simp
  qed
qed

lemma reader_drains:
  assumes "machine_ok m" "shell_run depth (chars (waiting m)) (console m) = Some sh"
  shows "\<exists>m'. runs pio depth m [] (waiting m) 0 m' \<and> machine_ok m' \<and> waiting m' = [] \<and> console m' = sh"
  using assms
proof (induction "waiting m" arbitrary: m)
  case Nil
  then show ?case by (intro exI [of _ m]) (simp add: chars_def runs.start flip: Nil.hyps)
next
  case (Cons c r)
  obtain sh1 where s: "shell_input depth (char_of (unat c)) (console m) = Some sh1" "shell_run depth (chars r) sh1 = Some sh"
    using Cons.prems(2) unfolding Cons.hyps(2) [symmetric] by (auto simp: chars_def split: Option.bind_splits)
  obtain m1 where m1: "runs pio depth m [] [c] 0 m1" "machine_ok m1" "waiting m1 = r" "console m1 = sh1"
    using reader_step [OF Cons.prems(1) Cons.hyps(2) [symmetric] s(1)] by blast
  obtain m2 where m2: "runs pio depth m1 [] r 0 m2" "machine_ok m2" "waiting m2 = []" "console m2 = sh"
    using Cons.hyps(1) [of m1] m1 s(2) by auto
  show ?case using runs_trans [OF m2(1) m1(1)] m2(2-4) Cons.hyps(2) by (intro exI [of _ m2]) simp
qed


section \<open>From the keys to the folder tree\<close>

lemma typed_runs:
  assumes "machine_ok m" "length (waiting m) + length (typed_text evs (keyboard m)) \<le> 255"
  shows "runs pio depth m (typed_text evs (keyboard m)) [] 0 (fold (key_irq pio) evs m)"
  using assms
proof (induction evs arbitrary: m)
  case (Cons ev evs)
  let ?m = "key_irq pio ev m" and ?x = "key_char ev (keyboard m)"
  have k: "keyboard ?m = KBDinterrupt ev (keyboard m)" using irq_machine(1) [OF Cons.prems(1)] .
  have b: "length (waiting m) < 255 \<or> ?x = []" using Cons.prems(2) by (cases ?x) auto
  then have "runs pio depth m ?x [] 0 ?m" using runs.irq [OF runs.start refl refl, of pio depth m ev] by (auto split: if_splits)
  moreover have "waiting ?m = waiting m @ ?x" using irq_ok(2) [OF Cons.prems(1), of pio ev] b by auto
  then have "length (waiting ?m) = length (waiting m) + length ?x" by (metis length_append)
  then have "runs pio depth ?m (typed_text evs (keyboard ?m)) [] 0 (fold (key_irq pio) evs ?m)"
    using Cons.IH [of ?m] irq_ok(1) [OF Cons.prems(1)] Cons.prems(2) k by simp
  ultimately show ?case using runs_trans k by fastforce
qed (simp add: runs.start)


section \<open>The start of the machine\<close>

lemma console_notice: "CHR ''%'' \<notin> set txt \<Longrightarrow> console_printf pio txt args t = Some (int (length txt), show_text pio txt t)"
  by (simp add: console_printf_plain show_text_def terminalPutS_def)

lemma kbd_empty: "kbuf_contents (initKBD kbd0) = []"
proof -
  have "kbuf_head (registerKey k sc x y s) = kbuf_head s" "kbuf_tail (registerKey k sc x y s) = kbuf_tail s" for k sc x y s
    by (simp_all add: registerKey_def)
  then have "kbuf_head (initKBD kbd0) = 0" "kbuf_tail (initKBD kbd0) = 0" by (simp_all add: initKBD_def) (simp_all add: kbd0_def)
  then show ?thesis by (simp add: kbuf_contents_def kbuf_len_def)
qed


section \<open>Restart\<close>

text \<open>\<^verbatim>\<open>exit\<close>: the state of the console and the ports in which it halts for ever; the reset pulse is the last byte it sends.\<close>

definition exit_halts :: "'p ports \<Rightarrow> u32 \<Rightarrow> 'p tty \<Rightarrow> 'p tty option" where
  "exit_halts pio code t = do {
     (_, t) \<leftarrow> console_printf pio ''System rebooting. Code: %d\<newline>'' [ArgI code] t;
     Some (t\<lparr>tty_io := outb pio 0x64 0xFE (tty_io t)\<rparr>)
   }"

lemma exit_resets: "\<exists>t'. exit_halts pio code t = Some (t'\<lparr>tty_io := outb pio 0x64 0xFE (tty_io t')\<rparr>)"
proof -
  have "printf ''System rebooting. Code: %d\<newline>'' [ArgI code] \<noteq> None"
    by (simp add: printf_chain del: printf.simps(2))
  then obtain bs where "console_printf pio ''System rebooting. Code: %d\<newline>'' [ArgI code] t = Some (terminalPutS pio bs t)"
    unfolding console_printf_def by blast
  then show ?thesis unfolding exit_halts_def by (cases "terminalPutS pio bs t") auto
qed

section \<open>Examples\<close>


text \<open>The keys of a line, as make and break codes; the status byte says that the code is complete.\<close>

definition key_events :: "u8 list \<Rightarrow> (u8 \<times> u8) list" where
  "key_events codes = concat (map (\<lambda>c. [(c, 0x1C), (c OR 0x80, 0x1C)]) codes)"

definition mkdir_docs :: "u8 list" where
  "mkdir_docs = [0x32, 0x25, 0x20, 0x17, 0x13, 0x39, 0x20, 0x18, 0x2E, 0x1F, 0x1C]"

lemma mkdir_docs_typed: "chars (typed_text (key_events mkdir_docs) (initKBD kbd0)) = ''mkdir docs'' @ [CHR 0x0A]"
  by code_simp

lemma demo_machine:
  "\<exists>k :: (u8 \<times> (u8 \<Rightarrow> u8)) machine. machine_ok k \<and> keyboard k = initKBD kbd0 \<and> at_prompt 0x200000 (console k) \<and>
    stands 0x200000 {''docs''} ([], [[] \<mapsto> Map.empty]) (sh_fs (console k)) \<and> plenty (sh_fs (console k)) \<and> registered (sh_fs (console k))"
proof -
  obtain sh where sh: "at_prompt 0x200000 sh" "stands 0x200000 {''docs''} ([], [[] \<mapsto> Map.empty]) (sh_fs sh)" "plenty (sh_fs sh)" "registered (sh_fs sh)"
    using demo_stands by blast
  have "kbuf_ok (initKBD kbd0)" using reachable_kbd [of "[]"] by simp
  then show ?thesis using sh
    by (intro exI [of _ "\<lparr>screen = demo_tty 0 0, gdt_entries = gdt0, idt_entries = idt0,
      int_handlers = registerInterruptHandler KBD_INT_IDX kbd_handler Map.empty, keyboard = initKBD kbd0, loaded = None, console = sh\<rparr>"])
      (simp add: machine_ok_def registerInterruptHandler_def)
qed

lemma demo_typed:
  assumes "machine_ok k" "keyboard k = initKBD kbd0"
  shows "\<exists>ts. chars ts = ''mkdir docs'' @ [CHR 0x0A] \<and> runs pio depth k ts [] 0 (fold (key_irq pio) (key_events mkdir_docs) k)"
proof -
  let ?ts = "typed_text (key_events mkdir_docs) (initKBD kbd0)"
  have c: "chars ?ts = ''mkdir docs'' @ [CHR 0x0A]" by (rule mkdir_docs_typed)
  have "length (chars ?ts) = 11" unfolding c by simp
  then have "length ?ts = 11" by (simp only: chars_def length_map)
  moreover have "length (waiting k) = 0" unfolding assms(2) kbd_empty by simp
  ultimately show ?thesis using typed_runs [OF assms(1), of "key_events mkdir_docs" pio depth] c assms(2) by auto
qed



end
