(* ===== verification/Linked_Lists.thy ===== *)
theory Linked_Lists
  imports Prelude "HOL-Library.Multiset"
begin

text \<open>
  Doubly linked lists in memory. \<open>dseg nx pv q p xs r\<close> says that the nodes \<open>xs\<close> are linked from \<open>p\<close> on by the pointers \<open>nx\<close>, up to a last
  pointer \<open>r\<close>, and back by the pointers \<open>pv\<close>, down to \<open>q\<close> before the first node. A null pointer is 0, and no node is at 0.
\<close>

fun dseg :: "(u32 \<Rightarrow> u32) \<Rightarrow> (u32 \<Rightarrow> u32) \<Rightarrow> u32 \<Rightarrow> u32 \<Rightarrow> u32 list \<Rightarrow> u32 \<Rightarrow> bool" where
  "dseg nx pv q p [] r = (p = r)"
| "dseg nx pv q p (x # xs) r = (p = x \<and> x \<noteq> 0 \<and> pv x = q \<and> dseg nx pv x (nx x) xs r)"

definition last_of :: "u32 \<Rightarrow> u32 list \<Rightarrow> u32" where
  "last_of q xs = (if xs = [] then q else last xs)"

definition head_of :: "u32 list \<Rightarrow> u32 \<Rightarrow> u32" where
  "head_of xs r = (if xs = [] then r else hd xs)"

lemma last_of_simps [simp]: "last_of q [] = q" "last_of q (x # xs) = last_of x xs" "last_of q (xs @ [x]) = x"
  by (auto simp: last_of_def)

lemma last_of_append [simp]: "last_of q (xs @ ys) = last_of (last_of q xs) ys"
  by (auto simp: last_of_def)

lemma head_of_simps [simp]: "head_of [] r = r" "head_of (x # xs) r = x"
  by (auto simp: head_of_def)

lemma dseg_append: "dseg nx pv q p (xs @ ys) r \<longleftrightarrow> (\<exists>m. dseg nx pv q p xs m \<and> dseg nx pv (last_of q xs) m ys r)"
  by (induction xs arbitrary: q p) auto

lemma dseg_nonzero: "dseg nx pv q p xs r \<Longrightarrow> 0 \<notin> set xs"
  by (induction xs arbitrary: q p) auto

lemma dseg_head: "dseg nx pv q p xs r \<Longrightarrow> p = head_of xs r"
  by (cases xs) auto

lemma dseg_cong:
  "(\<And>x. x \<in> set xs \<Longrightarrow> nx x = nx' x) \<Longrightarrow> (\<And>x. x \<in> set xs \<Longrightarrow> pv x = pv' x) \<Longrightarrow> dseg nx pv q p xs r = dseg nx' pv' q p xs r"
  by (induction xs arbitrary: q p) auto

lemma dseg_upd [simp]:
  "a \<notin> set xs \<Longrightarrow> dseg (nx(a := v)) pv q p xs r = dseg nx pv q p xs r"
  "a \<notin> set xs \<Longrightarrow> dseg nx (pv(a := v)) q p xs r = dseg nx pv q p xs r"
  by (rule dseg_cong; auto)+

text \<open>The forward links alone, for loops that rewrite the nodes they have passed.\<close>

fun path :: "(u32 \<Rightarrow> u32) \<Rightarrow> u32 \<Rightarrow> u32 list \<Rightarrow> bool" where
  "path nx p [] = (p = 0)"
| "path nx p (x # xs) = (p = x \<and> x \<noteq> 0 \<and> path nx (nx x) xs)"

lemma dseg_path: "dseg nx pv q p xs 0 \<Longrightarrow> path nx p xs"
  by (induction xs arbitrary: q p) auto

lemma path_cong: "(\<And>x. x \<in> set xs \<Longrightarrow> nx x = nx' x) \<Longrightarrow> path nx p xs = path nx' p xs"
  by (induction xs arbitrary: p) auto

lemma path_upd [simp]: "a \<notin> set xs \<Longrightarrow> path (nx(a := v)) p xs = path nx p xs"
  by (rule path_cong) auto

text \<open>Changing the pointer after the last node, and the one before the first.\<close>

lemma dseg_set_end:
  "dseg nx pv q p xs r \<Longrightarrow> distinct xs \<Longrightarrow> xs \<noteq> [] \<Longrightarrow> dseg (nx(last xs := r')) pv q p xs r'"
proof (induction xs arbitrary: q p)
  case (Cons x xs)
  show ?case
  proof (cases "xs = []")
    case False
    then have "last xs \<noteq> x" using Cons.prems(2) last_in_set by fastforce
    then show ?thesis using Cons False by auto
  qed (use Cons.prems in simp)
qed simp

lemma dseg_set_start:
  "dseg nx pv q p (x # xs) r \<Longrightarrow> distinct (x # xs) \<Longrightarrow> dseg nx (pv(x := q')) q' p (x # xs) r"
  by simp

lemma dseg_pointers:
  assumes "dseg nx pv q p (as @ x # bs) r"
  shows "pv x = last_of q as" "nx x = head_of bs r" "x \<noteq> 0"
  using assms dseg_head by (auto simp: dseg_append)

lemma last_of_null: "0 \<notin> set xs \<Longrightarrow> last_of 0 xs = 0 \<longleftrightarrow> xs = []"
  by (metis last_in_set last_of_def)

lemma head_of_null: "0 \<notin> set xs \<Longrightarrow> head_of xs 0 = 0 \<longleftrightarrow> xs = []"
  by (metis head_of_def hd_in_set)

lemma dseg_first:
  assumes "dseg nx pv 0 p (as @ x # bs) r" "distinct (as @ x # bs)"
  shows "p = x \<longleftrightarrow> pv x = 0"
proof -
  have "pv x = 0 \<longleftrightarrow> as = []" using dseg_pointers(1) [OF assms(1)] dseg_nonzero [OF assms(1)] last_of_null [of as] by simp
  then show ?thesis using assms by (cases as) auto
qed

text \<open>Unlinking a node, and linking one in.\<close>

lemma dseg_unlink:
  assumes "dseg nx pv 0 p (as @ x # bs) 0" "distinct (as @ x # bs)"
  shows "dseg (if pv x \<noteq> 0 then nx(pv x := nx x) else nx) (if nx x \<noteq> 0 then pv(nx x := pv x) else pv) 0
    (if pv x \<noteq> 0 then p else nx x) (as @ bs) 0"
proof -
  note P = dseg_pointers [OF assms(1)]
  have nz: "0 \<notin> set as" "0 \<notin> set bs" using dseg_nonzero [OF assms(1)] by auto
  have A: "dseg nx pv 0 p as x" and B: "dseg nx pv x (nx x) bs 0" using assms(1) dseg_head by (auto simp: dseg_append)
  have A': "dseg (if pv x \<noteq> 0 then nx(pv x := nx x) else nx) pv 0 (if pv x \<noteq> 0 then p else nx x) as (nx x)"
  proof (cases "as = []")
    case False
    have "pv x = last as" using P(1) False by (simp add: last_of_def)
    moreover have "last as \<noteq> 0" using nz(1) last_in_set [OF False] by metis
    ultimately show ?thesis using dseg_set_end [OF A _ False] assms(2) by simp
  qed (use P in simp)
  have B': "dseg nx (if nx x \<noteq> 0 then pv(nx x := pv x) else pv) (pv x) (nx x) bs 0"
  proof (cases bs)
    case (Cons y ys)
    then show ?thesis using dseg_set_start [of nx pv x "nx x" y ys 0 "pv x"] B assms(2) by auto
  qed (use B in auto)
  have i: "pv x \<notin> set bs" "nx x \<notin> set as"
    using P nz assms(2) last_in_set [of as] hd_in_set [of bs] by (auto simp: last_of_def head_of_def disjoint_iff split: if_splits)
  then show ?thesis using A' B' P(1) by (auto simp: dseg_append)
qed

lemma dseg_link:
  assumes "dseg nx pv 0 p (as @ bs) 0" "distinct (as @ bs)" "x \<notin> set (as @ bs)" "x \<noteq> 0" "nx x = head_of bs 0" "pv x = last_of 0 as"
  shows "dseg (if as \<noteq> [] then nx(last as := x) else nx) (if bs \<noteq> [] then pv(hd bs := x) else pv) 0 (if as \<noteq> [] then p else x) (as @ x # bs) 0"
proof -
  obtain m where A: "dseg nx pv 0 p as m" and B: "dseg nx pv (last_of 0 as) m bs 0" using assms(1) by (auto simp: dseg_append)
  have m: "m = head_of bs 0" using dseg_head [OF B] .
  let ?nx = "if as \<noteq> [] then nx(last as := x) else nx" and ?pv = "if bs \<noteq> [] then pv(hd bs := x) else pv"
  have "dseg ?nx pv 0 (if as \<noteq> [] then p else x) as x" using dseg_set_end [OF A, of x] assms(2) by auto
  then have A': "dseg ?nx ?pv 0 (if as \<noteq> [] then p else x) as x" using assms(2) by (cases bs) auto
  have "dseg nx ?pv x m bs 0" using B assms(2) by (cases bs) auto
  moreover have "as \<noteq> [] \<Longrightarrow> last as \<notin> set bs" using assms(2) last_in_set by fastforce
  ultimately have B': "dseg ?nx ?pv x m bs 0" by auto
  have "as \<noteq> [] \<Longrightarrow> last as \<noteq> x" "bs \<noteq> [] \<Longrightarrow> hd bs \<noteq> x" using assms(3) last_in_set [of as] hd_in_set [of bs] by auto
  then have "?nx x = nx x" "?pv x = pv x" by auto
  then have "dseg ?nx ?pv (last_of 0 as) x (x # bs) 0" using B' assms(4-6) m by simp
  then show ?thesis unfolding dseg_append using A' by blast
qed

text \<open>Disjoint chains, and the change of one of them.\<close>

lemma mset_concat_update: "b < length cs \<Longrightarrow> mset (concat (cs[b := c])) + mset (cs ! b) = mset c + mset (concat cs)"
  by (induction cs arbitrary: b) (auto simp: nth_Cons split: nat.splits)

lemma mset_concat_push: "b < length cs \<Longrightarrow> mset (concat (cs[b := x # cs ! b])) = mset (x # concat cs)"
  using mset_concat_update [of b cs "x # cs ! b"] by simp

lemma mset_concat_remove:
  assumes "b < length cs" "x \<in> set (cs ! b)"
  shows "mset (concat (cs[b := remove1 x (cs ! b)])) = mset (remove1 x (concat cs))"
proof -
  obtain M where M: "mset (cs ! b) = add_mset x M" using assms(2) by (metis multi_member_split set_mset_mset)
  then have "mset (remove1 x (cs ! b)) = M" by simp
  then have "mset (concat cs) = add_mset x (mset (concat (cs[b := remove1 x (cs ! b)])))"
    using mset_concat_update [OF assms(1), of "remove1 x (cs ! b)"] M by simp
  then show ?thesis by simp
qed

lemma distinct_concat_disjoint:
  "distinct (concat cs) \<Longrightarrow> i < length cs \<Longrightarrow> j < length cs \<Longrightarrow> i \<noteq> j \<Longrightarrow> set (cs ! i) \<inter> set (cs ! j) = {}"
proof (induction cs arbitrary: i j)
  case (Cons a cs)
  have sub: "set (cs ! k) \<subseteq> set (concat cs)" if "k < length cs" for k using nth_mem [OF that] by auto
  show ?case
  proof (cases i)
    case 0
    then show ?thesis using Cons.prems sub [of "j - 1"] by (cases j) auto
  next
    case (Suc k)
    then show ?thesis using Cons.prems sub [of k] Cons.IH [of k "j - 1"] by (cases j) auto
  qed
qed simp

lemma distinct_concat_nth: "distinct (concat cs) \<Longrightarrow> i < length cs \<Longrightarrow> distinct (cs ! i)"
  by (induction cs arbitrary: i) (auto simp: nth_Cons split: nat.splits)

end
