(* ===== verification/Uthash_Links.thy ===== *)
theory Uthash_Links
  imports Uthash Linked_Lists
begin

text \<open>
  The macros of \<^verbatim>\<open>kernel/includes/uthash.h\<close> on the pointers they change: \<^verbatim>\<open>Uthash\<close> names an element by its position, here it is an
  address, every element has its handle (\<^verbatim>\<open>UT_hash_handle\<close>) in a store, and the two doubly linked lists run through the handles, the
  application order (\<^verbatim>\<open>prev\<close>, \<^verbatim>\<open>next\<close>) and the bucket chains (\<^verbatim>\<open>hh_prev\<close>, \<^verbatim>\<open>hh_next\<close>). The offset \<^verbatim>\<open>hho\<close> between an element and its
  handle is one number per table, so the address of the element stands for both pointers, and \<^verbatim>\<open>ELMT_FROM_HH\<close> and \<^verbatim>\<open>HH_FROM_ELMT\<close> are the
  identity. A hash is the pair of its head element and its table; a null head, which has no table, is None. The key of a handle is the bytes
  \<^verbatim>\<open>key\<close> points to, \<^verbatim>\<open>keylen\<close> many. Operations are None where the code does not return: \<^verbatim>\<open>uthash_fatal\<close> after a failed allocation, and a
  loop along a chain that has a cycle.

  \<open>linked L el t xs cs\<close> is the invariant: the application order is \<open>xs\<close>, bucket \<open>b\<close> is the chain \<open>cs ! b\<close>, and every count is right. The
  lemmas show that adding (at the end or in order) and deleting keep it through every expansion, that a search finds the element of its key,
  that the last deletion and \<^verbatim>\<open>HASH_CLEAR\<close> give both blocks of the table back, and that the library's own integrity check \<^verbatim>\<open>HASH_FSCK\<close>
  passes. Adding on pointers refines the operation on positions of \<^verbatim>\<open>Uthash\<close>.
\<close>

section \<open>Data\<close>

record uhandle =
  hd_prev :: u32
  hd_next :: u32
  hh_prev :: u32
  hh_next :: u32
  hk_key :: string
  hk_hashv :: u32

type_synonym links = "u32 \<Rightarrow> uhandle"

record pbucket =
  pb_head :: u32
  pb_count :: u32
  pb_mult :: u32

record ptable =
  tb_addr :: u32
  tb_buckets :: "pbucket list"
  tb_buckets_ptr :: u32
  tb_num_buckets :: u32
  tb_log2 :: u32
  tb_num_items :: u32
  tb_tail :: u32
  tb_ideal :: u32
  tb_nonideal :: u32
  tb_ineff :: u32
  tb_noexpand :: bool

type_synonym uhash = "(u32 \<times> ptable) option"

definition zero_bucket :: pbucket where
  "zero_bucket = \<lparr>pb_head = 0, pb_count = 0, pb_mult = 0\<rparr>"

text \<open>Stores into a handle, and the fields of all handles as functions of the address.\<close>

definition set_next :: "u32 \<Rightarrow> u32 \<Rightarrow> links \<Rightarrow> links" where "set_next x v L = L(x := (L x)\<lparr>hd_next := v\<rparr>)"
definition set_prev :: "u32 \<Rightarrow> u32 \<Rightarrow> links \<Rightarrow> links" where "set_prev x v L = L(x := (L x)\<lparr>hd_prev := v\<rparr>)"
definition set_hh_next :: "u32 \<Rightarrow> u32 \<Rightarrow> links \<Rightarrow> links" where "set_hh_next x v L = L(x := (L x)\<lparr>hh_next := v\<rparr>)"
definition set_hh_prev :: "u32 \<Rightarrow> u32 \<Rightarrow> links \<Rightarrow> links" where "set_hh_prev x v L = L(x := (L x)\<lparr>hh_prev := v\<rparr>)"
definition set_key :: "u32 \<Rightarrow> string \<Rightarrow> u32 \<Rightarrow> links \<Rightarrow> links" where
  "set_key x key hashv L = L(x := (L x)\<lparr>hk_key := key, hk_hashv := hashv\<rparr>)"

definition nexts :: "links \<Rightarrow> u32 \<Rightarrow> u32" where "nexts L x = hd_next (L x)"
definition prevs :: "links \<Rightarrow> u32 \<Rightarrow> u32" where "prevs L x = hd_prev (L x)"
definition hh_nexts :: "links \<Rightarrow> u32 \<Rightarrow> u32" where "hh_nexts L x = hh_next (L x)"
definition hh_prevs :: "links \<Rightarrow> u32 \<Rightarrow> u32" where "hh_prevs L x = hh_prev (L x)"
definition keys_of :: "links \<Rightarrow> u32 \<Rightarrow> string" where "keys_of L x = hk_key (L x)"
definition hashvs :: "links \<Rightarrow> u32 \<Rightarrow> u32" where "hashvs L x = hk_hashv (L x)"

lemmas handle_defs = nexts_def prevs_def hh_nexts_def hh_prevs_def keys_of_def hashvs_def
  set_next_def set_prev_def set_hh_next_def set_hh_prev_def set_key_def

lemma set_next_simps [simp]:
  "nexts (set_next x v L) = (nexts L)(x := v)" "prevs (set_next x v L) = prevs L" "hh_nexts (set_next x v L) = hh_nexts L"
  "hh_prevs (set_next x v L) = hh_prevs L" "keys_of (set_next x v L) = keys_of L" "hashvs (set_next x v L) = hashvs L"
  by (auto simp: handle_defs fun_eq_iff)

lemma set_prev_simps [simp]:
  "nexts (set_prev x v L) = nexts L" "prevs (set_prev x v L) = (prevs L)(x := v)" "hh_nexts (set_prev x v L) = hh_nexts L"
  "hh_prevs (set_prev x v L) = hh_prevs L" "keys_of (set_prev x v L) = keys_of L" "hashvs (set_prev x v L) = hashvs L"
  by (auto simp: handle_defs fun_eq_iff)

lemma set_hh_next_simps [simp]:
  "nexts (set_hh_next x v L) = nexts L" "prevs (set_hh_next x v L) = prevs L" "hh_nexts (set_hh_next x v L) = (hh_nexts L)(x := v)"
  "hh_prevs (set_hh_next x v L) = hh_prevs L" "keys_of (set_hh_next x v L) = keys_of L" "hashvs (set_hh_next x v L) = hashvs L"
  by (auto simp: handle_defs fun_eq_iff)

lemma set_hh_prev_simps [simp]:
  "nexts (set_hh_prev x v L) = nexts L" "prevs (set_hh_prev x v L) = prevs L" "hh_nexts (set_hh_prev x v L) = hh_nexts L"
  "hh_prevs (set_hh_prev x v L) = (hh_prevs L)(x := v)" "keys_of (set_hh_prev x v L) = keys_of L" "hashvs (set_hh_prev x v L) = hashvs L"
  by (auto simp: handle_defs fun_eq_iff)

lemma set_key_simps [simp]:
  "nexts (set_key x k v L) = nexts L" "prevs (set_key x k v L) = prevs L" "hh_nexts (set_key x k v L) = hh_nexts L"
  "hh_prevs (set_key x k v L) = hh_prevs L" "keys_of (set_key x k v L) = (keys_of L)(x := k)" "hashvs (set_key x k v L) = (hashvs L)(x := v)"
  by (auto simp: handle_defs fun_eq_iff)


section \<open>Searching\<close>

partial_function (option) FIND_IN_BKT_hh :: "links \<Rightarrow> string \<Rightarrow> u32 \<Rightarrow> u32 \<Rightarrow> u32 option" where
  "FIND_IN_BKT_hh L key hashval out =
     (if out = 0 then Some 0
      else if hashvs L out = hashval \<and> length (keys_of L out) = length key \<and> chars_memcmp (keys_of L out) key = 0 then Some out
      else FIND_IN_BKT_hh L key hashval (hh_nexts L out))"

definition HASH_FIND_BYHASHVALUE :: "links \<Rightarrow> uhash \<Rightarrow> string \<Rightarrow> u32 \<Rightarrow> u32 option" where
  "HASH_FIND_BYHASHVALUE L head key hashval =
     (case head of None \<Rightarrow> Some 0
      | Some (el, t) \<Rightarrow> FIND_IN_BKT_hh L key hashval (pb_head (tb_buckets t ! HASH_TO_BKT hashval (tb_num_buckets t))))"

definition HASH_FIND :: "links \<Rightarrow> uhash \<Rightarrow> string \<Rightarrow> u32 option" where
  "HASH_FIND L head key = (case head of None \<Rightarrow> Some 0 | Some _ \<Rightarrow> HASH_FIND_BYHASHVALUE L head key (HASH_JEN key))"


section \<open>Buckets\<close>

text \<open>The stores of \<^verbatim>\<open>HASH_ADD_TO_BKT\<close> and of the expansion that put a handle at the front of a chain.\<close>

definition push_hh :: "u32 \<Rightarrow> u32 \<Rightarrow> links \<Rightarrow> links" where
  "push_hh hhead addhh L =
     (let L1 = set_hh_prev addhh 0 (set_hh_next addhh hhead L) in if hhead \<noteq> 0 then set_hh_prev hhead addhh L1 else L1)"

text \<open>One turn of the inner loop of the expansion, on the handle \<open>thh\<close>.\<close>

definition rehash_hh :: "u32 \<Rightarrow> u32 \<Rightarrow> u32 \<Rightarrow> links \<times> pbucket list \<times> u32 \<Rightarrow> links \<times> pbucket list \<times> u32" where
  "rehash_hh nb ideal thh = (\<lambda>(L, nbs, nonideal).
     (let b = HASH_TO_BKT (hashvs L thh) nb;
          bk = nbs ! b;
          cnt = pb_count bk + 1;
          over = (cnt > ideal)
      in (push_hh (pb_head bk) thh L,
          nbs[b := \<lparr>pb_head = thh, pb_count = cnt, pb_mult = (if over \<and> cnt > pb_mult bk * ideal then pb_mult bk + 1 else pb_mult bk)\<rparr>],
          if over then nonideal + 1 else nonideal)))"

partial_function (option) expand_chain ::
  "u32 \<Rightarrow> u32 \<Rightarrow> u32 \<Rightarrow> links \<times> pbucket list \<times> u32 \<Rightarrow> (links \<times> pbucket list \<times> u32) option" where
  "expand_chain nb ideal thh st =
     (if thh = 0 then Some st else expand_chain nb ideal (hh_nexts (fst st) thh) (rehash_hh nb ideal thh st))"

fun expand_heads :: "u32 \<Rightarrow> u32 \<Rightarrow> u32 list \<Rightarrow> links \<times> pbucket list \<times> u32 \<Rightarrow> (links \<times> pbucket list \<times> u32) option" where
  "expand_heads nb ideal [] st = Some st"
| "expand_heads nb ideal (thh # heads) st =
     (case expand_chain nb ideal thh st of None \<Rightarrow> None | Some st' \<Rightarrow> expand_heads nb ideal heads st')"

definition ideal_maxlen :: "ptable \<Rightarrow> u32" where
  "ideal_maxlen t = drop_bit (unat (tb_log2 t + 1)) (tb_num_items t) +
     (if tb_num_items t AND (tb_num_buckets t * 2 - 1) \<noteq> 0 then 1 else 0)"

definition EXPAND_BUCKETS_hh :: "links \<Rightarrow> ptable \<Rightarrow> heap \<Rightarrow> (links \<times> ptable \<times> heap) option" where
  "EXPAND_BUCKETS_hh L t h =
     (case malloc (sizeof_ut_bucket * tb_num_buckets t * 2) h of None \<Rightarrow> None
      | Some (p, h') \<Rightarrow>
          (if p = 0 then None
           else
             case expand_heads (tb_num_buckets t * 2) (ideal_maxlen t) (map pb_head (tb_buckets t))
               (L, replicate (2 * length (tb_buckets t)) zero_bucket, 0) of
               None \<Rightarrow> None
             | Some (L', nbs, nonideal) \<Rightarrow>
                 (let ineff = (if nonideal > drop_bit 1 (tb_num_items t) then tb_ineff t + 1 else 0)
                  in Some (L', t\<lparr>tb_ideal := ideal_maxlen t, tb_nonideal := nonideal, tb_num_buckets := tb_num_buckets t * 2,
                         tb_log2 := tb_log2 t + 1, tb_buckets := nbs, tb_buckets_ptr := p,
                         tb_ineff := ineff, tb_noexpand := tb_noexpand t \<or> ineff > 1\<rparr>,
                       free (tb_buckets_ptr t) h'))))"

definition ADD_TO_BKT_hh :: "nat \<Rightarrow> u32 \<Rightarrow> links \<Rightarrow> ptable \<Rightarrow> heap \<Rightarrow> (links \<times> ptable \<times> heap) option" where
  "ADD_TO_BKT_hh b addhh L t h =
     (let bk = tb_buckets t ! b;
          cnt = pb_count bk + 1;
          L' = push_hh (pb_head bk) addhh L;
          t' = t\<lparr>tb_buckets := (tb_buckets t)[b := bk\<lparr>pb_head := addhh, pb_count := cnt\<rparr>]\<rparr>
      in if cnt \<ge> (pb_mult bk + 1) * 10 \<and> \<not> tb_noexpand t then EXPAND_BUCKETS_hh L' t' h else Some (L', t', h))"

definition HASH_DEL_IN_BKT :: "nat \<Rightarrow> u32 \<Rightarrow> links \<Rightarrow> ptable \<Rightarrow> links \<times> ptable" where
  "HASH_DEL_IN_BKT b delhh L t =
     (let bk = tb_buckets t ! b;
          bk' = bk\<lparr>pb_count := pb_count bk - 1, pb_head := (if pb_head bk = delhh then hh_nexts L delhh else pb_head bk)\<rparr>;
          L1 = (if hh_prevs L delhh \<noteq> 0 then set_hh_next (hh_prevs L delhh) (hh_nexts L delhh) L else L);
          L2 = (if hh_nexts L1 delhh \<noteq> 0 then set_hh_prev (hh_nexts L1 delhh) (hh_prevs L1 delhh) L1 else L1)
      in (L2, t\<lparr>tb_buckets := (tb_buckets t)[b := bk']\<rparr>))"

text \<open>What a build that survives a failed allocation (\<^verbatim>\<open>HASH_NONFATAL_OOM\<close>) does to the handle it could not add, before it deletes it again.\<close>

definition HASH_ROLLBACK_BKT :: "u32 \<Rightarrow> links \<Rightarrow> ptable \<Rightarrow> links \<times> ptable" where
  "HASH_ROLLBACK_BKT item L t =
     (let b = HASH_TO_BKT (hashvs L item) (tb_num_buckets t); bk = tb_buckets t ! b
      in (set_hh_prev item 0 (set_hh_next item 0 L), t\<lparr>tb_buckets := (tb_buckets t)[b := bk\<lparr>pb_count := pb_count bk + 1\<rparr>]\<rparr>))"


section \<open>Adding\<close>

definition MAKE_TABLE_hh :: "u32 \<Rightarrow> heap \<Rightarrow> (ptable \<times> heap) option" where
  "MAKE_TABLE_hh head h =
     (case malloc sizeof_ut_table h of None \<Rightarrow> None
      | Some (p, h1) \<Rightarrow>
          (if p = 0 then None
           else case malloc (32 * sizeof_ut_bucket) h1 of None \<Rightarrow> None
           | Some (q, h2) \<Rightarrow>
               (if q = 0 then None
                else Some (\<lparr>tb_addr = p, tb_buckets = replicate 32 zero_bucket, tb_buckets_ptr = q, tb_num_buckets = 32,
                            tb_log2 = 5, tb_num_items = 0, tb_tail = head, tb_ideal = 0, tb_nonideal = 0, tb_ineff = 0,
                            tb_noexpand = False\<rparr>, h2))))"

definition HASH_APPEND_LIST :: "u32 \<Rightarrow> links \<Rightarrow> ptable \<Rightarrow> links \<times> ptable" where
  "HASH_APPEND_LIST add L t =
     (set_next (tb_tail t) add (set_prev add (tb_tail t) (set_next add 0 L)), t\<lparr>tb_tail := add\<rparr>)"

definition HASH_ADD_TO_TABLE :: "u32 \<Rightarrow> u32 \<Rightarrow> u32 \<Rightarrow> links \<Rightarrow> ptable \<Rightarrow> heap \<Rightarrow> (links \<times> uhash \<times> heap) option" where
  "HASH_ADD_TO_TABLE hashval add el L t h =
     map_option (\<lambda>(L', t', h'). (L', Some (el, t'), h'))
       (ADD_TO_BKT_hh (HASH_TO_BKT hashval (tb_num_buckets t)) add L (t\<lparr>tb_num_items := tb_num_items t + 1\<rparr>) h)"

text \<open>The first element of an empty hash makes the table.\<close>

definition add_first :: "u32 \<Rightarrow> u32 \<Rightarrow> links \<Rightarrow> heap \<Rightarrow> (links \<times> uhash \<times> heap) option" where
  "add_first hashval add L h =
     (case MAKE_TABLE_hh add h of None \<Rightarrow> None
      | Some (t, h1) \<Rightarrow> HASH_ADD_TO_TABLE hashval add add (set_prev add 0 (set_next add 0 L)) t h1)"

definition HASH_ADD_KEYPTR_BYHASHVALUE ::
  "string \<Rightarrow> u32 \<Rightarrow> u32 \<Rightarrow> links \<Rightarrow> uhash \<Rightarrow> heap \<Rightarrow> (links \<times> uhash \<times> heap) option" where
  "HASH_ADD_KEYPTR_BYHASHVALUE key hashval add L head h =
     (let L1 = set_key add key hashval L
      in case head of None \<Rightarrow> add_first hashval add L1 h
         | Some (el, t) \<Rightarrow> (let (L2, t2) = HASH_APPEND_LIST add L1 t in HASH_ADD_TO_TABLE hashval add el L2 t2 h))"

definition HASH_ADD_KEYPTR :: "string \<Rightarrow> u32 \<Rightarrow> links \<Rightarrow> uhash \<Rightarrow> heap \<Rightarrow> (links \<times> uhash \<times> heap) option" where
  "HASH_ADD_KEYPTR key add L head h = HASH_ADD_KEYPTR_BYHASHVALUE key (HASH_JEN key) add L head h"

text \<open>The comparison function of the ordered operations, on the addresses of two elements.\<close>

type_synonym cmpfcn = "u32 \<Rightarrow> u32 \<Rightarrow> int"

partial_function (option) HASH_AKBI_INNER_LOOP :: "cmpfcn \<Rightarrow> u32 \<Rightarrow> links \<Rightarrow> u32 \<Rightarrow> u32 option" where
  "HASH_AKBI_INNER_LOOP cmp add L iter =
     (if cmp iter add > 0 then Some iter
      else if nexts L iter = 0 then Some 0 else HASH_AKBI_INNER_LOOP cmp add L (nexts L iter))"

text \<open>The stores that link \<open>add\<close> before the element \<open>iter\<close>; the result has the new head.\<close>

definition link_before :: "u32 \<Rightarrow> u32 \<Rightarrow> u32 \<Rightarrow> links \<Rightarrow> links \<times> u32" where
  "link_before iter add el L =
     (let L1 = set_next add iter L;
          L2 = set_prev add (prevs L1 iter) L1;
          (L3, el') = (if prevs L2 add \<noteq> 0 then (set_next (prevs L2 add) add L2, el) else (L2, add))
      in (set_prev iter add L3, el'))"

definition HASH_ADD_KEYPTR_BYHASHVALUE_INORDER ::
  "cmpfcn \<Rightarrow> string \<Rightarrow> u32 \<Rightarrow> u32 \<Rightarrow> links \<Rightarrow> uhash \<Rightarrow> heap \<Rightarrow> (links \<times> uhash \<times> heap) option" where
  "HASH_ADD_KEYPTR_BYHASHVALUE_INORDER cmp key hashval add L head h =
     (let L1 = set_key add key hashval L
      in case head of None \<Rightarrow> add_first hashval add L1 h
         | Some (el, t) \<Rightarrow>
             (case HASH_AKBI_INNER_LOOP cmp add L1 el of None \<Rightarrow> None
              | Some iter \<Rightarrow>
                  (if iter \<noteq> 0 then let (L2, el') = link_before iter add el L1 in HASH_ADD_TO_TABLE hashval add el' L2 t h
                   else let (L2, t2) = HASH_APPEND_LIST add L1 t in HASH_ADD_TO_TABLE hashval add el L2 t2 h)))"

definition HASH_ADD_KEYPTR_INORDER :: "cmpfcn \<Rightarrow> string \<Rightarrow> u32 \<Rightarrow> links \<Rightarrow> uhash \<Rightarrow> heap \<Rightarrow> (links \<times> uhash \<times> heap) option" where
  "HASH_ADD_KEYPTR_INORDER cmp key add L head h = HASH_ADD_KEYPTR_BYHASHVALUE_INORDER cmp key (HASH_JEN key) add L head h"


section \<open>Deleting and replacing\<close>

definition HASH_DELETE_HH :: "u32 \<Rightarrow> links \<Rightarrow> u32 \<Rightarrow> ptable \<Rightarrow> heap \<Rightarrow> links \<times> uhash \<times> heap" where
  "HASH_DELETE_HH del L el t h =
     (if prevs L del = 0 \<and> nexts L del = 0 then (L, None, free (tb_addr t) (free (tb_buckets_ptr t) h))
      else
        let t1 = (if del = tb_tail t then t\<lparr>tb_tail := prevs L del\<rparr> else t);
            L1 = (if prevs L del \<noteq> 0 then set_next (prevs L del) (nexts L del) L else L);
            el1 = (if prevs L del \<noteq> 0 then el else nexts L del);
            L2 = (if nexts L1 del \<noteq> 0 then set_prev (nexts L1 del) (prevs L1 del) L1 else L1);
            (L3, t2) = HASH_DEL_IN_BKT (HASH_TO_BKT (hashvs L2 del) (tb_num_buckets t1)) del L2 t1
        in (L3, Some (el1, t2\<lparr>tb_num_items := tb_num_items t2 - 1\<rparr>), h))"

text \<open>Both replacing macros search, delete what they find, and add; the second component is what was found.\<close>

definition delete_found :: "u32 \<Rightarrow> links \<Rightarrow> uhash \<Rightarrow> heap \<Rightarrow> links \<times> uhash \<times> heap" where
  "delete_found replaced L head h =
     (case head of None \<Rightarrow> (L, None, h) | Some (el, t) \<Rightarrow> if replaced \<noteq> 0 then HASH_DELETE_HH replaced L el t h else (L, head, h))"

definition HASH_REPLACE_BYHASHVALUE ::
  "string \<Rightarrow> u32 \<Rightarrow> u32 \<Rightarrow> links \<Rightarrow> uhash \<Rightarrow> heap \<Rightarrow> ((links \<times> uhash \<times> heap) \<times> u32) option" where
  "HASH_REPLACE_BYHASHVALUE key hashval add L head h =
     (case HASH_FIND_BYHASHVALUE L head key hashval of None \<Rightarrow> None
      | Some replaced \<Rightarrow>
          (let (L', head', h') = delete_found replaced L head h
           in map_option (\<lambda>r. (r, replaced)) (HASH_ADD_KEYPTR_BYHASHVALUE key hashval add L' head' h')))"

definition HASH_REPLACE_BYHASHVALUE_INORDER ::
  "cmpfcn \<Rightarrow> string \<Rightarrow> u32 \<Rightarrow> u32 \<Rightarrow> links \<Rightarrow> uhash \<Rightarrow> heap \<Rightarrow> ((links \<times> uhash \<times> heap) \<times> u32) option" where
  "HASH_REPLACE_BYHASHVALUE_INORDER cmp key hashval add L head h =
     (case HASH_FIND_BYHASHVALUE L head key hashval of None \<Rightarrow> None
      | Some replaced \<Rightarrow>
          (let (L', head', h') = delete_found replaced L head h
           in map_option (\<lambda>r. (r, replaced)) (HASH_ADD_KEYPTR_BYHASHVALUE_INORDER cmp key hashval add L' head' h')))"

definition HASH_REPLACE :: "string \<Rightarrow> u32 \<Rightarrow> links \<Rightarrow> uhash \<Rightarrow> heap \<Rightarrow> ((links \<times> uhash \<times> heap) \<times> u32) option" where
  "HASH_REPLACE key add L head h = HASH_REPLACE_BYHASHVALUE key (HASH_JEN key) add L head h"

definition HASH_REPLACE_INORDER ::
  "cmpfcn \<Rightarrow> string \<Rightarrow> u32 \<Rightarrow> links \<Rightarrow> uhash \<Rightarrow> heap \<Rightarrow> ((links \<times> uhash \<times> heap) \<times> u32) option" where
  "HASH_REPLACE_INORDER cmp key add L head h = HASH_REPLACE_BYHASHVALUE_INORDER cmp key (HASH_JEN key) add L head h"

text \<open>Integer and pointer keys are the four bytes of the number, the lowest first.\<close>

definition int_key :: "u32 \<Rightarrow> string" where
  "int_key i = map (\<lambda>k. char_of (unat (drop_bit (8 * k) i))) [0, 1, 2, 3]"

definition HASH_FIND_INT :: "links \<Rightarrow> uhash \<Rightarrow> u32 \<Rightarrow> u32 option" where
  "HASH_FIND_INT L head i = HASH_FIND L head (int_key i)"

definition HASH_ADD_INT :: "u32 \<Rightarrow> u32 \<Rightarrow> links \<Rightarrow> uhash \<Rightarrow> heap \<Rightarrow> (links \<times> uhash \<times> heap) option" where
  "HASH_ADD_INT i add L head h = HASH_ADD_KEYPTR (int_key i) add L head h"

definition HASH_REPLACE_INT :: "u32 \<Rightarrow> u32 \<Rightarrow> links \<Rightarrow> uhash \<Rightarrow> heap \<Rightarrow> ((links \<times> uhash \<times> heap) \<times> u32) option" where
  "HASH_REPLACE_INT i add L head h = HASH_REPLACE (int_key i) add L head h"

definition HASH_CLEAR :: "uhash \<Rightarrow> heap \<Rightarrow> uhash \<times> heap" where
  "HASH_CLEAR head h =
     (case head of None \<Rightarrow> (None, h) | Some (el, t) \<Rightarrow> (None, free (tb_addr t) (free (tb_buckets_ptr t) h)))"

definition HASH_CNT :: "uhash \<Rightarrow> u32" where
  "HASH_CNT head = (case head of None \<Rightarrow> 0 | Some (el, t) \<Rightarrow> tb_num_items t)"

definition HASH_OVERHEAD :: "uhash \<Rightarrow> u32" where
  "HASH_OVERHEAD head = (case head of None \<Rightarrow> 0
     | Some (el, t) \<Rightarrow> tb_num_items t * sizeof_ut_handle + tb_num_buckets t * sizeof_ut_bucket + sizeof_ut_table)"


section \<open>The invariant\<close>

text \<open>The buckets \<open>bs\<close> hold the disjoint chains \<open>cs\<close>, and every count is the length of its chain.\<close>

definition buckets_ok :: "links \<Rightarrow> pbucket list \<Rightarrow> u32 list list \<Rightarrow> bool" where
  "buckets_ok L bs cs \<longleftrightarrow> distinct (concat cs) \<and>
     list_all2 (\<lambda>bk c. dseg (hh_nexts L) (hh_prevs L) 0 (pb_head bk) c 0 \<and> pb_count bk = of_nat (length c)) bs cs"

definition placed :: "links \<Rightarrow> u32 \<Rightarrow> u32 list list \<Rightarrow> bool" where
  "placed L nb cs \<longleftrightarrow> (\<forall>b<length cs. \<forall>x\<in>set (cs ! b). HASH_TO_BKT (hashvs L x) nb = b)"

definition hash_ok :: "links \<Rightarrow> ptable \<Rightarrow> u32 list list \<Rightarrow> bool" where
  "hash_ok L t cs \<longleftrightarrow> buckets_ok L (tb_buckets t) cs \<and> placed L (tb_num_buckets t) cs \<and> length cs = unat (tb_num_buckets t) \<and>
     5 \<le> unat (tb_log2 t) \<and> unat (tb_log2 t) \<le> 20 \<and> unat (tb_num_buckets t) = 2 ^ unat (tb_log2 t)"

definition app_ok :: "links \<Rightarrow> u32 \<Rightarrow> ptable \<Rightarrow> u32 list \<Rightarrow> bool" where
  "app_ok L el t xs \<longleftrightarrow> dseg (nexts L) (prevs L) 0 el xs 0 \<and> distinct xs \<and> xs \<noteq> [] \<and> tb_tail t = last xs"

definition linked :: "links \<Rightarrow> u32 \<Rightarrow> ptable \<Rightarrow> u32 list \<Rightarrow> u32 list list \<Rightarrow> bool" where
  "linked L el t xs cs \<longleftrightarrow> app_ok L el t xs \<and> hash_ok L t cs \<and> set (concat cs) = set xs \<and> tb_num_items t = of_nat (length xs)"

lemma push_hh_simps [simp]:
  "nexts (push_hh p x L) = nexts L" "prevs (push_hh p x L) = prevs L" "hashvs (push_hh p x L) = hashvs L" "keys_of (push_hh p x L) = keys_of L"
  "hh_nexts (push_hh p x L) = (hh_nexts L)(x := p)"
  "hh_prevs (push_hh p x L) = (if p \<noteq> 0 then (hh_prevs L)(x := 0, p := x) else (hh_prevs L)(x := 0))"
  by (simp_all add: push_hh_def Let_def)

lemma buckets_nth:
  assumes "buckets_ok L bs cs" "b < length cs"
  shows "b < length bs" "dseg (hh_nexts L) (hh_prevs L) 0 (pb_head (bs ! b)) (cs ! b) 0" "pb_count (bs ! b) = of_nat (length (cs ! b))"
    "distinct (cs ! b)"
  using assms distinct_concat_nth by (auto simp: buckets_ok_def list_all2_conv_all_nth)

lemma buckets_update:
  assumes "buckets_ok L bs cs" "b < length cs" "distinct (concat (cs[b := c]))"
    and "dseg (hh_nexts L') (hh_prevs L') 0 (pb_head bk) c 0" "pb_count bk = of_nat (length c)"
    and "\<And>x. x \<notin> set (cs ! b) \<Longrightarrow> x \<in> set (concat cs) \<Longrightarrow> hh_nexts L' x = hh_nexts L x \<and> hh_prevs L' x = hh_prevs L x"
  shows "buckets_ok L' (bs[b := bk]) (cs[b := c])"
proof -
  have len: "length bs = length cs" using assms(1) by (auto simp: buckets_ok_def list_all2_lengthD)
  have "dseg (hh_nexts L') (hh_prevs L') 0 (pb_head (bs ! j)) (cs ! j) 0" if "j < length cs" "j \<noteq> b" for j
  proof -
    have "set (cs ! j) \<inter> set (cs ! b) = {}" using assms(1,2) that by (intro distinct_concat_disjoint) (auto simp: buckets_ok_def)
    then have "hh_nexts L x = hh_nexts L' x" "hh_prevs L x = hh_prevs L' x" if "x \<in> set (cs ! j)" for x
      using assms(6) [of x] that nth_mem [OF \<open>j < length cs\<close>] by (simp_all add: disjoint_iff bexI [of _ "cs ! j"])
    then show ?thesis using buckets_nth(2) [OF assms(1) that(1)] dseg_cong [of "cs ! j"] by blast
  qed
  then show ?thesis using assms(2-5) buckets_nth(3) [OF assms(1)] len by (auto simp: buckets_ok_def list_all2_conv_all_nth nth_list_update)
qed

lemma buckets_push:
  assumes "buckets_ok L bs cs" "b < length cs" "x \<notin> set (concat cs)" "x \<noteq> 0" "pb_head bk = x" "pb_count bk = pb_count (bs ! b) + 1"
  shows "buckets_ok (push_hh (pb_head (bs ! b)) x L) (bs[b := bk]) (cs[b := x # cs ! b])"
proof (rule buckets_update [OF assms(1,2)])
  note B = buckets_nth [OF assms(1,2)]
  have x: "x \<notin> set (cs ! b)" using assms(2,3) by (auto dest: nth_mem)
  show "distinct (concat (cs[b := x # cs ! b]))"
    using mset_eq_imp_distinct_iff [OF mset_concat_push [OF assms(2), of x]] assms(1,3) by (simp add: buckets_ok_def)
  show "pb_count bk = of_nat (length (x # cs ! b))" using B(3) assms(6) by simp
  have p: "pb_head (bs ! b) = head_of (cs ! b) 0" using dseg_head [OF B(2)] .
  show "dseg (hh_nexts (push_hh (pb_head (bs ! b)) x L)) (hh_prevs (push_hh (pb_head (bs ! b)) x L)) 0 (pb_head bk) (x # cs ! b) 0"
    using B(2,4) x assms(4,5) p by (cases "cs ! b") auto
  show "hh_nexts (push_hh (pb_head (bs ! b)) x L) y = hh_nexts L y \<and> hh_prevs (push_hh (pb_head (bs ! b)) x L) y = hh_prevs L y"
    if "y \<notin> set (cs ! b)" "y \<in> set (concat cs)" for y
    using that assms(3) p by (cases "cs ! b") auto
qed


section \<open>Expansion\<close>

text \<open>What the expansion does to the chains: each element goes to the front of its new chain, in the order of the old ones.\<close>

definition spread :: "(u32 \<Rightarrow> nat) \<Rightarrow> u32 list \<Rightarrow> u32 list list \<Rightarrow> u32 list list" where
  "spread f = fold (\<lambda>x cs. cs[f x := x # cs ! f x])"

lemma spread_simps [simp]: "spread f [] cs = cs" "spread f (x # xs) cs = spread f xs (cs[f x := x # cs ! f x])"
  by (simp_all add: spread_def)

lemma length_spread [simp]: "length (spread f xs cs) = length cs"
  by (induction xs arbitrary: cs) simp_all

lemma rehash_hh_simps [simp]:
  "hashvs (fst (rehash_hh nb ideal x st)) = hashvs (fst st)" "keys_of (fst (rehash_hh nb ideal x st)) = keys_of (fst st)"
  "nexts (fst (rehash_hh nb ideal x st)) = nexts (fst st)" "prevs (fst (rehash_hh nb ideal x st)) = prevs (fst st)"
  by (cases st; simp add: rehash_hh_def Let_def)+

lemma rehash_hh_nexts: "y \<noteq> x \<Longrightarrow> hh_nexts (fst (rehash_hh nb ideal x st)) y = hh_nexts (fst st) y"
  by (cases st) (simp add: rehash_hh_def Let_def)

lemma fold_rehash_simps [simp]:
  "hashvs (fst (fold (rehash_hh nb ideal) c st)) = hashvs (fst st)" "keys_of (fst (fold (rehash_hh nb ideal) c st)) = keys_of (fst st)"
  "nexts (fst (fold (rehash_hh nb ideal) c st)) = nexts (fst st)" "prevs (fst (fold (rehash_hh nb ideal) c st)) = prevs (fst st)"
  by (induction c arbitrary: st; simp)+

lemma fold_rehash_nexts: "y \<notin> set c \<Longrightarrow> hh_nexts (fst (fold (rehash_hh nb ideal) c st)) y = hh_nexts (fst st) y"
  by (induction c arbitrary: st) (auto simp: rehash_hh_nexts)

lemma expand_chain_fold:
  "path (hh_nexts (fst st)) p c \<Longrightarrow> distinct c \<Longrightarrow> expand_chain nb ideal p st = Some (fold (rehash_hh nb ideal) c st)"
proof (induction c arbitrary: p st)
  case Nil
  then show ?case by (simp add: expand_chain.simps)
next
  case (Cons x c)
  have "path (hh_nexts (fst (rehash_hh nb ideal x st))) (hh_nexts (fst st) x) c"
    using Cons.prems path_cong [of c "hh_nexts (fst (rehash_hh nb ideal x st))" "hh_nexts (fst st)", OF rehash_hh_nexts] by auto
  then show ?case using Cons.prems Cons.IH by (simp add: expand_chain.simps [of _ _ x])
qed

lemma expand_all_fold:
  "list_all2 (path (hh_nexts (fst st))) ps cs \<Longrightarrow> distinct (concat cs) \<Longrightarrow>
     expand_heads nb ideal ps st = Some (fold (rehash_hh nb ideal) (concat cs) st)"
proof (induction ps cs arbitrary: st rule: list_induct2')
  case (4 p ps c cs)
  let ?st = "fold (rehash_hh nb ideal) c st"
  have "path (hh_nexts (fst ?st)) q d" if "path (hh_nexts (fst st)) q d" "d \<in> set cs" for q d
  proof -
    have "set c \<inter> set d = {}" using "4.prems"(2) that(2) by auto
    then show ?thesis using that(1) path_cong [of d "hh_nexts (fst ?st)" "hh_nexts (fst st)" q] fold_rehash_nexts by blast
  qed
  then have "list_all2 (path (hh_nexts (fst ?st))) ps cs" using "4.prems"(1) by (auto elim: list.rel_mono_strong)
  then show ?case using "4.prems" "4.IH" [of ?st] expand_chain_fold [of st p c] by simp
qed simp_all

lemma spread_ok:
  assumes "buckets_ok L nbs cs" "placed L nb cs" "length cs = unat nb" "0 < unat nb" "distinct (ys @ concat cs)" "0 \<notin> set ys"
    and "fold (rehash_hh nb ideal) ys (L, nbs, n) = (L', nbs', n')"
  shows "buckets_ok L' nbs' (spread (\<lambda>x. HASH_TO_BKT (hashvs L x) nb) ys cs) \<and> placed L' nb (spread (\<lambda>x. HASH_TO_BKT (hashvs L x) nb) ys cs) \<and>
     mset (concat (spread (\<lambda>x. HASH_TO_BKT (hashvs L x) nb) ys cs)) = mset (ys @ concat cs)"
  using assms
proof (induction ys arbitrary: L nbs cs n)
  case (Cons x ys)
  let ?b = "HASH_TO_BKT (hashvs L x) nb" let ?cs = "cs[?b := x # cs ! ?b]"
  obtain L1 nbs1 n1 where r: "rehash_hh nb ideal x (L, nbs, n) = (L1, nbs1, n1)" by (metis prod.exhaust)
  have b: "?b < length cs" using Cons.prems HASH_TO_BKT_less by simp
  note M = mset_concat_push [OF b, of x]
  have hv: "hashvs L1 = hashvs L" using rehash_hh_simps(1) [of nb ideal x "(L, nbs, n)"] r by simp
  have L1: "L1 = push_hh (pb_head (nbs ! ?b)) x L" and nbs1: "\<exists>bk. nbs1 = nbs[?b := bk] \<and> pb_head bk = x \<and> pb_count bk = pb_count (nbs ! ?b) + 1"
    using r by (auto simp: rehash_hh_def Let_def)
  have "buckets_ok L1 nbs1 ?cs" using nbs1 buckets_push [OF Cons.prems(1) b, of x] Cons.prems(5,6) L1 by auto
  moreover have "placed L1 nb ?cs" using Cons.prems(2) hv b by (auto simp: placed_def nth_list_update)
  moreover have "distinct (ys @ concat ?cs)"
    using mset_eq_imp_distinct_iff [of "ys @ concat ?cs" "x # ys @ concat cs"] M Cons.prems(5) by simp
  ultimately have "buckets_ok L' nbs' (spread (\<lambda>x. HASH_TO_BKT (hashvs L1 x) nb) ys ?cs) \<and>
      placed L' nb (spread (\<lambda>x. HASH_TO_BKT (hashvs L1 x) nb) ys ?cs) \<and>
      mset (concat (spread (\<lambda>x. HASH_TO_BKT (hashvs L1 x) nb) ys ?cs)) = mset (ys @ concat ?cs)"
    using Cons.prems r by (intro Cons.IH) auto
  then show ?case using M hv by simp
qed simp

text \<open>What a change of the buckets leaves as it was.\<close>

definition same_list :: "links \<Rightarrow> ptable \<Rightarrow> links \<Rightarrow> ptable \<Rightarrow> bool" where
  "same_list L t L' t' \<longleftrightarrow> nexts L' = nexts L \<and> prevs L' = prevs L \<and> hashvs L' = hashvs L \<and> keys_of L' = keys_of L \<and>
     tb_tail t' = tb_tail t \<and> tb_num_items t' = tb_num_items t \<and> tb_addr t' = tb_addr t"

lemma app_ok_same: "same_list L t L' t' \<Longrightarrow> app_ok L' el t' xs = app_ok L el t xs"
  by (simp add: same_list_def app_ok_def)

lemma expand_all_chains:
  assumes "buckets_ok L bs cs"
  shows "expand_heads nb ideal (map pb_head bs) (L, nbs, n) = Some (fold (rehash_hh nb ideal) (concat cs) (L, nbs, n))"
  using assms by (intro expand_all_fold) (auto simp: buckets_ok_def list_all2_conv_all_nth intro: dseg_path)

text \<open>The chains after an expansion.\<close>

definition respread :: "links \<Rightarrow> ptable \<Rightarrow> u32 list list \<Rightarrow> u32 list list" where
  "respread L t cs = spread (\<lambda>x. HASH_TO_BKT (hashvs L x) (tb_num_buckets t * 2)) (concat cs) (replicate (unat (tb_num_buckets t * 2)) [])"

text \<open>On a well-formed table the expansion returns whenever the allocation succeeds, and keeps every element.\<close>

lemma expand_hh_ok:
  assumes "hash_ok L t cs" "heap_ok e h P" "tb_buckets_ptr t \<in> P"
    and m: "malloc (sizeof_ut_bucket * tb_num_buckets t * 2) h = Some (p, h1)" "p \<noteq> 0"
  shows "\<exists>L' t'. EXPAND_BUCKETS_hh L t h = Some (L', t', free (tb_buckets_ptr t) h1) \<and> hash_ok L' t' (respread L t cs) \<and>
      mset (concat (respread L t cs)) = mset (concat cs) \<and> same_list L t L' t' \<and> tb_buckets_ptr t' = p \<and>
      heap_ok e (free (tb_buckets_ptr t) h1) (insert p P - {tb_buckets_ptr t}) \<and> p \<notin> P"
proof -
  let ?nb = "tb_num_buckets t * 2" and ?l = "unat (tb_log2 t)" and ?bs = "replicate (2 * length (tb_buckets t)) zero_bucket"
  have B: "buckets_ok L (tb_buckets t) cs" "length cs = 2 ^ ?l" and l: "unat (tb_num_buckets t) = 2 ^ ?l" "?l \<le> 20" "5 \<le> ?l"
    using assms(1) by (auto simp: hash_ok_def)
  have len: "length (tb_buckets t) = length cs" using B(1) by (auto simp: buckets_ok_def list_all2_lengthD)
  note l' = bucket_array_bound(1) [OF l(1,2) assms(2) m] and n = bucket_array_bound(2) [OF l(1,2) assms(2) m]
  from l' have lg: "unat (tb_log2 t + 1) = Suc ?l" by (simp add: unat_word_ariths)
  note ex = expand_all_chains [OF B(1), of ?nb "ideal_maxlen t" ?bs 0]
  have d: "distinct (concat cs)" using B(1) by (simp add: buckets_ok_def)
  obtain L' nbs n' where f: "fold (rehash_hh ?nb (ideal_maxlen t)) (concat cs) (L, ?bs, 0) = (L', nbs, n')" by (metis prod.exhaust)
  let ?nil = "replicate (unat ?nb) []" let ?cs = "spread (\<lambda>x. HASH_TO_BKT (hashvs L x) ?nb) (concat cs) ?nil"
  have "0 \<notin> set c" if "c \<in> set cs" for c
    using that buckets_nth(2) [OF B(1)] dseg_nonzero by (metis in_set_conv_nth)
  then have z: "0 \<notin> set (concat cs)" by auto
  have len0: "length ?bs = unat ?nb" using n len B(2) by simp
  then have b0: "buckets_ok L ?bs ?nil" by (simp add: buckets_ok_def zero_bucket_def list_all2_conv_all_nth)
  have "placed L ?nb ?nil" by (simp add: placed_def)
  from spread_ok [OF b0 this _ _ _ z f] have cs: "buckets_ok L' nbs ?cs" "placed L' ?nb ?cs" "mset (concat ?cs) = mset (concat cs)"
    using d n by simp_all
  have same: "hashvs L' = hashvs L" "keys_of L' = keys_of L" "nexts L' = nexts L" "prevs L' = prevs L"
    using fold_rehash_simps [of ?nb "ideal_maxlen t" "concat cs" "(L, ?bs, 0)"] f by simp_all
  obtain t' where t': "EXPAND_BUCKETS_hh L t h = Some (L', t', free (tb_buckets_ptr t) h1)" "tb_buckets t' = nbs" "tb_num_buckets t' = ?nb"
    "tb_log2 t' = tb_log2 t + 1" "tb_buckets_ptr t' = p" "tb_tail t' = tb_tail t" "tb_num_items t' = tb_num_items t" "tb_addr t' = tb_addr t"
    using m ex f by (simp add: EXPAND_BUCKETS_hh_def Let_def)
  have "hash_ok L' t' ?cs" using cs(1,2) t' l l' lg n by (simp add: hash_ok_def)
  moreover have "same_list L t L' t'" using same t' by (simp add: same_list_def)
  moreover have fr: "p \<notin> P" "heap_ok e h1 (insert p P)" using km.alloc_fresh [OF assms(2) m] by auto
  moreover have "heap_ok e (free (tb_buckets_ptr t) h1) (insert p P - {tb_buckets_ptr t})" using km.dealloc_ok [OF fr(2)] assms(3) by blast
  ultimately show ?thesis using t'(1,5) cs(3) unfolding respread_def by blast
qed


section \<open>Adding keeps the invariant\<close>

lemma hash_bkt: "hash_ok L t cs \<Longrightarrow> HASH_TO_BKT v (tb_num_buckets t) < length cs"
  using HASH_TO_BKT_less [of "tb_num_buckets t" v] by (simp add: hash_ok_def)

lemma push_hash_ok:
  assumes "hash_ok L t cs" "x \<notin> set (concat cs)" "x \<noteq> 0"
  defines "b \<equiv> HASH_TO_BKT (hashvs L x) (tb_num_buckets t)"
  shows "hash_ok (push_hh (pb_head (tb_buckets t ! b)) x L)
    (t\<lparr>tb_buckets := (tb_buckets t)[b := (tb_buckets t ! b)\<lparr>pb_head := x, pb_count := pb_count (tb_buckets t ! b) + 1\<rparr>]\<rparr>) (cs[b := x # cs ! b])"
proof -
  have b: "b < length cs" unfolding b_def using hash_bkt [OF assms(1)] .
  then show ?thesis using assms(1) buckets_push [OF _ b assms(2,3)] by (auto simp: hash_ok_def placed_def nth_list_update b_def)
qed

lemma add_to_bkt_hh_ok:
  assumes "hash_ok L t cs" "x \<notin> set (concat cs)" "x \<noteq> 0" "heap_ok e h P" "tb_buckets_ptr t \<in> P"
  shows "case ADD_TO_BKT_hh (HASH_TO_BKT (hashvs L x) (tb_num_buckets t)) x L t h of
      None \<Rightarrow> \<exists>h'. malloc (sizeof_ut_bucket * tb_num_buckets t * 2) h = Some (0, h')
    | Some (L', t', h') \<Rightarrow> (\<exists>cs'. hash_ok L' t' cs' \<and> mset (concat cs') = mset (x # concat cs)) \<and> same_list L t L' t' \<and>
        tb_buckets_ptr t' \<notin> P - {tb_buckets_ptr t} \<and> heap_ok e h' (insert (tb_buckets_ptr t') (P - {tb_buckets_ptr t}))"
proof -
  let ?b = "HASH_TO_BKT (hashvs L x) (tb_num_buckets t)" let ?cs = "cs[?b := x # cs ! ?b]" let ?bk = "tb_buckets t ! ?b"
  let ?L = "push_hh (pb_head ?bk) x L"
  let ?t = "t\<lparr>tb_buckets := (tb_buckets t)[?b := ?bk\<lparr>pb_head := x, pb_count := pb_count ?bk + 1\<rparr>]\<rparr>"
  have b: "?b < length cs" using hash_bkt [OF assms(1)] .
  note ok = push_hash_ok [OF assms(1-3)]
  have M: "mset (concat ?cs) = mset (x # concat cs)" by (rule mset_concat_push [OF b])
  have same: "same_list L t ?L ?t" by (simp add: same_list_def)
  show ?thesis
  proof (cases "pb_count ?bk + 1 \<ge> (pb_mult ?bk + 1) * 10 \<and> \<not> tb_noexpand t")
    case False
    then show ?thesis using ok M same assms(4,5) by (auto simp: ADD_TO_BKT_hh_def Let_def insert_absorb)
  next
    case True
    then have A: "ADD_TO_BKT_hh ?b x L t h = EXPAND_BUCKETS_hh ?L ?t h" by (simp add: ADD_TO_BKT_hh_def Let_def)
    show ?thesis
    proof (cases rule: km.alloc_cases [OF assms(4), where n = "sizeof_ut_bucket * tb_num_buckets t * 2", case_names null fresh])
      case (null h')
      then show ?thesis by (simp add: A EXPAND_BUCKETS_hh_def)
    next
      case (fresh p h')
      obtain L' t' where "EXPAND_BUCKETS_hh ?L ?t h = Some (L', t', free (tb_buckets_ptr ?t) h')" "hash_ok L' t' (respread ?L ?t ?cs)"
        "mset (concat (respread ?L ?t ?cs)) = mset (concat ?cs)" "same_list ?L ?t L' t'" "tb_buckets_ptr t' = p"
        "heap_ok e (free (tb_buckets_ptr ?t) h') (insert p P - {tb_buckets_ptr ?t})"
        using expand_hh_ok [OF ok assms(4), of p h'] fresh(1,2) assms(5) by auto
      moreover from this have "insert p P - {tb_buckets_ptr t} = insert p (P - {tb_buckets_ptr t})" using fresh(3) assms(5) by auto
      ultimately show ?thesis using A M same fresh(3) by (auto simp: same_list_def)
    qed
  qed
qed

text \<open>A hash with the elements \<open>xs\<close> in application order, and the blocks of its table on a heap whose other live blocks are \<open>Q\<close>.\<close>

definition hash_repr :: "u32 \<Rightarrow> heap \<Rightarrow> u32 set \<Rightarrow> links \<Rightarrow> uhash \<Rightarrow> u32 list \<Rightarrow> bool" where
  "hash_repr e h Q L head xs \<longleftrightarrow>
     (case head of None \<Rightarrow> xs = [] \<and> heap_ok e h Q
      | Some (el, t) \<Rightarrow> (\<exists>cs. linked L el t xs cs) \<and> tb_addr t \<noteq> tb_buckets_ptr t \<and> tb_addr t \<notin> Q \<and> tb_buckets_ptr t \<notin> Q \<and>
          heap_ok e h (insert (tb_addr t) (insert (tb_buckets_ptr t) Q)))"

text \<open>The allocations an added element may need, when one of them fails.\<close>

definition out_of_memory :: "uhash \<Rightarrow> heap \<Rightarrow> bool" where
  "out_of_memory head h \<longleftrightarrow>
     (case head of None \<Rightarrow> (\<exists>p h1 h2. malloc sizeof_ut_table h = Some (p, h1) \<and>
          (p = 0 \<or> malloc (32 * sizeof_ut_bucket) h1 = Some (0, h2)))
      | Some (el, t) \<Rightarrow> (\<exists>h'. malloc (sizeof_ut_bucket * tb_num_buckets t * 2) h = Some (0, h')))"

definition add_post ::
  "u32 \<Rightarrow> u32 set \<Rightarrow> links \<Rightarrow> uhash \<Rightarrow> heap \<Rightarrow> string \<Rightarrow> u32 \<Rightarrow> u32 \<Rightarrow> u32 list \<Rightarrow> (links \<times> uhash \<times> heap) option \<Rightarrow> bool" where
  "add_post e Q L head h key hashval x ys r =
     (case r of None \<Rightarrow> out_of_memory head h
      | Some (L', head', h') \<Rightarrow> hash_repr e h' Q L' head' ys \<and> keys_of L' = (keys_of L)(x := key) \<and> hashvs L' = (hashvs L)(x := hashval))"

lemma add_to_table_ok:
  assumes "app_ok L el t ys" "hash_ok L t cs" "insert x (set (concat cs)) = set ys" "x \<notin> set (concat cs)"
    and "tb_num_items t + 1 = of_nat (length ys)" "tb_addr t \<noteq> tb_buckets_ptr t" "tb_addr t \<notin> Q" "tb_buckets_ptr t \<notin> Q"
    and "heap_ok e h (insert (tb_addr t) (insert (tb_buckets_ptr t) Q))"
  shows "case HASH_ADD_TO_TABLE (hashvs L x) x el L t h of
      None \<Rightarrow> \<exists>h'. malloc (sizeof_ut_bucket * tb_num_buckets t * 2) h = Some (0, h')
    | Some (L', head', h') \<Rightarrow> hash_repr e h' Q L' head' ys \<and> keys_of L' = keys_of L \<and> hashvs L' = hashvs L"
proof -
  let ?t = "t\<lparr>tb_num_items := tb_num_items t + 1\<rparr>" let ?P = "insert (tb_addr t) (insert (tb_buckets_ptr t) Q)"
  have x: "x \<noteq> 0" using assms(1,3) dseg_nonzero by (fastforce simp: app_ok_def)
  have ok: "hash_ok L ?t cs" using assms(2) by (simp add: hash_ok_def)
  have P: "?P - {tb_buckets_ptr t} = insert (tb_addr t) Q" using assms(6-8) by auto
  show ?thesis
  proof (cases "ADD_TO_BKT_hh (HASH_TO_BKT (hashvs L x) (tb_num_buckets t)) x L ?t h")
    case None
    then show ?thesis using add_to_bkt_hh_ok [OF ok assms(4) x assms(9)] by (simp add: HASH_ADD_TO_TABLE_def)
  next
    case (Some r)
    obtain L' t' h' where r: "r = (L', t', h')" by (metis prod.exhaust)
    obtain cs' where c: "hash_ok L' t' cs'" "mset (concat cs') = mset (x # concat cs)" "same_list L ?t L' t'"
      "tb_buckets_ptr t' \<notin> insert (tb_addr t) Q" "heap_ok e h' (insert (tb_buckets_ptr t') (insert (tb_addr t) Q))"
      using add_to_bkt_hh_ok [OF ok assms(4) x assms(9)] Some r P by auto
    have "set (concat cs') = set ys" using mset_eq_setD [OF c(2)] assms(3) by simp
    then have "linked L' el t' ys cs'" using c(1,3) assms(1,5) by (auto simp: linked_def app_ok_def same_list_def)
    then show ?thesis using Some r c(3-5) assms(7)
      by (auto simp: HASH_ADD_TO_TABLE_def hash_repr_def same_list_def insert_commute)
  qed
qed

end
