(* ===== verification/Uthash_Lists.thy ===== *)
theory Uthash_Lists
  imports Uthash_Links
begin

text \<open>
  The operations of \<^verbatim>\<open>Uthash_Links\<close> as operations on the list of elements in application order: adding appends, or inserts before the first
  greater element; deleting removes the one element; replacing does both; the search answers the element of the key. Each keeps the invariant
  of the links and accounts for the blocks of the table, and each returns unless an allocation fails.
\<close>

section \<open>The application order\<close>

text \<open>What a change of the application order leaves as it was.\<close>

definition same_buckets :: "links \<Rightarrow> links \<Rightarrow> bool" where
  "same_buckets L L' \<longleftrightarrow> hh_nexts L' = hh_nexts L \<and> hh_prevs L' = hh_prevs L \<and> hashvs L' = hashvs L \<and> keys_of L' = keys_of L"

lemma hash_ok_cong:
  assumes "hh_nexts L' = hh_nexts L" "hh_prevs L' = hh_prevs L" "\<And>x. x \<in> set (concat cs) \<Longrightarrow> hashvs L' x = hashvs L x"
    and "tb_buckets t' = tb_buckets t" "tb_num_buckets t' = tb_num_buckets t" "tb_log2 t' = tb_log2 t"
  shows "hash_ok L' t' cs = hash_ok L t cs"
proof -
  have "hashvs L' x = hashvs L x" if "b < length cs" "x \<in> set (cs ! b)" for b x
    using assms(3) that nth_mem by fastforce
  then have "placed L' nb cs = placed L nb cs" for nb unfolding placed_def by auto
  then show ?thesis using assms by (simp add: hash_ok_def buckets_ok_def)
qed

lemma append_list_ok:
  assumes "app_ok L el t xs" "x \<notin> set xs" "x \<noteq> 0"
  shows "app_ok (fst (HASH_APPEND_LIST x L t)) el (snd (HASH_APPEND_LIST x L t)) (xs @ [x])" "same_buckets L (fst (HASH_APPEND_LIST x L t))"
proof -
  have a: "dseg (nexts L) (prevs L) 0 el xs 0" "distinct xs" "xs \<noteq> []" "tb_tail t = last xs" using assms(1) by (auto simp: app_ok_def)
  have "dseg ((nexts L)(x := 0)) ((prevs L)(x := last xs)) 0 el (xs @ []) 0" using a assms(2) by simp
  from dseg_link [OF this _ _ assms(3)] show "app_ok (fst (HASH_APPEND_LIST x L t)) el (snd (HASH_APPEND_LIST x L t)) (xs @ [x])"
    using a assms(2) by (simp add: HASH_APPEND_LIST_def app_ok_def last_of_def)
  show "same_buckets L (fst (HASH_APPEND_LIST x L t))" by (simp add: HASH_APPEND_LIST_def same_buckets_def)
qed

lemma akbi_loop:
  "path (nexts L) p xs \<Longrightarrow> xs \<noteq> [] \<Longrightarrow> HASH_AKBI_INNER_LOOP cmp a L p = Some (head_of (dropWhile (\<lambda>y. cmp y a \<le> 0) xs) 0)"
proof (induction xs arbitrary: p)
  case (Cons x xs)
  then show ?case by (cases xs) (auto simp: HASH_AKBI_INNER_LOOP.simps [of cmp a L x])
qed simp

lemma link_before_ok:
  assumes "app_ok L el t (as @ i # bs)" "x \<notin> set (as @ i # bs)" "x \<noteq> 0"
  shows "app_ok (fst (link_before i x el L)) (snd (link_before i x el L)) t (as @ x # i # bs)" "same_buckets L (fst (link_before i x el L))"
proof -
  have a: "dseg (nexts L) (prevs L) 0 el (as @ i # bs) 0" "distinct (as @ i # bs)" "tb_tail t = last (as @ i # bs)"
    using assms(1) by (auto simp: app_ok_def)
  note p = dseg_pointers [OF a(1)]
  have "0 \<notin> set as" using dseg_nonzero [OF a(1)] by simp
  note nz = last_of_null [OF this]
  have "dseg ((nexts L)(x := i)) ((prevs L)(x := last_of 0 as)) 0 el (as @ i # bs) 0" using a(1) assms(2) by simp
  from dseg_link [OF this a(2) assms(2,3)] show "app_ok (fst (link_before i x el L)) (snd (link_before i x el L)) t (as @ x # i # bs)"
    using a(2,3) p nz assms(2) by (auto simp: link_before_def app_ok_def Let_def last_of_def)
  show "same_buckets L (fst (link_before i x el L))" by (auto simp: link_before_def Let_def same_buckets_def)
qed


section \<open>Adding\<close>

lemma app_ok_key: "app_ok (set_key x k v L) el t xs = app_ok L el t xs"
  by (simp add: app_ok_def)

text \<open>Once \<open>x\<close> is in the application order, the rest of adding is the same for both macros.\<close>

lemma add_rest:
  assumes "hash_repr e h Q L (Some (el, t)) xs" "mset ys = mset (x # xs)" "x \<notin> set xs"
    and "app_ok L' el' t' ys" "same_buckets (set_key x key hv L) L'" "t' = t\<lparr>tb_tail := tl_el\<rparr>"
  shows "add_post e Q L (Some (el, t)) h key hv x ys (HASH_ADD_TO_TABLE hv x el' L' t' h)"
proof -
  obtain cs where lk: "linked L el t xs cs" and t: "tb_addr t \<noteq> tb_buckets_ptr t" "tb_addr t \<notin> Q" "tb_buckets_ptr t \<notin> Q"
    "heap_ok e h (insert (tb_addr t) (insert (tb_buckets_ptr t) Q))" using assms(1) by (auto simp: hash_repr_def)
  have cs: "set (concat cs) = set xs" using lk by (simp add: linked_def)
  have k: "hashvs L' = (hashvs L)(x := hv)" "keys_of L' = (keys_of L)(x := key)" "hh_nexts L' = hh_nexts L" "hh_prevs L' = hh_prevs L"
    using assms(5) by (simp_all add: same_buckets_def)
  have "hash_ok L' t' cs = hash_ok L t cs" using k cs assms(3,6) by (intro hash_ok_cong) auto
  then have h: "hash_ok L' t' cs" using lk by (simp add: linked_def)
  have "insert x (set (concat cs)) = set ys" using cs mset_eq_setD [OF assms(2)] by simp
  moreover have "tb_num_items t' + 1 = of_nat (length ys)" using mset_eq_length [OF assms(2)] lk assms(6) by (simp add: linked_def)
  ultimately show ?thesis using add_to_table_ok [OF assms(4) h, of x Q e h] cs assms(3,6) t k
    by (auto simp: add_post_def out_of_memory_def split: option.splits)
qed

lemma make_table_hh_ok:
  assumes "heap_ok e h Q" "MAKE_TABLE_hh x h = Some (t, h')"
  shows "hash_ok L t (replicate 32 [])" "tb_num_items t = 0" "tb_tail t = x" "tb_addr t \<noteq> tb_buckets_ptr t" "tb_addr t \<notin> Q" "tb_buckets_ptr t \<notin> Q"
    "heap_ok e h' (insert (tb_addr t) (insert (tb_buckets_ptr t) Q))" "tb_buckets t = replicate 32 zero_bucket" "tb_num_buckets t = 32"
proof -
  obtain p h1 q where m: "malloc sizeof_ut_table h = Some (p, h1)" "p \<noteq> 0" "malloc (32 * sizeof_ut_bucket) h1 = Some (q, h')" "q \<noteq> 0"
    using assms(2) by (auto simp: MAKE_TABLE_hh_def split: option.splits if_splits)
  have p: "p \<notin> Q" "heap_ok e h1 (insert p Q)" using km.alloc_fresh [OF assms(1) m(1,2)] by auto
  have q: "q \<notin> insert p Q" "heap_ok e h' (insert q (insert p Q))" using km.alloc_fresh [OF p(2) m(3,4)] by auto
  have t: "tb_addr t = p" "tb_buckets_ptr t = q" "tb_log2 t = 5" using assms(2) m by (auto simp: MAKE_TABLE_hh_def)
  show b: "tb_num_items t = 0" "tb_tail t = x" "tb_buckets t = replicate 32 zero_bucket" "tb_num_buckets t = 32" using assms(2) m by (auto simp: MAKE_TABLE_hh_def)
  show "tb_addr t \<noteq> tb_buckets_ptr t" "tb_addr t \<notin> Q" "tb_buckets_ptr t \<notin> Q"
    "heap_ok e h' (insert (tb_addr t) (insert (tb_buckets_ptr t) Q))" using t p q by (auto simp: insert_commute)
  show "hash_ok L t (replicate 32 [])"
    using t b by (simp add: hash_ok_def buckets_ok_def placed_def zero_bucket_def list_all2_conv_all_nth)
qed

lemma add_first_ok:
  assumes "heap_ok e h Q" "x \<noteq> 0"
  shows "add_post e Q L None h key hv x [x] (add_first hv x (set_key x key hv L) h)"
proof (cases "MAKE_TABLE_hh x h")
  case None
  have "out_of_memory None h"
  proof (cases rule: km.alloc_cases [OF assms(1), where n = sizeof_ut_table, case_names null fresh])
    case (fresh p h1)
    then show ?thesis using None km.alloc_total [OF fresh(4), of "32 * sizeof_ut_bucket"]
      by (auto simp: MAKE_TABLE_hh_def out_of_memory_def split: if_splits)
  qed (simp add: out_of_memory_def)
  then show ?thesis using None by (simp add: add_first_def add_post_def)
next
  case (Some r)
  obtain t h2 where m: "MAKE_TABLE_hh x h = Some (t, h2)" using Some by (metis prod.exhaust)
  let ?L = "set_prev x 0 (set_next x 0 (set_key x key hv L))"
  note t = make_table_hh_ok [OF assms(1) m]
  have "app_ok ?L x t [x]" using assms(2) t by (simp add: app_ok_def)
  then have "case HASH_ADD_TO_TABLE (hashvs ?L x) x x ?L t h2 of
        None \<Rightarrow> \<exists>h'. malloc (sizeof_ut_bucket * tb_num_buckets t * 2) h2 = Some (0, h')
      | Some (L', head', h') \<Rightarrow> hash_repr e h' Q L' head' [x] \<and> keys_of L' = keys_of ?L \<and> hashvs L' = hashvs ?L"
    using t by (intro add_to_table_ok) auto
  moreover have "HASH_ADD_TO_TABLE hv x x ?L t h2 \<noteq> None"
    using t HASH_TO_BKT_less [of 32 hv] by (simp add: HASH_ADD_TO_TABLE_def ADD_TO_BKT_hh_def Let_def zero_bucket_def word_le_nat_alt)
  ultimately show ?thesis using m by (auto simp: add_first_def add_post_def split: option.splits)
qed

lemma add_ok:
  assumes "hash_repr e h Q L head xs" "x \<notin> set xs" "x \<noteq> 0"
  shows "add_post e Q L head h key hv x (xs @ [x]) (HASH_ADD_KEYPTR_BYHASHVALUE key hv x L head h)"
proof (cases head)
  case None
  then show ?thesis using assms add_first_ok by (simp add: HASH_ADD_KEYPTR_BYHASHVALUE_def hash_repr_def)
next
  case (Some r)
  obtain el t where r: "r = (el, t)" by (metis prod.exhaust)
  have "app_ok (set_key x key hv L) el t xs" using assms(1) Some r by (auto simp: hash_repr_def linked_def app_ok_key)
  note a = append_list_ok [OF this assms(2,3)]
  have "snd (HASH_APPEND_LIST x (set_key x key hv L) t) = t\<lparr>tb_tail := x\<rparr>" by (simp add: HASH_APPEND_LIST_def)
  from add_rest [OF assms(1) [unfolded Some r] _ assms(2) a this] show ?thesis
    using Some r by (simp add: HASH_ADD_KEYPTR_BYHASHVALUE_def split_def Let_def)
qed

lemma add_inorder_ok:
  assumes "hash_repr e h Q L head xs" "x \<notin> set xs" "x \<noteq> 0"
  shows "add_post e Q L head h key hv x (takeWhile (\<lambda>y. cmp y x \<le> 0) xs @ x # dropWhile (\<lambda>y. cmp y x \<le> 0) xs)
    (HASH_ADD_KEYPTR_BYHASHVALUE_INORDER cmp key hv x L head h)"
proof (cases head)
  case None
  then show ?thesis using assms add_first_ok by (simp add: HASH_ADD_KEYPTR_BYHASHVALUE_INORDER_def hash_repr_def)
next
  case (Some r)
  obtain el t where r: "r = (el, t)" by (metis prod.exhaust)
  let ?L = "set_key x key hv L" let ?as = "takeWhile (\<lambda>y. cmp y x \<le> 0) xs" and ?bs = "dropWhile (\<lambda>y. cmp y x \<le> 0) xs"
  have ok: "app_ok ?L el t xs" using assms(1) Some r by (auto simp: hash_repr_def linked_def app_ok_key)
  then have loop: "HASH_AKBI_INNER_LOOP cmp x ?L el = Some (head_of ?bs 0)" by (intro akbi_loop) (auto simp: app_ok_def intro: dseg_path)
  show ?thesis
  proof (cases ?bs)
    case Nil
    then have "?as = xs" by (metis append_Nil2 takeWhile_dropWhile_id)
    then have ys: "?as @ x # ?bs = xs @ [x]" using Nil by simp
    have "snd (HASH_APPEND_LIST x ?L t) = t\<lparr>tb_tail := x\<rparr>" by (simp add: HASH_APPEND_LIST_def)
    then show ?thesis using add_rest [OF assms(1) [unfolded Some r] _ assms(2) append_list_ok [OF ok assms(2,3)], of x] Some r loop Nil
      unfolding ys by (simp add: HASH_ADD_KEYPTR_BYHASHVALUE_INORDER_def split_def Let_def)
  next
    case (Cons i bs)
    then have xs: "xs = ?as @ i # bs" by (metis takeWhile_dropWhile_id)
    have "i \<noteq> 0" using ok xs dseg_nonzero by (metis app_ok_def in_set_conv_decomp)
    moreover have "app_ok ?L el t (?as @ i # bs)" "x \<notin> set (?as @ i # bs)" using ok assms(2) xs by auto
    note a = link_before_ok [OF this assms(3)]
    moreover have "mset (?as @ x # i # bs) = mset (x # xs)" using xs by (metis mset_append union_mset_add_mset_right mset.simps(2))
    moreover have "t = t\<lparr>tb_tail := tb_tail t\<rparr>" by simp
    ultimately show ?thesis using add_rest [OF assms(1) [unfolded Some r] _ assms(2) a, of "tb_tail t"] Some r loop Cons
      by (simp add: HASH_ADD_KEYPTR_BYHASHVALUE_INORDER_def split_def Let_def)
  qed
qed


section \<open>Deleting\<close>

lemma placed_nth:
  assumes "placed L nb cs" "x \<in> set (concat cs)"
  shows "x \<in> set (cs ! HASH_TO_BKT (hashvs L x) nb)"
proof -
  obtain c where "c \<in> set cs" "x \<in> set c" using assms(2) by auto
  then obtain j where "j < length cs" "x \<in> set (cs ! j)" by (metis in_set_conv_nth)
  then show ?thesis using assms(1) by (auto simp: placed_def)
qed

lemma placed_shrink:
  assumes "placed L nb cs" "set c \<subseteq> set (cs ! b)"
  shows "placed L nb (cs[b := c])"
  unfolding placed_def
proof (intro allI impI ballI)
  fix k y assume "k < length (cs[b := c])" "y \<in> set (cs[b := c] ! k)"
  then show "HASH_TO_BKT (hashvs L y) nb = k" using assms unfolding placed_def by (cases "k = b") auto
qed

lemma placed_hashvs: "hashvs L' = hashvs L \<Longrightarrow> placed L' nb cs = placed L nb cs"
  by (simp add: placed_def)

lemma del_in_bkt_ok:
  assumes "hash_ok L t cs" "x \<in> set (concat cs)" "HASH_DEL_IN_BKT (HASH_TO_BKT (hashvs L x) (tb_num_buckets t)) x L t = (L', t')"
  shows "\<exists>cs'. hash_ok L' t' cs' \<and> mset (concat cs') = mset (remove1 x (concat cs))" "same_list L t L' t'" "tb_buckets_ptr t' = tb_buckets_ptr t"
proof -
  let ?b = "HASH_TO_BKT (hashvs L x) (tb_num_buckets t)"
  have b: "?b < length cs" using hash_bkt [OF assms(1)] .
  have B: "buckets_ok L (tb_buckets t) cs" and x: "x \<in> set (cs ! ?b)" using assms(1,2) placed_nth by (auto simp: hash_ok_def)
  obtain as bs where c: "cs ! ?b = as @ x # bs" using split_list [OF x] by blast
  note D = buckets_nth [OF B b, unfolded c]
  note P = dseg_pointers [OF D(2)] and F = dseg_first [OF D(2,4)]
  have xs: "x \<notin> set as" "x \<notin> set bs" using D(4) by auto
  have L': "hh_nexts L' = (if hh_prevs L x \<noteq> 0 then (hh_nexts L)(hh_prevs L x := hh_nexts L x) else hh_nexts L)"
    "hh_prevs L' = (if hh_nexts L x \<noteq> 0 then (hh_prevs L)(hh_nexts L x := hh_prevs L x) else hh_prevs L)"
    "same_list L t L' t'" "tb_buckets_ptr t' = tb_buckets_ptr t" "tb_num_buckets t' = tb_num_buckets t" "tb_log2 t' = tb_log2 t"
    using assms(3) P xs last_in_set [of as]
    by (auto simp: HASH_DEL_IN_BKT_def Let_def same_list_def last_of_def split: if_splits)
  show "same_list L t L' t'" "tb_buckets_ptr t' = tb_buckets_ptr t" using L' by auto
  have r: "remove1 x (cs ! ?b) = as @ bs" using c xs by (simp add: remove1_append)
  note M = mset_concat_remove [OF b x]
  have near: "hh_prevs L x \<noteq> 0 \<Longrightarrow> hh_prevs L x \<in> set (cs ! ?b)" "hh_nexts L x \<noteq> 0 \<Longrightarrow> hh_nexts L x \<in> set (cs ! ?b)"
    unfolding P(1,2) c by (cases as rule: rev_cases; simp) (cases bs; simp)
  obtain bk where bk: "tb_buckets t' = (tb_buckets t)[?b := bk]" "pb_head bk = (if hh_prevs L x \<noteq> 0 then pb_head (tb_buckets t ! ?b) else hh_nexts L x)"
    "pb_count bk = pb_count (tb_buckets t ! ?b) - 1" using assms(3) F by (auto simp: HASH_DEL_IN_BKT_def Let_def)
  have "buckets_ok L' (tb_buckets t') (cs[?b := as @ bs])" unfolding bk(1)
  proof (rule buckets_update [OF B b])
    show "distinct (concat (cs[?b := as @ bs]))"
      using mset_eq_imp_distinct_iff [OF M] r B by (simp add: buckets_ok_def)
    show "dseg (hh_nexts L') (hh_prevs L') 0 (pb_head bk) (as @ bs) 0" unfolding L'(1,2) bk(2) by (rule dseg_unlink [OF D(2,4)])
    show "pb_count bk = of_nat (length (as @ bs))" using bk(3) D(3) by simp
    show "hh_nexts L' y = hh_nexts L y \<and> hh_prevs L' y = hh_prevs L y" if "y \<notin> set (cs ! ?b)" "y \<in> set (concat cs)" for y
      using that(1) near unfolding L'(1,2) by auto
  qed
  moreover have "placed L' (tb_num_buckets t') (cs[?b := as @ bs])"
  proof -
    have "set (as @ bs) \<subseteq> set (cs ! ?b)" unfolding c by auto
    then have "placed L (tb_num_buckets t) (cs[?b := as @ bs])" using assms(1) by (intro placed_shrink) (simp add: hash_ok_def)
    moreover have "hashvs L' = hashvs L" using L'(3) by (simp add: same_list_def)
    ultimately show ?thesis using placed_hashvs [of L' L] L'(5) by simp
  qed
  ultimately have "hash_ok L' t' (cs[?b := as @ bs])" using assms(1) L'(5,6) by (simp add: hash_ok_def)
  then show "\<exists>cs'. hash_ok L' t' cs' \<and> mset (concat cs') = mset (remove1 x (concat cs))" using M r by metis
qed

text \<open>The first half of \<^verbatim>\<open>HASH_DELETE_HH\<close>: the element leaves the application order.\<close>

definition unlink :: "u32 \<Rightarrow> links \<Rightarrow> links" where
  "unlink x L = (let L1 = (if prevs L x \<noteq> 0 then set_next (prevs L x) (nexts L x) L else L)
     in if nexts L1 x \<noteq> 0 then set_prev (nexts L1 x) (prevs L1 x) L1 else L1)"

lemma unlink_ok:
  assumes "app_ok L el t (as @ x # bs)" "as @ bs \<noteq> []"
  shows "app_ok (unlink x L) (if prevs L x \<noteq> 0 then el else nexts L x) (if x = tb_tail t then t\<lparr>tb_tail := prevs L x\<rparr> else t) (as @ bs)"
    "same_buckets L (unlink x L)"
proof -
  have a: "dseg (nexts L) (prevs L) 0 el (as @ x # bs) 0" "distinct (as @ x # bs)" "tb_tail t = last (as @ x # bs)"
    using assms(1) by (auto simp: app_ok_def)
  note P = dseg_pointers [OF a(1)]
  have near: "prevs L x \<noteq> x" using P(1,3) a(2) by (cases as rule: rev_cases) auto
  have "x = last (as @ x # bs) \<longleftrightarrow> bs = []" using a(2) by (cases bs rule: rev_cases) auto
  then have tl: "tb_tail (if x = tb_tail t then t\<lparr>tb_tail := prevs L x\<rparr> else t) = last (as @ bs)"
    using a(3) P(1) assms(2) by (auto simp: last_of_def)
  have u: "nexts (unlink x L) = (if prevs L x \<noteq> 0 then (nexts L)(prevs L x := nexts L x) else nexts L)"
    "prevs (unlink x L) = (if nexts L x \<noteq> 0 then (prevs L)(nexts L x := prevs L x) else prevs L)"
    using near by (auto simp: unlink_def Let_def)
  have "dseg (nexts (unlink x L)) (prevs (unlink x L)) 0 (if prevs L x \<noteq> 0 then el else nexts L x) (as @ bs) 0"
    unfolding u by (rule dseg_unlink [OF a(1,2)])
  then show "app_ok (unlink x L) (if prevs L x \<noteq> 0 then el else nexts L x) (if x = tb_tail t then t\<lparr>tb_tail := prevs L x\<rparr> else t) (as @ bs)"
    using tl a(2) assms(2) by (simp only: app_ok_def) auto
  show "same_buckets L (unlink x L)" by (auto simp: unlink_def Let_def same_buckets_def)
qed

lemma delete_only:
  assumes "hash_repr e h Q L (Some (el, t)) [x]"
  shows "HASH_DELETE_HH x L el t h = (L, None, free (tb_addr t) (free (tb_buckets_ptr t) h))"
    "heap_ok e (free (tb_addr t) (free (tb_buckets_ptr t) h)) Q"
proof -
  have "prevs L x = 0" "nexts L x = 0" using assms by (auto simp: hash_repr_def linked_def app_ok_def)
  then show "HASH_DELETE_HH x L el t h = (L, None, free (tb_addr t) (free (tb_buckets_ptr t) h))" by (simp add: HASH_DELETE_HH_def)
  have h: "heap_ok e h (insert (tb_addr t) (insert (tb_buckets_ptr t) Q))" and d: "tb_addr t \<noteq> tb_buckets_ptr t" "tb_addr t \<notin> Q" "tb_buckets_ptr t \<notin> Q"
    using assms by (auto simp: hash_repr_def)
  show "heap_ok e (free (tb_addr t) (free (tb_buckets_ptr t) h)) Q"
    using km.dealloc_all [OF h, of "[tb_buckets_ptr t, tb_addr t]"] d by (simp add: insert_Diff_if)
qed

lemma items_only [simp]: "app_ok L el (t\<lparr>tb_num_items := n\<rparr>) xs = app_ok L el t xs" "hash_ok L (t\<lparr>tb_num_items := n\<rparr>) cs = hash_ok L t cs"
  by (simp_all add: app_ok_def hash_ok_def)

lemma delete_inner:
  assumes "linked L el t (as @ x # bs) cs" "as @ bs \<noteq> []"
  shows "\<exists>L' el' t' cs'. HASH_DELETE_HH x L el t h = (L', Some (el', t'), h) \<and> linked L' el' t' (as @ bs) cs' \<and>
     keys_of L' = keys_of L \<and> hashvs L' = hashvs L \<and> tb_addr t' = tb_addr t \<and> tb_buckets_ptr t' = tb_buckets_ptr t"
proof -
  have lk: "app_ok L el t (as @ x # bs)" "hash_ok L t cs" "set (concat cs) = set (as @ x # bs)" "tb_num_items t = of_nat (length (as @ x # bs))"
    using assms(1) by (auto simp: linked_def)
  note u = unlink_ok [OF lk(1) assms(2)]
  let ?el = "if prevs L x \<noteq> 0 then el else nexts L x"
  define t1 where "t1 = (if x = tb_tail t then t\<lparr>tb_tail := prevs L x\<rparr> else t)"
  have a: "dseg (nexts L) (prevs L) 0 el (as @ x # bs) 0" using lk(1) by (simp add: app_ok_def)
  have nz: "\<not> (prevs L x = 0 \<and> nexts L x = 0)"
    using dseg_pointers [OF a] dseg_nonzero [OF a] assms(2) last_of_null [of as] head_of_null [of bs] by simp
  have b: "hh_nexts (unlink x L) = hh_nexts L" "hh_prevs (unlink x L) = hh_prevs L" "hashvs (unlink x L) = hashvs L" "keys_of (unlink x L) = keys_of L"
    using u(2) by (simp_all add: same_buckets_def)
  have f: "tb_buckets t1 = tb_buckets t" "tb_num_buckets t1 = tb_num_buckets t" "tb_log2 t1 = tb_log2 t" "tb_buckets_ptr t1 = tb_buckets_ptr t"
    "tb_num_items t1 = tb_num_items t" "tb_addr t1 = tb_addr t" by (simp_all add: t1_def)
  have h1: "hash_ok (unlink x L) t1 cs" using lk(2) b f hash_ok_cong [of "unlink x L" L cs t1 t] by simp
  obtain L2 t2 where D: "HASH_DEL_IN_BKT (HASH_TO_BKT (hashvs (unlink x L) x) (tb_num_buckets t1)) x (unlink x L) t1 = (L2, t2)"
    by (metis prod.exhaust)
  have x: "x \<in> set (concat cs)" using lk(3) by simp
  note D' = del_in_bkt_ok [OF h1 x D]
  obtain cs' where c: "hash_ok L2 t2 cs'" "mset (concat cs') = mset (remove1 x (concat cs))" using D'(1) by blast
  have dist: "distinct (concat cs)" "distinct (as @ x # bs)" using lk(1,2) by (auto simp: hash_ok_def buckets_ok_def app_ok_def)
  have "set (concat cs') = set (as @ bs)" using mset_eq_setD [OF c(2)] dist lk(3) by (auto simp: set_remove1_eq)
  moreover have "app_ok L2 ?el t2 (as @ bs)" using app_ok_same [OF D'(2)] u(1) unfolding t1_def [symmetric] by blast
  moreover have "tb_num_items t2 - 1 = of_nat (length (as @ bs))" using D'(2) lk(4) f by (simp add: same_list_def)
  ultimately have "linked L2 ?el (t2\<lparr>tb_num_items := tb_num_items t2 - 1\<rparr>) (as @ bs) cs'" using c(1) by (simp only: linked_def items_only) simp
  moreover have "HASH_DELETE_HH x L el t h = (L2, Some (?el, t2\<lparr>tb_num_items := tb_num_items t2 - 1\<rparr>), h)"
    using nz D unfolding HASH_DELETE_HH_def unlink_def t1_def by (simp add: Let_def)
  ultimately show ?thesis using D'(2,3) b f by (fastforce simp: same_list_def)
qed

lemma delete_ok:
  assumes "hash_repr e h Q L (Some (el, t)) xs" "x \<in> set xs" "HASH_DELETE_HH x L el t h = (L', head', h')"
  shows "hash_repr e h' Q L' head' (remove1 x xs) \<and> keys_of L' = keys_of L \<and> hashvs L' = hashvs L \<and> (head' = None \<longleftrightarrow> xs = [x])"
proof -
  obtain as bs where xs: "xs = as @ x # bs" "x \<notin> set as" using split_list_first [OF assms(2)] by blast
  then have r: "remove1 x xs = as @ bs" by (simp add: remove1_append)
  show ?thesis
  proof (cases "as @ bs = []")
    case True
    then show ?thesis using delete_only [of e h Q L el t x] assms xs by (simp add: hash_repr_def)
  next
    case False
    then show ?thesis using delete_inner [of L el t as x bs _ h] assms(1,3) xs r by (fastforce simp: hash_repr_def)
  qed
qed


section \<open>Searching and replacing\<close>

definition key_match :: "links \<Rightarrow> string \<Rightarrow> u32 \<Rightarrow> u32 \<Rightarrow> bool" where
  "key_match L key hashval x \<longleftrightarrow> hashvs L x = hashval \<and> length (keys_of L x) = length key \<and> chars_memcmp (keys_of L x) key = 0"

lemma find_in_bkt_hh:
  "path (hh_nexts L) p c \<Longrightarrow> FIND_IN_BKT_hh L key hv p = Some (head_of (dropWhile (\<lambda>x. \<not> key_match L key hv x) c) 0)"
  by (induction c arbitrary: p) (auto simp: FIND_IN_BKT_hh.simps key_match_def)

lemma find_ok:
  assumes "hash_repr e h Q L head xs"
  shows "\<exists>r. HASH_FIND_BYHASHVALUE L head key hv = Some r \<and>
    (r = 0 \<and> (\<forall>x\<in>set xs. \<not> key_match L key hv x) \<or> r \<noteq> 0 \<and> r \<in> set xs \<and> key_match L key hv r)"
proof (cases head)
  case None
  then show ?thesis using assms by (simp add: HASH_FIND_BYHASHVALUE_def hash_repr_def)
next
  case (Some w)
  then obtain el t cs where w: "w = (el, t)" "linked L el t xs cs" using assms by (auto simp: hash_repr_def)
  then have ok: "hash_ok L t cs" "set (concat cs) = set xs" by (auto simp: linked_def)
  let ?b = "HASH_TO_BKT hv (tb_num_buckets t)"
  have b: "?b < length cs" using hash_bkt [OF ok(1)] .
  have "buckets_ok L (tb_buckets t) cs" using ok(1) by (simp add: hash_ok_def)
  note d = buckets_nth(2) [OF this b]
  have find: "HASH_FIND_BYHASHVALUE L head key hv = Some (head_of (dropWhile (\<lambda>x. \<not> key_match L key hv x) (cs ! ?b)) 0)"
    using find_in_bkt_hh [OF dseg_path [OF d]] Some w by (simp add: HASH_FIND_BYHASHVALUE_def)
  have sub: "set (cs ! ?b) \<subseteq> set xs" using b ok(2) by auto
  show ?thesis
  proof (cases "dropWhile (\<lambda>x. \<not> key_match L key hv x) (cs ! ?b)")
    case Nil
    have "\<not> key_match L key hv x" if "x \<in> set xs" for x
    proof
      assume m: "key_match L key hv x"
      have "placed L (tb_num_buckets t) cs" "x \<in> set (concat cs)" using ok that by (simp_all add: hash_ok_def)
      then have "x \<in> set (cs ! ?b)" using placed_nth [of L "tb_num_buckets t" cs x] m by (simp add: key_match_def)
      then show False using Nil m by (simp add: dropWhile_eq_Nil_conv)
    qed
    then show ?thesis using find Nil by auto
  next
    case (Cons x ys)
    then have "key_match L key hv x" "x \<in> set (cs ! ?b)" by (auto simp: dropWhile_eq_Cons_conv) (metis in_set_conv_decomp)
    then show ?thesis using find Cons sub dseg_nonzero [OF d] by auto
  qed
qed

text \<open>Elements with their own hash values and keys of \<open>K\<close>, no two alike, are a map from keys to elements.\<close>

definition dict_repr :: "string set \<Rightarrow> u32 \<Rightarrow> heap \<Rightarrow> u32 set \<Rightarrow> links \<Rightarrow> uhash \<Rightarrow> u32 list \<Rightarrow> bool" where
  "dict_repr K e h Q L head xs \<longleftrightarrow> ut_sep K \<and> hash_repr e h Q L head xs \<and> distinct (map (keys_of L) xs) \<and>
     (\<forall>x\<in>set xs. keys_of L x \<in> K \<and> hashvs L x = HASH_JEN (keys_of L x))"

definition hash_map :: "links \<Rightarrow> u32 list \<Rightarrow> string \<Rightarrow> u32 option" where
  "hash_map L xs = map_of (map (\<lambda>x. (keys_of L x, x)) xs)"

lemma hash_map_Some: "distinct (map (keys_of L) xs) \<Longrightarrow> hash_map L xs k = Some x \<longleftrightarrow> x \<in> set xs \<and> keys_of L x = k"
  by (auto simp: hash_map_def map_of_eq_Some_iff comp_def)

lemma hash_map_None: "hash_map L xs k = None \<longleftrightarrow> k \<notin> keys_of L ` set xs"
  by (simp add: hash_map_def map_of_eq_None_iff image_image)

lemma key_match_iff:
  assumes "dict_repr K e h Q L head xs" "key \<in> K" "x \<in> set xs"
  shows "key_match L key (HASH_JEN key) x \<longleftrightarrow> keys_of L x = key"
proof -
  have x: "keys_of L x \<in> K" "hashvs L x = HASH_JEN (keys_of L x)" "ut_sep K" using assms by (auto simp: dict_repr_def)
  show ?thesis
  proof
    assume "key_match L key (HASH_JEN key) x"
    then have "HASH_JEN (keys_of L x) = HASH_JEN key" "list_all2 (\<lambda>a b. b \<le> a) (keys_of L x) key"
      using x(2) by (auto simp: key_match_def chars_memcmp_dominates split: if_splits)
    then show "keys_of L x = key" using x(1,3) assms(2) unfolding ut_sep_def by blast
  next
    assume "keys_of L x = key"
    then show "key_match L key (HASH_JEN key) x" using x(2) by (simp add: key_match_def chars_memcmp_dominates list_all2_refl)
  qed
qed

lemma find_dict:
  assumes "dict_repr K e h Q L head xs" "key \<in> K"
  shows "HASH_FIND_BYHASHVALUE L head key (HASH_JEN key) = Some (case hash_map L xs key of None \<Rightarrow> 0 | Some x \<Rightarrow> x)"
proof -
  have "hash_repr e h Q L head xs" and d: "distinct (map (keys_of L) xs)" using assms(1) by (auto simp: dict_repr_def)
  from find_ok [OF this(1)] obtain r where r: "HASH_FIND_BYHASHVALUE L head key (HASH_JEN key) = Some r"
    "r = 0 \<and> (\<forall>x\<in>set xs. \<not> key_match L key (HASH_JEN key) x) \<or> r \<noteq> 0 \<and> r \<in> set xs \<and> key_match L key (HASH_JEN key) r" by blast
  show ?thesis
  proof (cases "hash_map L xs key")
    case None
    then have "key \<notin> keys_of L ` set xs" by (simp add: hash_map_None)
    then show ?thesis using r key_match_iff [OF assms] None by auto
  next
    case (Some x)
    then have "x \<in> set xs" "keys_of L x = key" using hash_map_Some [OF d] by auto
    then have "r \<in> set xs" "keys_of L r = key" using r(2) key_match_iff [OF assms] by auto
    then have "hash_map L xs key = Some r" using hash_map_Some [OF d] by simp
    then show ?thesis using r(1) Some by simp
  qed
qed

lemma delete_dict:
  assumes "dict_repr K e h Q L (Some (el, t)) xs" "x \<in> set xs" "HASH_DELETE_HH x L el t h = (L', head', h')"
  shows "dict_repr K e h' Q L' head' (remove1 x xs)" "hash_map L' (remove1 x xs) = (hash_map L xs)(keys_of L x := None)" "keys_of L' = keys_of L"
proof -
  have d: "distinct (map (keys_of L) xs)" "hash_repr e h Q L (Some (el, t)) xs" using assms(1) by (auto simp: dict_repr_def)
  have D: "hash_repr e h' Q L' head' (remove1 x xs)" "keys_of L' = keys_of L" "hashvs L' = hashvs L"
    using delete_ok [OF d(2) assms(2,3)] by auto
  have xs: "distinct xs" "inj_on (keys_of L) (set xs)" using d(1) by (auto simp: distinct_map)
  have d': "distinct (map (keys_of L) (remove1 x xs))" using xs by (auto simp: distinct_map intro: inj_on_subset)
  have "hash_map L (remove1 x xs) k = Some y \<longleftrightarrow> ((hash_map L xs)(keys_of L x := None)) k = Some y" for k y
    using hash_map_Some [OF d'] hash_map_Some [OF d(1)] xs assms(2) by (auto simp: inj_on_def)
  then have "hash_map L (remove1 x xs) = (hash_map L xs)(keys_of L x := None)" by (intro ext option_eqI)
  then show "hash_map L' (remove1 x xs) = (hash_map L xs)(keys_of L x := None)" using D(2) by (auto simp: hash_map_def)
  show "dict_repr K e h' Q L' head' (remove1 x xs)" using D d' assms(1) by (auto simp: dict_repr_def dest: notin_set_remove1)
  show "keys_of L' = keys_of L" using D by simp
qed

lemma add_dict:
  assumes "dict_repr K e h Q L head xs" "key \<in> K" "hash_map L xs key = None" "mset ys = mset (x # xs)" "x \<notin> set xs"
    and "add_post e Q L head h key (HASH_JEN key) x ys (Some (L', head', h'))"
  shows "dict_repr K e h' Q L' head' ys" "hash_map L' ys = (hash_map L xs)(key \<mapsto> x)"
proof -
  have L': "hash_repr e h' Q L' head' ys" "keys_of L' = (keys_of L)(x := key)" "hashvs L' = (hashvs L)(x := HASH_JEN key)"
    using assms(6) by (auto simp: add_post_def)
  have ys: "set ys = insert x (set xs)" using mset_eq_setD [OF assms(4)] by simp
  have k: "key \<notin> keys_of L ` set xs" "distinct (map (keys_of L) xs)" using assms(1,3) by (auto simp: hash_map_None dict_repr_def)
  have "map (keys_of L') (x # xs) = key # map (keys_of L) xs" using L'(2) assms(5) by auto
  then have "distinct (map (keys_of L') (x # xs))" using k by (metis distinct.simps(2) list.set_map)
  moreover have "mset (map (keys_of L') ys) = mset (map (keys_of L') (x # xs))" using assms(4) by (simp only: mset_map)
  ultimately have d: "distinct (map (keys_of L') ys)" by (metis mset_eq_imp_distinct_iff)
  then show "dict_repr K e h' Q L' head' ys" using L' assms(1,2) ys by (auto simp: dict_repr_def)
  have "hash_map L' ys k' = Some y \<longleftrightarrow> ((hash_map L xs)(key \<mapsto> x)) k' = Some y" for k' y
    using hash_map_Some [OF d] hash_map_Some [OF k(2)] L'(2) ys k(1) assms(5) by auto
  then show "hash_map L' ys = (hash_map L xs)(key \<mapsto> x)" by (intro ext option_eqI)
qed

lemma delete_found_dict:
  assumes "dict_repr K e h Q L head xs" "r = (case hash_map L xs key of None \<Rightarrow> 0 | Some x \<Rightarrow> x)"
    and "delete_found r L head h = (L', head', h')"
  shows "dict_repr K e h' Q L' head' (remove1 r xs)" "hash_map L' (remove1 r xs) = (hash_map L xs)(key := None)"
proof -
  have d: "distinct (map (keys_of L) xs)" and H: "hash_repr e h Q L head xs" using assms(1) by (auto simp: dict_repr_def)
  have nz: "0 \<notin> set xs"
  proof (cases head)
    case (Some w)
    then show ?thesis using H dseg_nonzero by (cases w) (auto simp: hash_repr_def linked_def app_ok_def)
  qed (use H in \<open>simp add: hash_repr_def\<close>)
  have "dict_repr K e h' Q L' head' (remove1 r xs) \<and> hash_map L' (remove1 r xs) = (hash_map L xs)(key := None)"
  proof (cases "hash_map L xs key")
    case None
    then have "(L', head', h') = (L, head, h)" using assms(2,3) by (auto simp: delete_found_def split: option.splits)
    then show ?thesis using None assms(1,2) nz by (auto simp: remove1_idem)
  next
    case (Some x)
    then have "x \<in> set xs \<and> keys_of L x = key" using hash_map_Some [OF d] by blast
    then have x: "x \<in> set xs" "keys_of L x = key" "x \<noteq> 0" "r = x" using assms(2) nz Some by auto
    then obtain el t where head: "head = Some (el, t)" using H by (cases head) (auto simp: hash_repr_def)
    then have "HASH_DELETE_HH x L el t h = (L', head', h')" using assms(3) x by (simp add: delete_found_def)
    from delete_dict [OF assms(1) [unfolded head] x(1) this] show ?thesis using x by simp
  qed
  then show "dict_repr K e h' Q L' head' (remove1 r xs)" "hash_map L' (remove1 r xs) = (hash_map L xs)(key := None)" by auto
qed

lemma replace_dict:
  assumes "dict_repr K e h Q L head xs" "key \<in> K" "x \<notin> set xs" "x \<noteq> 0" "r = (case hash_map L xs key of None \<Rightarrow> 0 | Some y \<Rightarrow> y)"
    and "\<And>L0 head0 h0. dict_repr K e h0 Q L0 head0 (remove1 r xs) \<Longrightarrow>
      add_post e Q L0 head0 h0 key (HASH_JEN key) x (ins (remove1 r xs)) (add L0 head0 h0)"
    and "mset (ins (remove1 r xs)) = mset (x # remove1 r xs)"
    and "(let (L', head', h') = delete_found r L head h in add L' head' h') = Some (L', head', h')"
  shows "dict_repr K e h' Q L' head' (ins (remove1 r xs))" "hash_map L' (ins (remove1 r xs)) = (hash_map L xs)(key \<mapsto> x)"
proof -
  obtain L0 head0 h0 where D: "delete_found r L head h = (L0, head0, h0)" by (metis prod.exhaust)
  note d = delete_found_dict [OF assms(1,5) D]
  have "add_post e Q L0 head0 h0 key (HASH_JEN key) x (ins (remove1 r xs)) (Some (L', head', h'))"
    using assms(6) [OF d(1)] assms(8) D by simp
  moreover have "hash_map L0 (remove1 r xs) key = None" "x \<notin> set (remove1 r xs)" using d(2) assms(3) by (auto dest: notin_set_remove1)
  ultimately show "dict_repr K e h' Q L' head' (ins (remove1 r xs))" "hash_map L' (ins (remove1 r xs)) = (hash_map L xs)(key \<mapsto> x)"
    using add_dict [OF d(1) assms(2) _ assms(7)] d(2) by auto
qed

end
