(* ===== verification/Uthash_Check.thy ===== *)
theory Uthash_Check
  imports Uthash_Lists
begin

text \<open>
  \<^verbatim>\<open>HASH_FSCK\<close>, the integrity check the library runs after every change when it is built with \<^verbatim>\<open>HASH_DEBUG\<close>, and \<^verbatim>\<open>HASH_SELECT\<close>, which
  collects elements of one hash in another one through a second handle. The check is a loop on pointers, None where it does not end, and
  answers the first fault it finds. It passes exactly on two well-formed families of lists with the right counts, so that every operation of
  \<^verbatim>\<open>Uthash_Lists\<close> passes it. It does not look at the tail pointer, and \<^verbatim>\<open>HASH_SELECT\<close> leaves that pointer at the first element it selected:
  the element added next is linked behind the first one, and the others leave the application order.
\<close>

section \<open>The integrity check\<close>

datatype fsck_fault = Invalid_hh_prev | Invalid_bucket_count | Invalid_hh_item_count | Invalid_prev | Invalid_app_item_count

text \<open>The two loops of the check, along the bucket chains and along the application order, differ in the pointers and in the fault.\<close>

partial_function (option) fsck_walk ::
  "fsck_fault \<Rightarrow> (u32 \<Rightarrow> u32) \<Rightarrow> (u32 \<Rightarrow> u32) \<Rightarrow> u32 \<Rightarrow> u32 \<Rightarrow> u32 \<Rightarrow> (fsck_fault + u32) option" where
  "fsck_walk f nx pv thh prev cnt =
     (if thh = 0 then Some (Inr cnt)
      else if prev \<noteq> pv thh then Some (Inl f)
      else fsck_walk f nx pv (nx thh) thh (cnt + 1))"

fun fsck_buckets :: "links \<Rightarrow> pbucket list \<Rightarrow> u32 \<Rightarrow> (fsck_fault + u32) option" where
  "fsck_buckets L [] cnt = Some (Inr cnt)"
| "fsck_buckets L (bk # bks) cnt =
     (case fsck_walk Invalid_hh_prev (hh_nexts L) (hh_prevs L) (pb_head bk) 0 0 of None \<Rightarrow> None
      | Some (Inl f) \<Rightarrow> Some (Inl f)
      | Some (Inr n) \<Rightarrow> if pb_count bk \<noteq> n then Some (Inl Invalid_bucket_count) else fsck_buckets L bks (cnt + n))"

text \<open>The result is the fault the check reports, or None when it reports nothing.\<close>

definition HASH_FSCK :: "links \<Rightarrow> uhash \<Rightarrow> fsck_fault option option" where
  "HASH_FSCK L head =
     (case head of None \<Rightarrow> Some None
      | Some (el, t) \<Rightarrow>
          (case fsck_buckets L (take (unat (tb_num_buckets t)) (tb_buckets t)) 0 of None \<Rightarrow> None
           | Some (Inl f) \<Rightarrow> Some (Some f)
           | Some (Inr cnt) \<Rightarrow>
               (if cnt \<noteq> tb_num_items t then Some (Some Invalid_hh_item_count)
                else case fsck_walk Invalid_prev (nexts L) (prevs L) el 0 0 of None \<Rightarrow> None
                  | Some (Inl f) \<Rightarrow> Some (Some f)
                  | Some (Inr n) \<Rightarrow> if n \<noteq> tb_num_items t then Some (Some Invalid_app_item_count) else Some None)))"

lemma fsck_walk_ok: "dseg nx pv q p c 0 \<Longrightarrow> fsck_walk f nx pv p q n = Some (Inr (n + of_nat (length c)))"
  by (induction c arbitrary: p q n) (auto simp: fsck_walk.simps add.assoc)

lemma fsck_walk_sound:
  assumes "fsck_walk f nx pv p q n = Some (Inr m)"
  shows "\<exists>c. dseg nx pv q p c 0 \<and> m = n + of_nat (length c)"
proof -
  have "\<forall>m. r = Inr m \<longrightarrow> (\<exists>c. dseg nx pv q p c 0 \<and> m = n + of_nat (length c))" if "fsck_walk f nx pv p q n = Some r" for r
  proof (rule fsck_walk.raw_induct [where P = "\<lambda>f nx pv p q n r. \<forall>m. r = Inr m \<longrightarrow> (\<exists>c. dseg nx pv q p c 0 \<and> m = n + of_nat (length c))", OF _ that])
    fix walk f nx pv p q n and r :: "fsck_fault + u32"
    assume IH: "\<And>f nx pv p q n r. walk f nx pv p q n = Some r \<Longrightarrow> \<forall>m. r = Inr m \<longrightarrow> (\<exists>c. dseg nx pv q p c 0 \<and> m = n + of_nat (length c))"
      and r: "(if p = 0 then Some (Inr n) else if q \<noteq> pv p then Some (Inl f) else walk f nx pv (nx p) p (n + 1)) = Some r"
    show "\<forall>m. r = Inr m \<longrightarrow> (\<exists>c. dseg nx pv q p c 0 \<and> m = n + of_nat (length c))"
    proof (intro allI impI)
      fix m assume m: "r = Inr m"
      show "\<exists>c. dseg nx pv q p c 0 \<and> m = n + of_nat (length c)"
      proof (cases "p = 0")
        case True
        then show ?thesis using r m by (intro exI [of _ "[]"]) simp
      next
        case False
        then have q: "q = pv p" "walk f nx pv (nx p) p (n + 1) = Some r" using r m by (auto split: if_splits)
        then obtain c where "dseg nx pv p (nx p) c 0" "m = n + 1 + of_nat (length c)" using IH m by blast
        then show ?thesis using False q by (intro exI [of _ "p # c"]) simp
      qed
    qed
  qed
  then show ?thesis using assms by blast
qed

definition chain_of :: "links \<Rightarrow> pbucket \<Rightarrow> u32 list \<Rightarrow> bool" where
  "chain_of L bk c \<longleftrightarrow> dseg (hh_nexts L) (hh_prevs L) 0 (pb_head bk) c 0 \<and> pb_count bk = of_nat (length c)"

lemma fsck_buckets_iff:
  "fsck_buckets L bks n = Some (Inr m) \<longleftrightarrow> (\<exists>cs. list_all2 (chain_of L) bks cs \<and> m = n + of_nat (length (concat cs)))"
proof (induction bks arbitrary: n)
  case (Cons bk bks)
  show ?case
  proof
    assume "fsck_buckets L (bk # bks) n = Some (Inr m)"
    then obtain k where k: "fsck_walk Invalid_hh_prev (hh_nexts L) (hh_prevs L) (pb_head bk) 0 0 = Some (Inr k)" "pb_count bk = k" "fsck_buckets L bks (n + k) = Some (Inr m)"
      by (auto split: option.splits sum.splits if_splits)
    then show "\<exists>cs. list_all2 (chain_of L) (bk # bks) cs \<and> m = n + of_nat (length (concat cs))"
    proof -
      obtain c where "dseg (hh_nexts L) (hh_prevs L) 0 (pb_head bk) c 0" "k = of_nat (length c)" using fsck_walk_sound [OF k(1)] by auto
      moreover obtain cs where "list_all2 (chain_of L) bks cs" "m = n + k + of_nat (length (concat cs))" using k(3) Cons.IH by blast
      ultimately show ?thesis using k(2) by (intro exI [of _ "c # cs"]) (simp add: chain_of_def)
    qed
  next
    assume "\<exists>cs. list_all2 (chain_of L) (bk # bks) cs \<and> m = n + of_nat (length (concat cs))"
    then obtain c cs where c: "chain_of L bk c" "list_all2 (chain_of L) bks cs" "m = n + of_nat (length c) + of_nat (length (concat cs))"
      by (auto simp: list_all2_Cons1 add.assoc)
    then have "fsck_buckets L bks (n + of_nat (length c)) = Some (Inr m)" using Cons.IH by blast
    then show "fsck_buckets L (bk # bks) n = Some (Inr m)"
      using fsck_walk_ok [of "hh_nexts L" "hh_prevs L" 0 "pb_head bk" c _ 0] c(1) by (simp add: chain_of_def)
  qed
qed auto

lemma fsck_iff:
  assumes "length (tb_buckets t) = unat (tb_num_buckets t)"
  shows "HASH_FSCK L (Some (el, t)) = Some None \<longleftrightarrow>
    (\<exists>xs cs. dseg (nexts L) (prevs L) 0 el xs 0 \<and> tb_num_items t = of_nat (length xs) \<and>
       list_all2 (chain_of L) (tb_buckets t) cs \<and> tb_num_items t = of_nat (length (concat cs)))"
proof
  assume "HASH_FSCK L (Some (el, t)) = Some None"
  then have "fsck_buckets L (tb_buckets t) 0 = Some (Inr (tb_num_items t))" and l: "fsck_walk Invalid_prev (nexts L) (prevs L) el 0 0 = Some (Inr (tb_num_items t))"
    using assms by (auto simp: HASH_FSCK_def split: option.splits sum.splits if_splits)
  then show "\<exists>xs cs. dseg (nexts L) (prevs L) 0 el xs 0 \<and> tb_num_items t = of_nat (length xs) \<and>
       list_all2 (chain_of L) (tb_buckets t) cs \<and> tb_num_items t = of_nat (length (concat cs))"
    using fsck_walk_sound [OF l] by (auto simp: fsck_buckets_iff)
next
  assume "\<exists>xs cs. dseg (nexts L) (prevs L) 0 el xs 0 \<and> tb_num_items t = of_nat (length xs) \<and>
       list_all2 (chain_of L) (tb_buckets t) cs \<and> tb_num_items t = of_nat (length (concat cs))"
  then obtain xs cs where x: "dseg (nexts L) (prevs L) 0 el xs 0" "tb_num_items t = of_nat (length xs)"
    "list_all2 (chain_of L) (tb_buckets t) cs" "tb_num_items t = of_nat (length (concat cs))" by blast
  have "fsck_buckets L (tb_buckets t) 0 = Some (Inr (tb_num_items t))" using x(3,4) by (auto simp: fsck_buckets_iff)
  moreover have "fsck_walk Invalid_prev (nexts L) (prevs L) el 0 0 = Some (Inr (tb_num_items t))"
    using fsck_walk_ok [OF x(1), of _ 0] x(2) by simp
  ultimately show "HASH_FSCK L (Some (el, t)) = Some None" using assms by (simp add: HASH_FSCK_def)
qed

text \<open>A represented hash passes the check.\<close>

lemma repr_fsck:
  assumes "hash_repr e h Q L head xs"
  shows "HASH_FSCK L head = Some None"
proof (cases head)
  case (Some w)
  then obtain el t cs where w: "head = Some (el, t)" "linked L el t xs cs" using assms by (cases w) (auto simp: hash_repr_def)
  then have B: "buckets_ok L (tb_buckets t) cs" "length cs = unat (tb_num_buckets t)" by (auto simp: linked_def hash_ok_def)
  have d: "distinct xs" "distinct (concat cs)" "set (concat cs) = set xs" using w(2) by (auto simp: linked_def app_ok_def hash_ok_def buckets_ok_def)
  then have "length (concat cs) = length xs" by (metis distinct_card)
  moreover have "list_all2 (chain_of L) (tb_buckets t) cs" using B(1) by (simp add: buckets_ok_def chain_of_def [abs_def])
  moreover have "length (tb_buckets t) = unat (tb_num_buckets t)" using B by (auto simp: buckets_ok_def dest: list_all2_lengthD)
  moreover have "dseg (nexts L) (prevs L) 0 el xs 0" "tb_num_items t = of_nat (length xs)" using w(2) by (auto simp: linked_def app_ok_def)
  ultimately show ?thesis unfolding w(1) by (metis fsck_iff)
qed (simp add: HASH_FSCK_def)


section \<open>Selecting elements into another hash\<close>

text \<open>The state of the loops: the destination handles, the destination, the heap, and the element selected last.\<close>

type_synonym selection = "links \<times> uhash \<times> heap \<times> u32"

definition select_one :: "links \<Rightarrow> u32 \<Rightarrow> selection \<Rightarrow> selection option" where
  "select_one Ls elt = (\<lambda>(L, dst, h, last_elt).
     (let L1 = set_next elt 0 (set_prev elt last_elt (set_key elt (keys_of Ls elt) (hashvs Ls elt) L));
          L2 = (if last_elt \<noteq> 0 then set_next last_elt elt L1 else L1)
      in case (case dst of None \<Rightarrow> map_option (\<lambda>(t, h1). (elt, t, h1)) (MAKE_TABLE_hh elt h) | Some (el, t) \<Rightarrow> Some (el, t, h)) of
           None \<Rightarrow> None
         | Some (el, t, h1) \<Rightarrow>
             (case ADD_TO_BKT_hh (HASH_TO_BKT (hashvs L2 elt) (tb_num_buckets t)) elt L2 t h1 of None \<Rightarrow> None
              | Some (L3, t3, h3) \<Rightarrow> Some (L3, Some (el, t3\<lparr>tb_num_items := tb_num_items t3 + 1\<rparr>), h3, elt))))"

partial_function (option) select_chain :: "(u32 \<Rightarrow> bool) \<Rightarrow> links \<Rightarrow> u32 \<Rightarrow> selection \<Rightarrow> selection option" where
  "select_chain cond Ls src_hh st =
     (if src_hh = 0 then Some st
      else case (if cond src_hh then select_one Ls src_hh st else Some st) of None \<Rightarrow> None
        | Some st' \<Rightarrow> select_chain cond Ls (hh_nexts Ls src_hh) st')"

fun select_buckets :: "(u32 \<Rightarrow> bool) \<Rightarrow> links \<Rightarrow> pbucket list \<Rightarrow> selection \<Rightarrow> selection option" where
  "select_buckets cond Ls [] st = Some st"
| "select_buckets cond Ls (bk # bks) st =
     (case select_chain cond Ls (pb_head bk) st of None \<Rightarrow> None | Some st' \<Rightarrow> select_buckets cond Ls bks st')"

definition HASH_SELECT :: "(u32 \<Rightarrow> bool) \<Rightarrow> links \<Rightarrow> uhash \<Rightarrow> links \<Rightarrow> uhash \<Rightarrow> heap \<Rightarrow> (links \<times> uhash \<times> heap) option" where
  "HASH_SELECT cond Ls src L dst h =
     (case src of None \<Rightarrow> Some (L, dst, h)
      | Some (el, t) \<Rightarrow>
          map_option (\<lambda>(L', dst', h', _). (L', dst', h')) (select_buckets cond Ls (tb_buckets t) (L, dst, h, 0)))"

lemma set_next_prev: "set_next x a (set_prev y b L) = set_prev y b (set_next x a L)"
  by (auto simp: set_next_def set_prev_def fun_eq_iff)

lemma select_add:
  assumes "app_ok L el (t\<lparr>tb_tail := x\<rparr>) (ys @ [x])" "hash_ok L t cs" "set (concat cs) = set ys" "tb_num_items t = of_nat (length ys)"
    and "tb_addr t \<noteq> tb_buckets_ptr t" "tb_addr t \<notin> Q" "tb_buckets_ptr t \<notin> Q" "heap_ok e h (insert (tb_addr t) (insert (tb_buckets_ptr t) Q))"
    and "ADD_TO_BKT_hh (HASH_TO_BKT (hashvs L x) (tb_num_buckets t)) x L t h = Some (L', t', h')"
  shows "hash_repr e h' Q L' (Some (el, t'\<lparr>tb_num_items := tb_num_items t' + 1, tb_tail := x\<rparr>)) (ys @ [x])"
    "tb_tail t' = tb_tail t" "keys_of L' = keys_of L" "hashvs L' = hashvs L"
proof -
  let ?P = "insert (tb_addr t) (insert (tb_buckets_ptr t) Q)"
  have x: "x \<notin> set (concat cs)" "x \<noteq> 0" using assms(1,3) dseg_nonzero by (fastforce simp: app_ok_def)+
  have P: "?P - {tb_buckets_ptr t} = insert (tb_addr t) Q" using assms(5-7) by auto
  obtain cs' where c: "hash_ok L' t' cs'" "mset (concat cs') = mset (x # concat cs)" "same_list L t L' t'"
    "tb_buckets_ptr t' \<notin> insert (tb_addr t) Q" "heap_ok e h' (insert (tb_buckets_ptr t') (insert (tb_addr t) Q))"
    using add_to_bkt_hh_ok [OF assms(2) x assms(8)] assms(9) P by auto
  have "set (concat cs') = set (ys @ [x])" using mset_eq_setD [OF c(2)] assms(3) by simp
  then have "linked L' el (t'\<lparr>tb_num_items := tb_num_items t' + 1, tb_tail := x\<rparr>) (ys @ [x]) cs'"
    using c(1,3) assms(1,4) by (auto simp: linked_def app_ok_def same_list_def hash_ok_def)
  then show "hash_repr e h' Q L' (Some (el, t'\<lparr>tb_num_items := tb_num_items t' + 1, tb_tail := x\<rparr>)) (ys @ [x])"
    using c(3-5) assms(6) by (auto simp: hash_repr_def same_list_def insert_commute)
  show "tb_tail t' = tb_tail t" "keys_of L' = keys_of L" "hashvs L' = hashvs L" using c(3) by (auto simp: same_list_def)
qed

text \<open>After the elements \<open>ys\<close>: the destination is a well-formed hash of them once its tail pointer, which is the first, is set to the last.\<close>

definition selected :: "u32 \<Rightarrow> u32 set \<Rightarrow> links \<Rightarrow> u32 list \<Rightarrow> selection \<Rightarrow> bool" where
  "selected e Q Ls ys = (\<lambda>(L, dst, h, last_elt).
     (case dst of None \<Rightarrow> ys = [] \<and> last_elt = 0 \<and> heap_ok e h Q
      | Some (el, t) \<Rightarrow> hash_repr e h Q L (Some (el, t\<lparr>tb_tail := last_elt\<rparr>)) ys \<and> tb_tail t = hd ys) \<and>
     (\<forall>y\<in>set ys. keys_of L y = keys_of Ls y \<and> hashvs L y = hashvs Ls y))"

lemma hash_ok_tail [simp]: "hash_ok L (t\<lparr>tb_tail := v\<rparr>) cs = hash_ok L t cs"
  by (simp add: hash_ok_def)

lemma select_one_ok:
  assumes "selected e Q Ls ys st" "x \<notin> set ys" "x \<noteq> 0" "select_one Ls x st = Some st'"
  shows "selected e Q Ls (ys @ [x]) st'"
proof -
  obtain L dst h lst where st: "st = (L, dst, h, lst)" by (metis prod_cases4)
  let ?K = "set_key x (keys_of Ls x) (hashvs Ls x) L"
  let ?L1 = "set_next x 0 (set_prev x lst ?K)"
  let ?L2 = "if lst \<noteq> 0 then set_next lst x ?L1 else ?L1"
  have kh: "keys_of ?L2 = (keys_of L)(x := keys_of Ls x)" "hashvs ?L2 = (hashvs L)(x := hashvs Ls x)" "hh_nexts ?L2 = hh_nexts L" "hh_prevs ?L2 = hh_prevs L"
    by simp_all
  have "\<exists>el t cs h1 L3 t3 h3. app_ok ?L2 el (t\<lparr>tb_tail := x\<rparr>) (ys @ [x]) \<and> hash_ok ?L2 t cs \<and> set (concat cs) = set ys \<and>
      tb_num_items t = of_nat (length ys) \<and> tb_addr t \<noteq> tb_buckets_ptr t \<and> tb_addr t \<notin> Q \<and> tb_buckets_ptr t \<notin> Q \<and>
      heap_ok e h1 (insert (tb_addr t) (insert (tb_buckets_ptr t) Q)) \<and> tb_tail t = hd (ys @ [x]) \<and>
      ADD_TO_BKT_hh (HASH_TO_BKT (hashvs ?L2 x) (tb_num_buckets t)) x ?L2 t h1 = Some (L3, t3, h3) \<and>
      st' = (L3, Some (el, t3\<lparr>tb_num_items := tb_num_items t3 + 1\<rparr>), h3, x)"
  proof (cases dst)
    case None
    then have ys: "ys = []" "lst = 0" "heap_ok e h Q" using assms(1) st by (auto simp: selected_def)
    then obtain t h1 L3 t3 h3 where m: "MAKE_TABLE_hh x h = Some (t, h1)"
      "ADD_TO_BKT_hh (HASH_TO_BKT (hashvs ?L2 x) (tb_num_buckets t)) x ?L2 t h1 = Some (L3, t3, h3)"
      "st' = (L3, Some (x, t3\<lparr>tb_num_items := tb_num_items t3 + 1\<rparr>), h3, x)"
      using assms(4) None st by (auto simp: select_one_def Let_def split: option.splits)
    note t = make_table_hh_ok [OF ys(3) m(1)]
    have "app_ok ?L2 x (t\<lparr>tb_tail := x\<rparr>) (ys @ [x])" using ys assms(3) by (simp add: app_ok_def)
    then show ?thesis using t m ys by fastforce
  next
    case (Some w)
    obtain el t where w: "w = (el, t)" by (metis prod.exhaust)
    then have r: "hash_repr e h Q L (Some (el, t\<lparr>tb_tail := lst\<rparr>)) ys" "tb_tail t = hd ys" using assms(1) st Some by (auto simp: selected_def)
    then obtain cs where c: "app_ok L el (t\<lparr>tb_tail := lst\<rparr>) ys" "hash_ok L t cs" "set (concat cs) = set ys" "tb_num_items t = of_nat (length ys)"
      by (auto simp: hash_repr_def linked_def)
    have "app_ok ?K el (t\<lparr>tb_tail := lst\<rparr>) ys" using c(1) by (simp add: app_ok_key)
    note a = append_list_ok(1) [OF this assms(2,3)]
    have "lst \<noteq> 0" "ys \<noteq> []" using c(1) dseg_nonzero last_in_set by (fastforce simp: app_ok_def)+
    then have "app_ok ?L2 el (t\<lparr>tb_tail := x\<rparr>) (ys @ [x])" using a by (simp add: HASH_APPEND_LIST_def set_next_prev)
    moreover have "hash_ok ?L2 t cs = hash_ok L t cs" by (intro hash_ok_cong) (use c(3) kh assms(2) in auto)
    then have "hash_ok ?L2 t cs" using c(2) by blast
    moreover obtain L3 t3 h3 where "ADD_TO_BKT_hh (HASH_TO_BKT (hashvs ?L2 x) (tb_num_buckets t)) x ?L2 t h = Some (L3, t3, h3)"
      "st' = (L3, Some (el, t3\<lparr>tb_num_items := tb_num_items t3 + 1\<rparr>), h3, x)"
      using assms(4) Some w st by (auto simp: select_one_def Let_def split: option.splits)
    moreover have "tb_tail t = hd (ys @ [x])" using r(2) \<open>ys \<noteq> []\<close> by simp
    ultimately show ?thesis using r(1) c(3,4) by (fastforce simp: hash_repr_def)
  qed
  then obtain el t cs h1 L3 t3 h3 where A: "app_ok ?L2 el (t\<lparr>tb_tail := x\<rparr>) (ys @ [x])" "hash_ok ?L2 t cs" "set (concat cs) = set ys"
    "tb_num_items t = of_nat (length ys)" "tb_addr t \<noteq> tb_buckets_ptr t" "tb_addr t \<notin> Q" "tb_buckets_ptr t \<notin> Q"
    "heap_ok e h1 (insert (tb_addr t) (insert (tb_buckets_ptr t) Q))"
    "ADD_TO_BKT_hh (HASH_TO_BKT (hashvs ?L2 x) (tb_num_buckets t)) x ?L2 t h1 = Some (L3, t3, h3)" and
    st': "tb_tail t = hd (ys @ [x])" "st' = (L3, Some (el, t3\<lparr>tb_num_items := tb_num_items t3 + 1\<rparr>), h3, x)" by blast
  note B = select_add [OF A]
  show ?thesis using B st' assms(1,2) kh unfolding selected_def st by auto
qed

lemma select_chain_ok:
  "path (hh_nexts Ls) p c \<Longrightarrow> distinct (ys @ c) \<Longrightarrow> selected e Q Ls ys st \<Longrightarrow> select_chain cond Ls p st = Some st' \<Longrightarrow>
     selected e Q Ls (ys @ filter cond c) st'"
proof (induction c arbitrary: p ys st)
  case Nil
  then show ?case by (simp add: select_chain.simps)
next
  case (Cons x c)
  then have x: "p = x" "x \<noteq> 0" by auto
  obtain st1 where st1: "(if cond x then select_one Ls x st else Some st) = Some st1" "select_chain cond Ls (hh_nexts Ls x) st1 = Some st'"
    using Cons.prems(4) x by (auto simp: select_chain.simps [of cond Ls x] split: option.splits)
  have "selected e Q Ls (if cond x then ys @ [x] else ys) st1"
    using st1(1) Cons.prems(2,3) x select_one_ok [of e Q Ls ys st x st1] by (auto split: if_splits)
  moreover have "distinct ((if cond x then ys @ [x] else ys) @ c)" using Cons.prems(2) by auto
  ultimately have "selected e Q Ls ((if cond x then ys @ [x] else ys) @ filter cond c) st'"
    using Cons.IH [OF _ _ _ st1(2)] Cons.prems(1) x by (metis path.simps(2))
  then show ?case by (auto split: if_splits)
qed

lemma select_buckets_ok:
  "list_all2 (\<lambda>bk. path (hh_nexts Ls) (pb_head bk)) bks cs \<Longrightarrow> distinct (ys @ concat cs) \<Longrightarrow> selected e Q Ls ys st \<Longrightarrow>
     select_buckets cond Ls bks st = Some st' \<Longrightarrow> selected e Q Ls (ys @ filter cond (concat cs)) st'"
proof (induction bks cs arbitrary: ys st rule: list_induct2')
  case (4 bk bks c cs)
  obtain st1 where st1: "select_chain cond Ls (pb_head bk) st = Some st1" "select_buckets cond Ls bks st1 = Some st'"
    using "4.prems"(4) by (auto split: option.splits)
  have "path (hh_nexts Ls) (pb_head bk) c" "distinct (ys @ c)" using "4.prems"(1,2) by auto
  then have "selected e Q Ls (ys @ filter cond c) st1" by (rule select_chain_ok [OF _ _ "4.prems"(3) st1(1)])
  moreover have "distinct ((ys @ filter cond c) @ concat cs)" using "4.prems"(2) by auto
  ultimately show ?case using "4.IH" [OF _ _ _ st1(2), of "ys @ filter cond c"] "4.prems"(1) by simp
qed auto

text \<open>Whatever the tail pointer says: the pointer that \<^verbatim>\<open>HASH_ADD\<close> follows makes \<open>x\<close> the second and last element of the application order.\<close>

lemma append_behind_first:
  assumes "app_ok L el t (y # ys)" "tb_tail t' = y" "x \<notin> set (y # ys)" "x \<noteq> 0"
  shows "path (nexts (fst (HASH_APPEND_LIST x L t'))) el [y, x]"
  using assms by (auto simp: app_ok_def HASH_APPEND_LIST_def)

end
