(* ===== verification/Uthash_Sort.thy ===== *)
theory Uthash_Sort
  imports Uthash_Check
begin

text \<open>
  \<^verbatim>\<open>HASH_SRT\<close>, the bottom-up merge sort of the application order by its links. One pass cuts the list into pairs of runs of \<^verbatim>\<open>insize\<close>
  elements and merges each pair by relinking; passes double the run length until one merge covers the list. The scan and the merge loop end on
  every input, since their counters decrease; the loops over the list and over the passes are None where they do not end. On a represented hash
  of at most \<open>2 ^ 31\<close> elements the macro returns, the new order is the stable sort of the old one by the key that the comparison function
  compares, and the buckets are as they were.
\<close>

section \<open>The sort on links\<close>

text \<open>The \<^verbatim>\<open>for\<close> loop that counts the first run and moves \<open>q\<close> behind it.\<close>

function srt_scan :: "links \<Rightarrow> u32 \<Rightarrow> u32 \<Rightarrow> u32 \<Rightarrow> u32 \<Rightarrow> u32 \<times> u32" where
  "srt_scan L insize i psize q =
     (if i < insize
      then if nexts L q = 0 then (psize + 1, 0) else srt_scan L insize (i + 1) (psize + 1) (nexts L q)
      else (psize, q))"
  by pat_completeness auto
termination
  by (relation "measure (\<lambda>(_, insize, i, _, _). unat insize - unat i)")
    (auto simp: unat_less_Suc word_less_nat_alt)

declare srt_scan.simps [simp del]

text \<open>The stores that append \<open>e\<close> to the list under construction, which starts at \<open>list\<close> and ends at \<open>tail\<close>.\<close>

definition srt_emit :: "u32 \<Rightarrow> links \<times> u32 \<times> u32 \<Rightarrow> links \<times> u32 \<times> u32" where
  "srt_emit e = (\<lambda>(L, lst, tail).
     (let L1 = (if tail \<noteq> 0 then set_next tail e L else L);
          lst' = (if tail \<noteq> 0 then lst else e);
          L2 = (if e \<noteq> 0 then set_prev e tail L1 else L1)
      in (L2, lst', e)))"

definition srt_next :: "links \<Rightarrow> u32 \<Rightarrow> u32" where
  "srt_next L p = (if p \<noteq> 0 then nexts L p else p)"

function srt_merge :: "cmpfcn \<Rightarrow> links \<times> u32 \<times> u32 \<Rightarrow> u32 \<Rightarrow> u32 \<Rightarrow> u32 \<Rightarrow> u32 \<Rightarrow> (links \<times> u32 \<times> u32) \<times> u32" where
  "srt_merge cmp st p q psize qsize =
     (if psize \<noteq> 0 \<or> qsize \<noteq> 0 \<and> q \<noteq> 0
      then if psize = 0 then srt_merge cmp (srt_emit q st) p (nexts (fst st) q) psize (qsize - 1)
        else if qsize = 0 \<or> q = 0 then srt_merge cmp (srt_emit p st) (srt_next (fst st) p) q (psize - 1) qsize
        else if cmp p q \<le> 0 then srt_merge cmp (srt_emit p st) (srt_next (fst st) p) q (psize - 1) qsize
        else srt_merge cmp (srt_emit q st) p (nexts (fst st) q) psize (qsize - 1)
      else (st, q))"
  by pat_completeness auto
termination
  by (relation "measure (\<lambda>(_, _, _, _, psize, qsize). unat psize + unat qsize)") (auto simp: unat_minus_one unat_gt_0)

declare srt_merge.simps [simp del]

text \<open>One pass over the list from \<open>p\<close>; the last component counts the merges.\<close>

partial_function (option) srt_pass :: "cmpfcn \<Rightarrow> u32 \<Rightarrow> links \<times> u32 \<times> u32 \<Rightarrow> u32 \<Rightarrow> u32 \<Rightarrow> ((links \<times> u32 \<times> u32) \<times> u32) option" where
  "srt_pass cmp insize st p nmerges =
     (if p = 0 then Some (st, nmerges)
      else let (psize, q) = srt_scan (fst st) insize 0 0 p;
               (st', q') = srt_merge cmp st p q psize insize
           in srt_pass cmp insize st' q' (nmerges + 1))"

partial_function (option) srt_loop :: "cmpfcn \<Rightarrow> u32 \<Rightarrow> links \<Rightarrow> u32 \<Rightarrow> (links \<times> u32 \<times> u32) option" where
  "srt_loop cmp insize L lst =
     (case srt_pass cmp insize (L, 0, 0) lst 0 of None \<Rightarrow> None
      | Some ((L1, lst1, tail), nmerges) \<Rightarrow>
          (let L2 = (if tail \<noteq> 0 then set_next tail 0 L1 else L1)
           in if nmerges \<le> 1 then Some (L2, lst1, tail) else srt_loop cmp (insize * 2) L2 lst1))"

definition HASH_SRT :: "cmpfcn \<Rightarrow> links \<Rightarrow> uhash \<Rightarrow> (links \<times> uhash) option" where
  "HASH_SRT cmp L head =
     (case head of None \<Rightarrow> Some (L, None)
      | Some (el, t) \<Rightarrow> map_option (\<lambda>(L', lst, tail). (L', Some (lst, t\<lparr>tb_tail := tail\<rparr>))) (srt_loop cmp 1 L el))"


section \<open>The sort on lists\<close>

fun smerge :: "cmpfcn \<Rightarrow> u32 list \<Rightarrow> u32 list \<Rightarrow> u32 list" where
  "smerge cmp [] qs = qs"
| "smerge cmp ps [] = ps"
| "smerge cmp (p # ps) (q # qs) = (if cmp p q \<le> 0 then p # smerge cmp ps (q # qs) else q # smerge cmp (p # ps) qs)"

lemma smerge_Nil [simp]: "smerge cmp ps [] = ps"
  by (cases ps) simp_all

lemma mset_smerge [simp]: "mset (smerge cmp ps qs) = mset ps + mset qs"
  by (induction cmp ps qs rule: smerge.induct) simp_all

lemma set_smerge [simp]: "set (smerge cmp ps qs) = set ps \<union> set qs"
  by (metis mset_smerge set_mset_mset set_mset_union)

lemma length_smerge [simp]: "length (smerge cmp ps qs) = length ps + length qs"
  by (metis mset_smerge size_mset size_union)

text \<open>One pass, and the runs of a list.\<close>

function merge_runs :: "cmpfcn \<Rightarrow> nat \<Rightarrow> u32 list \<Rightarrow> u32 list" where
  "merge_runs cmp n xs = (if n = 0 \<or> xs = [] then [] else smerge cmp (take n xs) (take n (drop n xs)) @ merge_runs cmp n (drop n (drop n xs)))"
  by pat_completeness auto
termination by (relation "measure (\<lambda>(_, _, xs). length xs)") auto

function srt_runs :: "nat \<Rightarrow> u32 list \<Rightarrow> u32 list list" where
  "srt_runs n xs = (if n = 0 \<or> xs = [] then [] else take n xs # srt_runs n (drop n xs))"
  by pat_completeness auto
termination by (relation "measure (\<lambda>(_, xs). length xs)") auto

declare merge_runs.simps [simp del] srt_runs.simps [simp del]

text \<open>Merging two sorted lists is the stable sort of the two.\<close>

definition compares :: "cmpfcn \<Rightarrow> (u32 \<Rightarrow> 'k :: linorder) \<Rightarrow> bool" where
  "compares cmp f \<longleftrightarrow> (\<forall>a b. cmp a b \<le> 0 \<longleftrightarrow> f a \<le> f b)"

lemma smerge_sorted: "compares cmp f \<Longrightarrow> sorted (map f ps) \<Longrightarrow> sorted (map f qs) \<Longrightarrow> sorted (map f (smerge cmp ps qs))"
proof (induction cmp ps qs rule: smerge.induct)
  case (3 cmp p ps q qs)
  have c: "cmp p q \<le> 0 \<longleftrightarrow> f p \<le> f q" using "3.prems"(1) by (simp add: compares_def)
  then show ?case using 3 by (cases "f p \<le> f q") fastforce+
qed auto

lemma smerge_stable:
  "compares cmp f \<Longrightarrow> sorted (map f ps) \<Longrightarrow> filter (\<lambda>x. f x = k) (smerge cmp ps qs) = filter (\<lambda>x. f x = k) ps @ filter (\<lambda>x. f x = k) qs"
proof (induction cmp ps qs rule: smerge.induct)
  case (3 cmp p ps q qs)
  have c: "cmp p q \<le> 0 \<longleftrightarrow> f p \<le> f q" using "3.prems"(1) by (simp add: compares_def)
  show ?case
  proof (cases "f p \<le> f q")
    case True
    then show ?thesis using 3 c by auto
  next
    case False
    then have "f q = k \<Longrightarrow> filter (\<lambda>x. f x = k) (p # ps) = []" using "3.prems"(2) by (auto simp: filter_empty_conv)
    moreover have "filter (\<lambda>x. f x = k) (smerge cmp (p # ps) qs) = filter (\<lambda>x. f x = k) (p # ps) @ filter (\<lambda>x. f x = k) qs"
      using 3 c False by blast
    ultimately show ?thesis using c False by auto
  qed
qed auto

lemma smerge_sort_key:
  assumes "compares cmp f"
  shows "smerge cmp (sort_key f as) (sort_key f bs) = sort_key f (as @ bs)"
proof (rule properties_for_sort_key [symmetric])
  show "mset (smerge cmp (sort_key f as) (sort_key f bs)) = mset (as @ bs)" by simp
  show "filter (\<lambda>x. f k = f x) (smerge cmp (sort_key f as) (sort_key f bs)) = filter (\<lambda>x. f k = f x) (as @ bs)" for k
    using smerge_stable [OF assms, of "sort_key f as" "f k" "sort_key f bs"] unfolding eq_commute [of "f k"] by (simp add: sort_key_stable)
  show "sorted (map f (smerge cmp (sort_key f as) (sort_key f bs)))" by (rule smerge_sorted [OF assms]) simp_all
qed

definition sort_runs :: "(u32 \<Rightarrow> 'k :: linorder) \<Rightarrow> nat \<Rightarrow> u32 list \<Rightarrow> u32 list" where
  "sort_runs f n xs = concat (map (sort_key f) (srt_runs n xs))"

lemma sort_runs_unfold: "n \<noteq> 0 \<Longrightarrow> sort_runs f n xs = sort_key f (take n xs) @ (if xs = [] then [] else sort_runs f n (drop n xs))"
  by (subst sort_runs_def, subst srt_runs.simps) (simp add: sort_runs_def)

lemma sort_runs_Nil [simp]: "sort_runs f n [] = []"
  by (simp add: sort_runs_def srt_runs.simps)

lemma sort_runs_one: "n \<noteq> 0 \<Longrightarrow> length xs \<le> n \<Longrightarrow> sort_runs f n xs = sort_key f xs"
  using sort_runs_unfold [of n f xs] by simp

lemma sort_runs_1: "sort_runs f 1 xs = xs"
proof (induction xs)
  case (Cons x xs)
  then show ?case using sort_runs_unfold [of 1 f "x # xs"] by simp
qed simp

lemma sort_runs_split: "n \<noteq> 0 \<Longrightarrow> take n (sort_runs f n xs) = sort_key f (take n xs) \<and> drop n (sort_runs f n xs) = sort_runs f n (drop n xs)"
  using sort_runs_unfold [of n f xs] sort_runs_one [of n "drop n xs" f] by (cases "length xs \<le> n") auto

lemma sort_runs_Nil_iff: "n \<noteq> 0 \<Longrightarrow> sort_runs f n xs = [] \<longleftrightarrow> xs = []"
  using sort_runs_unfold [of n f xs] by (cases xs) (auto dest: arg_cong [where f = length])

lemma merge_runs_sort:
  assumes "compares cmp f" "n \<noteq> 0"
  shows "merge_runs cmp n (sort_runs f n xs) = sort_runs f (2 * n) xs"
proof (induction "length xs" arbitrary: xs rule: less_induct)
  case less
  show ?case
  proof (cases "xs = []")
    case False
    have "drop n (drop n xs) = drop (2 * n) xs" by (simp add: mult_2)
    then have IH: "merge_runs cmp n (sort_runs f n (drop n (drop n xs))) = sort_runs f (2 * n) (drop (2 * n) xs)"
      using less [of "drop (2 * n) xs"] assms(2) False by simp
    have "merge_runs cmp n (sort_runs f n xs) =
        smerge cmp (sort_key f (take n xs)) (sort_key f (take n (drop n xs))) @ merge_runs cmp n (sort_runs f n (drop n (drop n xs)))"
      using assms(2) False by (subst merge_runs.simps) (simp add: sort_runs_split sort_runs_Nil_iff del: drop_drop)
    also have "\<dots> = sort_key f (take (2 * n) xs) @ sort_runs f (2 * n) (drop (2 * n) xs)"
      unfolding smerge_sort_key [OF assms(1)] IH by (simp add: mult_2 take_add)
    also have "\<dots> = sort_runs f (2 * n) xs" using sort_runs_unfold [of "2 * n" f xs] assms(2) False by simp
    finally show ?thesis .
  qed (simp add: merge_runs.simps)
qed


section \<open>The links carry out the merge\<close>

text \<open>The run that is still to be merged: its forward links, whatever follows.\<close>

fun fseg :: "(u32 \<Rightarrow> u32) \<Rightarrow> u32 \<Rightarrow> u32 list \<Rightarrow> bool" where
  "fseg nx p [] = True"
| "fseg nx p (x # xs) = (p = x \<and> x \<noteq> 0 \<and> fseg nx (nx x) xs)"

lemma fseg_cong: "(\<And>x. x \<in> set xs \<Longrightarrow> nx x = nx' x) \<Longrightarrow> fseg nx p xs = fseg nx' p xs"
  by (induction xs arbitrary: p) auto

lemma path_fseg: "path nx p (xs @ ys) \<Longrightarrow> fseg nx p xs"
  by (induction xs arbitrary: p) auto

lemma path_head: "path nx p xs \<Longrightarrow> p = head_of xs 0"
  by (cases xs) auto

lemma path_append: "path nx p (xs @ ys) \<Longrightarrow> path nx (head_of ys 0) ys"
  by (induction xs arbitrary: p) (auto dest: path_head)

lemma srt_scan_ok:
  "path (nexts L) q xs \<Longrightarrow> xs \<noteq> [] \<Longrightarrow> i \<le> insize \<Longrightarrow>
     srt_scan L insize i psize q = (psize + of_nat (min (unat insize - unat i) (length xs)), head_of (drop (unat insize - unat i) xs) 0)"
proof (induction xs arbitrary: q i psize)
  case (Cons x xs)
  show ?case
  proof (cases "i < insize")
    case True
    then have i: "unat (i + 1) = Suc (unat i)" "i + 1 \<le> insize" "unat insize - unat i = Suc (unat insize - unat (i + 1))"
      by (auto simp: unat_less_Suc word_less_nat_alt word_le_nat_alt)
    show ?thesis
    proof (cases xs)
      case Nil
      then show ?thesis using Cons.prems True i by (simp add: srt_scan.simps [of L insize i psize x])
    next
      case (Cons y ys)
      then have "srt_scan L insize i psize q = srt_scan L insize (i + 1) (psize + 1) (nexts L x)"
        using Cons.prems True by (simp add: srt_scan.simps [of L insize i psize x])
      also have "\<dots> = (psize + 1 + of_nat (min (unat insize - unat (i + 1)) (length xs)), head_of (drop (unat insize - unat (i + 1)) xs) 0)"
        using Cons.prems Cons i(2) by (intro Cons.IH) auto
      finally show ?thesis using i(3) by (simp add: add.assoc)
    qed
  next
    case False
    then have "i = insize" using Cons.prems(3) by simp
    then show ?thesis using Cons.prems by (simp add: srt_scan.simps [of L insize insize psize x])
  qed
qed simp

definition emitted :: "links \<times> u32 \<times> u32 \<Rightarrow> u32 list \<Rightarrow> bool" where
  "emitted = (\<lambda>(L, lst, tail) outs. (\<exists>r. dseg (nexts L) (prevs L) 0 lst outs r) \<and> tail = last_of 0 outs)"

lemma emit_ok:
  assumes "emitted st outs" "distinct (outs @ [e])" "e \<noteq> 0"
  shows "emitted (srt_emit e st) (outs @ [e])" "same_buckets (fst st) (fst (srt_emit e st))"
    "\<And>y. y \<notin> set outs \<Longrightarrow> nexts (fst (srt_emit e st)) y = nexts (fst st) y"
proof -
  obtain L lst tail where st: "st = (L, lst, tail)" by (metis prod_cases3)
  obtain r where d: "dseg (nexts L) (prevs L) 0 lst outs r" and t: "tail = last_of 0 outs" using assms(1) st by (auto simp: emitted_def)
  note z = last_of_null [OF dseg_nonzero [OF d]]
  show "same_buckets (fst st) (fst (srt_emit e st))" by (simp add: st srt_emit_def Let_def same_buckets_def)
  show "nexts (fst (srt_emit e st)) y = nexts (fst st) y" if "y \<notin> set outs" for y
    using that t last_in_set [of outs] by (auto simp: st srt_emit_def Let_def last_of_def)
  show "emitted (srt_emit e st) (outs @ [e])"
  proof (cases "outs = []")
    case True
    then show ?thesis using t assms(3) by (simp add: st srt_emit_def Let_def emitted_def exI [of _ "nexts L e"])
  next
    case False
    then have "dseg ((nexts L)(last outs := e)) (prevs L) 0 lst outs e" using dseg_set_end [OF d _ False] assms(2) by simp
    then show ?thesis using False t z assms(2,3) by (auto simp: st srt_emit_def Let_def emitted_def dseg_append last_of_def)
  qed
qed

text \<open>The state of the merge loop: \<open>outs\<close> is linked, the rest \<open>ps\<close> of the first run and the rest \<open>Q\<close> of the list are not yet touched.\<close>

definition merging :: "links \<times> u32 \<times> u32 \<Rightarrow> u32 list \<Rightarrow> u32 \<Rightarrow> u32 list \<Rightarrow> u32 \<Rightarrow> u32 \<Rightarrow> u32 list \<Rightarrow> bool" where
  "merging st outs p ps psize q Q \<longleftrightarrow> emitted st outs \<and> fseg (nexts (fst st)) p ps \<and> length ps = unat psize \<and>
     path (nexts (fst st)) q Q \<and> distinct (outs @ ps @ Q)"

lemma merging_q:
  assumes "merging st outs p ps psize q (q # Q)"
  shows "merging (srt_emit q st) (outs @ [q]) p ps psize (nexts (fst st) q) Q" "same_buckets (fst st) (fst (srt_emit q st))"
proof -
  have P: "emitted st outs" "distinct (outs @ [q])" "q \<noteq> 0" "distinct (outs @ ps @ q # Q)" using assms by (auto simp: merging_def)
  note E = emit_ok [OF P(1-3)]
  have "fseg (nexts (fst (srt_emit q st))) p ps = fseg (nexts (fst st)) p ps" using E(3) P(4) by (intro fseg_cong) auto
  moreover have "path (nexts (fst (srt_emit q st))) r Q = path (nexts (fst st)) r Q" for r using E(3) P(4) by (intro path_cong) auto
  ultimately show "merging (srt_emit q st) (outs @ [q]) p ps psize (nexts (fst st) q) Q" using assms E(1) by (auto simp: merging_def)
  show "same_buckets (fst st) (fst (srt_emit q st))" by (rule E(2))
qed

lemma merging_p:
  assumes "merging st outs p (p # ps) psize q Q"
  shows "merging (srt_emit p st) (outs @ [p]) (srt_next (fst st) p) ps (psize - 1) q Q" "same_buckets (fst st) (fst (srt_emit p st))"
proof -
  have P: "emitted st outs" "distinct (outs @ [p])" "p \<noteq> 0" "distinct (outs @ p # ps @ Q)" "psize \<noteq> 0" using assms by (auto simp: merging_def)
  note E = emit_ok [OF P(1-3)]
  have "fseg (nexts (fst (srt_emit p st))) r ps = fseg (nexts (fst st)) r ps" for r using E(3) P(4) by (intro fseg_cong) auto
  moreover have "path (nexts (fst (srt_emit p st))) q Q = path (nexts (fst st)) q Q" using E(3) P(4) by (intro path_cong) auto
  moreover have "unat (psize - 1) = unat psize - 1" using P(5) by (simp add: unat_minus_one)
  ultimately show "merging (srt_emit p st) (outs @ [p]) (srt_next (fst st) p) ps (psize - 1) q Q"
    using assms E(1) by (auto simp: merging_def srt_next_def)
  show "same_buckets (fst st) (fst (srt_emit p st))" by (rule E(2))
qed

definition merged :: "cmpfcn \<Rightarrow> links \<Rightarrow> u32 list \<Rightarrow> u32 list \<Rightarrow> u32 list \<Rightarrow> nat \<Rightarrow> (links \<times> u32 \<times> u32) \<times> u32 \<Rightarrow> bool" where
  "merged cmp L outs ps Q n = (\<lambda>(st, q). emitted st (outs @ smerge cmp ps (take n Q)) \<and> path (nexts (fst st)) q (drop n Q) \<and> same_buckets L (fst st))"

lemma same_buckets_trans: "same_buckets L L' \<Longrightarrow> same_buckets L' L'' \<Longrightarrow> same_buckets L L''"
  by (simp add: same_buckets_def)

lemma srt_merge_ok: "merging st outs p ps psize q Q \<Longrightarrow> merged cmp (fst st) outs ps Q (unat qsize) (srt_merge cmp st p q psize qsize)"
proof (induction "unat psize + unat qsize" arbitrary: psize qsize st outs p q ps Q rule: less_induct)
  case less
  note P = less.prems
  note M = srt_merge.simps [of cmp st p q psize qsize]
  have pq: "psize = 0 \<longleftrightarrow> ps = []" "ps \<noteq> [] \<Longrightarrow> hd ps = p" "q = 0 \<longleftrightarrow> Q = []" "Q \<noteq> [] \<Longrightarrow> hd Q = q"
    using P by (cases ps; cases Q; auto simp: merging_def unat_eq_zero)+
  show ?case
  proof (cases "ps \<noteq> [] \<or> qsize \<noteq> 0 \<and> Q \<noteq> []")
    case False
    then show ?thesis using M pq P by (auto simp: merged_def merging_def same_buckets_def)
  next
    case True
    show ?thesis
    proof (cases "ps \<noteq> [] \<and> (qsize = 0 \<or> Q = [] \<or> cmp p q \<le> 0)")
      case c: True
      then obtain ps' where ps: "ps = p # ps'" using pq(2) by (cases ps) auto
      have "unat (psize - 1) < unat psize" using c pq(1) by (simp add: unat_minus_one unat_gt_0)
      then have "merged cmp (fst (srt_emit p st)) (outs @ [p]) ps' Q (unat qsize) (srt_merge cmp (srt_emit p st) (srt_next (fst st) p) q (psize - 1) qsize)"
        using less.hyps merging_p(1) [OF P [unfolded ps]] by simp
      moreover have "srt_merge cmp st p q psize qsize = srt_merge cmp (srt_emit p st) (srt_next (fst st) p) q (psize - 1) qsize"
        unfolding M using c pq by auto
      moreover have "smerge cmp ps (take (unat qsize) Q) = p # smerge cmp ps' (take (unat qsize) Q)"
        using c ps pq(4) by (cases Q; cases "unat qsize") (auto simp: unat_eq_zero)
      ultimately show ?thesis using merging_p(2) [OF P [unfolded ps]] by (auto simp: merged_def intro: same_buckets_trans)
    next
      case c: False
      then obtain Q' where Q: "Q = q # Q'" "qsize \<noteq> 0" using True pq(4) by (cases Q) auto
      then have n: "unat qsize = Suc (unat (qsize - 1))" by (simp add: unat_minus_one unat_gt_0)
      then have "merged cmp (fst (srt_emit q st)) (outs @ [q]) ps Q' (unat (qsize - 1)) (srt_merge cmp (srt_emit q st) p (nexts (fst st) q) psize (qsize - 1))"
        using less.hyps merging_q(1) [OF P [unfolded Q(1)]] by simp
      moreover have "srt_merge cmp st p q psize qsize = srt_merge cmp (srt_emit q st) p (nexts (fst st) q) psize (qsize - 1)"
        using M c pq True Q by auto
      moreover have "smerge cmp ps (take (unat qsize) Q) = q # smerge cmp ps (take (unat (qsize - 1)) Q')" "drop (unat qsize) Q = drop (unat (qsize - 1)) Q'"
        using c Q n pq(2) by (cases ps; auto)+
      ultimately show ?thesis using merging_q(2) [OF P [unfolded Q(1)]] by (auto simp: merged_def intro: same_buckets_trans)
    qed
  qed
qed


section \<open>Passes\<close>

lemma length_runs: "n \<noteq> 0 \<Longrightarrow> length (srt_runs n xs) \<le> length xs"
proof (induction n xs rule: srt_runs.induct)
  case (1 n xs)
  show ?case
  proof (cases "xs = []")
    case False
    then have "length (srt_runs n xs) = Suc (length (srt_runs n (drop n xs)))" using "1.prems" by (subst srt_runs.simps) simp
    then show ?thesis using 1 False by (cases xs) auto
  qed (simp add: srt_runs.simps)
qed

lemma runs_one: "n \<noteq> 0 \<Longrightarrow> length (srt_runs n xs) \<le> 1 \<longleftrightarrow> length xs \<le> n"
  by (subst srt_runs.simps) (simp add: srt_runs.simps [of n "drop n xs"])

lemma mset_merge_runs [simp]: "n \<noteq> 0 \<Longrightarrow> mset (merge_runs cmp n xs) = mset xs"
proof (induction cmp n xs rule: merge_runs.induct)
  case (1 cmp n xs)
  show ?case
  proof (cases "xs = []")
    case False
    have "mset (merge_runs cmp n xs) = mset (take n xs) + mset (take n (drop n xs)) + mset (merge_runs cmp n (drop n (drop n xs)))"
      using "1.prems" False by (subst merge_runs.simps) simp
    also have "\<dots> = mset (take n xs @ take n (drop n xs) @ drop n (drop n xs))" using 1 False by simp
    finally show ?thesis by (simp del: drop_drop mset_append)
  qed (simp add: merge_runs.simps)
qed

lemma srt_pass_ok:
  assumes "insize \<noteq> 0"
  shows "emitted st outs \<Longrightarrow> path (nexts (fst st)) p xs \<Longrightarrow> distinct (outs @ xs) \<Longrightarrow>
    \<exists>st'. srt_pass cmp insize st p m = Some (st', m + of_nat (length (srt_runs (2 * unat insize) xs))) \<and>
      emitted st' (outs @ merge_runs cmp (unat insize) xs) \<and> same_buckets (fst st) (fst st')"
proof (induction "length xs" arbitrary: st outs p xs m rule: less_induct)
  case less
  let ?n = "unat insize"
  have n: "?n \<noteq> 0" using assms by (simp add: unat_eq_zero)
  show ?case
  proof (cases "xs = []")
    case True
    then have "srt_pass cmp insize st p m = Some (st, m)" using less.prems(2) by (simp add: srt_pass.simps)
    then show ?thesis using less.prems(1) True by (simp add: srt_runs.simps merge_runs.simps same_buckets_def)
  next
    case False
    let ?ps = "take ?n xs" and ?Q = "drop ?n xs"
    have p: "p \<noteq> 0" using less.prems(2) False by (cases xs) auto
    have scan: "srt_scan (fst st) insize 0 0 p = (of_nat (length ?ps), head_of ?Q 0)"
      using srt_scan_ok [OF less.prems(2) False, of 0 insize 0] by (simp add: min.commute)
    have "length ?ps < 2 ^ 32" using unsigned_less [of insize, where 'a = nat] by simp
    then have "unat (of_nat (length ?ps) :: u32) = length ?ps" by (simp add: unat_of_nat)
    moreover have "fseg (nexts (fst st)) p ?ps" "path (nexts (fst st)) (head_of ?Q 0) ?Q"
      using path_fseg [of _ p ?ps ?Q] path_append [of _ p ?ps ?Q] less.prems(2) by auto
    moreover have "distinct (outs @ ?ps @ ?Q)" using less.prems(3) by simp
    ultimately have "merging st outs p ?ps (of_nat (length ?ps)) (head_of ?Q 0) ?Q" using less.prems(1) by (simp add: merging_def)
    note mrg = srt_merge_ok [OF this, of cmp insize]
    obtain st1 q1 where m1: "srt_merge cmp st p (head_of ?Q 0) (of_nat (length ?ps)) insize = (st1, q1)" by (metis prod.exhaust)
    let ?out = "smerge cmp ?ps (take ?n ?Q)" and ?rest = "drop ?n ?Q"
    have st1: "emitted st1 (outs @ ?out)" "path (nexts (fst st1)) q1 ?rest" "same_buckets (fst st) (fst st1)" using mrg m1 by (auto simp: merged_def)
    have "mset (?out @ ?rest) = mset (?ps @ take ?n ?Q @ ?rest)" by simp
    then have "mset (outs @ ?out @ ?rest) = mset (outs @ xs)" by (simp del: drop_drop)
    then have "distinct ((outs @ ?out) @ ?rest)" using less.prems(3) mset_eq_imp_distinct_iff by (metis append.assoc)
    then obtain st2 where st2: "srt_pass cmp insize st1 q1 (m + 1) = Some (st2, m + 1 + of_nat (length (srt_runs (2 * ?n) ?rest)))"
      "emitted st2 ((outs @ ?out) @ merge_runs cmp ?n ?rest)" "same_buckets (fst st1) (fst st2)"
      using less.hyps [of ?rest st1 "outs @ ?out" q1 "m + 1"] st1 False n by (auto simp: neq_Nil_conv)
    have "srt_pass cmp insize st p m = srt_pass cmp insize st1 q1 (m + 1)" using p scan m1 by (simp add: srt_pass.simps [of cmp insize st p])
    moreover have "length (srt_runs (2 * ?n) xs) = Suc (length (srt_runs (2 * ?n) ?rest))" using False n by (subst srt_runs.simps) (simp add: mult_2)
    moreover have "merge_runs cmp ?n xs = ?out @ merge_runs cmp ?n ?rest" using False n by (subst merge_runs.simps) simp
    ultimately show ?thesis using st2 same_buckets_trans [OF st1(3)] by (auto simp: add.assoc)
  qed
qed

lemma mset_sort_runs: "n \<noteq> 0 \<Longrightarrow> mset (sort_runs f n xs) = mset xs"
proof (induction n xs rule: srt_runs.induct)
  case (1 n xs)
  show ?case
  proof (cases "xs = []")
    case False
    then have "mset (sort_runs f n xs) = mset (take n xs) + mset (drop n xs)" using 1 sort_runs_unfold [of n f xs] by simp
    then show ?thesis by (metis append_take_drop_id mset_append)
  qed simp
qed

lemma srt_loop_ok:
  assumes "compares cmp f" "distinct xs" "xs \<noteq> []" "length xs \<le> 2 ^ 31"
  shows "insize \<noteq> 0 \<Longrightarrow> path (nexts L) lst (sort_runs f (unat insize) xs) \<Longrightarrow>
    \<exists>L' lst' tail. srt_loop cmp insize L lst = Some (L', lst', tail) \<and> dseg (nexts L') (prevs L') 0 lst' (sort_key f xs) 0 \<and>
      tail = last (sort_key f xs) \<and> same_buckets L L'"
proof (induction "length xs - unat insize" arbitrary: insize L lst rule: less_induct)
  case less
  let ?n = "unat insize" and ?ys = "sort_runs f (unat insize) xs"
  have n: "?n \<noteq> 0" using less.prems(1) by (simp add: unat_eq_zero)
  note M = mset_sort_runs [OF n, of f xs]
  have len: "length ?ys = length xs" by (rule mset_eq_length [OF M])
  have ys: "distinct ([] @ ?ys)" using mset_eq_imp_distinct_iff [OF M] assms(2) by simp
  have e0: "emitted (L, 0, 0) []" by (simp add: emitted_def exI [of _ 0])
  obtain L1 lst1 tail where ps: "srt_pass cmp insize (L, 0, 0) lst 0 = Some ((L1, lst1, tail), of_nat (length (srt_runs (2 * ?n) ?ys)))"
    "emitted (L1, lst1, tail) (merge_runs cmp ?n ?ys)" "same_buckets L L1"
    using srt_pass_ok [OF less.prems(1) e0 _ ys, of lst cmp 0] less.prems(2) by (auto simp del: split_paired_Ex)
  define zs where "zs = sort_runs f (2 * ?n) xs"
  have zs: "merge_runs cmp ?n ?ys = zs" unfolding zs_def by (rule merge_runs_sort [OF assms(1) n])
  have Z: "mset zs = mset xs" unfolding zs_def using n by (intro mset_sort_runs) simp
  then have z: "zs \<noteq> []" "distinct zs" using assms(2,3) mset_eq_imp_distinct_iff by force+
  obtain r where d: "dseg (nexts L1) (prevs L1) 0 lst1 zs r" and t: "tail = last zs" using ps(2) zs z by (auto simp: emitted_def last_of_def)
  let ?L = "if tail \<noteq> 0 then set_next tail 0 L1 else L1"
  have "tail \<noteq> 0" using t z(1) dseg_nonzero [OF d] by (metis last_in_set)
  then have D: "dseg (nexts ?L) (prevs ?L) 0 lst1 zs 0" using dseg_set_end [OF d z(2,1), of 0] t by simp
  have S: "same_buckets L ?L" using ps(3) by (auto simp: same_buckets_def)
  have "length (srt_runs (2 * ?n) ?ys) < 2 ^ 32" using length_runs [of "2 * ?n" ?ys] n len assms(4) by simp
  then have "unat (of_nat (length (srt_runs (2 * ?n) ?ys)) :: u32) = length (srt_runs (2 * ?n) ?ys)" by (simp add: unat_of_nat)
  then have one: "(of_nat (length (srt_runs (2 * ?n) ?ys)) :: u32) \<le> 1 \<longleftrightarrow> length xs \<le> 2 * ?n"
    using runs_one [of "2 * ?n" ?ys] n len by (simp add: word_le_nat_alt)
  note U = srt_loop.simps [of cmp insize L lst]
  show ?case
  proof (cases "length xs \<le> 2 * ?n")
    case True
    then have "zs = sort_key f xs" unfolding zs_def using n by (intro sort_runs_one) auto
    then show ?thesis using U ps(1) one True D S t by (auto simp: Let_def)
  next
    case False
    then have n2: "unat (insize * 2) = 2 * ?n" using assms(4) by (simp add: unat_word_ariths)
    then have "insize * 2 \<noteq> 0" using n by auto
    then have "\<exists>L' lst' tail. srt_loop cmp (insize * 2) ?L lst1 = Some (L', lst', tail) \<and> dseg (nexts L') (prevs L') 0 lst' (sort_key f xs) 0 \<and>
        tail = last (sort_key f xs) \<and> same_buckets ?L L'"
      using n n2 False dseg_path [OF D] by (intro less.hyps) (auto simp: zs_def)
    moreover have "srt_loop cmp insize L lst = srt_loop cmp (insize * 2) ?L lst1" using U ps(1) one False by (simp add: Let_def)
    ultimately show ?thesis using same_buckets_trans [OF S] by auto
  qed
qed

lemma srt_ok:
  assumes "hash_repr e h Q L head xs" "compares cmp f" "length xs \<le> 2 ^ 31"
  shows "\<exists>L' head'. HASH_SRT cmp L head = Some (L', head') \<and> hash_repr e h Q L' head' (sort_key f xs) \<and> same_buckets L L'"
proof (cases head)
  case None
  then show ?thesis using assms(1) by (auto simp: HASH_SRT_def hash_repr_def same_buckets_def)
next
  case (Some w)
  then obtain el t cs where w: "w = (el, t)" "linked L el t xs cs" using assms(1) by (auto simp: hash_repr_def)
  have a: "dseg (nexts L) (prevs L) 0 el xs 0" "distinct xs" "xs \<noteq> []" using w(2) by (auto simp: linked_def app_ok_def)
  obtain L' lst tail where r: "srt_loop cmp 1 L el = Some (L', lst, tail)" "dseg (nexts L') (prevs L') 0 lst (sort_key f xs) 0"
    "tail = last (sort_key f xs)" "same_buckets L L'"
    using srt_loop_ok [OF assms(2) a(2,3) assms(3), of 1 L el] dseg_path [OF a(1)] by (auto simp: sort_runs_1 [unfolded One_nat_def])
  have "hash_ok L' (t\<lparr>tb_tail := tail\<rparr>) cs = hash_ok L t cs" using r(4) by (intro hash_ok_cong) (auto simp: same_buckets_def)
  moreover have "app_ok L' lst (t\<lparr>tb_tail := tail\<rparr>) (sort_key f xs)" using r(2,3) a(2,3) by (auto simp: app_ok_def dest: arg_cong [where f = length])
  ultimately have "linked L' lst (t\<lparr>tb_tail := tail\<rparr>) (sort_key f xs) cs" using w(2) by (simp add: linked_def)
  then show ?thesis using assms(1) Some w r by (auto simp: HASH_SRT_def hash_repr_def)
qed

end
