(* ===== verification/Uthash_Hash.thy ===== *)
theory Uthash_Hash
  imports Uthash_Lists
begin

text \<open>
  The other hash functions of \<^verbatim>\<open>kernel/includes/uthash.h\<close>, which a build selects with \<^verbatim>\<open>HASH_FUNCTION\<close> in place of \<^verbatim>\<open>HASH_JEN\<close>, and the
  Bloom filter in front of the search that \<^verbatim>\<open>HASH_BLOOM\<close> turns on. Bernstein's, the FNV and the one-at-a-time function fold a step over the
  bytes that loses nothing: it is injective in the state and in the byte, so that two keys which differ in one byte never have one hash value.
  The filter answers yes exactly on the values whose low bits are those of a value added before, so that the search behind it finds what the
  plain search finds.
\<close>

section \<open>Hash functions\<close>

definition BER_step :: "u32 \<Rightarrow> u8 \<Rightarrow> u32" where
  "BER_step hashv k = (push_bit 5 hashv + hashv) + ucast k"

definition HASH_BER :: "u8 list \<Rightarrow> u32" where
  "HASH_BER key = foldl BER_step 0 key"

definition HASH_SAX :: "u8 list \<Rightarrow> u32" where
  "HASH_SAX key = foldl (\<lambda>hashv k. hashv XOR (push_bit 5 hashv + drop_bit 2 hashv + ucast k)) 0 key"

definition FNV_step :: "u32 \<Rightarrow> u8 \<Rightarrow> u32" where
  "FNV_step hashv k = (hashv XOR ucast k) * 16777619"

definition HASH_FNV :: "u8 list \<Rightarrow> u32" where
  "HASH_FNV key = foldl FNV_step 2166136261 key"

definition OAT_step :: "u32 \<Rightarrow> u8 \<Rightarrow> u32" where
  "OAT_step hashv k = (let h = hashv + ucast k; h = h + push_bit 10 h in h XOR drop_bit 6 h)"

definition OAT_end :: "u32 \<Rightarrow> u32" where
  "OAT_end hashv = (let h = hashv + push_bit 3 hashv; h = h XOR drop_bit 11 h in h + push_bit 15 h)"

definition HASH_OAT :: "u8 list \<Rightarrow> u32" where
  "HASH_OAT key = OAT_end (foldl OAT_step 0 key)"

text \<open>Paul Hsieh's function takes four bytes a turn, read as two little-endian halfwords.\<close>

definition get16bits :: "u8 list \<Rightarrow> nat \<Rightarrow> u32" where
  "get16bits key i = push_bit 8 (ucast (key ! (i + 1))) + ucast (key ! i)"

fun SFH_loop :: "u32 \<Rightarrow> u8 list \<Rightarrow> u32 \<times> u8 list" where
  "SFH_loop hashv (a # b # c # d # key) =
     (let h = hashv + get16bits [a, b] 0;
          tmp = push_bit 11 (get16bits [c, d] 0) XOR h;
          h = push_bit 16 h XOR tmp
      in SFH_loop (h + drop_bit 11 h) key)"
| "SFH_loop hashv key = (hashv, key)"

definition SFH_end :: "u32 \<Rightarrow> u8 list \<Rightarrow> u32" where
  "SFH_end hashv key =
     (if length key = 3
      then let h = hashv + get16bits key 0; h = h XOR push_bit 16 h; h = h XOR push_bit 18 (ucast (key ! 2)) in h + drop_bit 11 h
      else if length key = 2 then let h = hashv + get16bits key 0; h = h XOR push_bit 11 h in h + drop_bit 17 h
      else if length key = 1 then let h = hashv + ucast (key ! 0); h = h XOR push_bit 10 h in h + drop_bit 1 h
      else hashv)"

definition HASH_SFH :: "u8 list \<Rightarrow> u32" where
  "HASH_SFH key =
     (let (h, rest) = SFH_loop 0xcafebabe key;
          h = SFH_end h rest;
          h = h XOR push_bit 3 h; h = h + drop_bit 5 h;
          h = h XOR push_bit 4 h; h = h + drop_bit 17 h;
          h = h XOR push_bit 25 h
      in h + drop_bit 6 h)"

text \<open>A step that can be undone for a known byte, and that tells bytes apart.\<close>

locale lossless_step =
  fixes step :: "u32 \<Rightarrow> u8 \<Rightarrow> u32"
  assumes state_inj: "step h k = step h' k \<Longrightarrow> h = h'"
    and byte_inj: "step h k = step h k' \<Longrightarrow> k = k'"
begin

lemma fold_inj: "foldl step h ks = foldl step h' ks \<Longrightarrow> h = h'"
  by (induction ks arbitrary: h h') (auto dest: state_inj)

lemma one_byte:
  assumes "foldl step h (xs @ a # ys) = foldl step h (xs @ b # ys)"
  shows "a = b"
  using assms by (auto dest!: fold_inj byte_inj)

end

lemma mult_inj:
  assumes "c * d = (1 :: u32)" "x * c = y * c"
  shows "x = y"
proof -
  have "x * (c * d) = y * (c * d)" using assms(2) by (simp flip: mult.assoc)
  then show ?thesis using assms(1) by simp
qed

lemma push_bit_add: "push_bit n x + x = x * (2 ^ n + 1)" "x + push_bit n x = x * (2 ^ n + 1)" for x :: u32
  by (simp_all add: push_bit_eq_mult algebra_simps)

lemma ucast_inj: "(ucast (a :: u8) :: u32) = ucast b \<Longrightarrow> a = b"
proof -
  have "unat (ucast k :: u32) = unat k" for k :: u8 using unsigned_less [of k, where 'a = nat] by (intro unat_ucast_small) simp
  then show "(ucast a :: u32) = ucast b \<Longrightarrow> a = b" by (metis unsigned_word_eqI)
qed

lemma xor_inj: "x XOR k = y XOR k \<longleftrightarrow> x = y" "k XOR x = k XOR y \<longleftrightarrow> x = y" for x y k :: u32
  by (auto simp: bit_eq_iff bit_xor_iff)

lemma xor_shift_inj:
  fixes x y :: u32
  assumes "x XOR drop_bit n x = y XOR drop_bit n y" "0 < n"
  shows "x = y"
proof (rule bit_word_eqI)
  fix i assume "i < LENGTH(32)"
  have "bit x i = bit y i" for i
  proof (induction "32 - i" arbitrary: i rule: less_induct)
    case less
    show ?case
    proof (cases "i < 32")
      case True
      then have "bit x (i + n) = bit y (i + n)" using less assms(2) by simp
      moreover have "bit (x XOR drop_bit n x) i = bit (y XOR drop_bit n y) i" using assms(1) by simp
      ultimately show ?thesis by (auto simp: bit_xor_iff bit_drop_bit_eq add.commute)
    qed (auto dest: bit_imp_le_length)
  qed
  then show "bit x i = bit y i" .
qed

interpretation ber: lossless_step BER_step
proof unfold_locales
  fix h h' :: u32 and k k' :: u8
  show "BER_step h k = BER_step h' k \<Longrightarrow> h = h'" using mult_inj [of 33 "0x3e0f83e1" h h'] by (simp add: BER_step_def push_bit_add)
  show "BER_step h k = BER_step h k' \<Longrightarrow> k = k'" using ucast_inj [of k k'] by (simp add: BER_step_def)
qed

interpretation fnv: lossless_step FNV_step
proof unfold_locales
  fix h h' :: u32 and k k' :: u8
  have m: "x = y" if "x * 16777619 = y * 16777619" for x y :: u32 using mult_inj [of 16777619 "0x359c449b" x y] that by simp
  show "FNV_step h k = FNV_step h' k \<Longrightarrow> h = h'" unfolding FNV_step_def by (drule m) (simp add: xor_inj)
  show "FNV_step h k = FNV_step h k' \<Longrightarrow> k = k'" unfolding FNV_step_def by (drule m, rule ucast_inj) (simp add: xor_inj)
qed

interpretation oat: lossless_step OAT_step
proof unfold_locales
  fix h h' :: u32 and k k' :: u8
  have m: "x = y" if "OAT_step h k = OAT_step h' k'" "x = h + ucast k" "y = h' + ucast k'" for x y h h' :: u32 and k k' :: u8
    using xor_shift_inj [of "x * 1025" 6 "y * 1025"] mult_inj [of 1025 "0xc00ffc01" x y] that by (simp add: OAT_step_def Let_def push_bit_add)
  show "OAT_step h k = OAT_step h' k \<Longrightarrow> h = h'" using m [of h k h' k] by simp
  show "OAT_step h k = OAT_step h k' \<Longrightarrow> k = k'" using m [of h k h k'] ucast_inj [of k k'] by simp
qed

lemma OAT_end_inj: "OAT_end x = OAT_end y \<Longrightarrow> x = y"
  using mult_inj [of 32769 "0x3fff8001" "x * 9 XOR drop_bit 11 (x * 9)" "y * 9 XOR drop_bit 11 (y * 9)"] xor_shift_inj [of "x * 9" 11 "y * 9"]
    mult_inj [of 9 "0x38e38e39" x y] by (simp add: OAT_end_def Let_def push_bit_add)

lemma BER_polynomial: "HASH_BER key = (\<Sum>i<length key. ucast (key ! i) * 33 ^ (length key - 1 - i))"
proof -
  have "foldl BER_step 0 (rev key) = (\<Sum>i<length key. ucast (key ! i) * 33 ^ i)" for key :: "u8 list"
  proof (induction key)
    case (Cons k key)
    have "foldl BER_step 0 (rev (k # key)) = ucast k + 33 * (\<Sum>i<length key. ucast (key ! i) * 33 ^ i)"
      using Cons by (simp add: BER_step_def [of _ k] push_bit_add mult.commute)
    also have "\<dots> = ucast k + (\<Sum>i<length key. ucast (key ! i) * 33 ^ Suc i)" by (simp add: sum_distrib_left mult.left_commute)
    also have "\<dots> = (\<Sum>i<length (k # key). ucast ((k # key) ! i) * 33 ^ i)" by (simp add: sum.lessThan_Suc_shift del: sum.lessThan_Suc)
    finally show ?case .
  qed simp
  from this [of "rev key"] have "HASH_BER key = (\<Sum>i<length key. ucast (rev key ! i) * 33 ^ i)" by (simp add: HASH_BER_def)
  also have "\<dots> = (\<Sum>i<length key. ucast (rev key ! (length key - Suc i)) * 33 ^ (length key - Suc i))" by (rule sum.nat_diff_reindex [symmetric])
  also have "\<dots> = (\<Sum>i<length key. ucast (key ! i) * 33 ^ (length key - 1 - i))" by (intro sum.cong) (auto simp: rev_nth)
  finally show ?thesis .
qed


section \<open>The Bloom filter\<close>

text \<open>The bit vector of \<open>2 ^ nbits\<close> bits, where \<open>nbits\<close> is the value of the macro \<^verbatim>\<open>HASH_BLOOM\<close>.\<close>

definition HASH_BLOOM_BYTELEN :: "nat \<Rightarrow> nat" where
  "HASH_BLOOM_BYTELEN nbits = 2 ^ nbits div 8 + (if 2 ^ nbits mod 8 \<noteq> (0 :: nat) then 1 else 0)"

definition HASH_BLOOM_MAKE :: "nat \<Rightarrow> heap \<Rightarrow> (u8 list \<times> u32 \<times> heap) option" where
  "HASH_BLOOM_MAKE nbits h =
     (case malloc (of_nat (HASH_BLOOM_BYTELEN nbits)) h of None \<Rightarrow> None
      | Some (p, h') \<Rightarrow> if p = 0 then None else Some (replicate (HASH_BLOOM_BYTELEN nbits) 0, p, h'))"

definition HASH_BLOOM_FREE :: "u32 \<Rightarrow> heap \<Rightarrow> heap" where
  "HASH_BLOOM_FREE bloom_bv h = free bloom_bv h"

definition HASH_BLOOM_BITSET :: "u8 list \<Rightarrow> nat \<Rightarrow> u8 list" where
  "HASH_BLOOM_BITSET bv idx = bv[idx div 8 := (bv ! (idx div 8)) OR push_bit (idx mod 8) 1]"

definition HASH_BLOOM_BITTEST :: "u8 list \<Rightarrow> nat \<Rightarrow> bool" where
  "HASH_BLOOM_BITTEST bv idx \<longleftrightarrow> (bv ! (idx div 8)) AND push_bit (idx mod 8) 1 \<noteq> 0"

definition bloom_index :: "nat \<Rightarrow> u32 \<Rightarrow> nat" where
  "bloom_index nbits hashv = unat (hashv AND (push_bit nbits 1 - 1))"

definition HASH_BLOOM_ADD :: "nat \<Rightarrow> u32 \<Rightarrow> u8 list \<Rightarrow> u8 list" where
  "HASH_BLOOM_ADD nbits hashv bv = HASH_BLOOM_BITSET bv (bloom_index nbits hashv)"

definition HASH_BLOOM_TEST :: "nat \<Rightarrow> u8 list \<Rightarrow> u32 \<Rightarrow> bool" where
  "HASH_BLOOM_TEST nbits bv hashv = HASH_BLOOM_BITTEST bv (bloom_index nbits hashv)"

text \<open>The search of a build with the filter.\<close>

definition FIND_BYHASHVALUE_bloom :: "nat \<Rightarrow> u8 list \<Rightarrow> links \<Rightarrow> uhash \<Rightarrow> string \<Rightarrow> u32 \<Rightarrow> u32 option" where
  "FIND_BYHASHVALUE_bloom nbits bv L head key hashval =
     (case head of None \<Rightarrow> Some 0
      | Some (el, t) \<Rightarrow>
          if HASH_BLOOM_TEST nbits bv hashval
          then FIND_IN_BKT_hh L key hashval (pb_head (tb_buckets t ! HASH_TO_BKT hashval (tb_num_buckets t)))
          else Some 0)"

lemma bittest_bit: "HASH_BLOOM_BITTEST bv idx \<longleftrightarrow> bit (bv ! (idx div 8)) (idx mod 8)"
  by (simp add: HASH_BLOOM_BITTEST_def and_exp_eq_0_iff_not_bit push_bit_of_1)

lemma bitset_bit:
  assumes "i div 8 < length bv" "j div 8 < length bv"
  shows "HASH_BLOOM_BITTEST (HASH_BLOOM_BITSET bv i) j \<longleftrightarrow> i = j \<or> HASH_BLOOM_BITTEST bv j"
proof -
  have "i = j \<longleftrightarrow> i div 8 = j div 8 \<and> i mod 8 = j mod 8" by (metis div_mult_mod_eq)
  moreover have "j mod 8 < 8" by simp
  ultimately show ?thesis using assms
    by (auto simp: bittest_bit HASH_BLOOM_BITSET_def nth_list_update bit_or_iff push_bit_of_1 bit_exp_iff)
qed

lemma bloom_index_less:
  assumes "nbits < 32"
  shows "bloom_index nbits v div 8 < HASH_BLOOM_BYTELEN nbits"
proof -
  have "(2 :: nat) ^ nbits < 2 ^ 32" using assms by (intro power_strict_increasing) auto
  then have u: "unat (2 ^ nbits :: u32) = 2 ^ nbits" using unat_of_nat [of "2 ^ nbits", where 'a = 32] by simp
  then have "(2 ^ nbits :: u32) \<noteq> 0" by (metis power_not_zero unat_0 zero_neq_numeral)
  then have p: "unat (push_bit nbits 1 - 1 :: u32) = 2 ^ nbits - 1" using unat_minus_one [of "2 ^ nbits :: u32"] u by (simp add: push_bit_of_1)
  have "v AND (push_bit nbits 1 - 1) \<le> push_bit nbits 1 - 1" by (rule word_and_le1)
  then have "bloom_index nbits v \<le> 2 ^ nbits - 1" unfolding bloom_index_def p [symmetric] by (simp add: word_le_nat_alt)
  then have "bloom_index nbits v < 2 ^ nbits" by (metis Suc_pred' less_Suc_eq_le zero_less_numeral zero_less_power)
  moreover have "i div 8 < n div 8 + (if n mod 8 \<noteq> 0 then 1 else 0)" if "i < n" for i n :: nat
  proof (rule less_mult_imp_div_less)
    have "i < (q + (if r \<noteq> 0 then 1 else 0)) * 8" if "i < q * 8 + r" "r < 8" for q r :: nat using that by (cases "r = 0") auto
    from this [of "n div 8" "n mod 8"] that show "i < (n div 8 + (if n mod 8 \<noteq> 0 then 1 else 0)) * 8" by simp
  qed
  ultimately show ?thesis unfolding HASH_BLOOM_BYTELEN_def by blast
qed

text \<open>Exactly the added values, up to the bits the filter does not keep.\<close>

lemma bloom_adds:
  assumes "nbits < 32" "length bv = HASH_BLOOM_BYTELEN nbits"
  shows "HASH_BLOOM_TEST nbits (fold (HASH_BLOOM_ADD nbits) vs bv) v \<longleftrightarrow>
    (\<exists>w\<in>set vs. bloom_index nbits w = bloom_index nbits v) \<or> HASH_BLOOM_TEST nbits bv v"
  using assms(2)
proof (induction vs arbitrary: bv)
  case (Cons w vs)
  have "length (HASH_BLOOM_ADD nbits w bv) = HASH_BLOOM_BYTELEN nbits" using Cons.prems by (simp add: HASH_BLOOM_ADD_def HASH_BLOOM_BITSET_def)
  from Cons.IH [OF this] show ?case using bitset_bit [of "bloom_index nbits w" bv "bloom_index nbits v"] bloom_index_less [OF assms(1)] Cons.prems
    by (auto simp: HASH_BLOOM_TEST_def HASH_BLOOM_ADD_def)
qed simp

lemma bloom_empty: "nbits < 32 \<Longrightarrow> \<not> HASH_BLOOM_TEST nbits (replicate (HASH_BLOOM_BYTELEN nbits) 0) v"
  using bloom_index_less [of nbits v] by (simp add: HASH_BLOOM_TEST_def bittest_bit)

text \<open>Giving the vector back undoes its allocation.\<close>

lemma bloom_make_free:
  assumes "heap_ok e h P" "HASH_BLOOM_MAKE nbits h = Some (bv, p, h')"
  shows "heap_ok e (HASH_BLOOM_FREE p h') P"
  using km.alloc_then_dealloc [OF assms(1)] assms(2) by (auto simp: HASH_BLOOM_MAKE_def HASH_BLOOM_FREE_def split: option.splits if_splits)

lemma bloom_find:
  assumes "hash_repr e h Q L head xs" "\<forall>x\<in>set xs. HASH_BLOOM_TEST nbits bv (hashvs L x)"
  shows "FIND_BYHASHVALUE_bloom nbits bv L head key hv = HASH_FIND_BYHASHVALUE L head key hv"
proof -
  obtain r where r: "HASH_FIND_BYHASHVALUE L head key hv = Some r"
    "r = 0 \<and> (\<forall>x\<in>set xs. \<not> key_match L key hv x) \<or> r \<noteq> 0 \<and> r \<in> set xs \<and> key_match L key hv r" using find_ok [OF assms(1)] by blast
  have "HASH_BLOOM_TEST nbits bv hv" if "r \<noteq> 0" using r(2) that assms(2) by (auto simp: key_match_def)
  then show ?thesis using r(1) by (auto simp: FIND_BYHASHVALUE_bloom_def HASH_FIND_BYHASHVALUE_def split: option.splits)
qed

end
