(* ===== verification/Uthash_Refine.thy ===== *)
theory Uthash_Refine
  imports Uthash_Lists
begin

text \<open>
  The pointer level refines the table of \<^verbatim>\<open>Uthash\<close>, on which the kernel's environment and command registry are modelled: when a linked hash
  represents such a table, element by element and bucket by bucket, then adding a key on pointers and adding it to the table either both return
  or both fail for want of memory, with one heap, and the results represent each other again, through every bucket expansion.
\<close>

definition elem_at :: "links \<Rightarrow> u32 \<Rightarrow> u32 uelem" where
  "elem_at L x = \<lparr>el_key = keys_of L x, el_hashv = hashvs L x, el_value = x\<rparr>"

definition chain_addrs :: "u32 list \<Rightarrow> ut_bucket list \<Rightarrow> u32 list list" where
  "chain_addrs xs bs = map (\<lambda>b. map ((!) xs) (hh_chain b)) bs"

definition same_counts :: "pbucket list \<Rightarrow> ut_bucket list \<Rightarrow> bool" where
  "same_counts ps bs \<longleftrightarrow> list_all2 (\<lambda>p b. pb_count p = bk_count b \<and> pb_mult p = expand_mult b) ps bs"

definition same_fields :: "ptable \<Rightarrow> u32 ut_table \<Rightarrow> bool" where
  "same_fields t T \<longleftrightarrow> tb_buckets_ptr t = ut_buckets_ptr T \<and> tb_num_buckets t = num_buckets T \<and> tb_log2 t = log2_num_buckets T \<and>
     tb_num_items t = num_items T \<and> tb_ideal t = ideal_chain_maxlen T \<and> tb_nonideal t = nonideal_items T \<and> tb_ineff t = ineff_expands T \<and>
     tb_noexpand t = noexpand T"

text \<open>\<open>T\<close> is what the pointers say about the elements \<open>xs\<close>.\<close>

definition repr_table :: "links \<Rightarrow> ptable \<Rightarrow> u32 list \<Rightarrow> u32 ut_table \<Rightarrow> bool" where
  "repr_table L t xs T \<longleftrightarrow> ut_items T = map (elem_at L) xs \<and> same_fields t T \<and> same_counts (tb_buckets t) (ut_buckets T) \<and>
     hash_ok L t (chain_addrs xs (ut_buckets T)) \<and> (\<forall>b\<in>set (ut_buckets T). \<forall>i\<in>set (hh_chain b). i < length xs)"

lemma same_countsD:
  assumes "same_counts ps bs" "b < length bs"
  shows "pb_count (ps ! b) = bk_count (bs ! b)" "pb_mult (ps ! b) = expand_mult (bs ! b)" "length ps = length bs"
  using assms by (auto simp: same_counts_def list_all2_conv_all_nth)

lemma same_counts_update:
  "same_counts ps bs \<Longrightarrow> pb_count p = bk_count c \<Longrightarrow> pb_mult p = expand_mult c \<Longrightarrow> same_counts (ps[b := p]) (bs[b := c])"
  unfolding same_counts_def by (rule list_all2_update_cong) auto

lemma chain_addrs_update: "chain_addrs xs (bs[b := c]) = (chain_addrs xs bs)[b := map ((!) xs) (hh_chain c)]"
  by (simp add: chain_addrs_def map_update)

lemma concat_chain_addrs: "concat (chain_addrs xs bs) = map ((!) xs) (concat (map hh_chain bs))"
  by (simp add: chain_addrs_def map_concat comp_def)

lemma rehash_sim:
  assumes "same_counts nbs NBS" "items = map (elem_at L0) xs" "hashvs L = hashvs L0" "i < length xs"
    and "HASH_TO_BKT (hashvs L (xs ! i)) nb < length NBS"
  shows "same_counts (fst (snd (rehash_hh nb ideal (xs ! i) (L, nbs, n)))) (fst (rehash items nb ideal i (NBS, n)))"
    "snd (snd (rehash_hh nb ideal (xs ! i) (L, nbs, n))) = snd (rehash items nb ideal i (NBS, n))"
    "chain_addrs xs (fst (rehash items nb ideal i (NBS, n))) =
       (let b = HASH_TO_BKT (hashvs L (xs ! i)) nb in (chain_addrs xs NBS)[b := xs ! i # chain_addrs xs NBS ! b])"
proof -
  let ?b = "HASH_TO_BKT (hashvs L (xs ! i)) nb"
  have hv: "el_hashv (items ! i) = hashvs L (xs ! i)" using assms(2-4) by (simp add: elem_at_def)
  note c = same_countsD [OF assms(1,5)]
  show "same_counts (fst (snd (rehash_hh nb ideal (xs ! i) (L, nbs, n)))) (fst (rehash items nb ideal i (NBS, n)))"
    using assms(1) c hv by (auto simp: rehash_hh_def rehash_def Let_def intro!: same_counts_update)
  show "snd (snd (rehash_hh nb ideal (xs ! i) (L, nbs, n))) = snd (rehash items nb ideal i (NBS, n))"
    using c hv by (simp add: rehash_hh_def rehash_def Let_def)
  show "chain_addrs xs (fst (rehash items nb ideal i (NBS, n))) =
       (let b = HASH_TO_BKT (hashvs L (xs ! i)) nb in (chain_addrs xs NBS)[b := xs ! i # chain_addrs xs NBS ! b])"
    using hv assms(5) by (simp add: rehash_def Let_def chain_addrs_update) (simp add: chain_addrs_def)
qed

lemma rehash_all_sim:
  assumes "items = map (elem_at L0) xs" "\<forall>v. HASH_TO_BKT v nb < len"
  shows "same_counts nbs NBS \<Longrightarrow> hashvs L = hashvs L0 \<Longrightarrow> length NBS = len \<Longrightarrow> \<forall>i\<in>set is. i < length xs \<Longrightarrow>
    fold (rehash_hh nb ideal) (map ((!) xs) is) (L, nbs, n) = (L', nbs', n') \<Longrightarrow> fold (rehash items nb ideal) is (NBS, n) = (NBS', m) \<Longrightarrow>
    same_counts nbs' NBS' \<and> n' = m \<and> chain_addrs xs NBS' = spread (\<lambda>x. HASH_TO_BKT (hashvs L0 x) nb) (map ((!) xs) is) (chain_addrs xs NBS)"
proof (induction "is" arbitrary: L nbs NBS n)
  case (Cons i "is")
  obtain L1 nbs1 n1 where r: "rehash_hh nb ideal (xs ! i) (L, nbs, n) = (L1, nbs1, n1)" by (metis prod_cases3)
  obtain NBS1 m1 where R: "rehash items nb ideal i (NBS, n) = (NBS1, m1)" by (metis prod.exhaust)
  have "HASH_TO_BKT (hashvs L (xs ! i)) nb < length NBS" using assms(2) Cons.prems(3) by simp
  note s = rehash_sim [OF Cons.prems(1) assms(1) Cons.prems(2) _ this, of ideal n]
  have i: "i < length xs" using Cons.prems(4) by simp
  have "hashvs L1 = hashvs L0" using rehash_hh_simps(1) [of nb ideal "xs ! i" "(L, nbs, n)"] r Cons.prems(2) by simp
  moreover have "length NBS1 = len" using rehash_length [of items nb ideal i "(NBS, n)"] R Cons.prems(3) by simp
  ultimately have "same_counts nbs' NBS' \<and> n' = m \<and> chain_addrs xs NBS' = spread (\<lambda>x. HASH_TO_BKT (hashvs L0 x) nb) (map ((!) xs) is) (chain_addrs xs NBS1)"
    using s(1,2) [OF i] r R Cons.prems(4-6) by (intro Cons.IH) auto
  then show ?case using s(3) [OF i] R Cons.prems(2) by (simp add: Let_def)
qed auto

definition expand_rel :: "links \<Rightarrow> ptable \<Rightarrow> u32 list \<Rightarrow> (links \<times> ptable \<times> heap) option \<Rightarrow> (u32 ut_table \<times> heap) option \<Rightarrow> bool" where
  "expand_rel L t xs = rel_option (\<lambda>(L', t', h1) (T', h2). h1 = h2 \<and> repr_table L' t' xs T' \<and> same_list L t L' t')"

text \<open>The redistribution, from empty buckets on.\<close>

lemma respread_sim:
  assumes "repr_table L t xs T" "unat (tb_num_buckets t * 2) = 2 * length (ut_buckets T)"
    and "fold (rehash_hh (tb_num_buckets t * 2) ideal) (concat (chain_addrs xs (ut_buckets T))) (L, replicate (2 * length (tb_buckets t)) zero_bucket, 0) = (L', nbs, n)"
    and "fold (rehash (ut_items T) (tb_num_buckets t * 2) ideal) (concat (map hh_chain (ut_buckets T))) (replicate (2 * length (ut_buckets T)) empty_bucket, 0) = (NBS, m)"
  shows "same_counts nbs NBS" "n = m" "chain_addrs xs NBS = respread L t (chain_addrs xs (ut_buckets T))" "\<forall>b\<in>set NBS. \<forall>i\<in>set (hh_chain b). i < length xs"
proof -
  let ?nb = "tb_num_buckets t * 2" and ?bs = "replicate (2 * length (tb_buckets t)) zero_bucket"
  let ?BS = "replicate (2 * length (ut_buckets T)) empty_bucket" and ?is = "concat (map hh_chain (ut_buckets T))"
  have R: "ut_items T = map (elem_at L) xs" "same_counts (tb_buckets t) (ut_buckets T)" "hash_ok L t (chain_addrs xs (ut_buckets T))"
    and I: "\<forall>i\<in>set ?is. i < length xs" using assms(1) by (auto simp: repr_table_def)
  have len: "length (tb_buckets t) = length (ut_buckets T)" using R(2) by (auto simp: same_counts_def list_all2_lengthD)
  have "0 < length (ut_buckets T)" using R(3) by (auto simp: hash_ok_def chain_addrs_def)
  then have b: "\<forall>v. HASH_TO_BKT v ?nb < length ?BS" using HASH_TO_BKT_less [of ?nb] assms(2) by simp
  have "same_counts ?bs ?BS" using len by (simp add: same_counts_def zero_bucket_def empty_bucket_def list_all2_conv_all_nth)
  from rehash_all_sim [OF R(1) b this refl refl I assms(3) [unfolded concat_chain_addrs] assms(4)]
  have "same_counts nbs NBS \<and> n = m \<and> chain_addrs xs NBS = spread (\<lambda>x. HASH_TO_BKT (hashvs L x) ?nb) (map ((!) xs) ?is) (chain_addrs xs ?BS)" .
  moreover have "chain_addrs xs ?BS = replicate (unat ?nb) []" using assms(2) by (simp add: chain_addrs_def empty_bucket_def)
  ultimately show "same_counts nbs NBS" "n = m" "chain_addrs xs NBS = respread L t (chain_addrs xs (ut_buckets T))"
    by (simp_all add: respread_def concat_chain_addrs)
  have "\<forall>i. HASH_TO_BKT (el_hashv (ut_items T ! i)) ?nb < length (fst (?BS, 0 :: u32))" using b by simp
  note r = rehash_all [OF this, of _ ideal ?is, unfolded assms(4) fst_conv]
  have "length NBS = length ?BS" using r [of 0] \<open>0 < length (ut_buckets T)\<close> by simp
  then have "set (hh_chain (NBS ! k)) \<subseteq> set ?is" if "k < length NBS" for k
  proof -
    have k: "k < length ?BS" using that \<open>length NBS = length ?BS\<close> by simp
    then have "set (hh_chain (?BS ! k)) = {}" by (simp add: empty_bucket_def)
    then show ?thesis unfolding conjunct2 [OF r [OF k]] by auto
  qed
  then have "set (hh_chain b) \<subseteq> set ?is" if "b \<in> set NBS" for b using that unfolding in_set_conv_nth by blast
  then show "\<forall>b\<in>set NBS. \<forall>i\<in>set (hh_chain b). i < length xs" using I by blast
qed

lemma expand_sim:
  assumes "repr_table L t xs T" "heap_ok e h P" "tb_buckets_ptr t \<in> P"
  shows "expand_rel L t xs (EXPAND_BUCKETS_hh L t h) (HASH_EXPAND_BUCKETS T h)"
proof -
  let ?nb = "tb_num_buckets t * 2" and ?bs = "replicate (2 * length (tb_buckets t)) zero_bucket" and ?BS = "replicate (2 * length (ut_buckets T)) empty_bucket"
  have R: "ut_items T = map (elem_at L) xs" "same_fields t T" "hash_ok L t (chain_addrs xs (ut_buckets T))" using assms(1) by (auto simp: repr_table_def)
  have F: "tb_num_buckets t = num_buckets T" "tb_buckets_ptr t = ut_buckets_ptr T" using R(2) by (auto simp: same_fields_def)
  show ?thesis
  proof (cases rule: km.alloc_cases [OF assms(2), where n = "sizeof_ut_bucket * tb_num_buckets t * 2", case_names null fresh])
    case (null h')
    then show ?thesis using F by (simp add: expand_rel_def EXPAND_BUCKETS_hh_def HASH_EXPAND_BUCKETS_def)
  next
    case (fresh p h1)
    obtain L' t' where X: "EXPAND_BUCKETS_hh L t h = Some (L', t', free (tb_buckets_ptr t) h1)" "hash_ok L' t' (respread L t (chain_addrs xs (ut_buckets T)))"
      "same_list L t L' t'" using expand_hh_ok [OF R(3) assms(2,3) fresh(1,2)] by blast
    obtain L1 nbs n where f: "fold (rehash_hh ?nb (ideal_maxlen t)) (concat (chain_addrs xs (ut_buckets T))) (L, ?bs, 0) = (L1, nbs, n)" by (metis prod_cases3)
    obtain NBS m where g: "fold (rehash (ut_items T) ?nb (ideal_maxlen t)) (concat (map hh_chain (ut_buckets T))) (?BS, 0) = (NBS, m)" by (metis prod.exhaust)
    have "buckets_ok L (tb_buckets t) (chain_addrs xs (ut_buckets T))" using R(3) by (simp add: hash_ok_def)
    note ex = expand_all_chains [OF this, of ?nb "ideal_maxlen t" ?bs 0, unfolded f]
    have "unat (tb_num_buckets t) = length (ut_buckets T)" "unat (tb_num_buckets t) = 2 ^ unat (tb_log2 t)" "unat (tb_log2 t) \<le> 20"
      using R(3) by (simp_all add: hash_ok_def chain_addrs_def)
    then have "unat ?nb = 2 * length (ut_buckets T)" using bucket_array_bound(2) [OF _ _ assms(2) fresh(1,2)] by metis
    note S = respread_sim [OF assms(1) this f g]
    have ideal: "drop_bit (unat (log2_num_buckets T + 1)) (num_items T) + (if num_items T AND (num_buckets T * 2 - 1) \<noteq> 0 then 1 else 0) = ideal_maxlen t"
      using R(2) by (simp add: ideal_maxlen_def same_fields_def)
    obtain T' where T': "HASH_EXPAND_BUCKETS T h = Some (T', free (tb_buckets_ptr t) h1)" "ut_items T' = ut_items T" "ut_buckets T' = NBS" "same_fields t' T'"
      "tb_buckets t' = nbs" "L1 = L'"
      using X(1) fresh(1,2) F R(2) ex g S(2) unfolding HASH_EXPAND_BUCKETS_def EXPAND_BUCKETS_hh_def ideal by (auto simp: Let_def same_fields_def)
    have "elem_at L' = elem_at L" using X(3) by (simp add: same_list_def elem_at_def fun_eq_iff)
    then have "repr_table L' t' xs T'" using T' S X(2) R(1) by (simp add: repr_table_def)
    then show ?thesis using X(1,3) T'(1) by (simp add: expand_rel_def)
  qed
qed


section \<open>Adding\<close>

lemma add_to_bkt_sim:
  assumes "repr_table L t (xs @ [x]) T" "x \<notin> set (concat (chain_addrs (xs @ [x]) (ut_buckets T)))" "x \<noteq> 0" "heap_ok e h P" "tb_buckets_ptr t \<in> P"
  defines "b \<equiv> HASH_TO_BKT (hashvs L x) (tb_num_buckets t)"
  shows "expand_rel L t (xs @ [x]) (ADD_TO_BKT_hh b x L t h) (HASH_ADD_TO_BKT b (length xs) T h)"
proof -
  let ?ys = "xs @ [x]" and ?bk = "tb_buckets t ! b" and ?BK = "ut_buckets T ! b"
  let ?L = "push_hh (pb_head ?bk) x L" let ?t = "t\<lparr>tb_buckets := (tb_buckets t)[b := ?bk\<lparr>pb_head := x, pb_count := pb_count ?bk + 1\<rparr>]\<rparr>"
  let ?BK' = "?BK\<lparr>hh_chain := length xs # hh_chain ?BK, bk_count := bk_count ?BK + 1\<rparr>" let ?T = "T\<lparr>ut_buckets := (ut_buckets T)[b := ?BK']\<rparr>"
  have R: "ut_items T = map (elem_at L) ?ys" "same_fields t T" "same_counts (tb_buckets t) (ut_buckets T)" "hash_ok L t (chain_addrs ?ys (ut_buckets T))"
    and I: "\<forall>k\<in>set (ut_buckets T). \<forall>i\<in>set (hh_chain k). i < length ?ys" using assms(1) by (auto simp: repr_table_def)
  have b: "b < length (ut_buckets T)" using hash_bkt [OF R(4)] by (simp add: b_def chain_addrs_def)
  note c = same_countsD [OF R(3) b]
  have "chain_addrs ?ys (ut_buckets ?T) = (chain_addrs ?ys (ut_buckets T))[b := x # chain_addrs ?ys (ut_buckets T) ! b]"
    using b by (simp add: chain_addrs_update) (simp add: chain_addrs_def)
  then have ok: "hash_ok ?L ?t (chain_addrs ?ys (ut_buckets ?T))" using push_hash_ok [OF R(4) assms(2,3)] unfolding b_def [symmetric] by simp
  have "\<forall>k\<in>set (ut_buckets ?T). \<forall>i\<in>set (hh_chain k). i < length ?ys" using I I [rule_format, OF nth_mem [OF b]] by (auto dest!: subsetD [OF set_update_subset_insert])
  moreover have "same_counts (tb_buckets ?t) (ut_buckets ?T)" using R(3) c by (auto intro!: same_counts_update)
  moreover have "elem_at ?L = elem_at L" by (simp add: elem_at_def fun_eq_iff)
  ultimately have rep: "repr_table ?L ?t ?ys ?T" using ok R by (simp add: repr_table_def same_fields_def)
  have same: "same_list L t ?L ?t" by (simp add: same_list_def)
  show ?thesis
  proof (cases "pb_count ?bk + 1 \<ge> (pb_mult ?bk + 1) * 10 \<and> \<not> tb_noexpand t")
    case True
    have "expand_rel ?L ?t ?ys (EXPAND_BUCKETS_hh ?L ?t h) (HASH_EXPAND_BUCKETS ?T h)" using expand_sim [OF rep assms(4)] assms(5) by simp
    moreover have "same_list ?L ?t L' t' \<Longrightarrow> same_list L t L' t'" for L' t' using same by (simp add: same_list_def)
    ultimately have "expand_rel L t ?ys (EXPAND_BUCKETS_hh ?L ?t h) (HASH_EXPAND_BUCKETS ?T h)"
      unfolding expand_rel_def by (auto elim!: option.rel_mono_strong)
    then show ?thesis using True c R(2) by (simp add: ADD_TO_BKT_hh_def HASH_ADD_TO_BKT_def Let_def same_fields_def)
  next
    case False
    then show ?thesis using rep same c R(2) by (auto simp: ADD_TO_BKT_hh_def HASH_ADD_TO_BKT_def Let_def expand_rel_def same_fields_def)
  qed
qed

definition refines :: "links \<Rightarrow> uhash \<Rightarrow> u32 uthash \<Rightarrow> bool" where
  "refines L head D \<longleftrightarrow>
     (case head of None \<Rightarrow> D = None
      | Some (el, t) \<Rightarrow> \<exists>xs T. D = Some T \<and> app_ok L el t xs \<and> repr_table L t xs T)"

lemma chain_addrs_append: "\<forall>b\<in>set bs. \<forall>i\<in>set (hh_chain b). i < length xs \<Longrightarrow> chain_addrs (xs @ ys) bs = chain_addrs xs bs"
  by (auto simp: chain_addrs_def nth_append)

lemma chain_addrs_subset: "\<forall>b\<in>set bs. \<forall>i\<in>set (hh_chain b). i < length xs \<Longrightarrow> set (concat (chain_addrs xs bs)) \<subseteq> set xs"
  by (auto simp: chain_addrs_def)

lemma refines_Some: "app_ok L el t xs \<Longrightarrow> repr_table L t xs T \<Longrightarrow> refines L (Some (el, t)) (Some T)"
  by (auto simp: refines_def)

text \<open>The last steps of adding, once \<open>x\<close> is at the end of the application order.\<close>

lemma add_to_table_sim:
  assumes "app_ok L el t (xs @ [x])" "hash_ok L t (chain_addrs xs (ut_buckets T))" "ut_items T = map (elem_at L) xs" "x \<notin> set xs"
    and "same_fields t T" "same_counts (tb_buckets t) (ut_buckets T)" "\<forall>b\<in>set (ut_buckets T). \<forall>i\<in>set (hh_chain b). i < length xs"
    and "heap_ok e h P" "tb_buckets_ptr t \<in> P" "T1 = T\<lparr>ut_items := ut_items T @ [elem_at L x], num_items := num_items T + 1\<rparr>"
  shows "rel_option (\<lambda>(L', head', h1) (D', h2). h1 = h2 \<and> refines L' head' D') (HASH_ADD_TO_TABLE (hashvs L x) x el L t h)
    (map_option (\<lambda>(t2, h2). (Some t2, h2)) (HASH_ADD_TO_BKT (HASH_TO_BKT (hashvs L x) (num_buckets T1)) (length (ut_items T)) T1 h))"
proof -
  let ?t = "t\<lparr>tb_num_items := tb_num_items t + 1\<rparr>"
  have ch: "chain_addrs (xs @ [x]) (ut_buckets T1) = chain_addrs xs (ut_buckets T)" using chain_addrs_append [OF assms(7)] assms(10) by simp
  have x: "x \<noteq> 0" using assms(1) dseg_nonzero by (fastforce simp: app_ok_def)
  have "repr_table L ?t (xs @ [x]) T1" using assms ch by (auto simp: repr_table_def same_fields_def intro: less_SucI)
  moreover have "x \<notin> set (concat (chain_addrs (xs @ [x]) (ut_buckets T1)))" unfolding ch using chain_addrs_subset [OF assms(7)] assms(4) by blast
  ultimately have R: "expand_rel L ?t (xs @ [x]) (ADD_TO_BKT_hh (HASH_TO_BKT (hashvs L x) (tb_num_buckets t)) x L ?t h)
      (HASH_ADD_TO_BKT (HASH_TO_BKT (hashvs L x) (tb_num_buckets t)) (length xs) T1 h)"
    using add_to_bkt_sim [of L ?t xs x T1 e h P] x assms(8,9) by simp
  have eq: "num_buckets T1 = tb_num_buckets t" "length (ut_items T) = length xs" using assms(3,5,10) by (simp_all add: same_fields_def)
  have app: "app_ok L' el t' (xs @ [x])" if "same_list L ?t L' t'" for L' t' using app_ok_same [OF that] assms(1) by simp
  show ?thesis unfolding HASH_ADD_TO_TABLE_def eq option.rel_map
    by (rule option.rel_mono_strong [OF R [unfolded expand_rel_def]]) (use app in \<open>auto intro: refines_Some\<close>)
qed

lemma add_first_sim:
  assumes "heap_ok e h P" "x \<noteq> 0"
  shows "rel_option (\<lambda>(L', head', h1) (D', h2). h1 = h2 \<and> refines L' head' D') (HASH_ADD_KEYPTR key x L None h) (HASH_ADD_STR None key x h)"
proof (cases "MAKE_TABLE_hh x h")
  case None
  then have "HASH_MAKE_TABLE h = (None :: (u32 ut_table \<times> heap) option)" by (auto simp: MAKE_TABLE_hh_def HASH_MAKE_TABLE_def split: option.splits if_splits)
  then show ?thesis using None by (simp add: HASH_ADD_KEYPTR_def HASH_ADD_KEYPTR_BYHASHVALUE_def add_first_def HASH_ADD_STR_def Let_def)
next
  case (Some r)
  obtain t h1 where m: "MAKE_TABLE_hh x h = Some (t, h1)" using Some by (metis prod.exhaust)
  obtain T where M: "HASH_MAKE_TABLE h = Some (T :: u32 ut_table, h1)" "ut_items T = []" "ut_buckets T = replicate 32 empty_bucket" "same_fields t T"
    using m by (auto simp: MAKE_TABLE_hh_def HASH_MAKE_TABLE_def same_fields_def split: option.splits if_splits)
  note t = make_table_hh_ok [OF assms(1) m]
  let ?L = "set_prev x 0 (set_next x 0 (set_key x key (HASH_JEN key) L))"
  let ?T = "T\<lparr>ut_items := ut_items T @ [elem_at ?L x], num_items := num_items T + 1\<rparr>"
  have "app_ok ?L x t ([] @ [x])" using assms(2) t(3) by (simp add: app_ok_def)
  moreover have "chain_addrs [] (ut_buckets T) = replicate 32 []" using M(3) by (simp add: chain_addrs_def empty_bucket_def)
  then have "hash_ok ?L t (chain_addrs [] (ut_buckets T))" using t(1) by simp
  moreover have "same_counts (tb_buckets t) (ut_buckets T)" using M(3) t(8) by (simp add: same_counts_def zero_bucket_def empty_bucket_def list_all2_conv_all_nth)
  ultimately have "rel_option (\<lambda>(L', head', h1) (D', h2). h1 = h2 \<and> refines L' head' D') (HASH_ADD_TO_TABLE (hashvs ?L x) x x ?L t h1)
    (map_option (\<lambda>(t2, h2). (Some t2, h2)) (HASH_ADD_TO_BKT (HASH_TO_BKT (hashvs ?L x) (num_buckets ?T)) (length (ut_items T)) ?T h1))"
    using M t(7) by (intro add_to_table_sim [where P = "insert (tb_addr t) (insert (tb_buckets_ptr t) P)"]) (auto simp: empty_bucket_def)
  then show ?thesis using m M(1)
    by (simp add: HASH_ADD_KEYPTR_def HASH_ADD_KEYPTR_BYHASHVALUE_def add_first_def HASH_ADD_STR_def Let_def elem_at_def)
qed

lemma add_sim:
  assumes "refines L head D" "heap_ok e h P" "\<forall>el t. head = Some (el, t) \<longrightarrow> tb_buckets_ptr t \<in> P" "x \<notin> snd ` set (HASH_ITER D)" "x \<noteq> 0"
  shows "rel_option (\<lambda>(L', head', h1) (D', h2). h1 = h2 \<and> refines L' head' D') (HASH_ADD_KEYPTR key x L head h) (HASH_ADD_STR D key x h)"
proof (cases head)
  case None
  then have "D = None" using assms(1) by (simp add: refines_def)
  then show ?thesis using None add_first_sim [OF assms(2,5)] by simp
next
  case (Some w)
  obtain el t where w: "head = Some (el, t)" using Some by (metis prod.exhaust)
  obtain xs T where D: "D = Some T" "app_ok L el t xs" "repr_table L t xs T" using assms(1) w by (auto simp: refines_def)
  have R: "ut_items T = map (elem_at L) xs" "same_fields t T" "same_counts (tb_buckets t) (ut_buckets T)" "hash_ok L t (chain_addrs xs (ut_buckets T))"
    "\<forall>b\<in>set (ut_buckets T). \<forall>i\<in>set (hh_chain b). i < length xs" using D(3) by (auto simp: repr_table_def)
  have x: "x \<notin> set xs" using assms(4) D(1) R(1) by (auto simp: HASH_ITER_def elem_at_def image_iff)
  let ?K = "set_key x key (HASH_JEN key) L" let ?L = "fst (HASH_APPEND_LIST x ?K t)" let ?t = "snd (HASH_APPEND_LIST x ?K t)"
  let ?T = "T\<lparr>ut_items := ut_items T @ [elem_at ?L x], num_items := num_items T + 1\<rparr>"
  have "app_ok ?K el t xs" using D(2) by (simp add: app_ok_key)
  note a = append_list_ok [OF this x assms(5)]
  have k: "keys_of ?L = (keys_of L)(x := key)" "hashvs ?L = (hashvs L)(x := HASH_JEN key)" "hh_nexts ?L = hh_nexts L" "hh_prevs ?L = hh_prevs L"
    using a(2) by (simp_all add: same_buckets_def)
  have t: "?t = t\<lparr>tb_tail := x\<rparr>" by (simp add: HASH_APPEND_LIST_def)
  have "y \<in> set (concat (chain_addrs xs (ut_buckets T))) \<Longrightarrow> y \<noteq> x" for y using chain_addrs_subset [OF R(5)] x by auto
  then have "hash_ok ?L ?t (chain_addrs xs (ut_buckets T)) = hash_ok L t (chain_addrs xs (ut_buckets T))" using k t by (intro hash_ok_cong) auto
  moreover have "ut_items T = map (elem_at ?L) xs" using R(1) k x by (auto simp: elem_at_def)
  ultimately have "rel_option (\<lambda>(L', head', h1) (D', h2). h1 = h2 \<and> refines L' head' D') (HASH_ADD_TO_TABLE (hashvs ?L x) x el ?L ?t h)
    (map_option (\<lambda>(t2, h2). (Some t2, h2)) (HASH_ADD_TO_BKT (HASH_TO_BKT (hashvs ?L x) (num_buckets ?T)) (length (ut_items T)) ?T h))"
    using a(1) R x t assms(2,3) w by (intro add_to_table_sim) (auto simp: same_fields_def)
  then show ?thesis using w D(1) k
    by (simp add: HASH_ADD_KEYPTR_def HASH_ADD_KEYPTR_BYHASHVALUE_def HASH_ADD_STR_def Let_def elem_at_def split_def)
qed


section \<open>Searching and iterating\<close>

text \<open>The elements that \<^verbatim>\<open>HASH_ITER\<close> visits.\<close>

partial_function (option) HASH_ITER_hh :: "links \<Rightarrow> u32 \<Rightarrow> u32 list option" where
  "HASH_ITER_hh L el = (if el = 0 then Some [] else Option.bind (HASH_ITER_hh L (nexts L el)) (\<lambda>xs. Some (el # xs)))"

lemma iter_path: "path (nexts L) p xs \<Longrightarrow> HASH_ITER_hh L p = Some xs"
  by (induction xs arbitrary: p) (auto simp: HASH_ITER_hh.simps)

lemma iter_sim:
  assumes "refines L head D"
  shows "HASH_ITER_hh L (case head of None \<Rightarrow> 0 | Some (el, t) \<Rightarrow> el) = Some (map snd (HASH_ITER D))"
proof (cases head)
  case None
  then show ?thesis using assms by (simp add: refines_def HASH_ITER_def HASH_ITER_hh.simps)
next
  case (Some w)
  obtain el t where w: "head = Some (el, t)" using Some by (metis prod.exhaust)
  obtain xs T where D: "D = Some T" "app_ok L el t xs" "repr_table L t xs T" using assms w by (auto simp: refines_def)
  have "map snd (HASH_ITER D) = xs" using D(1,3) by (simp add: HASH_ITER_def repr_table_def elem_at_def comp_def)
  moreover have "path (nexts L) el xs" using D(2) dseg_path by (auto simp: app_ok_def)
  ultimately show ?thesis using w iter_path by simp
qed

lemma find_bkt_sim:
  "path (hh_nexts L) p (map ((!) xs) is) \<Longrightarrow> \<forall>i\<in>set is. i < length xs \<Longrightarrow>
     FIND_IN_BKT_hh L key hv p = Some (case HASH_FIND_IN_BKT (map (elem_at L) xs) is key hv of None \<Rightarrow> 0 | Some i \<Rightarrow> xs ! i)"
  by (induction "is" arbitrary: p) (auto simp: FIND_IN_BKT_hh.simps elem_at_def)

lemma find_sim:
  assumes "refines L head D"
  shows "HASH_FIND L head key = Some (case HASH_FIND_STR D key of None \<Rightarrow> 0 | Some i \<Rightarrow> ut_value D i)"
proof (cases head)
  case None
  then show ?thesis using assms by (simp add: refines_def HASH_FIND_STR_def HASH_FIND_def)
next
  case (Some w)
  obtain el t where w: "head = Some (el, t)" using Some by (metis prod.exhaust)
  obtain xs T where D: "D = Some T" "repr_table L t xs T" using assms w by (auto simp: refines_def)
  have R: "ut_items T = map (elem_at L) xs" "same_fields t T" "hash_ok L t (chain_addrs xs (ut_buckets T))"
    "\<forall>b\<in>set (ut_buckets T). \<forall>i\<in>set (hh_chain b). i < length xs" using D(2) by (auto simp: repr_table_def)
  let ?b = "HASH_TO_BKT (HASH_JEN key) (tb_num_buckets t)" let ?c = "hh_chain (ut_buckets T ! ?b)"
  have b: "?b < length (ut_buckets T)" "?b < length (chain_addrs xs (ut_buckets T))" using hash_bkt [OF R(3)] by (simp_all add: chain_addrs_def)
  have "buckets_ok L (tb_buckets t) (chain_addrs xs (ut_buckets T))" using R(3) by (simp add: hash_ok_def)
  from buckets_nth(2) [OF this b(2)] have "path (hh_nexts L) (pb_head (tb_buckets t ! ?b)) (map ((!) xs) ?c)"
    using b by (intro dseg_path) (auto simp: chain_addrs_def)
  moreover have I: "\<forall>i\<in>set ?c. i < length xs" using R(4) nth_mem [OF b(1)] by blast
  ultimately have "HASH_FIND L head key = Some (case HASH_FIND_IN_BKT (ut_items T) ?c key (HASH_JEN key) of None \<Rightarrow> 0 | Some i \<Rightarrow> xs ! i)"
    using find_bkt_sim w R(1) by (simp add: HASH_FIND_def HASH_FIND_BYHASHVALUE_def)
  moreover have "HASH_FIND_STR D key = HASH_FIND_IN_BKT (ut_items T) ?c key (HASH_JEN key)" using D(1) R(2) by (simp add: HASH_FIND_STR_def Let_def same_fields_def)
  moreover have "ut_value D i = xs ! i" if "HASH_FIND_IN_BKT (ut_items T) ?c key (HASH_JEN key) = Some i" for i
    using find_in_bkt_Some [OF that] I D(1) R(1) by (auto simp: ut_value_def elem_at_def)
  ultimately show ?thesis by (auto split: option.splits)
qed

end
