(* ===== verification/Uthash_Props.thy ===== *)
theory Uthash_Props
  imports Uthash_Sort Uthash_Hash Uthash_Refine
begin

text \<open>
  The correctness of the hash table macros on pointers: adding refines the table that the kernel's environment and command registry are modelled
  on; deleting takes one element out of both lists and gives the table back with the last one; sorting is the stable sort of the application
  order; the integrity check is exact; and what selecting elements into another hash leaves behind.
\<close>

section \<open>A hash of two elements\<close>

lemma make_returns:
  assumes "heap_ok e h P" "avail n h" "1000 \<le> n"
  shows "\<exists>t h'. MAKE_TABLE_hh x h = Some (t, h') \<and> \<not> tb_noexpand t \<and> avail (n - 448) h'"
proof -
  have r: "unat (req_size sizeof_ut_table) = 48" "unat (req_size (32 * sizeof_ut_bucket)) = 384"
    by (simp_all add: sizeof_ut_table_def sizeof_ut_bucket_def req_size_def ALIGN_UP_def)
  obtain p h1 where p: "malloc sizeof_ut_table h = Some (p, h1)" "p \<noteq> 0" "avail (n - 56) h1"
    using malloc_avail [OF assms(1,2), of sizeof_ut_table] assms(3) r by (auto simp: sizeof_ut_table_def)
  have "heap_ok e h1 (insert p P)" using km.alloc_fresh [OF assms(1) p(1,2)] by simp
  then obtain q h2 where "malloc (32 * sizeof_ut_bucket) h1 = Some (q, h2)" "q \<noteq> 0" "avail (n - 56 - 384 - 8) h2"
    using malloc_avail [OF _ p(3), of e "insert p P" "32 * sizeof_ut_bucket"] assms(3) r by (fastforce simp: sizeof_ut_bucket_def)
  then show ?thesis using p by (simp add: MAKE_TABLE_hh_def)
qed

lemma demo_avail: "avail 10000 demo_heap"
  using malloc_init_avail [of "0x200000" 32] by (auto simp: demo_heap_def intro: avail_mono)

lemma demo_keys: "ut_sep {''a'', ''bc''}"
  by (auto simp: ut_sep_def)

lemma demo_one:
  obtains L t h where "HASH_ADD_KEYPTR ''a'' 0x3000 (\<lambda>_. \<lparr>hd_prev = 0, hd_next = 0, hh_prev = 0, hh_next = 0, hk_key = [], hk_hashv = 0\<rparr>) None demo_heap =
      Some (L, Some (0x3000, t), h)" "dict_repr {''a'', ''bc''} 0x200000 h {} L (Some (0x3000, t)) [0x3000]" "keys_of L 0x3000 = ''a''"
    "\<forall>k<32. tb_buckets t ! k = zero_bucket \<or> tb_buckets t ! k = \<lparr>pb_head = 0x3000, pb_count = 1, pb_mult = 0\<rparr>" "tb_num_buckets t = 32" "\<not> tb_noexpand t"
proof -
  let ?L = "\<lambda>_. \<lparr>hd_prev = 0, hd_next = 0, hh_prev = 0, hh_next = 0, hk_key = [], hk_hashv = 0\<rparr>"
  obtain t0 h where m: "MAKE_TABLE_hh 0x3000 demo_heap = Some (t0, h)" "\<not> tb_noexpand t0" using make_returns [OF demo_heap_ok demo_avail] by fastforce
  note t0 = make_table_hh_ok [OF demo_heap_ok m(1)]
  let ?b = "HASH_TO_BKT (HASH_JEN ''a'') 32"
  have b: "?b < 32" using HASH_TO_BKT_less [of 32 "HASH_JEN ''a''"] by simp
  obtain L t where r: "HASH_ADD_KEYPTR ''a'' 0x3000 ?L None demo_heap = Some (L, Some (0x3000, t), h)"
    "tb_buckets t = (replicate 32 zero_bucket)[?b := \<lparr>pb_head = 0x3000, pb_count = 1, pb_mult = 0\<rparr>]" "tb_num_buckets t = 32" "\<not> tb_noexpand t"
    using m t0(8,9) b by (simp add: HASH_ADD_KEYPTR_def HASH_ADD_KEYPTR_BYHASHVALUE_def add_first_def HASH_ADD_TO_TABLE_def ADD_TO_BKT_hh_def Let_def
        zero_bucket_def word_le_nat_alt)
  have e: "dict_repr {''a'', ''bc''} 0x200000 demo_heap {} ?L None []" using demo_keys demo_heap_ok by (simp add: dict_repr_def hash_repr_def)
  have "add_post 0x200000 {} ?L None demo_heap ''a'' (HASH_JEN ''a'') 0x3000 [0x3000] (Some (L, Some (0x3000, t), h))"
    using add_ok [of "0x200000" demo_heap "{}" ?L None "[]" "0x3000" "''a''" "HASH_JEN ''a''"] e r(1) by (simp add: dict_repr_def HASH_ADD_KEYPTR_def)
  then have "dict_repr {''a'', ''bc''} 0x200000 h {} L (Some (0x3000, t)) [0x3000]" "keys_of L 0x3000 = ''a''"
    using add_dict [OF e, of "''a''" "[0x3000]" "0x3000" L "Some (0x3000, t)" h] by (auto simp: add_post_def hash_map_def)
  moreover have "\<forall>k<32. tb_buckets t ! k = zero_bucket \<or> tb_buckets t ! k = \<lparr>pb_head = 0x3000, pb_count = 1, pb_mult = 0\<rparr>"
    using r(2) b by (auto simp: nth_list_update)
  ultimately show thesis using that r by blast
qed

lemma demo_two:
  obtains L el t h where "dict_repr {''a'', ''bc''} 0x200000 h {} L (Some (el, t)) [0x3000, 0x4000]" "keys_of L 0x3000 = ''a''" "keys_of L 0x4000 = ''bc''"
proof -
  obtain L1 t1 h1 where o: "dict_repr {''a'', ''bc''} 0x200000 h1 {} L1 (Some (0x3000, t1)) [0x3000]" "keys_of L1 0x3000 = ''a''"
    "\<forall>k<32. tb_buckets t1 ! k = zero_bucket \<or> tb_buckets t1 ! k = \<lparr>pb_head = 0x3000, pb_count = 1, pb_mult = 0\<rparr>" "tb_num_buckets t1 = 32" "\<not> tb_noexpand t1"
    by (rule demo_one)
  let ?b = "HASH_TO_BKT (HASH_JEN ''bc'') 32"
  have "?b < 32" using HASH_TO_BKT_less [of 32 "HASH_JEN ''bc''"] by simp
  then have "tb_buckets t1 ! ?b = zero_bucket \<or> tb_buckets t1 ! ?b = \<lparr>pb_head = 0x3000, pb_count = 1, pb_mult = 0\<rparr>" using o(3) by blast
  then have "\<not> pb_count (tb_buckets t1 ! ?b) + 1 \<ge> (pb_mult (tb_buckets t1 ! ?b) + 1) * 10" by (auto simp: zero_bucket_def word_le_nat_alt)
  then obtain L el t h where r: "HASH_ADD_KEYPTR ''bc'' 0x4000 L1 (Some (0x3000, t1)) h1 = Some (L, Some (el, t), h)"
    using o(4) by (auto simp: HASH_ADD_KEYPTR_def HASH_ADD_KEYPTR_BYHASHVALUE_def HASH_APPEND_LIST_def HASH_ADD_TO_TABLE_def ADD_TO_BKT_hh_def Let_def)
  have "add_post 0x200000 {} L1 (Some (0x3000, t1)) h1 ''bc'' (HASH_JEN ''bc'') 0x4000 ([0x3000] @ [0x4000]) (Some (L, Some (el, t), h))"
    using add_ok [of "0x200000" h1 "{}" L1 "Some (0x3000, t1)" "[0x3000]" "0x4000" "''bc''" "HASH_JEN ''bc''"] o(1) r by (simp add: dict_repr_def HASH_ADD_KEYPTR_def)
  then have "dict_repr {''a'', ''bc''} 0x200000 h {} L (Some (el, t)) [0x3000, 0x4000]" "keys_of L 0x3000 = ''a''" "keys_of L 0x4000 = ''bc''"
    using add_dict [OF o(1), of "''bc''" "[0x3000, 0x4000]" "0x4000" L "Some (el, t)" h] o(2) by (auto simp: add_post_def hash_map_def)
  then show thesis by (rule that)
qed


section \<open>Properties\<close>

text \<open>C16. Adding an element to a linked hash refines \<^verbatim>\<open>HASH_ADD_STR\<close> on the table of positions and buckets: when the links represent the table \<open>D\<close>
  and \<open>x\<close> is the address of a new element, both operations return or neither does, the heap is the same afterwards, and the new links
  represent the new table, also when the buckets are doubled and every handle is relinked.\<close>

theorem uthash_add_refines:
  assumes "refines L head D" "heap_ok e h P" "\<forall>el t. head = Some (el, t) \<longrightarrow> tb_buckets_ptr t \<in> P" "x \<notin> snd ` set (HASH_ITER D)" "x \<noteq> 0"
  shows "rel_option (\<lambda>(L', head', h1) (D', h2). h1 = h2 \<and> refines L' head' D') (HASH_ADD_KEYPTR key x L head h) (HASH_ADD_STR D key x h)"
  by (rule add_sim [OF assms])

theorem uthash_add_refines_witness:
  "\<exists>L head h D. HASH_ADD_STR None ''a'' 0x3000 demo_heap = Some (Some D, h) \<and> refines L head (Some D) \<and>
     rel_option (\<lambda>(L', head', h1) (D', h2). h1 = h2 \<and> refines L' head' D') (HASH_ADD_KEYPTR ''bc'' 0x4000 L head h) (HASH_ADD_STR (Some D) ''bc'' 0x4000 h)"
proof -
  let ?L = "\<lambda>_. \<lparr>hd_prev = 0, hd_next = 0, hh_prev = 0, hh_next = 0, hk_key = [], hk_hashv = 0\<rparr>"
  obtain L t h where o: "HASH_ADD_KEYPTR ''a'' 0x3000 ?L None demo_heap = Some (L, Some (0x3000, t), h)"
    "dict_repr {''a'', ''bc''} 0x200000 h {} L (Some (0x3000, t)) [0x3000]" by (rule demo_one)
  have "refines ?L None None" by (simp add: refines_def)
  from uthash_add_refines [OF this demo_heap_ok, of "0x3000" "''a''"] o(1)
  obtain D0 where "HASH_ADD_STR None ''a'' 0x3000 demo_heap = Some (D0, h)" "refines L (Some (0x3000, t)) D0"
    by (auto simp: HASH_ITER_def option_rel_Some1)
  then obtain D where D: "HASH_ADD_STR None ''a'' 0x3000 demo_heap = Some (Some D, h)" "refines L (Some (0x3000, t)) (Some D)"
    by (cases D0) (auto simp: refines_def)
  have h: "heap_ok 0x200000 h {tb_addr t, tb_buckets_ptr t}" using o(2) by (auto simp: dict_repr_def hash_repr_def)
  have i: "HASH_ITER (Some D) = [(''a'', 0x3000)]"
    using add_spec [of "None :: u32 uthash" "0x200000" demo_heap "{}" "''a''" "0x3000"] demo_heap_ok D(1) by (simp add: uth_ok_def ut_owns_def HASH_ITER_def)
  then show ?thesis using D uthash_add_refines [OF D(2) h, of "0x4000" "''bc''"] by (intro exI [of _ L] exI [of _ "Some (0x3000, t)"] exI [of _ h] exI [of _ D]) simp
qed

text \<open>C18. Deleting an element of a linked hash takes exactly this element out of the application order and its key out of the map, whatever its
  place in the two lists, and keeps the invariant; the deletion of the last element gives the bucket array and the table back to the heap.\<close>

theorem uthash_delete_correct:
  assumes "dict_repr K e h Q L (Some (el, t)) xs" "x \<in> set xs" "HASH_DELETE_HH x L el t h = (L', head', h')"
  shows "dict_repr K e h' Q L' head' (remove1 x xs) \<and> hash_map L' (remove1 x xs) = (hash_map L xs)(keys_of L x := None) \<and>
    (if xs = [x] then head' = None \<and> heap_ok e h' Q else head' \<noteq> None \<and> h' = h)"
proof -
  have r: "hash_repr e h Q L (Some (el, t)) xs" using assms(1) by (simp add: dict_repr_def)
  have "h' = h" if "head' \<noteq> None" using assms(3) that by (auto simp: HASH_DELETE_HH_def Let_def split: if_splits prod.splits)
  moreover have "heap_ok e h' Q" if "xs = [x]" using delete_only [of e h Q L el t x] r that assms(3) by simp
  ultimately show ?thesis using delete_dict [OF assms] delete_ok [OF r assms(2,3)] by auto
qed

theorem uthash_delete_correct_witness:
  "\<exists>L el t h L' head' h'. dict_repr {''a'', ''bc''} 0x200000 h {} L (Some (el, t)) [0x3000, 0x4000] \<and>
     HASH_DELETE_HH 0x4000 L el t h = (L', head', h') \<and> dict_repr {''a'', ''bc''} 0x200000 h {} L' head' [0x3000] \<and>
     hash_map L' [0x3000] = (hash_map L [0x3000, 0x4000])(''bc'' := None)"
proof -
  obtain L el t h where d: "dict_repr {''a'', ''bc''} 0x200000 h {} L (Some (el, t)) [0x3000, 0x4000]" "keys_of L 0x4000 = ''bc''" by (rule demo_two)
  obtain L' head' h' where "HASH_DELETE_HH 0x4000 L el t h = (L', head', h')" by (metis prod_cases3)
  then show ?thesis using d uthash_delete_correct [OF d(1), of "0x4000" L' head' h'] by (intro exI [of _ L] exI [of _ el] exI [of _ t]) auto
qed

text \<open>C17. \<^verbatim>\<open>HASH_SRT\<close> returns on every linked hash of at most \<open>2 ^ 31\<close> elements, and the new application order is the stable sort of the old one by
  the key \<open>f\<close> that the comparison function compares; the buckets, keys and hash values are as before.\<close>

theorem uthash_sort_stable:
  assumes "hash_repr e h Q L head xs" "compares cmp f" "length xs \<le> 2 ^ 31"
  shows "\<exists>L' head'. HASH_SRT cmp L head = Some (L', head') \<and> hash_repr e h Q L' head' (sort_key f xs) \<and> same_buckets L L'"
  by (rule srt_ok [OF assms])

theorem uthash_sort_stable_witness:
  "\<exists>L head h L' head'. hash_repr 0x200000 h {} L head [0x3000, 0x4000] \<and> HASH_SRT (\<lambda>a b. uint b - uint a) L head = Some (L', head') \<and>
     hash_repr 0x200000 h {} L' head' [0x4000, 0x3000]"
proof -
  obtain L el t h where d: "dict_repr {''a'', ''bc''} 0x200000 h {} L (Some (el, t)) [0x3000, 0x4000]" by (rule demo_two)
  then have r: "hash_repr 0x200000 h {} L (Some (el, t)) [0x3000, 0x4000]" by (simp add: dict_repr_def)
  have c: "compares (\<lambda>a b. uint b - uint a) (\<lambda>a. - uint a)" by (auto simp: compares_def)
  have "sort_key (\<lambda>a. - uint a) [0x3000, 0x4000 :: u32] = [0x4000, 0x3000]" by simp
  then obtain L' head' where "HASH_SRT (\<lambda>a b. uint b - uint a) L (Some (el, t)) = Some (L', head')" "hash_repr 0x200000 h {} L' head' [0x4000, 0x3000]"
    using uthash_sort_stable [OF r c] by auto
  then show ?thesis using r by blast
qed

text \<open>C19. \<^verbatim>\<open>HASH_FSCK\<close> returns and reports nothing exactly when both families of lists are well formed: the application order from the head is a
  doubly linked list of as many elements as the table counts, every bucket is a doubly linked chain of its count, and the chains together have
  as many elements.\<close>

theorem uthash_fsck_exact:
  assumes "length (tb_buckets t) = unat (tb_num_buckets t)"
  shows "HASH_FSCK L (Some (el, t)) = Some None \<longleftrightarrow>
    (\<exists>xs cs. dseg (nexts L) (prevs L) 0 el xs 0 \<and> tb_num_items t = of_nat (length xs) \<and>
       list_all2 (chain_of L) (tb_buckets t) cs \<and> tb_num_items t = of_nat (length (concat cs)))"
  by (rule fsck_iff [OF assms])

theorem uthash_fsck_exact_witness:
  "\<exists>L el t. length (tb_buckets t) = unat (tb_num_buckets t) \<and> HASH_FSCK L (Some (el, t)) = Some None \<and>
     (\<exists>xs cs. dseg (nexts L) (prevs L) 0 el xs 0 \<and> tb_num_items t = of_nat (length xs) \<and>
       list_all2 (chain_of L) (tb_buckets t) cs \<and> tb_num_items t = of_nat (length (concat cs)))"
proof -
  obtain L el t h where d: "dict_repr {''a'', ''bc''} 0x200000 h {} L (Some (el, t)) [0x3000, 0x4000]" by (rule demo_two)
  then have r: "hash_repr 0x200000 h {} L (Some (el, t)) [0x3000, 0x4000]" by (simp add: dict_repr_def)
  then have l: "length (tb_buckets t) = unat (tb_num_buckets t)" by (fastforce simp: hash_repr_def linked_def hash_ok_def buckets_ok_def dest!: list_all2_lengthD)
  show ?thesis using l repr_fsck [OF r] uthash_fsck_exact [OF l, of L el] by blast
qed

text \<open>The element added behind a tail pointer that is the first element: the rest of adding does not touch the application order.\<close>

lemma add_behind_first:
  assumes "hash_repr e h Q L (Some (el, t\<lparr>tb_tail := v\<rparr>)) (y # ys)" "tb_tail t = y" "x \<notin> set (y # ys)" "x \<noteq> 0"
    and "HASH_ADD_KEYPTR_BYHASHVALUE key hv x L (Some (el, t)) h = Some (L', head', h')"
  shows "\<exists>t'. head' = Some (y, t') \<and> HASH_ITER_hh L' y = Some [y, x] \<and> tb_num_items t' = of_nat (length ys + 2)"
proof -
  let ?K = "set_key x key hv L" let ?L = "fst (HASH_APPEND_LIST x ?K t)" let ?t = "t\<lparr>tb_tail := x, tb_num_items := tb_num_items t + 1\<rparr>"
  obtain cs where c: "app_ok L el (t\<lparr>tb_tail := v\<rparr>) (y # ys)" "hash_ok L t cs" "set (concat cs) = set (y # ys)" "tb_num_items t = of_nat (length (y # ys))"
    and h: "heap_ok e h (insert (tb_addr t) (insert (tb_buckets_ptr t) Q))" using assms(1) by (auto simp: hash_repr_def linked_def)
  have el: "el = y" using c(1) by (simp add: app_ok_def)
  have "app_ok ?K el (t\<lparr>tb_tail := v\<rparr>) (y # ys)" using c(1) by (simp add: app_ok_key)
  note p = append_behind_first [OF this assms(2-4)]
  have k: "hashvs ?L = (hashvs L)(x := hv)" "hh_nexts ?L = hh_nexts L" "hh_prevs ?L = hh_prevs L" by (simp_all add: HASH_APPEND_LIST_def)
  have xc: "x \<notin> set (concat cs)" using c(3) assms(3) by simp
  then have "hash_ok ?L ?t cs = hash_ok L t cs" using k by (intro hash_ok_cong) auto
  then have ok: "hash_ok ?L ?t cs" using c(2) by blast
  obtain t' where r: "ADD_TO_BKT_hh (HASH_TO_BKT (hashvs ?L x) (tb_num_buckets ?t)) x ?L ?t h = Some (L', t', h')" "head' = Some (el, t')"
    using assms(5) k by (auto simp: HASH_ADD_KEYPTR_BYHASHVALUE_def HASH_ADD_TO_TABLE_def HASH_APPEND_LIST_def split_def Let_def)
  have "same_list ?L ?t L' t'" using add_to_bkt_hh_ok [OF ok xc assms(4), of e h] h r(1) by auto
  then show ?thesis using p r(2) el c(4) iter_path [of L' y "[y, x]"] by (simp add: same_list_def)
qed

text \<open>C20. \<^verbatim>\<open>HASH_SELECT\<close> into an empty hash collects exactly the elements that satisfy the condition, linked and counted, but leaves the tail pointer of
  the new hash at the first of them: the next element that is added is linked behind the first one, so that an iteration sees these two
  elements only, whatever else was selected, while the count is that of all of them.\<close>

theorem uthash_select_tail:
  assumes "hash_repr e h Q Ls (Some (el, t)) xs" "HASH_SELECT cond Ls (Some (el, t)) L None h = Some (L', dst, h')"
  shows "\<exists>ys. mset ys = mset (filter cond xs) \<and>
    (case dst of None \<Rightarrow> ys = []
     | Some (y, t') \<Rightarrow> HASH_ITER_hh L' y = Some ys \<and> tb_num_items t' = of_nat (length ys) \<and>
         (\<forall>key hv x L2 head2 h2. x \<notin> set ys \<longrightarrow> x \<noteq> 0 \<longrightarrow> HASH_ADD_KEYPTR_BYHASHVALUE key hv x L' dst h' = Some (L2, head2, h2) \<longrightarrow>
            (\<exists>t2. head2 = Some (y, t2) \<and> HASH_ITER_hh L2 y = Some [y, x] \<and> tb_num_items t2 = of_nat (length ys + 1))))"
proof -
  obtain cs where lk: "linked Ls el t xs cs" and hp: "heap_ok e h (insert (tb_addr t) (insert (tb_buckets_ptr t) Q))" using assms(1) by (auto simp: hash_repr_def)
  let ?P = "insert (tb_addr t) (insert (tb_buckets_ptr t) Q)" and ?ys = "filter cond (concat cs)"
  have B: "buckets_ok Ls (tb_buckets t) cs" "set (concat cs) = set xs" "distinct xs" using lk by (auto simp: linked_def hash_ok_def app_ok_def)
  have d: "distinct (concat cs)" using B(1) by (simp add: buckets_ok_def)
  then have M: "mset ?ys = mset (filter cond xs)" using B(2,3) by (metis distinct_filter set_eq_iff_mset_eq_distinct set_filter)
  have "list_all2 (\<lambda>bk. path (hh_nexts Ls) (pb_head bk)) (tb_buckets t) cs"
    using B(1) by (auto simp: buckets_ok_def list_all2_conv_all_nth intro: dseg_path)
  moreover obtain lst where s: "select_buckets cond Ls (tb_buckets t) (L, None, h, 0) = Some (L', dst, h', lst)"
    using assms(2) by (auto simp: HASH_SELECT_def)
  moreover have "selected e ?P Ls [] (L, None, h, 0)" using hp by (simp add: selected_def)
  ultimately have S: "selected e ?P Ls ?ys (L', dst, h', lst)" using select_buckets_ok [of Ls "tb_buckets t" cs "[]"] d by fastforce
  show ?thesis
  proof (cases dst)
    case None
    then show ?thesis using S M by (intro exI [of _ ?ys]) (simp add: selected_def)
  next
    case (Some w)
    obtain y t' where w: "dst = Some (y, t')" using Some by (metis prod.exhaust)
    have r: "hash_repr e h' ?P L' (Some (y, t'\<lparr>tb_tail := lst\<rparr>)) ?ys" "tb_tail t' = hd ?ys" using S w by (auto simp: selected_def)
    then have a: "dseg (nexts L') (prevs L') 0 y ?ys 0" "?ys \<noteq> []" "tb_num_items t' = of_nat (length ?ys)" by (auto simp: hash_repr_def linked_def app_ok_def)
    then obtain zs where z: "?ys = y # zs" by (cases ?ys) auto
    have "\<exists>t2. head2 = Some (y, t2) \<and> HASH_ITER_hh L2 y = Some [y, x] \<and> tb_num_items t2 = of_nat (length ?ys + 1)"
      if "x \<notin> set ?ys" "x \<noteq> 0" "HASH_ADD_KEYPTR_BYHASHVALUE key hv x L' dst h' = Some (L2, head2, h2)" for key hv x L2 head2 h2
      using add_behind_first [where e = e and Q = ?P and el = y and y = y and ys = zs and t = t' and v = lst and L = L' and h = h'] r that w z by simp
    then show ?thesis using M a iter_path [OF dseg_path [OF a(1)]] w by (intro exI [of _ ?ys]) simp
  qed
qed

text \<open>Two elements of the first bucket, whose selection can be followed step by step.\<close>

definition pair_links :: links where
  "pair_links = (\<lambda>_. \<lparr>hd_prev = 0, hd_next = 0, hh_prev = 0, hh_next = 0, hk_key = [], hk_hashv = 0\<rparr>)
     (0x3000 := \<lparr>hd_prev = 0, hd_next = 0x4000, hh_prev = 0x4000, hh_next = 0, hk_key = ''a'', hk_hashv = 0\<rparr>,
      0x4000 := \<lparr>hd_prev = 0x3000, hd_next = 0, hh_prev = 0, hh_next = 0x3000, hk_key = ''bc'', hk_hashv = 0\<rparr>)"

lemma pair_repr:
  obtains t h where "hash_repr 0x200000 h {} pair_links (Some (0x3000, t)) [0x3000, 0x4000]" "avail 9000 h"
    "tb_buckets t = \<lparr>pb_head = 0x4000, pb_count = 2, pb_mult = 0\<rparr> # replicate 31 zero_bucket"
proof -
  obtain t0 h where m: "MAKE_TABLE_hh 0x3000 demo_heap = Some (t0, h)" "avail (10000 - 448) h" using make_returns [OF demo_heap_ok demo_avail] by fastforce
  note t0 = make_table_hh_ok [OF demo_heap_ok m(1)]
  let ?t = "t0\<lparr>tb_buckets := \<lparr>pb_head = 0x4000, pb_count = 2, pb_mult = 0\<rparr> # replicate 31 zero_bucket, tb_num_items := 2, tb_tail := 0x4000\<rparr>"
  let ?cs = "[0x4000, 0x3000] # replicate 31 []"
  have l: "nexts pair_links = (\<lambda>_. 0)(0x3000 := 0x4000)" "prevs pair_links = (\<lambda>_. 0)(0x4000 := 0x3000)"
    "hh_nexts pair_links = (\<lambda>_. 0)(0x4000 := 0x3000)" "hh_prevs pair_links = (\<lambda>_. 0)(0x3000 := 0x4000)" "hashvs pair_links = (\<lambda>_. 0)"
    by (auto simp: handle_defs pair_links_def fun_eq_iff)
  have "buckets_ok pair_links (tb_buckets ?t) ?cs" by (simp add: buckets_ok_def l zero_bucket_def list_all2_conv_all_nth nth_Cons')
  moreover have "placed pair_links 32 ?cs" by (auto simp: placed_def l HASH_TO_BKT_def nth_Cons' split: if_splits)
  ultimately have "hash_ok pair_links ?t ?cs" using t0(1,9) by (simp add: hash_ok_def)
  then have "linked pair_links 0x3000 ?t [0x3000, 0x4000] ?cs" by (auto simp: linked_def app_ok_def l)
  then have "hash_repr 0x200000 h {} pair_links (Some (0x3000, ?t)) [0x3000, 0x4000]" using t0 by (auto simp: hash_repr_def)
  then show thesis using that [of h ?t] avail_mono [OF m(2), of 9000] by simp
qed

lemma pair_select:
  assumes "heap_ok e h P" "avail 9000 h" "tb_buckets t = \<lparr>pb_head = 0x4000, pb_count = 2, pb_mult = 0\<rparr> # replicate 31 zero_bucket"
  shows "\<exists>L y t' h'. HASH_SELECT (\<lambda>_. True) pair_links (Some (0x3000, t)) pair_links None h = Some (L, Some (y, t'), h')"
proof -
  obtain t0 h1 where m: "MAKE_TABLE_hh 0x4000 h = Some (t0, h1)" "\<not> tb_noexpand t0" using make_returns [OF assms(1,2)] by fastforce
  note t0 = make_table_hh_ok(8,9) [OF assms(1) m(1)]
  have z: "select_buckets c Ls (replicate n zero_bucket) st = Some st" for c Ls n st
    by (induction n) (simp_all add: zero_bucket_def select_chain.simps)
  have l: "hh_nexts pair_links 0x4000 = 0x3000" "hh_nexts pair_links 0x3000 = 0" "hashvs pair_links x = 0" for x
    by (auto simp: handle_defs pair_links_def)
  show ?thesis using m t0 assms(3)
    by (simp add: HASH_SELECT_def select_chain.simps z [unfolded zero_bucket_def] l select_one_def ADD_TO_BKT_hh_def Let_def HASH_TO_BKT_def zero_bucket_def word_le_nat_alt)
qed

theorem uthash_select_tail_witness:
  "\<exists>h t L y t' h' ys. hash_repr 0x200000 h {} pair_links (Some (0x3000, t)) [0x3000, 0x4000] \<and>
     HASH_SELECT (\<lambda>_. True) pair_links (Some (0x3000, t)) pair_links None h = Some (L, Some (y, t'), h') \<and> mset ys = {#0x3000, 0x4000#} \<and>
     HASH_ITER_hh L y = Some ys \<and>
     (\<forall>key hv x L2 head2 h2. x \<notin> set ys \<longrightarrow> x \<noteq> 0 \<longrightarrow> HASH_ADD_KEYPTR_BYHASHVALUE key hv x L (Some (y, t')) h' = Some (L2, head2, h2) \<longrightarrow>
        HASH_ITER_hh L2 y = Some [y, x])"
proof -
  obtain t h where r: "hash_repr 0x200000 h {} pair_links (Some (0x3000, t)) [0x3000, 0x4000]" "avail 9000 h"
    "tb_buckets t = \<lparr>pb_head = 0x4000, pb_count = 2, pb_mult = 0\<rparr> # replicate 31 zero_bucket" by (rule pair_repr)
  have "heap_ok 0x200000 h {tb_addr t, tb_buckets_ptr t}" using r(1) by (auto simp: hash_repr_def)
  then obtain L y t' h' where s: "HASH_SELECT (\<lambda>_. True) pair_links (Some (0x3000, t)) pair_links None h = Some (L, Some (y, t'), h')"
    using pair_select r(2,3) by blast
  from uthash_select_tail [OF r(1) s] obtain ys where "mset ys = mset [0x3000, 0x4000 :: u32]" "HASH_ITER_hh L y = Some ys"
    "\<forall>key hv x L2 head2 h2. x \<notin> set ys \<longrightarrow> x \<noteq> 0 \<longrightarrow> HASH_ADD_KEYPTR_BYHASHVALUE key hv x L (Some (y, t')) h' = Some (L2, head2, h2) \<longrightarrow>
       HASH_ITER_hh L2 y = Some [y, x]" by fastforce
  then show ?thesis using r(1) s
    by (intro exI [of _ h] exI [of _ t] exI [of _ L] exI [of _ y] exI [of _ t'] exI [of _ h'] exI [of _ ys]) simp
qed


section \<open>Further operations\<close>

text \<open>Replacing answers the element that had the key, takes it out, also when it was the last one and the table goes with it, and adds the new one.\<close>

theorem uthash_replace_correct:
  assumes "dict_repr K e h Q L head xs" "key \<in> K" "x \<notin> set xs" "x \<noteq> 0" "HASH_REPLACE key x L head h = Some ((L', head', h'), r)"
  shows "r = (case hash_map L xs key of None \<Rightarrow> 0 | Some y \<Rightarrow> y) \<and> dict_repr K e h' Q L' head' (remove1 r xs @ [x]) \<and>
    hash_map L' (remove1 r xs @ [x]) = (hash_map L xs)(key \<mapsto> x)"
proof -
  have r: "r = (case hash_map L xs key of None \<Rightarrow> 0 | Some y \<Rightarrow> y)"
    and d: "(let (L', head', h') = delete_found r L head h in HASH_ADD_KEYPTR_BYHASHVALUE key (HASH_JEN key) x L' head' h') = Some (L', head', h')"
    using assms(5) find_dict [OF assms(1,2)] by (auto simp: HASH_REPLACE_def HASH_REPLACE_BYHASHVALUE_def split: prod.splits)
  have add: "add_post e Q L0 head0 h0 key (HASH_JEN key) x (remove1 r xs @ [x]) (HASH_ADD_KEYPTR_BYHASHVALUE key (HASH_JEN key) x L0 head0 h0)"
    if "dict_repr K e h0 Q L0 head0 (remove1 r xs)" for L0 head0 h0
    using that assms(3,4) by (intro add_ok) (auto simp: dict_repr_def dest: notin_set_remove1)
  note rep = replace_dict [OF assms(1-4) r, where ins = "\<lambda>ys. ys @ [x]"]
  have "mset (remove1 r xs @ [x]) = mset (x # remove1 r xs)" by simp
  then show ?thesis using r rep(1) [OF add _ d] rep(2) [OF add _ d] by simp
qed

text \<open>A number is found again under its four bytes.\<close>

lemma int_key_inj: "int_key i = int_key j \<Longrightarrow> i = j"
proof -
  assume e: "int_key i = int_key j"
  have b: "bit (drop_bit (8 * k) i) n = bit (drop_bit (8 * k) j) n" if "k \<in> {0, 1, 2, 3}" "n < 8" for k n
  proof -
    have "take_bit 8 (unat (drop_bit (8 * k) i)) = take_bit 8 (unat (drop_bit (8 * k) j))"
      using e that(1) by (auto simp: int_key_def char_of_eq_iff take_bit_eq_mod)
    then have "bit (unat (drop_bit (8 * k) i)) n = bit (unat (drop_bit (8 * k) j)) n" using that(2) by (metis bit_take_bit_iff)
    then show ?thesis by (simp add: bit_unsigned_iff)
  qed
  show "i = j"
  proof (rule bit_word_eqI)
    fix n assume "n < LENGTH(32)"
    then have "n div 8 \<in> {0, 1, 2, 3}" "8 * (n div 8) + n mod 8 = n" by auto
    then show "bit i n = bit j n" using b [of "n div 8" "n mod 8"] by (simp add: bit_drop_bit_eq)
  qed
qed

text \<open>Adding in order keeps a sorted application order sorted.\<close>

lemma insert_sorted:
  assumes "\<And>y. cmp y x \<le> (0 :: int) \<longleftrightarrow> f y \<le> (f x :: 'k :: linorder)" "sorted (map f xs)"
  shows "sorted (map f (takeWhile (\<lambda>y. cmp y x \<le> 0) xs @ x # dropWhile (\<lambda>y. cmp y x \<le> 0) xs))"
  using assms(2)
proof (induction xs)
  case (Cons y xs)
  let ?zs = "takeWhile (\<lambda>y. cmp y x \<le> 0) xs @ x # dropWhile (\<lambda>y. cmp y x \<le> 0) xs"
  have z: "set ?zs = insert x (set xs)" by (metis Un_insert_right list.simps(15) set_append takeWhile_dropWhile_id)
  have y: "\<forall>z\<in>set xs. f y \<le> f z" using Cons.prems by simp
  show ?case
  proof (cases "cmp y x \<le> 0")
    case True
    have "sorted (map f ?zs)" using Cons by simp
    moreover have "\<forall>z\<in>set ?zs. f y \<le> f z" unfolding z using True y assms(1) by simp
    ultimately have "sorted (map f (y # ?zs))" by (simp only: list.map(2) sorted_simps set_map ball_simps)
    then show ?thesis using True by simp
  next
    case False
    then have "f x \<le> f y" using assms(1) [of y] by simp
    then show ?thesis using False Cons.prems y by (auto intro: order_trans)
  qed
qed simp

theorem uthash_add_inorder_sorted:
  assumes "hash_repr e h Q L head xs" "x \<notin> set xs" "x \<noteq> 0" "\<And>y. cmp y x \<le> 0 \<longleftrightarrow> f y \<le> (f x :: 'k :: linorder)" "sorted (map f xs)"
    and "HASH_ADD_KEYPTR_BYHASHVALUE_INORDER cmp key hv x L head h = Some (L', head', h')"
  shows "\<exists>ys. hash_repr e h' Q L' head' ys \<and> mset ys = mset (x # xs) \<and> sorted (map f ys)"
proof -
  let ?ys = "takeWhile (\<lambda>y. cmp y x \<le> 0) xs @ x # dropWhile (\<lambda>y. cmp y x \<le> 0) xs"
  have "hash_repr e h' Q L' head' ?ys" using add_inorder_ok [OF assms(1-3), of key hv cmp] assms(6) by (simp add: add_post_def)
  moreover have "mset ?ys = mset (x # xs)" by (metis mset.simps(2) mset_append takeWhile_dropWhile_id union_mset_add_mset_right)
  moreover have "sorted (map f ?ys)" using assms(4,5) by (intro insert_sorted) auto
  ultimately show ?thesis by blast
qed

text \<open>Clearing gives both blocks of the table back, and the count is the number of elements.\<close>

theorem uthash_clear_correct:
  assumes "hash_repr e h Q L head xs"
  shows "fst (HASH_CLEAR head h) = None \<and> heap_ok e (snd (HASH_CLEAR head h)) Q" "HASH_CNT head = of_nat (length xs)"
proof -
  have "heap_ok e (free (tb_addr t) (free (tb_buckets_ptr t) h)) Q" if "head = Some (el, t)" for el t
  proof -
    have h: "heap_ok e h (insert (tb_addr t) (insert (tb_buckets_ptr t) Q))" "tb_addr t \<noteq> tb_buckets_ptr t" "tb_addr t \<notin> Q" "tb_buckets_ptr t \<notin> Q"
      using assms that by (auto simp: hash_repr_def)
    then show ?thesis using km.dealloc_all [OF h(1), of "[tb_buckets_ptr t, tb_addr t]"] by (simp add: insert_Diff_if)
  qed
  then show "fst (HASH_CLEAR head h) = None \<and> heap_ok e (snd (HASH_CLEAR head h)) Q"
    using assms by (auto simp: HASH_CLEAR_def hash_repr_def split: option.splits)
  show "HASH_CNT head = of_nat (length xs)" using assms by (auto simp: HASH_CNT_def hash_repr_def linked_def split: option.splits)
qed

text \<open>Two keys that differ in one byte have different hash values under three of the hash functions.\<close>

theorem hash_one_byte:
  assumes "a \<noteq> b"
  shows "HASH_BER (xs @ a # ys) \<noteq> HASH_BER (xs @ b # ys)" "HASH_FNV (xs @ a # ys) \<noteq> HASH_FNV (xs @ b # ys)"
    "HASH_OAT (xs @ a # ys) \<noteq> HASH_OAT (xs @ b # ys)"
proof -
  show "HASH_BER (xs @ a # ys) \<noteq> HASH_BER (xs @ b # ys)" unfolding HASH_BER_def using ber.one_byte assms by blast
  show "HASH_FNV (xs @ a # ys) \<noteq> HASH_FNV (xs @ b # ys)" unfolding HASH_FNV_def using fnv.one_byte assms by blast
  show "HASH_OAT (xs @ a # ys) \<noteq> HASH_OAT (xs @ b # ys)" unfolding HASH_OAT_def using OAT_end_inj oat.one_byte assms by blast
qed

text \<open>Rolling back a handle that was already taken out of its bucket lets the next deletion of it from the bucket change nothing but its own links.\<close>

theorem rollback_then_delete:
  assumes b: "b = HASH_TO_BKT (hashvs L x) (tb_num_buckets t)" "b < length (tb_buckets t)" and "pb_head (tb_buckets t ! b) \<noteq> x"
  shows "case HASH_ROLLBACK_BKT x L t of (L', t') \<Rightarrow> HASH_DEL_IN_BKT b x L' t' = (L', t)"
  using assms by (simp add: HASH_ROLLBACK_BKT_def HASH_DEL_IN_BKT_def Let_def)

end
