(* ===== verification/Spec2Isabelle.thy ===== *)
theory Spec2Isabelle
  imports Ctype Ramfs_Props Machine Uthash_Props
begin

text \<open>
  Verification of the Little Linux kernel: a 32-bit kernel with a text console, a keyboard driver, an AHCI disk driver,
  a RAM file system, a disk file system and a shell that runs in the kernel.

  \<^bold>\<open>The program.\<close> \<^verbatim>\<open>main\<close> (\<^verbatim>\<open>kernel/src/kernel.c\<close>) sets up the screen, the descriptor tables, the interrupt controllers and the
  keyboard, and calls \<^verbatim>\<open>my_own_os_init\<close> (\<^verbatim>\<open>kernel/src/Little_Linux.c\<close>). That reads the memory map of the boot loader, initialises
  the allocator, the environment, the command table and the file systems, looks for an AHCI controller, scans its
  drives and their partition tables, and enters the shell. The shell takes characters out of the ring that the
  keyboard interrupt fills, edits a line, and calls the command it finds in the command table. The commands work on the
  RAM file system, whose folders and files live in two kinds of hash tables on the kernel heap, or on the disk file system,
  which reads and writes partitions through the AHCI driver.

  \<^bold>\<open>Conventions.\<close> Theory \<open>Prelude\<close> fixes the machine types of the i386 target: fixed-width words wrap around, C \<^verbatim>\<open>int\<close> is \<open>int\<close> where
  the code stays in range. State is passed explicitly, as records named after the C variables. None is a
  computation that does not return or that leaves an array (an endless loop, or a write outside an object), so a theorem that
  states \<open>= Some \<dots>\<close> also states that the code returns in bounds. Loops that may run forever are \<^verbatim>\<open>partial_function (option)\<close>. Only the
  recursion over folder trees of \<^verbatim>\<open>dfs.c\<close> takes a depth bound, the argument \<open>depth\<close> of the commands; the theorems hold for every value of it,
  because no folder tree of a disk is ever loaded (see \<open>dfs_unusable\<close>). Hardware is a parameter: ports, the bus of the AHCI controller, a
  disk that serves sectors, the processor's \<^verbatim>\<open>cpuid\<close> and the addresses of the assembly stubs, with the hypotheses
  \<open>crtc_ports\<close>, \<open>pci_space\<close>, \<open>controller\<close>, \<open>sector_device\<close> and \<open>disk_device\<close>, each shown to hold for a simulated device.

  \<^bold>\<open>Interfaces\<close> are locales, each interpreted on the model: \<open>allocator\<close> on \<open>malloc\<close> and \<open>free\<close>, \<open>hash_table\<close> on the folder and the
  file table, \<open>dictionary\<close> on the \<open>uthash\<close> tables, \<open>bounded_queue\<close> on the keyboard ring, \<open>lossless_step\<close> on the steps of three hash functions of
  \<^verbatim>\<open>uthash.h\<close>.

  \<^bold>\<open>The library\<close> (\<^verbatim>\<open>libc/src\<close>).
  \<^item> \<open>Ctype\<close>, \<open>Strings\<close>, \<open>Stdlib\<close>: \<^verbatim>\<open>ctype.c\<close>, the string and memory routines, \<^verbatim>\<open>itoa\<close> and \<^verbatim>\<open>atoi\<close>, on byte memory: \<open>memmove\<close> under overlap,
    the round trip of numerals, what the broken \<open>memcmp\<close> decides.
  \<^item> \<open>Printf\<close>: flags, width and conversions of \<^verbatim>\<open>printf\<close>, on the console.

  \<^bold>\<open>Drivers\<close> (\<^verbatim>\<open>drivers/src\<close>).
  \<^item> \<open>Ports\<close>, \<open>Tty\<close>: \<^verbatim>\<open>tty.c\<close>: cells, scrolling, the cursor stays on the screen.
  \<^item> \<open>Queue_Interface\<close>, \<open>Keyboard\<close>: \<^verbatim>\<open>keyboard.c\<close>: scan codes, shift and caps lock, the ring as a FIFO queue.
  \<^item> \<open>Ahci\<close>: commands, sector and byte access and the drive table of \<^verbatim>\<open>drive.c\<close>; reads and writes touch exactly the addressed bytes.
  \<^item> \<open>Ahci_Init\<close>: the search of the PCI bus, reset and start of the ports on the register level; the result is that of a reference scan.
  \<^item> \<open>Partition\<close>: \<^verbatim>\<open>drive_partition.c\<close>: parsing of boot records, access to partitions, the round trip through the disk.

  \<^bold>\<open>Kernel\<close> (\<^verbatim>\<open>kernel/src\<close>, \<^verbatim>\<open>kernel/includes\<close>).
  \<^item> \<open>Descriptors\<close>: \<^verbatim>\<open>gdt.c\<close>, \<^verbatim>\<open>idt.c\<close>, \<^verbatim>\<open>tss.c\<close>, \<^verbatim>\<open>pic.c\<close>, \<^verbatim>\<open>interrupts.c\<close>: what the processor reads out of the tables.
  \<^item> \<open>Alloc_Interface\<close>, \<open>Malloc\<close>: \<^verbatim>\<open>malloc.c\<close>: the invariant of the free list, fresh disjoint blocks, failure only on exhaustion, reuse.
  \<^item> \<open>Buckets\<close>, \<open>Hashmap\<close>: \<^verbatim>\<open>ramfs_hash.c\<close>, \<^verbatim>\<open>ramfs_hash_file.c\<close>: the tables are maps, the file table only on names that none dominates.
  \<^item> \<open>Uthash\<close>, \<open>Uthash_Growth\<close>, \<open>Env_Commands\<close>: the macros of \<^verbatim>\<open>uthash.h\<close> that the kernel uses, \<^verbatim>\<open>env_var.c\<close>, \<^verbatim>\<open>command_system.c\<close>.
  \<^item> \<open>Linked_Lists\<close>, \<open>Uthash_Links\<close>, \<open>Uthash_Lists\<close>: all macros of \<^verbatim>\<open>uthash.h\<close> on a store of elements with their link fields: insertion at
    the end and in order, growth, lookup, deletion, replacement, clearing, counting, and the representation invariant \<open>hash_repr\<close>.
  \<^item> \<open>Uthash_Check\<close>, \<open>Uthash_Sort\<close>, \<open>Uthash_Hash\<close>: \<^verbatim>\<open>HASH_FSCK\<close> decides the invariant, \<^verbatim>\<open>HASH_SELECT\<close>, \<^verbatim>\<open>HASH_SRT\<close> as a stable merge sort,
    the five other hash functions and the Bloom filter.
  \<^item> \<open>Uthash_Refine\<close>, \<open>Uthash_Props\<close>: the linked tables refine the tables of \<open>Uthash\<close>, in which an element is its position in the list;
    what deletion, sorting, checking and selection do.
  \<^item> \<open>Fs_State\<close>, \<open>Ramfs\<close>, \<open>Ramfs_Api\<close>, \<open>Dfs\<close>, \<open>Shell\<close>: the state of the file systems, and \<^verbatim>\<open>ramfs.c\<close>, \<^verbatim>\<open>dfs.c\<close>, \<^verbatim>\<open>dfs_api.c\<close> and the shell of
    \<^verbatim>\<open>Little_Linux.c\<close>, definitions only.
  \<^item> \<open>Ramfs_Tree\<close>, \<open>Ramfs_Path\<close>, \<open>Ramfs_Inv\<close>, \<open>Ramfs_Ops\<close>: the invariant of the RAM file system and its preservation.
  \<^item> \<open>Ramfs_Spec\<close>, \<open>Ramfs_Memory\<close>, \<open>Ramfs_Props\<close>: the abstract file system, the refinement of every operation, and how much memory suffices.
  \<^item> \<open>Boot\<close>: allocator, environment, command table and file system after start-up.
  \<^item> \<open>Commands\<close>, \<open>Dfs_Props\<close>, \<open>Shell_Props\<close>: every command returns, keeps the invariant and leaves the other parts as they are; the image
    of a folder on disk decodes to the folder; formatting and mounting always fail.
  \<^item> \<open>Session\<close>, \<open>Line_Edit\<close>: splitting a line, variables, sessions of any length, the line editor against a reference editor and its bound.
  \<^item> \<open>Shell_Spec\<close>: an abstract shell on a path and a tree, which the shell refines over any sequence of lines. Options of commands, \<^verbatim>\<open>backspace\<close>
    and \<^verbatim>\<open>mkdir -p\<close> are outside its lines; \<open>Session\<close> covers them as far as returning and the invariant go.
  \<^item> \<open>Kernel_Init\<close>: the memory map, the name of the processor, the drive scan and \<^verbatim>\<open>my_own_os_init\<close>.
  \<^item> \<open>Machine\<close>: \<^verbatim>\<open>main\<close>, and the running kernel as a step relation in which interrupts fall between any two steps of the reader:
    characters arrive in order, and keys pressed make a folder in the tree.

  \<^bold>\<open>Not modelled.\<close> The assembly files (entry, loading of table registers, interrupt stubs) and the two C declarations that only name them. Of
  \<^verbatim>\<open>uthash.h\<close>, the branches of \<^verbatim>\<open>HASH_NONFATAL_OOM\<close> that recover from a failed allocation (only their \<^verbatim>\<open>HASH_ROLLBACK_BKT\<close> is there) and the key log of \<^verbatim>\<open>HASH_EMIT_KEYS\<close>, which the kernel
  never compiles in. The diagnostic prints of \<^verbatim>\<open>malloc.c\<close>. The kernel's output is a string in the state of the shell; \<open>Machine\<close> puts it on the screen
  after each step, so the order of single port accesses of screen and disk during one step is not kept. Interrupts
  before the first prompt are left out of the step relation; they only change the keyboard state.
\<close>

end
